(* ===== verification/CPrelude.thy ===== *)
theory CPrelude
  imports Main "HOL-Library.Word"
begin

text \<open>
  Shared vocabulary of the development: the outcomes a C function can have (a value, or one of
  the ways in which an execution goes wrong), sequencing of such outcomes, the machine integer
  types, and generic facts on words and lists used by several components.
\<close>

unbundle bit_operations_syntax

named_theorems word_nat \<open>equations that read a word operation as an operation on natural numbers\<close>
named_theorems mem_simps \<open>equations of the memory model\<close>

section \<open>Outcomes of C functions\<close>

text \<open>
  An execution that violates an assertion, dereferences a bad pointer, frees memory it must not
  free, shifts by more than the width of its operand or returns into a stack that was overwritten
  ends in the corresponding error; \<open>Killed\<close> is a signal nobody handles, \<open>Uninit\<close> the use of a value never written, \<open>Overflow\<close> a signed
  result that does not fit its type.
  \<open>OutOfFuel\<close> is only used for loops that carry an explicit iteration bound.
\<close>

datatype cerr =
    AssertFail
  | NullDeref
  | OutOfBounds
  | UseAfterFree
  | BadFree
  | BadShift
  | BadStack
  | Killed
  | Uninit
  | Overflow
  | OutOfFuel

type_synonym 'a result = "cerr + 'a"

definition bnd :: "'a result \<Rightarrow> ('a \<Rightarrow> 'b result) \<Rightarrow> 'b result" where
  "bnd r f = (case r of Inl e \<Rightarrow> Inl e | Inr a \<Rightarrow> f a)"

definition cassert :: "bool \<Rightarrow> 'a result \<Rightarrow> 'a result" where
  "cassert b r = (if b then r else Inl AssertFail)"

lemma bnd_Inl [simp]: "bnd (Inl e) f = Inl e"
  by (simp add: bnd_def)

lemma bnd_Inr [simp]: "bnd (Inr a) f = f a"
  by (simp add: bnd_def)

lemma bnd_cong [fundef_cong]:
  "r = s \<Longrightarrow> (\<And>a. s = Inr a \<Longrightarrow> f a = g a) \<Longrightarrow> bnd r f = bnd s g"
  by (cases s) (auto simp: bnd_def)

lemma bnd_eq_Inr: "bnd r f = Inr b \<longleftrightarrow> (\<exists>a. r = Inr a \<and> f a = Inr b)"
  by (cases r) auto

lemma bnd_assoc: "bnd (bnd r f) g = bnd r (\<lambda>a. bnd (f a) g)"
  by (cases r) auto

lemma cassert_True [simp]: "cassert True r = r"
  by (simp add: cassert_def)

lemma cassert_False [simp]: "cassert False r = Inl AssertFail"
  by (simp add: cassert_def)

lemma cassert_cong [fundef_cong]:
  "b = c \<Longrightarrow> (c \<Longrightarrow> r = s) \<Longrightarrow> cassert b r = cassert c s"
  by (simp add: cassert_def)

section \<open>Memory requests\<close>

text \<open>
  Requests for memory are numbered; \<open>arefuse\<close> says which of them fail. \<open>granted\<close> states that
  none does.
\<close>

record astate =
  acount :: nat
  arefuse :: "nat \<Rightarrow> bool"

definition amalloc :: "astate \<Rightarrow> bool \<times> astate" where
  "amalloc a = (\<not> arefuse a (acount a), a\<lparr>acount := Suc (acount a)\<rparr>)"

definition granted :: "astate \<Rightarrow> bool" where
  "granted a \<longleftrightarrow> (\<forall>n. \<not> arefuse a n)"

lemma amalloc_granted: "granted a \<Longrightarrow> amalloc a = (True, a\<lparr>acount := Suc (acount a)\<rparr>)"
  by (simp add: amalloc_def granted_def)

lemma granted_acount [simp]: "granted (a\<lparr>acount := k\<rparr>) \<longleftrightarrow> granted a"
  by (simp add: granted_def)

section \<open>Machine integers\<close>

type_synonym u8 = "8 word"
type_synonym u16 = "16 word"
type_synonym u32 = "32 word"
type_synonym u64 = "64 word"

text \<open>Reading a constant table: an index past its end is a bounds violation.\<close>

definition tab_read :: "'a list \<Rightarrow> nat \<Rightarrow> 'a result" where
  "tab_read tab i = (if i < length tab then Inr (tab ! i) else Inl OutOfBounds)"

text \<open>The number of values of a 64-bit word.\<close>

abbreviation Base :: nat where
  "Base \<equiv> 18446744073709551616"

lemma word_of_nat_unat [simp]: "word_of_nat (unat (x :: 'a::len word)) = x"
  by simp

declare of_nat_unat [simp del]

lemma unat64_less: "unat (x :: u64) < 18446744073709551616"
  using unsigned_less [of x, where 'a = nat] by simp

lemma unat_max64: "unat (-1 :: u64) = Base - 1"
  by (simp add: unsigned_minus_1_eq_mask mask_eq_exp_minus_1)

lemma unat32_less [simp]: "unat (x :: u32) < 4294967296"
  using unsigned_less [of x, where 'a = nat] by simp

lemma unat_drop_bit [word_nat]: "unat (drop_bit n (x :: 'a::len word)) = unat x div 2 ^ n"
  by (simp add: unat_drop_bit_eq flip: drop_bit_eq_div)

lemma unat_push_bit [word_nat]:
  "unat (push_bit n (x :: 'a::len word)) = unat x * 2 ^ n mod 2 ^ LENGTH('a)"
  by (simp add: unsigned_push_bit_eq take_bit_eq_mod flip: push_bit_eq_mult)

lemma unat_add64 [word_nat]: "unat ((x :: u64) + y) = (unat x + unat y) mod 18446744073709551616"
  by (simp add: unat_word_ariths)

lemma unat_mult64 [word_nat]: "unat ((x :: u64) * y) = (unat x * unat y) mod 18446744073709551616"
  by (simp add: unat_word_ariths)

lemma word_top_bit: "bit (x :: 'a::len word) (LENGTH('a) - 1) \<longleftrightarrow> 2 ^ (LENGTH('a) - 1) \<le> unat x"
proof -
  have lt: "unat x < 2 ^ LENGTH('a)" by simp
  have pw: "(2::nat) ^ LENGTH('a) = 2 * 2 ^ (LENGTH('a) - 1)"
    by (metis len_gt_0 power_minus_mult mult.commute)
  have "bit x (LENGTH('a) - 1) \<longleftrightarrow> odd (unat x div 2 ^ (LENGTH('a) - 1))"
    by (metis bit_unsigned_iff bit_iff_odd bit_imp_le_length len_gt_0 diff_less zero_less_one possible_bit_nat)
  also have "\<dots> \<longleftrightarrow> 2 ^ (LENGTH('a) - 1) \<le> unat x"
  proof (cases "2 ^ (LENGTH('a) - 1) \<le> unat x")
    case True
    with lt pw have "unat x div 2 ^ (LENGTH('a) - 1) = 1"
      by (intro div_nat_eqI) auto
    with True show ?thesis by simp
  qed simp
  finally show ?thesis .
qed

lemma drop_bit_top: "drop_bit (LENGTH('a) - 1) (x :: 'a::len word) = of_bool (bit x (LENGTH('a) - 1))"
proof (rule bit_word_eqI)
  fix n
  show "bit (drop_bit (LENGTH('a) - 1) x) n = bit (of_bool (bit x (LENGTH('a) - 1)) :: 'a word) n"
    by (cases n) (auto simp: bit_drop_bit_eq bit_1_iff dest: bit_imp_le_length)
qed

lemma mod_wrap_once:
  "n < m + m \<Longrightarrow> n mod m = (if m \<le> n then n - m else (n :: nat))"
  by (simp add: le_mod_geq)

lemma unat_and_low32: "unat ((x :: u64) AND 4294967295) = unat x mod 4294967296"
proof -
  have "x AND 4294967295 = take_bit 32 x" by (simp add: take_bit_eq_mask mask_eq_exp_minus_1)
  moreover have "unat (take_bit 32 x) = unat x mod 4294967296"
    by (simp only: unsigned_take_bit_eq) (simp add: take_bit_eq_mod)
  ultimately show ?thesis by simp
qed

lemma two_digit_less:
  assumes "n < (y::nat)" and "c < b"
  shows "n * b + c < y * b"
proof -
  have "(n + 1) * b \<le> y * b" using assms(1) by (intro mult_le_mono1) simp
  then show ?thesis using assms(2) by (simp add: algebra_simps)
qed

lemma digit_bound:
  assumes "n < (y::nat)" and "c < b"
  shows "(n * b + c) div y < b"
  using two_digit_less [OF assms] assms(1) by (simp add: div_less_iff_less_mult mult.commute)

lemma unat_disjoint_or:
  assumes "(a :: 'a::len word) AND b = 0"
  shows "unat (a OR b) = unat a + unat b"
proof -
  have "unat a AND unat b = 0" using assms by (metis unsigned_and_eq unsigned_0)
  then show ?thesis by (simp add: unsigned_or_eq disjunctive_add_eq_or)
qed

lemma shift_in_disjoint:
  "s \<le> 64 \<Longrightarrow> push_bit s (hi :: u64) AND drop_bit (64 - s) lo = 0"
  by (rule bit_word_eqI) (auto simp: bit_and_iff bit_push_bit_iff bit_drop_bit_eq dest: bit_imp_le_length)

section \<open>Bit lengths and lowest set bits\<close>

text \<open>\<open>is_bitlen n k\<close>: \<open>k\<close> binary digits are needed for \<open>n\<close>, and none for 0.\<close>

definition is_bitlen :: "nat \<Rightarrow> nat \<Rightarrow> bool" where
  "is_bitlen n k \<longleftrightarrow> n < 2 ^ k \<and> (if n = 0 then k = 0 else 0 < k \<and> 2 ^ (k - 1) \<le> n)"

lemma is_bitlen_drop:
  assumes "is_bitlen (n div 2 ^ j) k" and "2 ^ j \<le> n"
  shows "is_bitlen n (j + k)"
proof -
  from assms(2) have pos: "0 < n div 2 ^ j" by (simp add: div_greater_zero_iff)
  with assms(1) have k: "0 < k" "n div 2 ^ j < 2 ^ k" "2 ^ (k - 1) \<le> n div 2 ^ j"
    by (auto simp: is_bitlen_def)
  have "n < 2 ^ j * 2 ^ k" using k(2) by (simp add: div_less_iff_less_mult mult.commute)
  moreover have "2 ^ (k - 1) * 2 ^ j \<le> n" using k(3) by (simp add: less_eq_div_iff_mult_less_eq)
  moreover have "(2::nat) ^ (j + k - 1) = 2 ^ (k - 1) * 2 ^ j"
    using k(1) by (simp add: power_add [symmetric])
  moreover have "0 < n" using assms(2) by (metis gr0I le_zero_eq power_not_zero zero_neq_numeral)
  ultimately show ?thesis using k(1) by (simp add: is_bitlen_def power_add)
qed

lemma is_bitlen_le:
  assumes "is_bitlen n k" and "n < 2 ^ j"
  shows "k \<le> j"
proof (rule ccontr)
  assume "\<not> k \<le> j"
  then have "(2::nat) ^ j \<le> 2 ^ (k - 1)" by (intro power_increasing) auto
  moreover have "2 ^ (k - 1) \<le> n"
    using assms(1) \<open>\<not> k \<le> j\<close> by (auto simp: is_bitlen_def split: if_splits)
  ultimately show False using assms(2) by linarith
qed

lemma is_bitlen_unique: "is_bitlen n j \<Longrightarrow> is_bitlen n k \<Longrightarrow> j = k"
proof (rule ccontr)
  assume n: "is_bitlen n j" "is_bitlen n k" and "j \<noteq> k"
  then consider "j < k" | "k < j" by linarith
  then show False
  proof cases
    case 1
    then have "(2::nat) ^ j \<le> 2 ^ (k - 1)" by (intro power_increasing) auto
    moreover have "n < 2 ^ j" "2 ^ (k - 1) \<le> n"
      using n 1 by (auto simp: is_bitlen_def split: if_splits)
    ultimately show False by linarith
  next
    case 2
    then have "(2::nat) ^ k \<le> 2 ^ (j - 1)" by (intro power_increasing) auto
    moreover have "n < 2 ^ k" "2 ^ (j - 1) \<le> n"
      using n 2 by (auto simp: is_bitlen_def split: if_splits)
    ultimately show False by linarith
  qed
qed

text \<open>\<open>x AND - x\<close> isolates the lowest set bit.\<close>

definition is_ntz :: "'a::len word \<Rightarrow> nat \<Rightarrow> bool" where
  "is_ntz x k \<longleftrightarrow> bit x k \<and> (\<forall>j < k. \<not> bit x j)"

lemma odd_and_minus: "odd (y :: 'a::len word) \<Longrightarrow> y AND - y = 1"
proof (rule bit_word_eqI)
  fix n assume "odd y"
  define a where "a = y - 1"
  have y: "y = 1 + a" by (simp add: a_def)
  have ev: "even a" using \<open>odd y\<close> by (simp add: a_def)
  have neg: "- y = NOT a" by (simp add: a_def minus_eq_not_minus_1)
  assume "n < LENGTH('a)"
  then show "bit (y AND - y) n = bit (1 :: 'a word) n"
    using ev by (subst neg, simp add: bit_and_iff bit_not_iff y even_bit_succ_iff bit_1_iff)
      (auto simp: bit_0)
qed

lemma ntz_ex:
  assumes "(x :: 'a::len word) \<noteq> 0"
  obtains k where "is_ntz x k" and "k < LENGTH('a)" and "x AND - x = push_bit k 1"
proof -
  from assms have "\<exists>n. bit x n" using bit_eq_iff by fastforce
  define k where "k = (LEAST n. bit x n)"
  have k: "bit x k" unfolding k_def using \<open>\<exists>n. bit x n\<close> by (rule LeastI_ex)
  have low: "\<not> bit x j" if "j < k" for j using that not_less_Least unfolding k_def by blast
  define y where "y = drop_bit k x"
  have "x = push_bit k y"
  proof (rule bit_word_eqI)
    fix n assume "n < LENGTH('a)"
    then show "bit x n = bit (push_bit k y) n"
      by (cases "n < k") (auto simp: low y_def bit_push_bit_iff bit_drop_bit_eq not_less)
  qed
  moreover have "odd y" using k by (simp add: y_def bit_iff_odd_drop_bit)
  moreover have "- push_bit k y = push_bit k (- y)" by (simp add: push_bit_eq_mult)
  ultimately have "x AND - x = push_bit k (y AND - y)" by (simp only: push_bit_and)
  with \<open>odd y\<close> have "x AND - x = push_bit k 1" by (simp add: odd_and_minus)
  moreover have "k < LENGTH('a)" using k by (rule bit_imp_le_length)
  ultimately show ?thesis using that [of k] k low by (auto simp: is_ntz_def)
qed

lemma is_ntz_unique: "is_ntz x j \<Longrightarrow> is_ntz x k \<Longrightarrow> j = k"
  by (metis is_ntz_def linorder_neqE_nat)

end
