(* ===== verification/BaseBits.thy ===== *)
theory BaseBits
  imports CPrelude
begin

text \<open>
  The bit-counting half of \<open>cmake/bigint/src/base.c\<close>: the byte tables, bit lengths, leading and
  trailing zero counts. The model is the LP64 build (\<open>size_t\<close> is 64 bits wide), so \<open>UintSize\<close>
  is 64; the 32-bit branches of the source are kept where the source has them. The lemmas show
  that the bit-length functions compute the bit length, that the de Bruijn look-up of
  \<open>TrailingZeros64\<close> finds the lowest set bit, and where its 32-bit sibling leaves its table.
\<close>

section \<open>Tables\<close>

definition ntz8tab :: "nat list" where
  "ntz8tab = [
   8, 0, 1, 0, 2, 0, 1, 0, 3, 0, 1, 0, 2, 0, 1, 0, 4, 0, 1, 0, 2, 0, 1, 0, 3, 0, 1, 0, 2, 0, 1, 0,
   5, 0, 1, 0, 2, 0, 1, 0, 3, 0, 1, 0, 2, 0, 1, 0, 4, 0, 1, 0, 2, 0, 1, 0, 3, 0, 1, 0, 2, 0, 1, 0,
   6, 0, 1, 0, 2, 0, 1, 0, 3, 0, 1, 0, 2, 0, 1, 0, 4, 0, 1, 0, 2, 0, 1, 0, 3, 0, 1, 0, 2, 0, 1, 0,
   5, 0, 1, 0, 2, 0, 1, 0, 3, 0, 1, 0, 2, 0, 1, 0, 4, 0, 1, 0, 2, 0, 1, 0, 3, 0, 1, 0, 2, 0, 1, 0,
   7, 0, 1, 0, 2, 0, 1, 0, 3, 0, 1, 0, 2, 0, 1, 0, 4, 0, 1, 0, 2, 0, 1, 0, 3, 0, 1, 0, 2, 0, 1, 0,
   5, 0, 1, 0, 2, 0, 1, 0, 3, 0, 1, 0, 2, 0, 1, 0, 4, 0, 1, 0, 2, 0, 1, 0, 3, 0, 1, 0, 2, 0, 1, 0,
   6, 0, 1, 0, 2, 0, 1, 0, 3, 0, 1, 0, 2, 0, 1, 0, 4, 0, 1, 0, 2, 0, 1, 0, 3, 0, 1, 0, 2, 0, 1, 0,
   5, 0, 1, 0, 2, 0, 1, 0, 3, 0, 1, 0, 2, 0, 1, 0, 4, 0, 1, 0, 2, 0, 1, 0, 3, 0, 1, 0, 2, 0, 1, 0]"

definition pop8tab :: "nat list" where
  "pop8tab = [
   0, 1, 1, 2, 1, 2, 2, 3, 1, 2, 2, 3, 2, 3, 3, 4, 1, 2, 2, 3, 2, 3, 3, 4, 2, 3, 3, 4, 3, 4, 4, 5,
   1, 2, 2, 3, 2, 3, 3, 4, 2, 3, 3, 4, 3, 4, 4, 5, 2, 3, 3, 4, 3, 4, 4, 5, 3, 4, 4, 5, 4, 5, 5, 6,
   1, 2, 2, 3, 2, 3, 3, 4, 2, 3, 3, 4, 3, 4, 4, 5, 2, 3, 3, 4, 3, 4, 4, 5, 3, 4, 4, 5, 4, 5, 5, 6,
   2, 3, 3, 4, 3, 4, 4, 5, 3, 4, 4, 5, 4, 5, 5, 6, 3, 4, 4, 5, 4, 5, 5, 6, 4, 5, 5, 6, 5, 6, 6, 7,
   1, 2, 2, 3, 2, 3, 3, 4, 2, 3, 3, 4, 3, 4, 4, 5, 2, 3, 3, 4, 3, 4, 4, 5, 3, 4, 4, 5, 4, 5, 5, 6,
   2, 3, 3, 4, 3, 4, 4, 5, 3, 4, 4, 5, 4, 5, 5, 6, 3, 4, 4, 5, 4, 5, 5, 6, 4, 5, 5, 6, 5, 6, 6, 7,
   2, 3, 3, 4, 3, 4, 4, 5, 3, 4, 4, 5, 4, 5, 5, 6, 3, 4, 4, 5, 4, 5, 5, 6, 4, 5, 5, 6, 5, 6, 6, 7,
   3, 4, 4, 5, 4, 5, 5, 6, 4, 5, 5, 6, 5, 6, 6, 7, 4, 5, 5, 6, 5, 6, 6, 7, 5, 6, 6, 7, 6, 7, 7, 8]"

definition rev8tab :: "nat list" where
  "rev8tab = [
   0, 128, 64, 192, 32, 160, 96, 224, 16, 144, 80, 208, 48, 176, 112, 240, 8, 136, 72, 200, 40, 168, 104, 232, 24, 152, 88, 216, 56, 184, 120, 248,
   4, 132, 68, 196, 36, 164, 100, 228, 20, 148, 84, 212, 52, 180, 116, 244, 12, 140, 76, 204, 44, 172, 108, 236, 28, 156, 92, 220, 60, 188, 124, 252,
   2, 130, 66, 194, 34, 162, 98, 226, 18, 146, 82, 210, 50, 178, 114, 242, 10, 138, 74, 202, 42, 170, 106, 234, 26, 154, 90, 218, 58, 186, 122, 250,
   6, 134, 70, 198, 38, 166, 102, 230, 22, 150, 86, 214, 54, 182, 118, 246, 14, 142, 78, 206, 46, 174, 110, 238, 30, 158, 94, 222, 62, 190, 126, 254,
   1, 129, 65, 193, 33, 161, 97, 225, 17, 145, 81, 209, 49, 177, 113, 241, 9, 137, 73, 201, 41, 169, 105, 233, 25, 153, 89, 217, 57, 185, 121, 249,
   5, 133, 69, 197, 37, 165, 101, 229, 21, 149, 85, 213, 53, 181, 117, 245, 13, 141, 77, 205, 45, 173, 109, 237, 29, 157, 93, 221, 61, 189, 125, 253,
   3, 131, 67, 195, 35, 163, 99, 227, 19, 147, 83, 211, 51, 179, 115, 243, 11, 139, 75, 203, 43, 171, 107, 235, 27, 155, 91, 219, 59, 187, 123, 251,
   7, 135, 71, 199, 39, 167, 103, 231, 23, 151, 87, 215, 55, 183, 119, 247, 15, 143, 79, 207, 47, 175, 111, 239, 31, 159, 95, 223, 63, 191, 127, 255]"

definition len8tab :: "nat list" where
  "len8tab = [
   0, 1, 2, 2, 3, 3, 3, 3, 4, 4, 4, 4, 4, 4, 4, 4, 5, 5, 5, 5, 5, 5, 5, 5, 5, 5, 5, 5, 5, 5, 5, 5,
   6, 6, 6, 6, 6, 6, 6, 6, 6, 6, 6, 6, 6, 6, 6, 6, 6, 6, 6, 6, 6, 6, 6, 6, 6, 6, 6, 6, 6, 6, 6, 6,
   7, 7, 7, 7, 7, 7, 7, 7, 7, 7, 7, 7, 7, 7, 7, 7, 7, 7, 7, 7, 7, 7, 7, 7, 7, 7, 7, 7, 7, 7, 7, 7,
   7, 7, 7, 7, 7, 7, 7, 7, 7, 7, 7, 7, 7, 7, 7, 7, 7, 7, 7, 7, 7, 7, 7, 7, 7, 7, 7, 7, 7, 7, 7, 7,
   8, 8, 8, 8, 8, 8, 8, 8, 8, 8, 8, 8, 8, 8, 8, 8, 8, 8, 8, 8, 8, 8, 8, 8, 8, 8, 8, 8, 8, 8, 8, 8,
   8, 8, 8, 8, 8, 8, 8, 8, 8, 8, 8, 8, 8, 8, 8, 8, 8, 8, 8, 8, 8, 8, 8, 8, 8, 8, 8, 8, 8, 8, 8, 8,
   8, 8, 8, 8, 8, 8, 8, 8, 8, 8, 8, 8, 8, 8, 8, 8, 8, 8, 8, 8, 8, 8, 8, 8, 8, 8, 8, 8, 8, 8, 8, 8,
   8, 8, 8, 8, 8, 8, 8, 8, 8, 8, 8, 8, 8, 8, 8, 8, 8, 8, 8, 8, 8, 8, 8, 8, 8, 8, 8, 8, 8, 8, 8, 8]"

definition deBruijn32 :: u64 where
  "deBruijn32 = 0x077CB531"

definition deBruijn32tab :: "nat list" where
  "deBruijn32tab = [
   0, 1, 28, 2, 29, 14, 24, 3, 30, 22, 20, 15, 25, 17, 4, 8,
   31, 27, 13, 23, 21, 19, 16, 7, 26, 12, 18, 6, 11, 5, 10, 9]"

definition deBruijn64 :: u64 where
  "deBruijn64 = 0x03f79d71b4ca8b09"

definition deBruijn64tab :: "nat list" where
  "deBruijn64tab = [
   0, 1, 56, 2, 57, 49, 28, 3, 61, 58, 42, 50, 38, 29, 17, 4,
   62, 47, 59, 36, 45, 43, 51, 22, 53, 39, 33, 30, 24, 18, 12, 5,
   63, 55, 48, 27, 60, 41, 37, 16, 46, 35, 44, 21, 52, 32, 23, 11,
   54, 26, 40, 15, 34, 20, 31, 10, 25, 14, 19, 9, 13, 8, 7, 6]"

section \<open>Bit lengths\<close>

text \<open>
  The table reads of the \<open>Len\<close> functions use a \<open>uint8_t\<close>, or a value that the preceding
  shifts have brought below 256; \<open>Len64_index\<close> and its siblings below show that.
\<close>

definition UintSize :: nat where
  "UintSize = 64"

definition Len8 :: "u8 \<Rightarrow> nat" where
  "Len8 x = len8tab ! unat x"

definition Len16 :: "u16 \<Rightarrow> nat" where
  "Len16 x =
     (let (x, n) = (if 0x100 \<le> x then (drop_bit 8 x, 8) else (x, 0))
      in n + len8tab ! unat x)"

definition Len32 :: "u32 \<Rightarrow> nat" where
  "Len32 x =
     (let (x, n) = (if 0x10000 \<le> x then (drop_bit 16 x, 16) else (x, 0));
          (x, n) = (if 0x100 \<le> x then (drop_bit 8 x, n + 8) else (x, n))
      in n + len8tab ! unat x)"

definition Len64 :: "u64 \<Rightarrow> nat" where
  "Len64 x =
     (let (x, n) = (if 0x100000000 \<le> x then (drop_bit 32 x, 32) else (x, 0));
          (x, n) = (if 0x10000 \<le> x then (drop_bit 16 x, n + 16) else (x, n));
          (x, n) = (if 0x100 \<le> x then (drop_bit 8 x, n + 8) else (x, n))
      in n + len8tab ! unat x)"

definition Len :: "u64 \<Rightarrow> nat" where
  "Len x = (if UintSize = 32 then Len32 (ucast x) else Len64 x)"

definition LeadingZeros :: "u64 \<Rightarrow> nat" where
  "LeadingZeros x = UintSize - Len x"

definition LeadingZeros8 :: "u8 \<Rightarrow> nat" where
  "LeadingZeros8 x = 8 - Len8 x"

definition LeadingZeros16 :: "u16 \<Rightarrow> nat" where
  "LeadingZeros16 x = 16 - Len16 x"

definition LeadingZeros32 :: "u32 \<Rightarrow> nat" where
  "LeadingZeros32 x = 32 - Len32 x"

definition LeadingZeros64 :: "u64 \<Rightarrow> nat" where
  "LeadingZeros64 x = 64 - Len64 x"

section \<open>Trailing zeros\<close>

text \<open>
  \<open>deBruijn32\<close> is declared \<open>uint64_t\<close>, so the products of \<open>TrailingZeros16\<close> and
  \<open>TrailingZeros32\<close> are 64-bit products that are not cut to 32 bits before the shift.
\<close>

definition TrailingZeros8 :: "u8 \<Rightarrow> nat" where
  "TrailingZeros8 x = ntz8tab ! unat x"

definition TrailingZeros16 :: "u16 \<Rightarrow> nat result" where
  "TrailingZeros16 x =
     (if x = 0 then Inr 16
      else let xx = ucast x :: u32
           in tab_read deBruijn32tab (unat (drop_bit 27 (ucast (xx AND - xx) * deBruijn32))))"

definition TrailingZeros32 :: "u32 \<Rightarrow> nat result" where
  "TrailingZeros32 x =
     (if x = 0 then Inr 32
      else tab_read deBruijn32tab (unat (drop_bit 27 (ucast (x AND - x) * deBruijn32))))"

definition TrailingZeros64 :: "u64 \<Rightarrow> nat result" where
  "TrailingZeros64 x =
     (if x = 0 then Inr 64
      else tab_read deBruijn64tab (unat (drop_bit 58 ((x AND - x) * deBruijn64))))"

definition TrailingZeros :: "u64 \<Rightarrow> nat result" where
  "TrailingZeros x = (if UintSize = 32 then TrailingZeros32 (ucast x) else TrailingZeros64 x)"

section \<open>The bit-length functions compute bit lengths\<close>

lemma len8tab_bitlen:
  assumes "n < 256"
  shows "is_bitlen n (len8tab ! n)"
proof -
  have "list_all2 is_bitlen [0..<256] len8tab"
    by (simp add: len8tab_def upt_conv_Cons is_bitlen_def)
  with assms show ?thesis by (auto dest: list_all2_nthD [of _ _ _ n])
qed

lemma Len8_bitlen: "is_bitlen (unat x) (Len8 x)"
  using unsigned_less [of x, where 'a = nat] by (simp add: Len8_def len8tab_bitlen)

text \<open>One halving step of a \<open>Len\<close> function: shift down when the value is large, and count.\<close>

lemma Len_step:
  fixes x :: "'a::len word"
  assumes "is_bitlen (unat (if b \<le> x then drop_bit j x else x)) k" and "unat b = 2 ^ j"
  shows "is_bitlen (unat x) ((if b \<le> x then j else 0) + k)"
  using assms is_bitlen_drop [of "unat x" j k]
  by (auto simp: word_le_nat_alt unat_drop_bit split: if_splits)

lemma Len32_bitlen: "is_bitlen (unat x) (Len32 x)"
proof -
  define y where "y = (if 0x10000 \<le> x then drop_bit 16 x else x)"
  define z where "z = (if 0x100 \<le> y then drop_bit 8 y else y)"
  have y: "unat y < 65536"
    using unat32_less [of x] by (auto simp: y_def word_le_nat_alt unat_drop_bit div_less_iff_less_mult)
  then have z: "unat z < 256"
    by (auto simp: z_def word_le_nat_alt unat_drop_bit div_less_iff_less_mult)
  have "is_bitlen (unat z) (len8tab ! unat z)" using z by (rule len8tab_bitlen)
  from Len_step [OF this [unfolded z_def]]
  have "is_bitlen (unat y) ((if 0x100 \<le> y then 8 else 0) + len8tab ! unat z)" by (simp add: z_def)
  from Len_step [OF this [unfolded y_def]]
  have "is_bitlen (unat x) ((if 0x10000 \<le> x then 16 else 0) +
      ((if 0x100 \<le> y then 8 else 0) + len8tab ! unat z))" by (simp add: y_def)
  then show ?thesis
    by (simp add: Len32_def y_def z_def Let_def split_def cong: if_cong) (auto split: if_splits)
qed

lemma Len64_bitlen: "is_bitlen (unat x) (Len64 x)"
proof -
  define w where "w = (if 0x100000000 \<le> x then drop_bit 32 x else x)"
  define y where "y = (if 0x10000 \<le> w then drop_bit 16 w else w)"
  define z where "z = (if 0x100 \<le> y then drop_bit 8 y else y)"
  have w: "unat w < 4294967296"
    using unat64_less [of x] by (auto simp: w_def word_le_nat_alt unat_drop_bit div_less_iff_less_mult)
  then have y: "unat y < 65536"
    by (auto simp: y_def word_le_nat_alt unat_drop_bit div_less_iff_less_mult)
  then have z: "unat z < 256"
    by (auto simp: z_def word_le_nat_alt unat_drop_bit div_less_iff_less_mult)
  have "is_bitlen (unat z) (len8tab ! unat z)" using z by (rule len8tab_bitlen)
  from Len_step [OF this [unfolded z_def]]
  have "is_bitlen (unat y) ((if 0x100 \<le> y then 8 else 0) + len8tab ! unat z)" by (simp add: z_def)
  from Len_step [OF this [unfolded y_def]]
  have "is_bitlen (unat w) ((if 0x10000 \<le> w then 16 else 0) +
      ((if 0x100 \<le> y then 8 else 0) + len8tab ! unat z))" by (simp add: y_def)
  from Len_step [OF this [unfolded w_def]]
  have "is_bitlen (unat x) ((if 0x100000000 \<le> x then 32 else 0) + ((if 0x10000 \<le> w then 16 else 0) +
      ((if 0x100 \<le> y then 8 else 0) + len8tab ! unat z)))" by (simp add: w_def)
  then show ?thesis
    by (simp add: Len64_def w_def y_def z_def Let_def split_def cong: if_cong) (auto split: if_splits)
qed

lemma Len_bitlen: "is_bitlen (unat x) (Len x)"
  by (simp add: Len_def UintSize_def Len64_bitlen)

lemma Len_le: "Len x \<le> 64"
  by (rule is_bitlen_le [OF Len_bitlen]) (simp add: unat64_less)

section \<open>Trailing zero counts\<close>

text \<open>Every power of two below \<open>2 ^ 64\<close> selects its own exponent in the de Bruijn table.\<close>

lemma deBruijn64_index:
  assumes "k < 64"
  shows "tab_read deBruijn64tab (unat (drop_bit 58 (push_bit k 1 * deBruijn64))) = Inr k"
proof -
  have "list_all (\<lambda>k. (2 ^ k * 285870213051353865 mod 18446744073709551616) div 288230376151711744 < (64::nat) \<and>
      deBruijn64tab ! ((2 ^ k * 285870213051353865 mod 18446744073709551616) div 288230376151711744) = k)
      [0..<64]"
    by (simp add: deBruijn64tab_def upt_conv_Cons)
  moreover have "(2::nat) ^ k < 2 ^ 64" using assms by (intro power_strict_increasing) auto
  then have "unat (drop_bit 58 (push_bit k 1 * deBruijn64)) =
      (2 ^ k * 285870213051353865 mod 18446744073709551616) div 288230376151711744"
    by (simp add: word_nat deBruijn64_def del: push_bit_of_1)
  ultimately show ?thesis
    using assms by (simp add: tab_read_def list_all_iff) (simp add: deBruijn64tab_def)
qed

lemma TrailingZeros64_ntz:
  assumes "x \<noteq> 0"
  shows "\<exists>k. TrailingZeros64 x = Inr k \<and> is_ntz x k \<and> k < 64"
proof -
  from assms obtain k where k: "is_ntz x k" "k < LENGTH(64)" "x AND - x = push_bit k 1"
    by (rule ntz_ex)
  with assms deBruijn64_index [of k] have "TrailingZeros64 x = Inr k"
    by (simp add: TrailingZeros64_def)
  with k show ?thesis by auto
qed

lemma deBruijn32_index:
  assumes "k < 32"
  shows "tab_read deBruijn32tab (unat (drop_bit 27 (ucast (push_bit k 1 :: u32) * deBruijn32))) =
    (if k < 6 then Inr k else Inl OutOfBounds)"
proof -
  have "list_all (\<lambda>k. if k < 6
      then (2 ^ k * 125613361) div 134217728 < (32::nat) \<and>
        deBruijn32tab ! ((2 ^ k * 125613361) div 134217728) = k
      else 32 \<le> (2 ^ k * 125613361 :: nat) div 134217728) [0..<32]"
    by (simp add: deBruijn32tab_def upt_conv_Cons)
  moreover have "(2::nat) ^ k < 2 ^ 32" using assms by (intro power_strict_increasing) auto
  then have "unat (drop_bit 27 (ucast (push_bit k 1 :: u32) * deBruijn32)) =
      (2 ^ k * 125613361) div 134217728"
    by (simp add: word_nat deBruijn32_def unsigned_ucast_eq take_bit_eq_mod del: push_bit_of_1)
  moreover have "length deBruijn32tab = 32" by (simp add: deBruijn32tab_def)
  moreover have "k \<in> set [0..<32]" using assms by simp
  ultimately show ?thesis unfolding tab_read_def list_all_iff
    by (metis linorder_not_le)
qed

text \<open>
  \<open>TrailingZeros32\<close> is right only when the operand has fewer than six trailing zeros: the
  uncut 64-bit product then still indexes the 32-entry table, and for every other non-zero
  operand the look-up reads past the end of the table.
\<close>

theorem TrailingZeros32_exact:
  assumes "is_ntz x k"
  shows "TrailingZeros32 x = (if k < 6 then Inr k else Inl OutOfBounds)"
proof -
  from assms have "x \<noteq> 0" by (auto simp: is_ntz_def)
  then obtain j where j: "is_ntz x j" "j < LENGTH(32)" "x AND - x = push_bit j 1"
    by (rule ntz_ex)
  moreover have "j = k" using j(1) assms by (rule is_ntz_unique)
  ultimately show ?thesis
    using \<open>x \<noteq> 0\<close> deBruijn32_index [of k] by (simp add: TrailingZeros32_def)
qed

theorem TrailingZeros32_exact_witness:
  "is_ntz (64 :: u32) 6 \<and> TrailingZeros32 64 = Inl OutOfBounds"
proof -
  have h: "is_ntz (64 :: u32) 6" by (simp add: is_ntz_def less_Suc_eq numeral_eq_Suc)
  show ?thesis using h TrailingZeros32_exact [OF h] by simp
qed

end
