(* ===== verification/BaseArith.thy ===== *)
theory BaseArith
  imports BaseBits
begin

text \<open>
  The arithmetic half of \<open>cmake/bigint/src/base.c\<close>: addition with carry, subtraction with
  borrow, widening multiplication and the division of a two-word number by a word. A function
  that writes through an out parameter returns a pair whose second component is the value
  written. The lemmas read every operation as the exact operation on natural numbers.
\<close>

section \<open>Addition and subtraction\<close>

definition U32Add :: "u32 \<Rightarrow> u32 \<Rightarrow> u32 \<Rightarrow> u32 \<times> u32" where
  "U32Add x y carray =
     (let sum64 = (ucast x + ucast y :: u64);
          sum64 = sum64 + ucast carray
      in (ucast sum64, ucast (drop_bit 32 sum64)))"

definition U64Add :: "u64 \<Rightarrow> u64 \<Rightarrow> u64 \<Rightarrow> u64 \<times> u64" where
  "U64Add x y carray =
     (let sum = x + y + carray
      in (sum, drop_bit 63 ((x AND y) OR ((x OR y) AND NOT sum))))"

definition UIntAdd :: "u64 \<Rightarrow> u64 \<Rightarrow> u64 \<Rightarrow> u64 \<times> u64" where
  "UIntAdd x y carry =
     (if UintSize = 32
      then let (v, c) = U32Add (ucast x) (ucast y) (ucast carry) in (ucast v, ucast c)
      else U64Add x y carry)"

definition U32Sub :: "u32 \<Rightarrow> u32 \<Rightarrow> u32 \<Rightarrow> u32 \<times> u32" where
  "U32Sub a b borrow =
     (let diff = a - b - borrow
      in (diff, drop_bit 31 ((NOT a AND b) OR (NOT (a XOR b) AND diff))))"

definition U64Sub :: "u64 \<Rightarrow> u64 \<Rightarrow> u64 \<Rightarrow> u64 \<times> u64" where
  "U64Sub x y borrow =
     (let diff = x - y - borrow
      in (diff, drop_bit 63 ((NOT x AND y) OR (NOT (x XOR y) AND diff))))"

definition UIntSub :: "u64 \<Rightarrow> u64 \<Rightarrow> u64 \<Rightarrow> u64 \<times> u64" where
  "UIntSub x y borrow =
     (if UintSize = 32
      then let (v, c) = U32Sub (ucast x) (ucast y) (ucast borrow) in (ucast v, ucast c)
      else U64Sub x y borrow)"

section \<open>Multiplication\<close>

definition U32Mul :: "u32 \<Rightarrow> u32 \<Rightarrow> u32 \<times> u32" where
  "U32Mul x y = (let tmp = (ucast x * ucast y :: u64) in (ucast tmp, ucast (drop_bit 32 tmp)))"

definition U64Mul :: "u64 \<Rightarrow> u64 \<Rightarrow> u64 \<times> u64" where
  "U64Mul x y =
     (let mask32 = push_bit 32 1 - 1;
          x0 = x AND mask32; x1 = drop_bit 32 x;
          y0 = y AND mask32; y1 = drop_bit 32 y;
          w0 = x0 * y0;
          t = x1 * y0 + drop_bit 32 w0;
          w1 = t AND mask32; w2 = drop_bit 32 t;
          w1 = w1 + x0 * y1;
          hi = x1 * y1 + w2 + drop_bit 32 w1
      in (x * y, hi))"

definition UIntMul :: "u64 \<Rightarrow> u64 \<Rightarrow> u64 \<times> u64" where
  "UIntMul x y =
     (if UintSize = 32
      then let (v, h) = U32Mul (ucast x) (ucast y) in (ucast v, ucast h)
      else U64Mul x y)"

section \<open>Division\<close>

definition U32Div :: "u32 \<Rightarrow> u32 \<Rightarrow> u32 \<Rightarrow> (u32 \<times> u32) result" where
  "U32Div hi lo y =
     cassert (y \<noteq> 0) (cassert (hi < y)
       (let z = (push_bit 32 (ucast hi) OR ucast lo :: u64)
        in Inr (ucast (z div ucast y), ucast (z mod ucast y))))"

text \<open>
  The quotient-digit correction loop of \<open>U64Div\<close>, which occurs twice there (with \<open>un = un1\<close>
  and \<open>un = un0\<close>). The loop counter bounds the iterations; \<open>div_adjust_correct\<close> shows that
  two are enough for every call the division makes.
\<close>

definition two32 :: u64 where
  "two32 = push_bit 32 1"

fun div_adjust :: "nat \<Rightarrow> u64 \<Rightarrow> u64 \<Rightarrow> u64 \<Rightarrow> u64 \<Rightarrow> u64 \<Rightarrow> (u64 \<times> u64) result" where
  "div_adjust 0 yn1 yn0 un q rhat = Inl OutOfFuel"
| "div_adjust (Suc f) yn1 yn0 un q rhat =
     (if two32 \<le> q \<or> two32 * rhat + un < q * yn0
      then let q = q - 1; rhat = rhat + yn1
           in if two32 \<le> rhat then Inr (q, rhat) else div_adjust f yn1 yn0 un q rhat
      else Inr (q, rhat))"

definition U64Div :: "u64 \<Rightarrow> u64 \<Rightarrow> u64 \<Rightarrow> (u64 \<times> u64) result" where
  "U64Div hi lo y =
     cassert (y \<noteq> 0) (cassert (hi < y)
       (if hi = 0 then Inr (lo div y, lo mod y)
        else
          let s = LeadingZeros64 y;
              y = push_bit s y;
              mask32 = two32 - 1;
              yn1 = drop_bit 32 y;
              yn0 = y AND mask32;
              un32 = push_bit s hi;
              un32 = (if s \<noteq> 0 then un32 OR drop_bit (64 - s) lo else un32);
              un10 = (if s < 64 then push_bit s lo else 0);
              un1 = drop_bit 32 un10;
              un0 = un10 AND mask32;
              q1 = un32 div yn1;
              rhat = un32 - q1 * yn1
          in bnd (div_adjust 3 yn1 yn0 un1 q1 rhat) (\<lambda>(q1, _).
             let un21 = un32 * two32 + un1 - q1 * y;
                 q0 = un21 div yn1;
                 rhat = un21 - q0 * yn1
             in bnd (div_adjust 3 yn1 yn0 un0 q0 rhat) (\<lambda>(q0, _).
                Inr (q1 * two32 + q0, drop_bit s (un21 * two32 + un0 - q0 * y))))))"

definition UIntDiv :: "u64 \<Rightarrow> u64 \<Rightarrow> u64 \<Rightarrow> (u64 \<times> u64) result" where
  "UIntDiv hi lo y =
     (if UintSize = 32
      then bnd (U32Div (ucast hi) (ucast lo) (ucast y)) (\<lambda>(v, r). Inr (ucast v, ucast r))
      else U64Div hi lo y)"

definition U32Rem :: "u32 \<Rightarrow> u32 \<Rightarrow> u32 \<Rightarrow> u32 result" where
  "U32Rem hi lo y = bnd (U32Div hi lo y) (\<lambda>(_, rem). Inr rem)"

definition U64Rem :: "u64 \<Rightarrow> u64 \<Rightarrow> u64 \<Rightarrow> u64 result" where
  "U64Rem hi lo y = bnd (U64Div hi lo y) (\<lambda>(_, rem). Inr rem)"

definition UIntRem :: "u64 \<Rightarrow> u64 \<Rightarrow> u64 \<Rightarrow> u64 result" where
  "UIntRem hi lo y =
     (if UintSize = 32
      then bnd (U32Rem (ucast hi) (ucast lo) (ucast y)) (\<lambda>r. Inr (ucast r))
      else U64Rem hi lo y)"

section \<open>Exactness of addition and subtraction\<close>

lemma drop_bit_63: "drop_bit 63 (x :: u64) = of_bool (bit x 63)"
  using drop_bit_top [of x] by simp

lemma bit_63: "bit (x :: u64) 63 \<longleftrightarrow> 9223372036854775808 \<le> unat x"
  using word_top_bit [of x] by simp

lemma bit_NOT_63: "bit (NOT (x :: u64)) 63 \<longleftrightarrow> \<not> bit x 63"
  by (simp add: bit_not_iff)

lemma U64Add_exact:
  assumes "unat c \<le> 1" and "U64Add x y c = (s, c')"
  shows "unat s + 18446744073709551616 * unat c' = unat x + unat y + unat c" and "unat c' \<le> 1"
proof -
  let ?B = "18446744073709551616 :: nat"
  have s: "s = x + y + c" and c': "c' = of_bool (bit ((x AND y) OR ((x OR y) AND NOT s)) 63)"
    using assms(2) unfolding U64Add_def Let_def prod.inject drop_bit_63 by blast+
  have us: "unat s = (unat x + unat y + unat c) mod ?B"
    by (simp add: s word_nat mod_simps)
  then have us: "unat s = (if ?B \<le> unat x + unat y + unat c then unat x + unat y + unat c - ?B
      else unat x + unat y + unat c)"
    using assms(1) unat64_less [of x] unat64_less [of y]
    by (subst mod_wrap_once [symmetric], linarith) simp
  have carry: "bit ((x AND y) OR ((x OR y) AND NOT s)) 63 \<longleftrightarrow> ?B \<le> unat x + unat y + unat c"
    using us assms(1) unat64_less [of x] unat64_less [of y]
    unfolding bit_or_iff bit_and_iff bit_NOT_63 unfolding bit_63
    by (cases "?B \<le> unat x + unat y + unat c"; cases "9223372036854775808 \<le> unat x";
        cases "9223372036854775808 \<le> unat y"; simp; linarith)
  show "unat s + ?B * unat c' = unat x + unat y + unat c"
    using us assms(1) unat64_less [of x] unat64_less [of y] by (auto simp: c' carry)
  show "unat c' \<le> 1" by (simp add: c')
qed

lemma U64Sub_exact:
  assumes "unat b \<le> 1" and "U64Sub x y b = (d, b')"
  shows "unat d + unat y + unat b = unat x + 18446744073709551616 * unat b'" and "unat b' \<le> 1"
proof -
  let ?B = "18446744073709551616 :: nat"
  have d: "d = x - y - b" and b': "b' = of_bool (bit ((NOT x AND y) OR (NOT (x XOR y) AND d)) 63)"
    using assms(2) unfolding U64Sub_def Let_def prod.inject drop_bit_63 by blast+
  have "x = d + y + b" by (simp add: d)
  then have ux: "unat x = (unat d + unat y + unat b) mod ?B" by (simp add: word_nat mod_simps)
  then have ux: "unat x = (if ?B \<le> unat d + unat y + unat b then unat d + unat y + unat b - ?B
      else unat d + unat y + unat b)"
    using assms(1) unat64_less [of d] unat64_less [of y]
    by (subst mod_wrap_once [symmetric], linarith) simp
  have borrow: "bit ((NOT x AND y) OR (NOT (x XOR y) AND d)) 63 \<longleftrightarrow> ?B \<le> unat d + unat y + unat b"
    using ux assms(1) unat64_less [of d] unat64_less [of y]
    unfolding bit_or_iff bit_and_iff bit_NOT_63 bit_xor_iff unfolding bit_63
    by (cases "?B \<le> unat d + unat y + unat b"; cases "9223372036854775808 \<le> unat d";
        cases "9223372036854775808 \<le> unat y"; simp; linarith)
  show "unat d + unat y + unat b = unat x + ?B * unat b'"
    using ux assms(1) unat64_less [of d] unat64_less [of y] by (auto simp: b' borrow)
  show "unat b' \<le> 1" by (simp add: b')
qed

section \<open>Exactness of the widening product\<close>

text \<open>The schoolbook identity behind \<open>U64Mul\<close>, for half-word base \<open>b\<close>.\<close>

lemma mul_high_half:
  fixes x0 x1 y0 y1 b :: nat
  assumes "x0 < b" "x1 < b" "y0 < b" "y1 < b"
  defines "t \<equiv> x1 * y0 + (x0 * y0) div b"
  shows "(x1 * b + x0) * (y1 * b + y0) div (b * b) =
    x1 * y1 + t div b + (t mod b + x0 * y1) div b"
proof -
  define w where "w = t mod b + x0 * y1"
  have b: "0 < b" using assms(1) by simp
  have eqs: "x0 * y0 = (x0 * y0) div b * b + (x0 * y0) mod b" "t * b = (t div b * b + t mod b) * b"
      "w * b = (w div b * b + w mod b) * b" by simp_all
  have "(x1 * b + x0) * (y1 * b + y0) = x1 * y1 * (b * b) + x1 * y0 * b + x0 * y1 * b + x0 * y0"
    by (simp add: algebra_simps)
  also have "\<dots> = x1 * y1 * (b * b) + t * b + x0 * y1 * b + (x0 * y0) mod b"
    using eqs(1) by (simp add: t_def algebra_simps)
  also have "\<dots> = (x1 * y1 + t div b) * (b * b) + w * b + (x0 * y0) mod b"
    unfolding eqs(2) by (simp only: w_def algebra_simps)
  also have "\<dots> = (x1 * y1 + t div b + w div b) * (b * b) + (w mod b * b + (x0 * y0) mod b)"
    unfolding eqs(3) by (simp only: algebra_simps)
  finally have eq: "(x1 * b + x0) * (y1 * b + y0) = \<dots>" .
  have "w mod b \<le> b - 1" "(x0 * y0) mod b < b" using b by (auto simp: less_Suc_eq_le [symmetric])
  then have "w mod b * b + (x0 * y0) mod b < (b - 1) * b + b"
    using mult_le_mono1 [of "w mod b" "b - 1" b] by linarith
  also have "\<dots> = b * b" using b by (cases b) auto
  finally have lt: "w mod b * b + (x0 * y0) mod b < b * b" .
  show ?thesis unfolding eq using lt b by (simp add: w_def)
qed

lemma U64Mul_exact:
  assumes "U64Mul x y = (lo, hi)"
  shows "unat hi * 18446744073709551616 + unat lo = unat x * unat y"
proof -
  let ?b = "4294967296 :: nat"
  define x0 x1 y0 y1 where "x0 = unat x mod ?b" "x1 = unat x div ?b" "y0 = unat y mod ?b" "y1 = unat y div ?b"
  note defs = this
  have lt: "x0 < ?b" "x1 < ?b" "y0 < ?b" "y1 < ?b"
    by (auto simp: defs unat64_less div_less_iff_less_mult)
  have p: "x0 * y0 \<le> 4294967295 * 4294967295" "x1 * y0 \<le> 4294967295 * 4294967295"
      "x0 * y1 \<le> 4294967295 * 4294967295" "x1 * y1 \<le> 4294967295 * 4294967295"
    using lt by (intro mult_le_mono; linarith)+
  define t where "t = x1 * y0 + (x0 * y0) div ?b"
  have t: "t \<le> 4294967295 * 4294967295 + 4294967295"
    using p by (simp add: t_def div_le_mono [of "x0 * y0" "4294967295 * 4294967295" ?b, simplified] add_mono)
  have tm: "t mod ?b \<le> 4294967295" by simp
  have td: "t div ?b \<le> 4294967295" using div_le_mono [OF t, of ?b] by simp
  have w: "(t mod ?b + x0 * y1) div ?b \<le> 4294967295"
    using div_le_mono [of "t mod ?b + x0 * y1" "4294967295 + 4294967295 * 4294967295" ?b] tm p by simp
  define wt where "wt = drop_bit 32 x * (y AND 4294967295) + drop_bit 32 ((x AND 4294967295) * (y AND 4294967295))"
  define ww where "ww = (wt AND 4294967295) + (x AND 4294967295) * drop_bit 32 y"
  have hi: "hi = drop_bit 32 x * drop_bit 32 y + drop_bit 32 wt + drop_bit 32 ww" and lo: "lo = x * y"
    using assms by (auto simp: U64Mul_def Let_def wt_def ww_def)
  have wt: "unat wt = t"
    using p t by (simp add: wt_def word_nat unat_and_low32 flip: defs) (simp add: t_def)
  have ww: "unat ww = t mod ?b + x0 * y1"
    using p tm by (simp add: ww_def word_nat unat_and_low32 wt flip: defs)
  have "unat hi = x1 * y1 + t div ?b + (t mod ?b + x0 * y1) div ?b"
    unfolding hi using p td w by (simp add: word_nat wt ww flip: defs)
  also have "\<dots> = (x1 * ?b + x0) * (y1 * ?b + y0) div (?b * ?b)"
    using mul_high_half [OF lt] by (simp add: t_def)
  also have "\<dots> = unat x * unat y div (?b * ?b)" by (simp add: defs)
  finally show ?thesis by (simp add: lo word_nat)
qed

section \<open>Exactness of the two-word division\<close>

lemma two32_unat [simp]: "unat two32 = 4294967296"
  by (simp add: two32_def)

text \<open>
  A quotient digit: \<open>u = un32 * b + un\<close> divided by the normalised \<open>y = yn1 * b + yn0\<close>. The
  loop starts above the true digit, keeps \<open>q * yn1 + rhat = un32\<close>, and stops at the digit.
\<close>

lemma div_adjust_correct:
  fixes yn1 yn0 un q rhat :: u64
  assumes y1: "unat yn1 < 4294967296" and y0: "unat yn0 < 4294967296" and un: "unat un < 4294967296"
    and inv: "unat q * unat yn1 + unat rhat = n"
    and n: "n < unat yn1 * 4294967296 + unat yn0"
    and above: "(n * 4294967296 + unat un) div (unat yn1 * 4294967296 + unat yn0) \<le> unat q"
    and q: "unat q \<le> 4294967297" and r: "unat rhat < 4294967296"
    and fuel: "4294967296 \<le> unat rhat + f * unat yn1"
  shows "\<exists>q' rh. div_adjust f yn1 yn0 un q rhat = Inr (q', rh) \<and>
    unat q' = (n * 4294967296 + unat un) div (unat yn1 * 4294967296 + unat yn0)"
  using inv above q r fuel
proof (induction f arbitrary: q rhat)
  case 0
  then show ?case by simp
next
  case (Suc f)
  let ?b = "4294967296 :: nat" and ?y = "unat yn1 * 4294967296 + unat yn0"
  let ?u = "n * 4294967296 + unat un"
  let ?test = "two32 \<le> q \<or> two32 * rhat + un < q * yn0"
  have ypos: "0 < ?y" using n by linarith
  have dlt: "?u div ?y < ?b" using n un by (rule digit_bound)
  have uq: "unat q * ?y + (?b * unat rhat + unat un) = ?u + unat q * unat yn0"
    using arg_cong [OF Suc.prems(1), of "\<lambda>v. v * ?b"] by (simp add: algebra_simps)
  have rh: "unat (two32 * rhat + un) = ?b * unat rhat + unat un"
    using Suc.prems(4) un by (simp add: word_nat)
  have qy: "unat q * unat yn0 < 18446744073709551616" if "unat q < ?b"
  proof -
    have "unat q * unat yn0 \<le> 4294967295 * 4294967295"
      using that y0 by (intro mult_le_mono) linarith+
    then show ?thesis by simp
  qed
  have test: "?test \<longleftrightarrow> ?u div ?y < unat q"
  proof (cases "?b \<le> unat q")
    case True
    then show ?thesis using dlt by (simp add: word_le_nat_alt)
  next
    case False
    then have "?test \<longleftrightarrow> ?b * unat rhat + unat un < unat q * unat yn0"
      using qy by (simp add: word_le_nat_alt word_less_nat_alt rh unat_mult64)
    also have "\<dots> \<longleftrightarrow> ?u < unat q * ?y" using uq by linarith
    also have "\<dots> \<longleftrightarrow> ?u div ?y < unat q" using ypos by (simp add: div_less_iff_less_mult)
    finally show ?thesis .
  qed
  show ?case
  proof (cases "?u div ?y < unat q")
    case False
    with test Suc.prems(2) show ?thesis by (auto simp: not_less)
  next
    case True
    then have qpos: "0 < unat q" by linarith
    then have q1: "unat (q - 1) = unat q - 1" by (intro unat_minus_one) auto
    have r1: "unat (rhat + yn1) = unat rhat + unat yn1"
      using Suc.prems(4) y1 by (simp add: word_nat)
    have inv': "(unat q - 1) * unat yn1 + (unat rhat + unat yn1) = n"
      using Suc.prems(1) qpos by (cases "unat q") auto
    have step: "div_adjust (Suc f) yn1 yn0 un q rhat =
        (if two32 \<le> rhat + yn1 then Inr (q - 1, rhat + yn1) else div_adjust f yn1 yn0 un (q - 1) (rhat + yn1))"
      using True test by (simp add: Let_def)
    show ?thesis
    proof (cases "two32 \<le> rhat + yn1")
      case big: True
      have "(unat q - 1) * unat yn0 \<le> ?b * ?b"
        using Suc.prems(3) y0 by (intro mult_le_mono) auto
      also have "\<dots> \<le> ?b * (unat rhat + unat yn1)"
        using big by (intro mult_le_mono) (auto simp: word_le_nat_alt r1)
      finally have le: "(unat q - 1) * unat yn0 \<le> ?b * (unat rhat + unat yn1)" .
      have "(unat q - 1) * ?y + ?b * (unat rhat + unat yn1) = n * ?b + (unat q - 1) * unat yn0"
        using arg_cong [OF inv', of "\<lambda>v. v * ?b"] by (simp add: algebra_simps)
      with le have "(unat q - 1) * ?y \<le> ?u" by linarith
      then have "unat q - 1 \<le> ?u div ?y" using ypos by (simp add: less_eq_div_iff_mult_less_eq)
      with True have "unat q - 1 = ?u div ?y" by linarith
      with big step show ?thesis by (simp add: q1)
    next
      case small: False
      have "\<exists>q' rh. div_adjust f yn1 yn0 un (q - 1) (rhat + yn1) = Inr (q', rh) \<and> unat q' = ?u div ?y"
      proof (rule Suc.IH)
        show "unat (q - 1) * unat yn1 + unat (rhat + yn1) = n" using inv' by (simp add: q1 r1)
        show "?u div ?y \<le> unat (q - 1)" using True q1 by linarith
        show "unat (q - 1) \<le> 4294967297" using Suc.prems(3) by (simp add: q1)
        show "unat (rhat + yn1) < ?b" using small by (simp add: word_le_nat_alt)
        show "?b \<le> unat (rhat + yn1) + f * unat yn1" using Suc.prems(5) by (simp add: r1 algebra_simps)
      qed
      then show ?thesis using small step by simp
    qed
  qed
qed


lemma div_digit:
  fixes un32 yn1 yn0 un :: u64
  assumes "2147483648 \<le> unat yn1" and "unat yn1 < 4294967296" and "unat yn0 < 4294967296"
    and "unat un < 4294967296" and n: "unat un32 < unat yn1 * 4294967296 + unat yn0"
  shows "\<exists>q' rh. div_adjust 3 yn1 yn0 un (un32 div yn1) (un32 - un32 div yn1 * yn1) = Inr (q', rh) \<and>
    unat q' = (unat un32 * 4294967296 + unat un) div (unat yn1 * 4294967296 + unat yn0)"
proof -
  let ?b = "4294967296 :: nat" and ?n = "unat un32"
  have q: "unat (un32 div yn1) = ?n div unat yn1" by (rule unat_div)
  have r: "unat (un32 - un32 div yn1 * yn1) = ?n mod unat yn1"
    by (simp add: minus_div_mult_eq_mod unat_mod)
  show ?thesis
  proof (rule div_adjust_correct [OF assms(2-4) _ n])
    show "unat (un32 div yn1) * unat yn1 + unat (un32 - un32 div yn1 * yn1) = ?n"
      by (simp add: q r)
    show "(?n * ?b + unat un) div (unat yn1 * ?b + unat yn0) \<le> unat (un32 div yn1)"
    proof -
      define d where "d = (?n * ?b + unat un) div (unat yn1 * ?b + unat yn0)"
      have "d * (unat yn1 * ?b + unat yn0) \<le> ?n * ?b + unat un"
        unfolding d_def by (rule div_times_less_eq_dividend)
      then have "d * unat yn1 * ?b < (?n + 1) * ?b" using assms(4) by (simp add: algebra_simps)
      then have "d * unat yn1 < ?n + 1" by simp
      then have "d * unat yn1 \<le> ?n" by simp
      then show ?thesis using assms(1) unfolding q d_def by (simp add: less_eq_div_iff_mult_less_eq)
    qed
    have "?n < (?b + 2) * unat yn1" using n assms(1,3) by (simp add: algebra_simps)
    then have "?n div unat yn1 < ?b + 2" using assms(1) by (simp add: div_less_iff_less_mult)
    then show "unat (un32 div yn1) \<le> 4294967297" by (simp add: q)
    have "?n mod unat yn1 < unat yn1" using assms(1) by simp
    then show "unat (un32 - un32 div yn1 * yn1) < ?b" using assms(2) by (simp add: r)
    show "?b \<le> unat (un32 - un32 div yn1 * yn1) + 3 * unat yn1" using assms(1) by simp
  qed
qed

text \<open>Shifting a two-word number left by the leading zeros of a divisor above its high word.\<close>

lemma LeadingZeros64_norm:
  assumes "y \<noteq> 0"
  shows "LeadingZeros64 y < 64" and "unat (push_bit (LeadingZeros64 y) y) = unat y * 2 ^ LeadingZeros64 y"
    and "9223372036854775808 \<le> unat y * 2 ^ LeadingZeros64 y"
    and "unat y * 2 ^ LeadingZeros64 y < 18446744073709551616"
proof -
  have pos: "0 < unat y" using assms by (simp add: unat_gt_0)
  with Len64_bitlen [of y] have L: "0 < Len64 y" "unat y < 2 ^ Len64 y" "2 ^ (Len64 y - 1) \<le> unat y"
    by (auto simp: is_bitlen_def split: if_splits)
  have le: "Len64 y \<le> 64" by (rule is_bitlen_le [OF Len64_bitlen]) (simp add: unat64_less)
  then show s: "LeadingZeros64 y < 64" using L by (simp add: LeadingZeros64_def)
  have "unat y * 2 ^ LeadingZeros64 y < 2 ^ Len64 y * 2 ^ LeadingZeros64 y" using L by simp
  also have "\<dots> = 2 ^ 64" using le by (simp add: LeadingZeros64_def flip: power_add)
  finally show lt: "unat y * 2 ^ LeadingZeros64 y < 18446744073709551616" by simp
  then show "unat (push_bit (LeadingZeros64 y) y) = unat y * 2 ^ LeadingZeros64 y" by (simp add: unat_push_bit)
  have "(2::nat) ^ (Len64 y - 1) * 2 ^ LeadingZeros64 y = 2 ^ 63"
    using le L by (simp add: LeadingZeros64_def flip: power_add)
  then show "9223372036854775808 \<le> unat y * 2 ^ LeadingZeros64 y"
    using mult_le_mono1 [OF L(3), of "2 ^ LeadingZeros64 y"] by simp
qed

lemma shift_two_words:
  fixes hi lo :: u64
  assumes "s < 64" and "unat hi * 2 ^ s < 18446744073709551616"
  defines "un32 \<equiv> (if s \<noteq> 0 then push_bit s hi OR drop_bit (64 - s) lo else push_bit s hi)"
  shows "unat un32 * 18446744073709551616 + unat (push_bit s lo) =
    (unat hi * 18446744073709551616 + unat lo) * 2 ^ s"
proof -
  have pw: "(18446744073709551616::nat) = 2 ^ s * 2 ^ (64 - s)"
    using assms(1) by (simp flip: power_add)
  have hi: "unat (push_bit s hi) = unat hi * 2 ^ s" using assms(2) by (simp add: unat_push_bit)
  have u: "unat un32 = unat hi * 2 ^ s + unat lo div 2 ^ (64 - s)"
  proof (cases "s = 0")
    case True
    then show ?thesis by (simp add: un32_def unat64_less)
  next
    case False
    then show ?thesis
      using assms(1) by (simp add: un32_def unat_disjoint_or shift_in_disjoint hi unat_drop_bit)
  qed
  have "unat (push_bit s lo) = (unat lo mod 2 ^ (64 - s)) * 2 ^ s"
    using pw by (simp only: unat_push_bit mult_mod_left) (simp add: mult.commute)
  moreover have "unat lo div 2 ^ (64 - s) * 18446744073709551616 + (unat lo mod 2 ^ (64 - s)) * 2 ^ s = unat lo * 2 ^ s"
  proof -
    have distr: "d * (p * q) + m * p = (d * q + m) * p" for d m p q :: nat by (simp add: algebra_simps)
    show ?thesis by (subst pw, subst distr) (simp only: div_mult_mod_eq)
  qed
  ultimately show ?thesis by (simp add: u algebra_simps)
qed

lemma U64Div_exact:
  assumes "y \<noteq> 0" and "hi < y"
  shows "\<exists>q r. U64Div hi lo y = Inr (q, r) \<and>
    unat q = (unat hi * 18446744073709551616 + unat lo) div unat y \<and>
    unat r = (unat hi * 18446744073709551616 + unat lo) mod unat y"
proof (cases "hi = 0")
  case True
  then show ?thesis using assms by (simp add: U64Div_def unat_div unat_mod)
next
  case False
  let ?B = "18446744073709551616 :: nat" and ?b = "4294967296 :: nat"
  define s where "s = LeadingZeros64 y"
  define yn where "yn = push_bit s y"
  define un32 where "un32 = (if s \<noteq> 0 then push_bit s hi OR drop_bit (64 - s) lo else push_bit s hi)"
  define un10 where "un10 = push_bit s lo"
  note norm = LeadingZeros64_norm [OF assms(1), folded s_def]
  have yn: "unat yn = unat y * 2 ^ s" using norm by (simp add: yn_def)
  have hilt: "unat hi * 2 ^ s < unat y * 2 ^ s" using assms(2) by (simp add: word_less_nat_alt)
  have U: "unat un32 * ?B + unat un10 = (unat hi * ?B + unat lo) * 2 ^ s"
    unfolding un32_def un10_def by (rule shift_two_words) (use norm hilt in linarith)+
  define yn1 yn0 where "yn1 = drop_bit 32 yn" "yn0 = yn AND 4294967295"
  define un1 un0 where "un1 = drop_bit 32 un10" "un0 = un10 AND 4294967295"
  note ws = \<open>yn1 = _\<close> \<open>yn0 = _\<close> \<open>un1 = _\<close> \<open>un0 = _\<close>
  have y10: "unat yn1 * ?b + unat yn0 = unat yn" "unat yn0 < ?b" "unat yn1 < ?b" "2147483648 \<le> unat yn1"
    using norm yn by (auto simp: ws unat_drop_bit unat_and_low32 div_less_iff_less_mult less_eq_div_iff_mult_less_eq)
  have u10: "unat un1 * ?b + unat un0 = unat un10" "unat un0 < ?b" "unat un1 < ?b"
    by (auto simp: ws unat64_less unat_drop_bit unat_and_low32 div_less_iff_less_mult)
  have unlt: "unat un32 < unat yn"
  proof -
    have "unat hi * ?B + unat lo < unat y * ?B"
      using assms(2) by (intro two_digit_less) (auto simp: unat64_less word_less_nat_alt)
    then have "(unat hi * ?B + unat lo) * 2 ^ s < unat y * ?B * 2 ^ s" by simp
    then have "unat un32 * ?B < unat yn * ?B" using U yn by (simp add: algebra_simps)
    then show ?thesis by simp
  qed
  obtain q1 rh1 where q1: "div_adjust 3 yn1 yn0 un1 (un32 div yn1) (un32 - un32 div yn1 * yn1) = Inr (q1, rh1)"
    "unat q1 = (unat un32 * ?b + unat un1) div unat yn"
    using div_digit [of yn1 yn0 un1 un32] y10 u10 unlt by auto
  have ynpos: "0 < unat yn" using norm yn by linarith
  define un21 where "un21 = un32 * two32 + un1 - q1 * yn"
  have rem_word: "unat (a * two32 + c - d * yn) = (unat a * ?b + unat c) mod unat yn"
    if d: "unat d = (unat a * ?b + unat c) div unat yn" for a c d :: u64
  proof -
    have "unat d * unat yn \<le> unat a * ?b + unat c" by (simp add: d div_times_less_eq_dividend)
    then have "a * two32 + c - d * yn = of_nat (unat a * ?b + unat c - unat d * unat yn)"
      by (simp add: two32_def of_nat_diff)
    also have "unat a * ?b + unat c - unat d * unat yn = (unat a * ?b + unat c) mod unat yn"
      by (simp add: d minus_div_mult_eq_mod)
    finally show ?thesis
      using less_trans [OF mod_less_divisor [OF ynpos] unat64_less] by (simp add: unat_of_nat)
  qed
  have un21: "unat un21 = (unat un32 * ?b + unat un1) mod unat yn"
    unfolding un21_def using q1(2) by (rule rem_word)
  obtain q0 rh0 where q0: "div_adjust 3 yn1 yn0 un0 (un21 div yn1) (un21 - un21 div yn1 * yn1) = Inr (q0, rh0)"
    "unat q0 = (unat un21 * ?b + unat un0) div unat yn"
    using div_digit [of yn1 yn0 un0 un21] y10 u10 ynpos un21 by auto
  define U where "U = (unat hi * ?B + unat lo) * 2 ^ s"
  have V: "unat q1 * unat yn + unat un21 = unat un32 * ?b + unat un1"
    "unat q0 * unat yn + (unat un21 * ?b + unat un0) mod unat yn = unat un21 * ?b + unat un0"
    by (simp_all add: q1 un21 q0)
  then have Ueq: "(unat q1 * ?b + unat q0) * unat yn + (unat un21 * ?b + unat un0) mod unat yn = U"
    using U u10(1) arg_cong [OF V(1), of "\<lambda>v. v * ?b"] by (simp add: U_def algebra_simps)
  define R where "R = (unat un21 * ?b + unat un0) mod unat yn"
  have Rlt: "R < unat yn" using ynpos by (simp add: R_def)
  have "unat q1 < ?b" "unat q0 < ?b"
    unfolding q1(2) q0(2) by (rule digit_bound; use unlt u10 un21 ynpos in simp)+
  then have qw: "unat (q1 * two32 + q0) = unat q1 * ?b + unat q0" by (simp add: word_nat)
  have q: "U div unat yn = unat q1 * ?b + unat q0" and r: "U mod unat yn = R"
    using Ueq Rlt ynpos by (auto simp: R_def [symmetric] intro!: div_nat_eqI mod_nat_eqI)
  have "unat (un21 * two32 + un0 - q0 * yn) = R"
    unfolding R_def using q0(2) by (rule rem_word)
  also have "R = (unat hi * ?B + unat lo) mod unat y * 2 ^ s"
    unfolding r [symmetric] by (simp add: U_def yn mult_mod_left)
  finally have "unat (drop_bit s (un21 * two32 + un0 - q0 * yn)) = (unat hi * ?B + unat lo) mod unat y"
    by (simp add: unat_drop_bit)
  moreover have "unat (q1 * two32 + q0) = (unat hi * ?B + unat lo) div unat y"
    unfolding qw q [symmetric] by (simp add: U_def yn)
  moreover have "U64Div hi lo y = Inr (q1 * two32 + q0, drop_bit s (un21 * two32 + un0 - q0 * yn))"
  proof -
    have m: "two32 - 1 = 4294967295" by (simp add: two32_def)
    have "U64Div hi lo y =
        bnd (div_adjust 3 yn1 yn0 un1 (un32 div yn1) (un32 - un32 div yn1 * yn1)) (\<lambda>(q1, _).
          let un21 = un32 * two32 + un1 - q1 * yn
          in bnd (div_adjust 3 yn1 yn0 un0 (un21 div yn1) (un21 - un21 div yn1 * yn1)) (\<lambda>(q0, _).
             Inr (q1 * two32 + q0, drop_bit s (un21 * two32 + un0 - q0 * yn))))"
      using assms False norm(1) [unfolded s_def]
      unfolding U64Div_def Let_def ws yn_def un32_def un10_def m s_def by simp
    then show ?thesis using q1(1) q0(1) by (simp add: un21_def)
  qed
  ultimately show ?thesis by blast
qed

section \<open>The word operations as arithmetic\<close>

text \<open>
  The carry of \<open>U64Add\<close> and the borrow of \<open>U64Sub\<close>, computed from bit patterns without a wider
  type, are exact: with a carry-in of 0 or 1 the results denote the true sum and difference, the
  carry-out is 0 or 1, and subtracting what was added gives the operand back.
\<close>

theorem U64Add_U64Sub_exact:
  assumes "unat c \<le> 1"
  shows "case U64Add x y c of (s, c') \<Rightarrow>
      unat s + 2 ^ 64 * unat c' = unat x + unat y + unat c \<and> unat c' \<le> 1 \<and> U64Sub s y c = (x, c')"
proof -
  obtain s c' where s: "U64Add x y c = (s, c')" by fastforce
  obtain d b where d: "U64Sub s y c = (d, b)" by fastforce
  note a = U64Add_exact [OF assms s] and u = U64Sub_exact [OF assms d]
  have "unat d + 18446744073709551616 * unat c' = unat x + 18446744073709551616 * unat b"
    using a(1) u(1) by linarith
  moreover from this have "unat c' = unat b"
    using a(2) u(2) unat64_less [of x] unat64_less [of d] by linarith
  ultimately have "d = x" "b = c'" by (simp_all add: word_unat_eq_iff)
  with a d s show ?thesis by simp
qed

theorem U64Add_U64Sub_exact_witness:
  "U64Add 0xFFFFFFFFFFFFFFFF 7 1 = (7, 1) \<and> U64Sub 7 7 1 = (0xFFFFFFFFFFFFFFFF, 1)"
proof -
  have "U64Add 0xFFFFFFFFFFFFFFFF 7 1 = (7, 1)" by (simp add: U64Add_def)
  with U64Add_U64Sub_exact [of 1 "0xFFFFFFFFFFFFFFFF" 7] show ?thesis by simp
qed

text \<open>
  \<open>U64Mul\<close> multiplies by halves and returns the low and the high word of the full 128-bit
  product, for all operands.
\<close>

theorem U64Mul_full_product:
  "case U64Mul x y of (lo, hi) \<Rightarrow> 2 ^ 64 * unat hi + unat lo = unat x * unat y"
  using U64Mul_exact [of x y] by (cases "U64Mul x y") (simp add: mult.commute)

text \<open>
  C4. \<open>U64Div\<close>, the two-digit division of a 128-bit number by a word: it fails its assertions
  exactly when the divisor is zero or not above the high word, and otherwise both correction loops
  end within the modelled bound and quotient and remainder are exact.
\<close>

theorem U64Div_quotient_remainder:
  "if y = 0 \<or> y \<le> hi then U64Div hi lo y = Inl AssertFail
   else \<exists>q r. U64Div hi lo y = Inr (q, r) \<and>
     unat q = (2 ^ 64 * unat hi + unat lo) div unat y \<and> unat r = (2 ^ 64 * unat hi + unat lo) mod unat y"
proof (cases "y = 0 \<or> y \<le> hi")
  case True
  have reject: "\<not> (a \<and> b) \<Longrightarrow> cassert a (cassert b v) = Inl AssertFail" for a b and v :: "(u64 \<times> u64) result"
    by (simp add: cassert_def)
  have "U64Div hi lo y = Inl AssertFail"
    unfolding U64Div_def by (rule reject) (use True in auto)
  with True show ?thesis by simp
next
  case False
  then have "y \<noteq> 0" "hi < y" by auto
  from U64Div_exact [OF this, of lo] False show ?thesis by (simp add: mult.commute)
qed

end
