(* ===== verification/CMemory.thy ===== *)
theory CMemory
  imports CPrelude
begin

text \<open>
  The memory of the big-integer library: arrays of machine words obtained from \<open>calloc\<close>, given
  back with \<open>free\<close>, and accessed through pointers into them. The allocator may refuse any
  request (\<open>nomem\<close>); a local word the program reads before writing it has an arbitrary value
  (\<open>junk_word\<close>). Every access is checked: a null pointer, a block that
  was freed and an index outside the block are errors. \<open>seg\<close> and \<open>put\<close> describe a run of words
  as a list; the lemmas say how they interact, and the last section lifts the two loop shapes of
  the vector routines to lists.
\<close>

section \<open>Blocks and pointers\<close>

datatype ptr = Null | Ptr nat nat

record mem =
  blk :: "nat \<Rightarrow> u64 list option"
  nxt :: nat
  nomem :: "nat \<Rightarrow> bool"
  junk_word :: u64

text \<open>Blocks are numbered in allocation order; no block with a later number exists yet.\<close>

definition wf_mem :: "mem \<Rightarrow> bool" where
  "wf_mem h \<longleftrightarrow> (\<forall>b. nxt h \<le> b \<longrightarrow> blk h b = None)"

definition mem_ok :: "mem \<Rightarrow> bool" where
  "mem_ok h \<longleftrightarrow> wf_mem h \<and> (\<forall>n. \<not> nomem h n)"

fun padd :: "ptr \<Rightarrow> nat \<Rightarrow> ptr" where
  "padd Null n = Null"
| "padd (Ptr b off) n = Ptr b (off + n)"

section \<open>The operations of the C library\<close>

definition calloc :: "nat \<Rightarrow> mem \<Rightarrow> ptr \<times> mem" where
  "calloc n h =
     (if nomem h (nxt h) then (Null, h\<lparr>nxt := Suc (nxt h)\<rparr>)
      else (Ptr (nxt h) 0, h\<lparr>blk := (blk h)(nxt h \<mapsto> replicate n 0), nxt := Suc (nxt h)\<rparr>))"

fun cfree :: "ptr \<Rightarrow> mem \<Rightarrow> mem result" where
  "cfree Null h = Inr h"
| "cfree (Ptr b off) h =
     (if off \<noteq> 0 \<or> blk h b = None then Inl BadFree else Inr (h\<lparr>blk := (blk h)(b := None)\<rparr>))"

fun rd :: "ptr \<Rightarrow> nat \<Rightarrow> mem \<Rightarrow> u64 result" where
  "rd Null i h = Inl NullDeref"
| "rd (Ptr b off) i h =
     (case blk h b of None \<Rightarrow> Inl UseAfterFree
      | Some ws \<Rightarrow> if off + i < length ws then Inr (ws ! (off + i)) else Inl OutOfBounds)"

fun wr :: "ptr \<Rightarrow> nat \<Rightarrow> u64 \<Rightarrow> mem \<Rightarrow> mem result" where
  "wr Null i v h = Inl NullDeref"
| "wr (Ptr b off) i v h =
     (case blk h b of None \<Rightarrow> Inl UseAfterFree
      | Some ws \<Rightarrow> if off + i < length ws then Inr (h\<lparr>blk := (blk h)(b \<mapsto> ws[off + i := v])\<rparr>)
                  else Inl OutOfBounds)"

section \<open>Runs of words\<close>

text \<open>\<open>seg h p n\<close> is the list of the \<open>n\<close> words from \<open>p\<close> on, if they are all accessible.\<close>

fun seg :: "mem \<Rightarrow> ptr \<Rightarrow> nat \<Rightarrow> u64 list option" where
  "seg h Null n = (if n = 0 then Some [] else None)"
| "seg h (Ptr b off) n =
     (if n = 0 then Some []
      else case blk h b of None \<Rightarrow> None
           | Some ws \<Rightarrow> if off + n \<le> length ws then Some (take n (drop off ws)) else None)"

definition overlay :: "nat \<Rightarrow> 'a list \<Rightarrow> 'a list \<Rightarrow> 'a list" where
  "overlay off xs ws =
     map (\<lambda>i. if off \<le> i \<and> i < off + length xs then xs ! (i - off) else ws ! i) [0..<length ws]"

fun put :: "ptr \<Rightarrow> u64 list \<Rightarrow> mem \<Rightarrow> mem" where
  "put Null xs h = h"
| "put (Ptr b off) xs h =
     (if xs = [] then h
      else h\<lparr>blk := (blk h)(b := map_option (overlay off xs) (blk h b))\<rparr>)"

text \<open>The reason why an inaccessible run is an error.\<close>

fun seg_err :: "mem \<Rightarrow> ptr \<Rightarrow> cerr" where
  "seg_err h Null = NullDeref"
| "seg_err h (Ptr b off) = (if blk h b = None then UseAfterFree else OutOfBounds)"

definition memcpy :: "ptr \<Rightarrow> ptr \<Rightarrow> nat \<Rightarrow> mem \<Rightarrow> mem result" where
  "memcpy dst src n h =
     (case seg h src n of None \<Rightarrow> Inl (seg_err h src)
      | Some xs \<Rightarrow> (case seg h dst n of None \<Rightarrow> Inl (seg_err h dst)
                   | Some _ \<Rightarrow> Inr (put dst xs h)))"

text \<open>Two runs that share no word.\<close>

fun sep :: "ptr \<Rightarrow> nat \<Rightarrow> ptr \<Rightarrow> nat \<Rightarrow> bool" where
  "sep (Ptr b off) m (Ptr b' off') n \<longleftrightarrow>
     m = 0 \<or> n = 0 \<or> b \<noteq> b' \<or> off + m \<le> off' \<or> off' + n \<le> off"
| "sep _ _ _ _ \<longleftrightarrow> True"

section \<open>Laws of runs\<close>

lemma length_overlay [simp]: "length (overlay off xs ws) = length ws"
  by (simp add: overlay_def)

lemma nth_overlay [simp]:
  "i < length ws \<Longrightarrow>
    overlay off xs ws ! i = (if off \<le> i \<and> i < off + length xs then xs ! (i - off) else ws ! i)"
  by (simp add: overlay_def)

lemma overlay_overlay_append:
  "overlay (off + length xs) ys (overlay off xs ws) = overlay off (xs @ ys) ws"
  by (rule nth_equalityI) (auto simp: nth_append)

lemma overlay_comm:
  "off + length xs \<le> off' \<or> off' + length ys \<le> off \<Longrightarrow>
    overlay off' ys (overlay off xs ws) = overlay off xs (overlay off' ys ws)"
  by (rule nth_equalityI) auto

lemma overlay_over:
  "length xs = length ys \<Longrightarrow> overlay off ys (overlay off xs ws) = overlay off ys ws"
  by (rule nth_equalityI) auto

lemma overlay_id: "overlay off (take n (drop off ws)) ws = ws"
  by (rule nth_equalityI) auto

lemma seg_0 [simp]: "seg h p 0 = Some []"
  by (cases p) auto

lemma seg_length: "seg h p n = Some xs \<Longrightarrow> length xs = n"
  by (cases p) (auto split: if_splits option.splits)

lemma put_Nil [simp]: "put p [] h = h"
  by (cases p) auto

lemma padd_0 [simp]: "padd p 0 = p"
  by (cases p) auto

lemma padd_padd [simp]: "padd (padd p m) n = padd p (m + n)"
  by (cases p) auto

lemma put_fields [simp]:
  "nxt (put p xs h) = nxt h" "nomem (put p xs h) = nomem h" "junk_word (put p xs h) = junk_word h"
  by (cases p; simp)+

lemma wf_mem_put [simp]: "wf_mem h \<Longrightarrow> wf_mem (put p xs h)"
  by (cases p) (auto simp: wf_mem_def)

lemma mem_ok_put [simp]: "mem_ok h \<Longrightarrow> mem_ok (put p xs h)"
  by (simp add: mem_ok_def)

lemma seg_split:
  "seg h p (m + n) = Some xs \<longleftrightarrow>
    (\<exists>ys zs. xs = ys @ zs \<and> seg h p m = Some ys \<and> seg h (padd p m) n = Some zs)"
  (is "?L \<longleftrightarrow> ?R")
proof (cases p)
  case Null
  then show ?thesis by auto
next
  case (Ptr b off)
  show ?thesis
  proof (cases "blk h b")
    case None
    then show ?thesis using Ptr by auto
  next
    case (Some ws)
    then show ?thesis
      using Ptr by (auto simp: take_add add.commute add.left_commute split: if_splits)
  qed
qed

lemma seg_append:
  "seg h p m = Some ys \<Longrightarrow> seg h (padd p m) n = Some zs \<Longrightarrow> seg h p (m + n) = Some (ys @ zs)"
  by (simp add: seg_split)

lemma seg_take:
  assumes "seg h p n = Some xs" and "k \<le> n"
  shows "seg h p k = Some (take k xs)" and "seg h (padd p k) (n - k) = Some (drop k xs)"
proof -
  have "seg h p (k + (n - k)) = Some xs" using assms by simp
  then obtain ys zs where "xs = ys @ zs" "seg h p k = Some ys" "seg h (padd p k) (n - k) = Some zs"
    by (auto simp: seg_split)
  moreover from this have "length ys = k" by (simp add: seg_length)
  ultimately show "seg h p k = Some (take k xs)" "seg h (padd p k) (n - k) = Some (drop k xs)"
    by simp_all
qed

lemma seg_slice:
  assumes "seg h p n = Some xs" and "i + k \<le> n"
  shows "seg h (padd p i) k = Some (take k (drop i xs))"
proof -
  have "seg h (padd p i) (n - i) = Some (drop i xs)" using assms by (intro seg_take(2)) auto
  then show ?thesis by (rule seg_take(1)) (use assms in simp)
qed

lemma seg_put_sep:
  assumes "sep p m q (length xs)"
  shows "seg (put q xs h) p m = seg h p m"
proof (cases "xs = [] \<or> m = 0")
  case False
  show ?thesis
  proof (cases p; cases q)
    fix b off b' off'
    assume pq: "p = Ptr b off" "q = Ptr b' off'"
    show ?thesis
    proof (cases "b = b'")
      case True
      show ?thesis
      proof (cases "blk h b")
        case (Some ws)
        have "off + m \<le> off' \<or> off' + length xs \<le> off" using assms pq True False by simp
        then have "take m (drop off (overlay off' xs ws)) = take m (drop off ws)"
          by (intro nth_equalityI) auto
        then show ?thesis using pq True Some by simp
      qed (use pq True False in auto)
    qed (use pq in auto)
  qed (use assms in auto)
qed auto

lemma seg_put_same:
  assumes "seg h p (length xs) = Some ys"
  shows "seg (put p xs h) p (length xs) = Some xs"
proof (cases p)
  case (Ptr b off)
  show ?thesis
  proof (cases "xs = []")
    case False
    with assms Ptr obtain ws where ws: "blk h b = Some ws" "off + length xs \<le> length ws"
      by (auto split: option.splits if_splits)
    then have "take (length xs) (drop off (overlay off xs ws)) = xs"
      by (intro nth_equalityI) auto
    with ws Ptr False show ?thesis by simp
  qed simp
qed (use assms in \<open>auto split: if_splits\<close>)

lemma put_put_append:
  "put (padd p (length xs)) ys (put p xs h) = put p (xs @ ys) h"
  by (cases p) (auto simp: overlay_overlay_append option.map_comp comp_def)

lemma put_over: "length xs = length ys \<Longrightarrow> put p ys (put p xs h) = put p ys h"
  by (cases p) (auto simp: overlay_over option.map_comp comp_def)

lemma put_comm:
  assumes "sep p (length xs) q (length ys)"
  shows "put q ys (put p xs h) = put p xs (put q ys h)"
proof (cases "xs = [] \<or> ys = []")
  case False
  show ?thesis
  proof (cases p; cases q)
    fix b off b' off' assume "p = Ptr b off" "q = Ptr b' off'"
    then show ?thesis
      using assms False
      by (cases "blk h b"; cases "b = b'") (auto simp: overlay_comm fun_upd_twist)
  qed auto
qed auto

lemma seg_put_sub:
  assumes "seg h p n = Some zs" and "i + length xs \<le> n"
  shows "seg (put (padd p i) xs h) p n = Some (overlay i xs zs)"
proof (cases p)
  case (Ptr b off)
  show ?thesis
  proof (cases "n = 0 \<or> xs = []")
    case False
    with assms Ptr obtain ws where ws: "blk h b = Some ws" "off + n \<le> length ws" "zs = take n (drop off ws)"
      by (auto split: option.splits if_splits)
    then have "take n (drop off (overlay (off + i) xs ws)) = overlay i xs zs"
      using assms(2) by (intro nth_equalityI) (auto simp: add.commute)
    with ws Ptr False show ?thesis by simp
  next
    case True
    have "overlay 0 [] zs = zs" "overlay i [] zs = zs" by (auto intro!: nth_equalityI)
    with True assms show ?thesis by auto
  qed
qed (use assms in \<open>auto simp: overlay_def split: if_splits\<close>)

lemma rd_seg:
  "seg h p n = Some xs \<Longrightarrow> i < n \<Longrightarrow> rd p i h = Inr (xs ! i)"
  by (cases p) (auto split: option.splits if_splits)

lemma wr_seg:
  assumes "seg h p n = Some xs" and "i < n"
  shows "wr p i v h = Inr (put (padd p i) [v] h)"
proof (cases p)
  case (Ptr b off)
  with assms obtain ws where ws: "blk h b = Some ws" "off + n \<le> length ws"
    by (auto split: option.splits if_splits)
  then have "ws[off + i := v] = overlay (off + i) [v] ws"
    using assms(2) by (intro nth_equalityI) (auto simp: nth_list_update)
  with ws Ptr assms(2) show ?thesis by simp
qed (use assms in \<open>auto split: if_splits\<close>)

lemma memcpy_seg:
  "seg h src n = Some xs \<Longrightarrow> seg h dst n = Some ys \<Longrightarrow> memcpy dst src n h = Inr (put dst xs h)"
  by (simp add: memcpy_def)

lemma seg_other_block:
  "blk h' b = blk h b \<Longrightarrow> seg h' (Ptr b off) n = seg h (Ptr b off) n"
  by simp

declare seg.simps(2) [simp del] put.simps(2) [simp del] rd.simps(2) [simp del] wr.simps(2) [simp del]

section \<open>Overwriting part of a run\<close>

lemma overlay_middle:
  "length as = i \<Longrightarrow> length bs = length qs \<Longrightarrow> overlay i qs (as @ bs @ cs) = as @ qs @ cs"
  by (rule nth_equalityI) (auto simp: nth_append)

lemma overlay_update: "i < length ws \<Longrightarrow> overlay i [v] ws = ws[i := v]"
  by (rule nth_equalityI) (auto simp: nth_list_update)

lemma overlay_inner:
  "i + length qs \<le> length as \<Longrightarrow>
    overlay (off + i) qs (overlay off as ws) = overlay off (overlay i qs as) ws"
  by (rule nth_equalityI) auto

lemma put_put_sub:
  assumes "i + length qs \<le> length as"
  shows "put (padd p i) qs (put p as h) = put p (overlay i qs as) h"
proof (cases p)
  case (Ptr b off)
  have nil: "overlay i [] as = as" by (rule nth_equalityI) auto
  show ?thesis
  proof (cases "as = [] \<or> qs = []")
    case True
    then show ?thesis using assms nil by (auto simp: overlay_def)
  next
    case False
    then have "overlay i qs as \<noteq> []" by (metis length_0_conv length_overlay)
    with False Ptr assms show ?thesis
      by (cases "blk h b") (simp_all add: put.simps overlay_inner)
  qed
qed simp

lemma wr_put:
  assumes "seg h p (length as) = Some ws" and "i < length as"
  shows "wr p i v (put p as h) = Inr (put p (as[i := v]) h)"
  using wr_seg [OF seg_put_same [OF assms(1)] assms(2), of v] assms(2)
  by (simp add: put_put_sub overlay_update)

section \<open>Loops over runs\<close>

text \<open>
  The vector routines are loops \<^verbatim>\<open>for (i = 0; i < n; ++i) z[i] = f(x[i], y[i])\<close> that pass a
  carry (or a pair of carries) from one iteration to the next; \<open>vloop2\<close> is such a loop with two
  operands, \<open>vloop1\<close> with one. \<open>vmap2\<close> and \<open>vmap1\<close> are what they compute on lists.
\<close>

function vloop2 ::
  "(u64 \<Rightarrow> u64 \<Rightarrow> 's \<Rightarrow> u64 \<times> 's) \<Rightarrow> ptr \<Rightarrow> ptr \<Rightarrow> ptr \<Rightarrow> nat \<Rightarrow> nat \<Rightarrow> 's \<Rightarrow> mem \<Rightarrow> ('s \<times> mem) result" where
  "vloop2 f z x y n i s h =
     (if i < n
      then bnd (rd x i h) (\<lambda>a. bnd (rd y i h) (\<lambda>b.
           case f a b s of (v, s) \<Rightarrow> bnd (wr z i v h) (\<lambda>h. vloop2 f z x y n (Suc i) s h)))
      else Inr (s, h))"
  by pat_completeness auto
termination
  by (relation "measure (\<lambda>(f, z, x, y, n, i, s, h). n - i)") auto

function vloop1 ::
  "(u64 \<Rightarrow> 's \<Rightarrow> u64 \<times> 's) \<Rightarrow> ptr \<Rightarrow> ptr \<Rightarrow> nat \<Rightarrow> nat \<Rightarrow> 's \<Rightarrow> mem \<Rightarrow> ('s \<times> mem) result" where
  "vloop1 f z x n i s h =
     (if i < n
      then bnd (rd x i h) (\<lambda>a.
           case f a s of (v, s) \<Rightarrow> bnd (wr z i v h) (\<lambda>h. vloop1 f z x n (Suc i) s h))
      else Inr (s, h))"
  by pat_completeness auto
termination
  by (relation "measure (\<lambda>(f, z, x, n, i, s, h). n - i)") auto

declare vloop2.simps [simp del] vloop1.simps [simp del]

fun vmap2 :: "(u64 \<Rightarrow> u64 \<Rightarrow> 's \<Rightarrow> u64 \<times> 's) \<Rightarrow> 's \<Rightarrow> u64 list \<Rightarrow> u64 list \<Rightarrow> u64 list \<times> 's" where
  "vmap2 f s (a # as) (b # bs) =
     (case f a b s of (v, s) \<Rightarrow> case vmap2 f s as bs of (vs, s) \<Rightarrow> (v # vs, s))"
| "vmap2 f s _ _ = ([], s)"

fun vmap1 :: "(u64 \<Rightarrow> 's \<Rightarrow> u64 \<times> 's) \<Rightarrow> 's \<Rightarrow> u64 list \<Rightarrow> u64 list \<times> 's" where
  "vmap1 f s (a # as) = (case f a s of (v, s) \<Rightarrow> case vmap1 f s as of (vs, s) \<Rightarrow> (v # vs, s))"
| "vmap1 f s [] = ([], s)"

text \<open>A run may be read while another is written if it is the same run or shares no word with it.\<close>

definition aliased :: "ptr \<Rightarrow> ptr \<Rightarrow> nat \<Rightarrow> bool" where
  "aliased x z n \<longleftrightarrow> x = z \<or> sep x n z n"

lemma sep_mono: "sep p m q n \<Longrightarrow> m' \<le> m \<Longrightarrow> n' \<le> n \<Longrightarrow> sep p m' q n'"
  by (cases "(p, m, q, n)" rule: sep.cases) auto

lemma sep_sym: "sep p m q n \<longleftrightarrow> sep q n p m"
  by (cases p; cases q) auto

lemma rd_ahead:
  assumes "seg h z n = Some zs" and "seg h x n = Some xs" and "aliased x z n"
    and "length rs \<le> i" and "i < n"
  shows "rd x i (put z rs h) = Inr (xs ! i)"
proof (cases "x = z")
  case True
  have "seg (put (padd z 0) rs h) z n = Some (overlay 0 rs zs)"
    using assms by (intro seg_put_sub) auto
  from rd_seg [OF this \<open>i < n\<close>] have "rd x i (put z rs h) = Inr (overlay 0 rs zs ! i)"
    using True by simp
  moreover have "zs = xs" "length zs = n" using assms True by (auto dest: seg_length)
  ultimately show ?thesis using assms by simp
next
  case False
  then have "sep x n z (length rs)" using assms by (auto simp: aliased_def intro: sep_mono)
  then have "seg (put z rs h) x n = Some xs" using assms(2) by (simp add: seg_put_sep)
  then show ?thesis using \<open>i < n\<close> by (rule rd_seg)
qed

lemma wr_ahead:
  assumes "seg h z n = Some zs" and "length rs < n"
  shows "wr z (length rs) v (put z rs h) = Inr (put z (rs @ [v]) h)"
proof -
  have "seg (put (padd z 0) rs h) z n = Some (overlay 0 rs zs)"
    using assms by (intro seg_put_sub) auto
  then have "seg (put z rs h) z n = Some (overlay 0 rs zs)" by simp
  from wr_seg [OF this assms(2)] show ?thesis by (simp add: put_put_append)
qed

lemma vloop2_from:
  assumes "seg h z n = Some zs" and "seg h x n = Some xs" and "seg h y n = Some ys"
    and "aliased x z n" and "aliased y z n" and "length rs \<le> n"
  shows "vloop2 f z x y n (length rs) s (put z rs h) =
    (case vmap2 f s (drop (length rs) xs) (drop (length rs) ys) of (vs, s') \<Rightarrow> Inr (s', put z (rs @ vs) h))"
  using assms(6)
proof (induction "n - length rs" arbitrary: rs s)
  case 0
  then show ?case
    using seg_length [OF assms(2)] by (subst vloop2.simps) simp
next
  case (Suc k)
  let ?i = "length rs"
  have i: "?i < n" using Suc by simp
  have len: "length xs = n" "length ys = n" using assms by (auto dest: seg_length)
  obtain v s' where f: "f (xs ! ?i) (ys ! ?i) s = (v, s')" by fastforce
  have "vloop2 f z x y n ?i s (put z rs h) = vloop2 f z x y n (Suc ?i) s' (put z (rs @ [v]) h)"
    using i f rd_ahead [OF assms(1,2,4) order_refl i] rd_ahead [OF assms(1,3,5) order_refl i]
      wr_ahead [OF assms(1) i]
    by (subst vloop2.simps) simp
  also have "\<dots> = (case vmap2 f s' (drop (Suc ?i) xs) (drop (Suc ?i) ys) of
      (vs, s'') \<Rightarrow> Inr (s'', put z ((rs @ [v]) @ vs) h))"
    using Suc.hyps(1) [of "rs @ [v]" s'] Suc.hyps(2) i by simp
  finally show ?case
    using i len f by (simp add: Cons_nth_drop_Suc [symmetric] split: prod.splits)
qed

lemma vloop1_from:
  assumes "seg h z n = Some zs" and "seg h x n = Some xs"
    and "aliased x z n" and "length rs \<le> n"
  shows "vloop1 f z x n (length rs) s (put z rs h) =
    (case vmap1 f s (drop (length rs) xs) of (vs, s') \<Rightarrow> Inr (s', put z (rs @ vs) h))"
  using assms(4)
proof (induction "n - length rs" arbitrary: rs s)
  case 0
  then show ?case
    using seg_length [OF assms(2)] by (subst vloop1.simps) simp
next
  case (Suc k)
  let ?i = "length rs"
  have i: "?i < n" using Suc by simp
  have len: "length xs = n" using assms by (auto dest: seg_length)
  obtain v s' where f: "f (xs ! ?i) s = (v, s')" by fastforce
  have "vloop1 f z x n ?i s (put z rs h) = vloop1 f z x n (Suc ?i) s' (put z (rs @ [v]) h)"
    using i f rd_ahead [OF assms(1,2,3) order_refl i] wr_ahead [OF assms(1) i]
    by (subst vloop1.simps) simp
  also have "\<dots> = (case vmap1 f s' (drop (Suc ?i) xs) of (vs, s'') \<Rightarrow> Inr (s'', put z ((rs @ [v]) @ vs) h))"
    using Suc.hyps(1) [of "rs @ [v]" s'] Suc.hyps(2) i by simp
  finally show ?case
    using i len f by (simp add: Cons_nth_drop_Suc [symmetric] split: prod.splits)
qed

lemma vloop2_seg:
  assumes "seg h z n = Some zs" and "seg h x n = Some xs" and "seg h y n = Some ys"
    and "aliased x z n" and "aliased y z n"
  shows "vloop2 f z x y n 0 s h = (case vmap2 f s xs ys of (vs, s') \<Rightarrow> Inr (s', put z vs h))"
  using vloop2_from [OF assms, of "[]"] by simp

lemma vloop1_seg:
  assumes "seg h z n = Some zs" and "seg h x n = Some xs" and "aliased x z n"
  shows "vloop1 f z x n 0 s h = (case vmap1 f s xs of (vs, s') \<Rightarrow> Inr (s', put z vs h))"
  using vloop1_from [OF assms, of "[]"] by simp

lemma length_vmap2: "vmap2 f s xs ys = (vs, s') \<Longrightarrow> length vs = min (length xs) (length ys)"
  by (induction f s xs ys arbitrary: vs rule: vmap2.induct) (auto split: prod.splits)

lemma length_vmap1: "vmap1 f s xs = (vs, s') \<Longrightarrow> length vs = length xs"
  by (induction f s xs arbitrary: vs rule: vmap1.induct) (auto split: prod.splits)

lemma sep_next: "sep z i (padd z i) k"
  by (cases z) auto

lemma aliased_shrink: "aliased x z n \<Longrightarrow> m \<le> n \<Longrightarrow> aliased x z m"
  by (auto simp: aliased_def intro: sep_mono)

lemma seg_put_above:
  assumes "seg h x n = Some xs" and "aliased x z n" and "i + length qs \<le> n"
  shows "seg (put (padd z i) qs h) x i = Some (take i xs)"
proof -
  have "sep x i (padd z i) (length qs)"
    using assms(2,3) by (cases x; cases z) (auto simp: aliased_def)
  then show ?thesis using seg_take(1) [OF assms(1), of i] assms(3) by (simp add: seg_put_sep)
qed

lemma put_below:
  "put z qs (put (padd z (length qs)) rs h) = put z (qs @ rs) h"
  using put_comm [of z qs "padd z (length qs)" rs h] sep_next [of z "length qs" "length rs"]
  by (simp add: put_put_append)

end
