(* ===== verification/NatCore.thy ===== *)
theory NatCore
  imports BaseArith CMemory
begin

text \<open>
  The unsigned numbers of \<open>cmake/bigint/src/nat.h\<close> and \<open>nat.c\<close>: a \<open>nat\<close> structure is a slice of a
  word array, least significant word first. The structure is passed by value, so an operation
  returns the structures it changes together with the memory. Lengths and indices are natural
  numbers (\<open>ssize_t\<close> values that count words of allocated arrays never come near overflow);
  the type is called \<open>cnat\<close> here because \<open>nat\<close> is taken.
\<close>

section \<open>The structure\<close>

record cnat =
  ndata :: ptr
  nlen :: nat
  ncap :: nat
  npart :: bool

text \<open>
  \<open>_M\<close> is \<open>_B - 1\<close> with \<open>_B = 1 << 64\<close>, a constant shift by the full width. The header relies
  on such a shift giving 0 (its comment says so), which is what the supported compilers fold it to.
\<close>

definition W_bits :: nat where
  "W_bits = UintSize"

definition B_word :: u64 where
  "B_word = (if W_bits \<ge> 64 then 0 else push_bit W_bits 1)"

definition M_word :: u64 where
  "M_word = B_word - 1"

section \<open>Operations\<close>

definition natNewLen :: "nat \<Rightarrow> mem \<Rightarrow> cnat \<times> mem" where
  "natNewLen n h =
     (if 0 < n
      then let (p, h) = calloc n h; n = (if p = Null then 0 else n)
           in (\<lparr>ndata = p, nlen = n, ncap = n, npart = False\<rparr>, h)
      else (\<lparr>ndata = Null, nlen = n, ncap = n, npart = False\<rparr>, h))"

definition natNew :: "u64 \<Rightarrow> mem \<Rightarrow> (cnat \<times> mem) result" where
  "natNew v h =
     (let (t, h) = natNewLen 8 h
      in bnd (wr (ndata t) 0 v h) (\<lambda>h. Inr (t\<lparr>nlen := 1\<rparr>, h)))"

definition natPart :: "cnat \<Rightarrow> nat \<Rightarrow> nat \<Rightarrow> cnat result" where
  "natPart p from to =
     cassert (from \<le> to)
       (Inr \<lparr>ndata = padd (ndata p) from, nlen = to - from, ncap = to - from, npart = (0 < from)\<rparr>)"

definition natFree :: "cnat \<Rightarrow> mem \<Rightarrow> (cnat \<times> mem) result" where
  "natFree p h =
     (if npart p then Inr (p, h)
      else bnd (cfree (ndata p) h) (\<lambda>h. Inr (\<lparr>ndata = Null, nlen = 0, ncap = 0, npart = False\<rparr>, h)))"

definition natMake :: "cnat \<Rightarrow> nat \<Rightarrow> mem \<Rightarrow> (cnat \<times> mem) result" where
  "natMake z n h =
     (if n < ncap z then bnd (natPart z 0 n) (\<lambda>t. Inr (t, h))
      else bnd (natFree z h) (\<lambda>(z, h).
        if n = 1 then Inr (natNewLen 1 h)
        else let (t, h) = natNewLen (n + 4) h in Inr (t\<lparr>nlen := n\<rparr>, h)))"

definition natSetWord :: "cnat \<Rightarrow> u64 \<Rightarrow> mem \<Rightarrow> (cnat \<times> mem) result" where
  "natSetWord z x h =
     (if x = 0 then bnd (natPart z 0 0) (\<lambda>t. Inr (t, h))
      else bnd (natMake z 1 h) (\<lambda>(z, h). bnd (wr (ndata z) 0 x h) (\<lambda>h. Inr (z, h))))"

definition natDup :: "cnat \<Rightarrow> mem \<Rightarrow> (cnat \<times> mem) result" where
  "natDup x h =
     (let (z, h) = natNewLen (nlen x) h
      in bnd (memcpy (ndata z) (ndata x) (nlen x) h) (\<lambda>h. Inr (z\<lparr>ncap := nlen x, nlen := nlen x\<rparr>, h)))"

text \<open>The scan of \<open>natNorm\<close> for the highest non-zero word.\<close>

fun norm_loop :: "ptr \<Rightarrow> nat \<Rightarrow> mem \<Rightarrow> nat result" where
  "norm_loop d 0 h = Inr 0"
| "norm_loop d (Suc i) h = bnd (rd d i h) (\<lambda>w. if w = 0 then norm_loop d i h else Inr (Suc i))"

definition natNorm :: "cnat \<Rightarrow> mem \<Rightarrow> cnat result" where
  "natNorm p h = bnd (norm_loop (ndata p) (nlen p) h) (\<lambda>i. Inr (p\<lparr>nlen := i\<rparr>))"

text \<open>The scan of \<open>natCmp\<close> for the highest differing word, never below word 0.\<close>

fun cmp_loop :: "ptr \<Rightarrow> ptr \<Rightarrow> nat \<Rightarrow> mem \<Rightarrow> nat result" where
  "cmp_loop x y 0 h = Inr 0"
| "cmp_loop x y (Suc i) h =
     bnd (rd x (Suc i) h) (\<lambda>a. bnd (rd y (Suc i) h) (\<lambda>b.
       if a = b then cmp_loop x y i h else Inr (Suc i)))"

definition natCmp :: "cnat \<Rightarrow> cnat \<Rightarrow> mem \<Rightarrow> int result" where
  "natCmp x y h =
     (let m = nlen x; n = nlen y
      in if m \<noteq> n \<or> m = 0 then Inr (if m < n then -1 else if n < m then 1 else 0)
         else bnd (cmp_loop (ndata x) (ndata y) (m - 1) h) (\<lambda>i.
              bnd (rd (ndata x) i h) (\<lambda>a. bnd (rd (ndata y) i h) (\<lambda>b.
                Inr (if a < b then -1 else if b < a then 1 else 0)))))"

function clear_loop :: "ptr \<Rightarrow> nat \<Rightarrow> nat \<Rightarrow> mem \<Rightarrow> mem result" where
  "clear_loop d n i h = (if i < n then bnd (wr d i 0 h) (\<lambda>h. clear_loop d n (Suc i) h) else Inr h)"
  by pat_completeness auto
termination
  by (relation "measure (\<lambda>(d, n, i, h). n - i)") auto

declare clear_loop.simps [simp del]

definition natClear :: "cnat \<Rightarrow> mem \<Rightarrow> mem result" where
  "natClear x h = clear_loop (ndata x) (nlen x) 0 h"

definition natSetValue :: "cnat \<Rightarrow> nat \<Rightarrow> u64 \<Rightarrow> mem \<Rightarrow> mem result" where
  "natSetValue t i v h = cassert (i < nlen t) (wr (ndata t) i v h)"

definition natCopy :: "cnat \<Rightarrow> cnat \<Rightarrow> mem \<Rightarrow> mem result" where
  "natCopy dst src h =
     cassert (nlen src \<le> ncap dst) (memcpy (ndata dst) (ndata src) (nlen src) h)"

definition natSet :: "cnat \<Rightarrow> cnat \<Rightarrow> mem \<Rightarrow> (cnat \<times> mem) result" where
  "natSet z x h = bnd (natMake z (nlen x) h) (\<lambda>(z, h). bnd (natCopy z x h) (\<lambda>h. Inr (z, h)))"

definition natSwap :: "cnat \<times> cnat \<Rightarrow> cnat \<times> cnat" where
  "natSwap = (\<lambda>(x, y). (y, x))"

section \<open>Values\<close>

text \<open>The number a word list denotes, and the word lists without a leading zero word.\<close>

fun val :: "u64 list \<Rightarrow> nat" where
  "val [] = 0"
| "val (w # ws) = unat w + Base * val ws"

definition normal :: "u64 list \<Rightarrow> bool" where
  "normal ws \<longleftrightarrow> ws = [] \<or> last ws \<noteq> 0"

text \<open>\<open>words h x ws\<close>: in memory \<open>h\<close> the slice \<open>x\<close> is accessible and holds \<open>ws\<close>.\<close>

definition words :: "mem \<Rightarrow> cnat \<Rightarrow> u64 list \<Rightarrow> bool" where
  "words h x ws \<longleftrightarrow> seg h (ndata x) (nlen x) = Some ws"

lemma val_append: "val (xs @ ys) = val xs + Base ^ length xs * val ys"
  by (induction xs) (simp_all add: algebra_simps)

lemma val_bound: "val ws < Base ^ length ws"
proof (induction ws)
  case (Cons w ws)
  have "unat w + Base * val ws < Base * Base ^ length ws"
    using two_digit_less [OF Cons.IH, of "unat w" Base] by (simp add: unat64_less mult.commute)
  then show ?case by simp
qed simp

lemma val_replicate_0 [simp]: "val (replicate n 0) = 0"
  by (induction n) auto

lemma val_take_drop: "val ws = val (take n ws) + Base ^ min (length ws) n * val (drop n ws)"
  using val_append [of "take n ws" "drop n ws"] by simp

lemma val_inj: "length xs = length ys \<Longrightarrow> val xs = val ys \<Longrightarrow> xs = ys"
proof (induction xs ys rule: list_induct2)
  case (Cons x xs y ys)
  have "unat x = val (x # xs) mod Base" "unat y = val (y # ys) mod Base" by (simp_all add: unat64_less)
  then have xy: "x = y" using Cons.prems by (metis unsigned_word_eqI)
  with Cons show ?case by simp
qed simp

lemma normal_lower:
  assumes "normal ws" and "ws \<noteq> []"
  shows "Base ^ (length ws - 1) \<le> val ws"
proof -
  have "ws = butlast ws @ [last ws]" using assms(2) by simp
  then have "val ws = val (butlast ws) + Base ^ (length ws - 1) * unat (last ws)"
    by (metis length_butlast mult_0_right add_0_right val.simps val_append)
  moreover have "1 \<le> unat (last ws)"
    using assms by (simp add: normal_def Suc_le_eq unat_gt_0)
  then have "Base ^ (length ws - 1) * 1 \<le> Base ^ (length ws - 1) * unat (last ws)"
    by (rule mult_le_mono2)
  ultimately show ?thesis by linarith
qed

text \<open>Normal word lists represent every number once.\<close>

lemma normal_length_less:
  assumes "normal ys" and "length xs < length ys"
  shows "val xs < val ys"
proof -
  have "val xs < Base ^ length xs" by (rule val_bound)
  also have "\<dots> \<le> Base ^ (length ys - 1)" using assms(2) by (intro power_increasing) auto
  also have "\<dots> \<le> val ys" using assms by (intro normal_lower) auto
  finally show ?thesis .
qed

lemma normal_unique: "normal xs \<Longrightarrow> normal ys \<Longrightarrow> val xs = val ys \<Longrightarrow> xs = ys"
  using normal_length_less [of xs ys] normal_length_less [of ys xs]
  by (metis linorder_neqE_nat less_irrefl val_inj)

section \<open>Fresh memory\<close>

definition alloc :: "nat \<Rightarrow> mem \<Rightarrow> mem" where
  "alloc n h = h\<lparr>blk := (blk h)(nxt h \<mapsto> replicate n 0), nxt := Suc (nxt h)\<rparr>"

lemma natNewLen_ok:
  "mem_ok h \<Longrightarrow> 0 < n \<Longrightarrow>
    natNewLen n h = (\<lparr>ndata = Ptr (nxt h) 0, nlen = n, ncap = n, npart = False\<rparr>, alloc n h)"
  by (simp add: natNewLen_def calloc_def mem_ok_def alloc_def)

lemma natNewLen_0: "natNewLen 0 h = (\<lparr>ndata = Null, nlen = 0, ncap = 0, npart = False\<rparr>, h)"
  by (simp add: natNewLen_def)

lemma mem_ok_alloc [simp]: "mem_ok h \<Longrightarrow> mem_ok (alloc n h)"
  by (auto simp: mem_ok_def wf_mem_def alloc_def)

lemma nxt_alloc [simp]: "nxt (alloc n h) = Suc (nxt h)"
  by (simp add: alloc_def)

lemma blk_alloc_old: "b < nxt h \<Longrightarrow> blk (alloc n h) b = blk h b"
  by (simp add: alloc_def)

lemma seg_alloc_new: "seg (alloc n h) (Ptr (nxt h) 0) n = Some (replicate n 0)"
  by (simp add: alloc_def seg.simps)

lemma seg_wf:
  assumes "wf_mem h" and "seg h p k = Some xs" and "0 < k"
  shows "\<exists>b off. p = Ptr b off \<and> b < nxt h"
proof (cases p)
  case (Ptr b off)
  with assms have "blk h b \<noteq> None" by (auto simp: seg.simps split: option.splits)
  with assms(1) Ptr show ?thesis by (auto simp: wf_mem_def not_less [symmetric])
qed (use assms in auto)

lemma seg_alloc_old:
  assumes "mem_ok h" and "seg h p k = Some xs"
  shows "seg (alloc n h) p k = Some xs"
proof (cases "k = 0")
  case False
  then obtain b off where "p = Ptr b off" "b < nxt h" using assms seg_wf [of h p k xs] by (auto simp: mem_ok_def)
  with assms show ?thesis using seg_other_block [of "alloc n h" b h off k] by (simp add: blk_alloc_old)
qed (use assms in simp)

lemma seg_fresh_sep:
  assumes "mem_ok h" and "seg h p k = Some xs"
  shows "sep p k (Ptr (nxt h) off) n"
proof (cases "k = 0")
  case True
  then show ?thesis by (cases p) auto
next
  case False
  then obtain b o' where "p = Ptr b o'" "b < nxt h" using assms seg_wf [of h p k xs] by (auto simp: mem_ok_def)
  then show ?thesis by simp
qed

lemma seg_put_fresh:
  assumes "mem_ok h" and "seg h p k = Some xs" 
  shows "seg (put (Ptr (nxt h) off) ys (alloc n h)) p k = Some xs"
  using assms by (simp add: seg_put_sep seg_fresh_sep seg_alloc_old)

section \<open>Correctness of the basic operations\<close>

definition strip :: "u64 list \<Rightarrow> u64 list" where
  "strip ws = rev (dropWhile (\<lambda>w. w = 0) (rev ws))"

lemma strip_snoc: "strip (ws @ [w]) = (if w = 0 then strip ws else ws @ [w])"
  by (simp add: strip_def)

lemma strip_Nil [simp]: "strip [] = []"
  by (simp add: strip_def)

lemma normal_strip: "normal (strip ws)"
  by (induction ws rule: rev_induct) (auto simp: strip_snoc normal_def)

lemma strip_normal: "normal ws \<Longrightarrow> strip ws = ws"
  by (cases ws rule: rev_cases) (auto simp: strip_snoc normal_def)

lemma val_strip [simp]: "val (strip ws) = val ws"
  by (induction ws rule: rev_induct) (auto simp: strip_snoc val_append)

lemma length_strip_le: "length (strip ws) \<le> length ws"
  by (induction ws rule: rev_induct) (auto simp: strip_snoc)

lemma strip_take: "strip ws = take (length (strip ws)) ws"
  by (induction ws rule: rev_induct) (auto simp: strip_snoc length_strip_le)

lemma norm_loop_strip:
  "seg h d n = Some ws \<Longrightarrow> norm_loop d n h = Inr (length (strip ws))"
proof (induction n arbitrary: ws)
  case (Suc n)
  have len: "length ws = Suc n" using Suc.prems by (rule seg_length)
  then obtain vs w where ws: "ws = vs @ [w]" by (metis append_butlast_last_id length_0_conv nat.simps(3))
  have "seg h d n = Some vs" using seg_take(1) [OF Suc.prems, of n] ws len by simp
  moreover have "rd d n h = Inr w" using rd_seg [OF Suc.prems, of n] ws len by (simp add: nth_append)
  ultimately show ?case using Suc.IH ws len by (simp add: strip_snoc)
qed simp

lemma natNorm_words:
  assumes "words h x ws"
  shows "natNorm x h = Inr (x\<lparr>nlen := length (strip ws)\<rparr>)"
    and "words h (x\<lparr>nlen := length (strip ws)\<rparr>) (strip ws)"
proof -
  show "natNorm x h = Inr (x\<lparr>nlen := length (strip ws)\<rparr>)"
    using assms by (simp add: natNorm_def words_def norm_loop_strip)
  have "length ws = nlen x" using assms by (auto simp: words_def dest: seg_length)
  then show "words h (x\<lparr>nlen := length (strip ws)\<rparr>) (strip ws)"
    using assms seg_take(1) [of h "ndata x" "nlen x" ws "length (strip ws)"] length_strip_le [of ws]
    by (simp add: words_def strip_take [symmetric])
qed

lemma natPart_ok:
  "from \<le> to \<Longrightarrow> natPart p from to =
    Inr \<lparr>ndata = padd (ndata p) from, nlen = to - from, ncap = to - from, npart = (0 < from)\<rparr>"
  by (simp add: natPart_def)


lemma val_nth_split:
  assumes "j < length ws"
  shows "val ws = val (take j ws) + Base ^ j * (unat (ws ! j) + Base * val (drop (Suc j) ws))"
proof -
  have "ws = take j ws @ ws ! j # drop (Suc j) ws" using assms by (rule id_take_nth_drop)
  then have "val ws = val (take j ws @ ws ! j # drop (Suc j) ws)" by simp
  also have "\<dots> = val (take j ws) + Base ^ j * (unat (ws ! j) + Base * val (drop (Suc j) ws))"
    using assms by (subst val_append) (simp add: min_def)
  finally show ?thesis .
qed

lemma val_less_at:
  assumes "j < length xs" and "length xs = length ys"
    and "drop (Suc j) xs = drop (Suc j) ys" and "unat (xs ! j) < unat (ys ! j)"
  shows "val xs < val ys"
proof -
  have "val (take j xs) < Base ^ j" using val_bound [of "take j xs"] assms(1) by (simp add: min_def)
  then have "(unat (xs ! j) + Base * val (drop (Suc j) xs)) * Base ^ j + val (take j xs) <
      (unat (ys ! j) + Base * val (drop (Suc j) ys)) * Base ^ j"
    using assms(3,4) by (intro two_digit_less) auto
  then show ?thesis
    using val_nth_split [of j xs] val_nth_split [of j ys] assms(1,2) by (simp add: mult.commute)
qed

lemma cmp_loop_top:
  assumes "seg h x n = Some xs" and "seg h y n = Some ys" and "i < n"
  shows "\<exists>j \<le> i. cmp_loop x y i h = Inr j \<and> (\<forall>k. j < k \<and> k \<le> i \<longrightarrow> xs ! k = ys ! k) \<and>
    (j = 0 \<or> xs ! j \<noteq> ys ! j)"
  using assms(3)
proof (induction i)
  case (Suc i)
  have rd: "rd x (Suc i) h = Inr (xs ! Suc i)" "rd y (Suc i) h = Inr (ys ! Suc i)"
    using assms Suc.prems by (auto intro: rd_seg)
  show ?case
  proof (cases "xs ! Suc i = ys ! Suc i")
    case True
    from Suc obtain j where "j \<le> i" "cmp_loop x y i h = Inr j"
      "\<forall>k. j < k \<and> k \<le> i \<longrightarrow> xs ! k = ys ! k" "j = 0 \<or> xs ! j \<noteq> ys ! j" by auto
    with True rd show ?thesis by (intro exI [of _ j]) (auto simp: le_Suc_eq)
  qed (use rd in auto)
qed simp

lemma natCmp_same_length:
  assumes "words h x xs" and "words h y ys" and "length xs = length ys"
  shows "natCmp x y h = Inr (if val xs < val ys then -1 else if val ys < val xs then 1 else 0)"
proof (cases "xs = []")
  case True
  then show ?thesis using assms by (auto simp: natCmp_def words_def Let_def dest!: seg_length)
next
  case False
  define n where "n = length xs"
  have n: "nlen x = n" "nlen y = n" "0 < n" "length ys = n"
    using assms False by (auto simp: n_def words_def dest: seg_length)
  note sx = assms(1) [unfolded words_def n] and sy = assms(2) [unfolded words_def n]
  obtain j where j: "j \<le> n - 1" "cmp_loop (ndata x) (ndata y) (n - 1) h = Inr j"
    "\<forall>k. j < k \<and> k \<le> n - 1 \<longrightarrow> xs ! k = ys ! k" "j = 0 \<or> xs ! j \<noteq> ys ! j"
    using cmp_loop_top [OF sx sy, of "n - 1"] n by auto
  have jn: "j < n" using j n by linarith
  have top: "drop (Suc j) xs = drop (Suc j) ys"
    using j(3) n by (intro nth_equalityI) (auto simp: n_def)
  have cmp: "natCmp x y h = Inr (if xs ! j < ys ! j then -1 else if ys ! j < xs ! j then 1 else 0)"
    using n j(2) rd_seg [OF sx jn] rd_seg [OF sy jn] by (simp add: natCmp_def Let_def)
  show ?thesis
  proof (cases "xs ! j" "ys ! j" rule: linorder_cases)
    case less
    then have "val xs < val ys"
      using jn n top by (intro val_less_at [of j]) (auto simp: n_def word_less_nat_alt)
    with less cmp show ?thesis by simp
  next
    case equal
    with j(4) have "j = 0" by simp
    then have "val xs = val ys"
      using val_nth_split [of 0 xs] val_nth_split [of 0 ys] n top equal by (simp add: n_def)
    with equal cmp show ?thesis by simp
  next
    case greater
    then have "val ys < val xs"
      using jn n top by (intro val_less_at [of j]) (auto simp: n_def word_less_nat_alt)
    with greater cmp show ?thesis by simp
  qed
qed

lemma natCmp_words:
  assumes "words h x xs" and "words h y ys" and "normal xs" and "normal ys"
  shows "natCmp x y h = Inr (if val xs < val ys then -1 else if val ys < val xs then 1 else 0)"
proof (cases "length xs = length ys")
  case False
  have n: "nlen x = length xs" "nlen y = length ys"
    using assms by (auto simp: words_def dest: seg_length)
  show ?thesis
    using False normal_length_less [of ys xs] normal_length_less [of xs ys] assms
    by (auto simp: natCmp_def Let_def n)
qed (rule natCmp_same_length [OF assms(1,2)])

lemma clear_loop_from:
  assumes "seg h d n = Some ws" and "k \<le> n"
  shows "clear_loop d n k (put d (replicate k 0) h) = Inr (put d (replicate n 0) h)"
  using assms(2)
proof (induction "n - k" arbitrary: k)
  case 0
  then show ?case by (subst clear_loop.simps) simp
next
  case (Suc m)
  then have k: "k < n" by simp
  have "wr d k 0 (put d (replicate k 0) h) = Inr (put d (replicate (Suc k) 0) h)"
    using wr_ahead [OF assms(1), of "replicate k 0" 0] k by (simp add: replicate_append_same)
  with Suc.hyps(1) [of "Suc k"] Suc.hyps(2) k show ?case by (subst clear_loop.simps) simp
qed

lemma natClear_words:
  "words h x ws \<Longrightarrow> natClear x h = Inr (put (ndata x) (replicate (nlen x) 0) h)"
  using clear_loop_from [of h "ndata x" "nlen x" ws 0] by (simp add: natClear_def words_def)

section \<open>Memory that only grows\<close>

text \<open>\<open>extends h h'\<close>: everything allocated in \<open>h\<close> is unchanged in \<open>h'\<close>.\<close>

definition extends :: "mem \<Rightarrow> mem \<Rightarrow> bool" where
  "extends h h' \<longleftrightarrow> mem_ok h \<and> mem_ok h' \<and> nxt h \<le> nxt h' \<and> (\<forall>b < nxt h. blk h' b = blk h b)"

lemma extends_refl [simp]: "mem_ok h \<Longrightarrow> extends h h"
  by (simp add: extends_def)

lemma extends_trans [trans]: "extends h h' \<Longrightarrow> extends h' h'' \<Longrightarrow> extends h h''"
  by (auto simp: extends_def)

lemma extends_alloc [simp]: "mem_ok h \<Longrightarrow> extends h (alloc n h)"
  by (auto simp: extends_def blk_alloc_old)

lemma extends_mem_ok: "extends h h' \<Longrightarrow> mem_ok h'"
  by (simp add: extends_def)

lemma blk_put_other: "b \<noteq> b' \<Longrightarrow> blk (put (Ptr b off) xs h) b' = blk h b'"
  by (simp add: put.simps)

lemma extends_put:
  assumes "extends h h'" and "nxt h \<le> b"
  shows "extends h (put (Ptr b off) xs h')"
  using assms by (auto simp: extends_def blk_put_other)

lemma seg_extends:
  assumes "extends h h'" and "seg h p k = Some xs"
  shows "seg h' p k = Some xs"
proof (cases "k = 0")
  case False
  then obtain b off where "p = Ptr b off" "b < nxt h"
    using assms seg_wf [of h p k xs] by (auto simp: extends_def mem_ok_def)
  with assms show ?thesis using seg_other_block [of h' b h off k] by (simp add: extends_def)
qed (use assms in simp)

lemma words_extends: "extends h h' \<Longrightarrow> words h x ws \<Longrightarrow> words h' x ws"
  by (auto simp: words_def intro: seg_extends)

lemma words_length: "words h x ws \<Longrightarrow> length ws = nlen x"
  by (auto simp: words_def dest: seg_length)

section \<open>New numbers\<close>

lemma natNew_words:
  assumes "mem_ok h"
  obtains z h' where "natNew v h = Inr (z, h')" and "words h' z [v]" and "extends h h'"
    and "z = \<lparr>ndata = Ptr (nxt h) 0, nlen = 1, ncap = 8, npart = False\<rparr>"
proof -
  let ?p = "Ptr (nxt h) 0"
  have sz: "seg (alloc 8 h) ?p 8 = Some (replicate 8 0)" by (rule seg_alloc_new)
  have "wr ?p 0 v (alloc 8 h) = Inr (put ?p [v] (alloc 8 h))" using wr_seg [OF sz, of 0 v] by simp
  then have "natNew v h = Inr (\<lparr>ndata = ?p, nlen = 1, ncap = 8, npart = False\<rparr>, put ?p [v] (alloc 8 h))"
    by (simp add: natNew_def natNewLen_ok [OF assms])
  then show thesis
  proof (rule that)
    show "words (put ?p [v] (alloc 8 h)) \<lparr>ndata = ?p, nlen = 1, ncap = 8, npart = False\<rparr> [v]"
      using seg_put_same [of "alloc 8 h" ?p "[v]"] seg_take(1) [OF sz, of 1] by (simp add: words_def)
    show "extends h (put ?p [v] (alloc 8 h))" by (rule extends_put) (simp_all add: assms)
  qed simp
qed

lemma words_nonempty: "words h x ws \<Longrightarrow> ws \<noteq> [] \<Longrightarrow> 0 < nlen x"
  using words_length [of h x ws] by (cases ws) auto

lemma natDup_words:
  assumes "mem_ok h" and "words h x xs"
  obtains z h' where "natDup x h = Inr (z, h')" and "words h' z xs" and "extends h h'"
    and "0 < nlen x \<longrightarrow> ndata z = Ptr (nxt h) 0 \<and> \<not> npart z"
proof (cases "nlen x = 0")
  case True
  then have "natDup x h = Inr (\<lparr>ndata = Null, nlen = 0, ncap = 0, npart = False\<rparr>, h)"
    by (simp add: natDup_def natNewLen_0 memcpy_def)
  then show thesis
    by (rule that) (use True assms in \<open>auto simp: words_def\<close>)
next
  case False
  let ?n = "nlen x" and ?p = "Ptr (nxt h) 0"
  have ext: "extends h (alloc ?n h)" using assms by simp
  have sz: "seg (alloc ?n h) ?p ?n = Some (replicate ?n 0)" by (rule seg_alloc_new)
  have sx: "seg (alloc ?n h) (ndata x) ?n = Some xs" using words_extends [OF ext assms(2)] by (simp add: words_def)
  have "natDup x h = Inr (\<lparr>ndata = ?p, nlen = ?n, ncap = ?n, npart = False\<rparr>, put ?p xs (alloc ?n h))"
    using False natNewLen_ok [OF assms(1), of ?n] memcpy_seg [OF sx sz] by (simp add: natDup_def)
  then show thesis
  proof (rule that)
    show "words (put ?p xs (alloc ?n h)) \<lparr>ndata = ?p, nlen = ?n, ncap = ?n, npart = False\<rparr> xs"
      using seg_put_same [of "alloc ?n h" ?p xs] sz words_length [OF assms(2)] by (simp add: words_def)
    show "extends h (put ?p xs (alloc ?n h))" using ext by (rule extends_put) simp
  qed simp
qed

section \<open>Concrete memories\<close>

text \<open>A memory holding the given blocks, and the slice of the first words of a block.\<close>

definition mem_of :: "u64 list list \<Rightarrow> mem" where
  "mem_of bs = \<lparr>blk = (\<lambda>b. if b < length bs then Some (bs ! b) else None), nxt = length bs,
     nomem = (\<lambda>_. False), junk_word = 0\<rparr>"

definition slice :: "nat \<Rightarrow> nat \<Rightarrow> cnat" where
  "slice b n = \<lparr>ndata = Ptr b 0, nlen = n, ncap = n, npart = False\<rparr>"

lemma mem_ok_mem_of [simp]: "mem_ok (mem_of bs)"
  by (simp add: mem_ok_def wf_mem_def mem_of_def)

lemma words_mem_of [simp]:
  "b < length bs \<Longrightarrow> length (bs ! b) = n \<Longrightarrow> words (mem_of bs) (slice b n) (bs ! b)"
  by (auto simp: words_def mem_of_def slice_def seg.simps)

end
