(* ===== verification/NatVec.thy ===== *)
theory NatVec
  imports NatCore
begin

text \<open>
  What \<open>natadd.c\<close> and \<open>natsub.c\<close> share. Both files build their vector routines from a word
  operation with carry in the same way, so the facts about the loops are proved once, in a locale
  whose parameters are the word operation and the sign of the second operand.
\<close>

text \<open>
  One iteration of \<open>addVW\<close> or \<open>subVW\<close> on the pair \<open>(c, oc)\<close>: the word operation gets \<open>c\<close> as its
  second operand and \<open>oc\<close> as its carry-in, and then \<open>c = oc\<close>. The code does not reset \<open>oc\<close>, so
  from the second word on the carry enters twice.
\<close>

definition vw_step :: "(u64 \<Rightarrow> u64 \<Rightarrow> u64 \<Rightarrow> u64 \<times> u64) \<Rightarrow> u64 \<Rightarrow> u64 \<times> u64 \<Rightarrow> u64 \<times> (u64 \<times> u64)" where
  "vw_step f a s = (case s of (c, oc) \<Rightarrow> let (zi, oc) = f a c oc in (zi, (oc, oc)))"

lemma vw_step_pair: "vw_step f a (c, oc) = (case f a c oc of (zi, oc) \<Rightarrow> (zi, (oc, oc)))"
  by (simp add: vw_step_def)

section \<open>Word operations with carry\<close>

locale carry_word =
  fixes wop :: "u64 \<Rightarrow> u64 \<Rightarrow> u64 \<Rightarrow> u64 \<times> u64" and sg :: int
  assumes sg: "sg = 1 \<or> sg = -1"
    and wop_sum: "unat c \<le> 1 \<Longrightarrow> wop x y c = (s, d) \<Longrightarrow>
      int (unat s) + sg * int (Base * unat d) = int (unat x) + sg * int (unat y + unat c)"
    and wop_carry: "unat c \<le> 1 \<Longrightarrow> wop x y c = (s, d) \<Longrightarrow> unat d \<le> 1"
begin

lemma wop_0: "wop x 0 0 = (x, 0)"
proof -
  obtain s d where s: "wop x 0 0 = (s, d)" by fastforce
  have "int (unat s) + sg * int (Base * unat d) = int (unat x)" using wop_sum [OF _ s] by simp
  moreover from this sg have "unat d = 0" using unat64_less [of x] unat64_less [of s] by auto
  ultimately have "unat d = 0 \<and> unat s = unat x" by simp
  then show ?thesis using s by (simp add: word_unat_eq_iff)
qed

text \<open>Whether the result of a word operation without carry-in is again a word.\<close>

definition absorbs :: "u64 \<Rightarrow> u64 \<Rightarrow> bool" where
  "absorbs x y \<longleftrightarrow> 0 \<le> int (unat x) + sg * int (unat y) \<and> int (unat x) + sg * int (unat y) < int Base"

lemma wop_first:
  assumes "wop x y 0 = (s, d)"
  shows "int (unat s) + sg * int (Base * unat d) = int (unat x) + sg * int (unat y)"
    and "d = (if absorbs x y then 0 else 1)"
proof -
  show e: "int (unat s) + sg * int (Base * unat d) = int (unat x) + sg * int (unat y)"
    using wop_sum [OF _ assms] by simp
  have "unat d \<le> 1" using wop_carry [OF _ assms] by simp
  then consider "unat d = 0" | "unat d = 1" by linarith
  then show "d = (if absorbs x y then 0 else 1)"
    using e sg unat64_less [of s] by cases (auto simp: absorbs_def word_unat_eq_iff)
qed

lemma vmap2_sum:
  assumes "vmap2 wop c xs ys = (zs, c')" and "length xs = length ys" and "unat c \<le> 1"
  shows "int (val zs) + sg * int (Base ^ length xs * unat c') = int (val xs) + sg * int (val ys + unat c) \<and>
    unat c' \<le> 1"
  using assms
proof (induction xs arbitrary: ys zs c c')
  case (Cons x xs)
  then obtain y ys' where ys: "ys = y # ys'" by (cases ys) auto
  obtain v d where v: "wop x y c = (v, d)" by fastforce
  obtain vs e where vs: "vmap2 wop d xs ys' = (vs, e)" by fastforce
  note s = wop_sum [OF Cons.prems(3) v] wop_carry [OF Cons.prems(3) v]
  from Cons.IH [OF vs _ s(2)] Cons.prems ys
  have IH: "int (val vs) + sg * int (Base ^ length xs * unat e) = int (val xs) + sg * int (val ys' + unat d)"
    "unat e \<le> 1" by simp_all
  have zs: "zs = v # vs" "c' = e" using Cons.prems ys v vs by auto
  from arg_cong [OF IH(1), of "\<lambda>t. int Base * t"] s(1) IH(2) ys zs show ?case
    by (simp add: algebra_simps)
qed auto

lemma vmap1_0: "vmap1 (vw_step wop) (0, 0) xs = (xs, (0, 0))"
  by (induction xs) (simp_all add: vw_step_pair wop_0)

lemma vmap1_twice:
  assumes "vmap1 (vw_step wop) (c, c) xs = (zs, (c', d))" and "unat c \<le> 1" and "xs \<noteq> []"
  shows "sg * int (val xs) + 2 * int (unat c) \<le> sg * int (val zs) + int (Base ^ length xs * unat c') \<and>
    unat c' \<le> 1"
  using assms
proof (induction xs arbitrary: zs c c' d)
  case (Cons x xs)
  obtain v e where v: "wop x c c = (v, e)" by fastforce
  note s = wop_sum [OF Cons.prems(2) v] wop_carry [OF Cons.prems(2) v]
  obtain vs f g where vs: "vmap1 (vw_step wop) (e, e) xs = (vs, (f, g))" by (metis prod.collapse)
  have zs: "zs = v # vs" "c' = f" using Cons.prems v vs by (auto simp: vw_step_pair)
  have IH: "sg * int (val xs) + int (unat e) \<le> sg * int (val vs) + int (Base ^ length xs * unat f) \<and> unat f \<le> 1"
    using Cons.IH [OF vs s(2)] vs s(2) by (cases xs) auto
  from sg show ?case
  proof
    assume [simp]: "sg = 1"
    show ?thesis using IH s(1) zs by (simp add: algebra_simps)
  next
    assume [simp]: "sg = -1"
    show ?thesis using IH s(1) zs by (simp add: algebra_simps)
  qed
qed auto

text \<open>
  A word is added to (subtracted from) a vector correctly exactly when the first word absorbs it
  or is the only one.
\<close>

lemma vmap1_word:
  assumes "vmap1 (vw_step wop) (y, 0) xs = (zs, (c, d))"
  shows "int (val zs) + sg * int (Base ^ length xs * unat c) = int (val xs) + sg * int (unat y) \<longleftrightarrow>
    length xs \<le> 1 \<or> absorbs (xs ! 0) y" and "0 < length xs \<longrightarrow> unat c \<le> 1"
proof -
  have "(int (val zs) + sg * int (Base ^ length xs * unat c) = int (val xs) + sg * int (unat y) \<longleftrightarrow>
    length xs \<le> 1 \<or> absorbs (xs ! 0) y) \<and> (0 < length xs \<longrightarrow> unat c \<le> 1)"
  proof (cases xs)
    case Nil
    then show ?thesis using assms by simp
  next
    case (Cons x xs')
    obtain v e where v: "wop x y 0 = (v, e)" by fastforce
    note s = wop_first [OF v]
    obtain vs f g where vs: "vmap1 (vw_step wop) (e, e) xs' = (vs, (f, g))" by (metis prod.collapse)
    have zs: "zs = v # vs" "c = f" using assms Cons v vs by (auto simp: vw_step_pair)
    consider "absorbs x y" | "\<not> absorbs x y" "xs' = []" | "\<not> absorbs x y" "xs' \<noteq> []" by blast
    then show ?thesis
    proof cases
      case 1
      then have "e = 0" using s by simp
      then have "vs = xs'" "f = 0" using vs vmap1_0 [of xs'] by auto
      with s(1) zs Cons 1 \<open>e = 0\<close> show ?thesis by (simp add: algebra_simps)
    next
      case 2
      then show ?thesis using vs zs Cons s by (auto simp: algebra_simps)
    next
      case 3
      then have e: "e = 1" using s by simp
      have big: "sg * int (val xs') + 2 \<le> sg * int (val vs) + int (Base ^ length xs' * unat f)" "unat f \<le> 1"
        using vmap1_twice [OF vs _ 3(2)] e by simp_all
      from sg s(1) e zs Cons 3 big show ?thesis
        by (cases xs') (auto simp: algebra_simps)
    qed
  qed
  then show "int (val zs) + sg * int (Base ^ length xs * unat c) = int (val xs) + sg * int (unat y) \<longleftrightarrow>
    length xs \<le> 1 \<or> absorbs (xs ! 0) y" and "0 < length xs \<longrightarrow> unat c \<le> 1" by auto
qed

lemma loop2_sum:
  assumes "seg h z n = Some zs0" and "seg h x n = Some xs" and "seg h y n = Some ys"
    and "aliased x z n" and "aliased y z n"
  obtains zs c where "vloop2 wop z x y n 0 0 h = Inr (c, put z zs h)" and "length zs = n"
    and "int (val zs) + sg * int (Base ^ n * unat c) = int (val xs) + sg * int (val ys)"
    and "unat c \<le> 1"
proof -
  obtain zs c where zs: "vmap2 wop 0 xs ys = (zs, c)" by fastforce
  have len: "length xs = n" "length ys = n" using assms by (auto dest: seg_length)
  have "vloop2 wop z x y n 0 0 h = Inr (c, put z zs h)" using assms by (simp add: vloop2_seg zs)
  then show thesis
    by (rule that) (use length_vmap2 [OF zs] vmap2_sum [OF zs] len in simp_all)
qed

lemma loop1_sum:
  assumes "seg h z n = Some zs0" and "seg h x n = Some xs" and "aliased x z n"
  obtains zs c d where "vloop1 (vw_step wop) z x n 0 (y, 0) h = Inr ((c, d), put z zs h)" and "length zs = n"
    and "int (val zs) + sg * int (Base ^ n * unat c) = int (val xs) + sg * int (unat y) \<longleftrightarrow>
      n \<le> 1 \<or> absorbs (xs ! 0) y"
    and "0 < n \<longrightarrow> unat c \<le> 1"
proof -
  obtain zs c d where zs: "vmap1 (vw_step wop) (y, 0) xs = (zs, (c, d))" by (metis prod.collapse)
  have len: "length xs = n" using assms by (auto dest: seg_length)
  have "vloop1 (vw_step wop) z x n 0 (y, 0) h = Inr ((c, d), put z zs h)"
    using assms by (simp add: vloop1_seg zs)
  then show thesis
    by (rule that) (use length_vmap1 [OF zs] vmap1_word [OF zs] len in auto)
qed

end

section \<open>Vector operations with carry\<close>

text \<open>
  \<open>low_fits sg xs ys\<close>: the words of \<open>xs\<close> below the length of \<open>ys\<close> take \<open>ys\<close> (with sign \<open>sg\<close>) without a
  carry. \<open>carry_clean sg xs ys\<close>: such a carry is absent, or has only one word to go to, or stops at
  the first one.
\<close>

definition low_fits :: "int \<Rightarrow> u64 list \<Rightarrow> u64 list \<Rightarrow> bool" where
  "low_fits sg xs ys \<longleftrightarrow>
     (let low = int (val (take (length ys) xs)) + sg * int (val ys)
      in 0 \<le> low \<and> low < int (Base ^ length ys))"

definition carry_clean :: "int \<Rightarrow> u64 list \<Rightarrow> u64 list \<Rightarrow> bool" where
  "carry_clean sg xs ys \<longleftrightarrow>
     length xs \<le> Suc (length ys) \<or> low_fits sg xs ys \<or>
     (let next = int (unat (xs ! length ys)) + sg in 0 \<le> next \<and> next < int Base)"

lemma split_value:
  fixes s :: int and v w t y b d :: nat
  assumes "int v + s * int (Base ^ n * c) = int t + s * int y"
  shows "int (v + Base ^ n * w) + s * int (Base ^ n * Base ^ k * d) = int (t + Base ^ n * b) + s * int y \<longleftrightarrow>
    int w + s * int (Base ^ k * d) = int b + s * int c"
proof -
  have "int (v + Base ^ n * w) + s * int (Base ^ n * Base ^ k * d) =
      int v + int (Base ^ n) * (int w + s * int (Base ^ k * d))" by (simp add: algebra_simps)
  moreover have "int (t + Base ^ n * b) + s * int y = int v + int (Base ^ n) * (int b + s * int c)"
    using assms by (simp add: algebra_simps)
  ultimately show ?thesis by (simp only: add_left_cancel mult_cancel_left) simp
qed

text \<open>
  \<open>vv\<close> is \<open>addVV\<close> or \<open>subVV\<close>, \<open>vw\<close> is \<open>addVW\<close> or \<open>subVW\<close>. \<open>natAdd\<close> and \<open>natSub\<close> apply \<open>vv\<close> to the words
  both operands have and \<open>vw\<close> to the remaining words of the longer one.
\<close>

locale carry_vec = carry_word +
  fixes vv :: "cnat \<Rightarrow> cnat \<Rightarrow> cnat \<Rightarrow> mem \<Rightarrow> (u64 \<times> mem) result"
    and vw :: "cnat \<Rightarrow> cnat \<Rightarrow> u64 \<Rightarrow> mem \<Rightarrow> (u64 \<times> mem) result"
  assumes vv_loop: "vv z x y h =
      vloop2 wop (ndata z) (ndata x) (ndata y) (min (nlen z) (min (nlen x) (nlen y))) 0 0 h"
    and vw_small: "nlen z \<le> 32 \<Longrightarrow> vw z x w h =
      bnd (vloop1 (vw_step wop) (ndata z) (ndata x) (min (nlen z) (nlen x)) 0 (w, 0) h) (\<lambda>((c, oc), h). Inr (c, h))"
    and vw_copy: "32 < nlen z \<Longrightarrow> 0 < nlen x \<Longrightarrow>
      vw z x 0 h = bnd (memcpy (ndata z) (ndata x) (nlen x) h) (\<lambda>h. Inr (0, h))"
begin

lemma vv_sum:
  assumes "seg h (ndata z) n = Some zs0" and "seg h (ndata x) n = Some xs" and "seg h (ndata y) n = Some ys"
    and "aliased (ndata x) (ndata z) n" and "aliased (ndata y) (ndata z) n"
    and "min (nlen z) (min (nlen x) (nlen y)) = n"
  obtains zs c where "vv z x y h = Inr (c, put (ndata z) zs h)" and "length zs = n"
    and "int (val zs) + sg * int (Base ^ n * unat c) = int (val xs) + sg * int (val ys)"
    and "unat c \<le> 1"
  using loop2_sum [OF assms(1-5)] assms(6) by (metis vv_loop)

lemma absorbs_0: "absorbs x 0"
  using unat64_less [of x] by (simp add: absorbs_def)

lemma vw_sum:
  assumes "seg h (ndata z) n = Some zs0" and "seg h (ndata x) n = Some xs"
    and "aliased (ndata x) (ndata z) n" and "nlen z = n" and "nlen x = n" and "0 < n"
    and "y = 0 \<or> n \<le> 32"
  obtains zs c where "vw z x y h = Inr (c, put (ndata z) zs h)" and "length zs = n"
    and "int (val zs) + sg * int (Base ^ n * unat c) = int (val xs) + sg * int (unat y) \<longleftrightarrow>
      n = 1 \<or> absorbs (xs ! 0) y"
    and "unat c \<le> 1"
proof (cases "n \<le> 32")
  case True
  obtain zs c d where "vloop1 (vw_step wop) (ndata z) (ndata x) n 0 (y, 0) h = Inr ((c, d), put (ndata z) zs h)"
    "length zs = n" "int (val zs) + sg * int (Base ^ n * unat c) = int (val xs) + sg * int (unat y) \<longleftrightarrow>
      n \<le> 1 \<or> absorbs (xs ! 0) y" "0 < n \<longrightarrow> unat c \<le> 1"
    by (rule loop1_sum [OF assms(1-3)])
  then show thesis
    using True assms by (intro that [of c zs]) (auto simp: vw_small le_Suc_eq)
next
  case False
  with assms have "vw z x y h = Inr (0, put (ndata z) xs h)" by (simp add: vw_copy memcpy_seg)
  then show thesis
    using False assms seg_length [OF assms(2)] by (intro that [of 0 xs]) (auto simp: absorbs_0)
qed

text \<open>The part \<open>natAdd\<close> and \<open>natSub\<close> have in common, on a fresh result vector.\<close>

lemma vw_high:
  assumes "seg h p m = Some zs0" and "seg h x m = Some xs" and "n < m" and "sep x m p m"
    and "c = 0 \<or> m - n \<le> 32"
  obtains zs d where "vw \<lparr>ndata = padd p n, nlen = m - n, ncap = m - n, npart = k\<rparr>
      \<lparr>ndata = padd x n, nlen = m - n, ncap = m - n, npart = k\<rparr> c h = Inr (d, put (padd p n) zs h)"
    and "length zs = m - n" and "unat d \<le> 1"
    and "int (val zs) + sg * int (Base ^ (m - n) * unat d) = int (val (drop n xs)) + sg * int (unat c) \<longleftrightarrow>
      m - n = 1 \<or> absorbs (xs ! n) c"
proof -
  let ?zz = "\<lparr>ndata = padd p n, nlen = m - n, ncap = m - n, npart = k\<rparr>"
  let ?xx = "\<lparr>ndata = padd x n, nlen = m - n, ncap = m - n, npart = k\<rparr>"
  have "seg h (ndata ?zz) (m - n) = Some (drop n zs0)" "seg h (ndata ?xx) (m - n) = Some (drop n xs)"
    using seg_take(2) [OF assms(1), of n] seg_take(2) [OF assms(2), of n] assms(3) by simp_all
  moreover have "aliased (ndata ?xx) (ndata ?zz) (m - n)"
    using assms(4) assms(3) by (cases x; cases p) (auto simp: aliased_def)
  moreover have "nlen ?zz = m - n" "nlen ?xx = m - n" "0 < m - n" "c = 0 \<or> m - n \<le> 32"
    using assms by simp_all
  ultimately obtain zs d where "vw ?zz ?xx c h = Inr (d, put (ndata ?zz) zs h)" "length zs = m - n"
    "int (val zs) + sg * int (Base ^ (m - n) * unat d) = int (val (drop n xs)) + sg * int (unat c) \<longleftrightarrow>
      m - n = 1 \<or> absorbs (drop n xs ! 0) c" "unat d \<le> 1"
    by (rule vw_sum)
  then show thesis using assms(3) seg_length [OF assms(2)] by (intro that) auto
qed

lemma carry_low_fits:
  assumes "v + sg * int (Base ^ n * unat c) = w" and "0 \<le> v" and "v < int (Base ^ n)" and "unat c \<le> 1"
  shows "c = 0 \<longleftrightarrow> 0 \<le> w \<and> w < int (Base ^ n)"
proof -
  consider "unat c = 0" | "unat c = 1" using assms(4) by linarith
  then show ?thesis using assms(1-3) sg by cases (auto simp: word_unat_eq_iff)
qed

lemma split_run:
  assumes "seg h p m = Some zs0" and "seg h (ndata x) m = Some xs" and "seg h (ndata y) n = Some ys"
    and "sep (ndata x) m p m" and "sep (ndata y) n p m" and "nlen x = m" and "nlen y = n"
    and "n \<le> m" and "m - n \<le> 32 \<or> low_fits sg xs ys"
  obtains zs c d h' where "vv \<lparr>ndata = p, nlen = n, ncap = n, npart = False\<rparr> x y h = Inr (c, h')"
    and "n < m \<longrightarrow> vw \<lparr>ndata = padd p n, nlen = m - n, ncap = m - n, npart = k\<rparr>
        \<lparr>ndata = padd (ndata x) n, nlen = m - n, ncap = m - n, npart = k\<rparr> c h' = Inr (d, put p zs h)"
    and "n = m \<longrightarrow> d = c \<and> h' = put p zs h" and "length zs = m" and "unat d \<le> 1"
    and "int (val zs) + sg * int (Base ^ m * unat d) = int (val xs) + sg * int (val ys) \<longleftrightarrow> carry_clean sg xs ys"
proof -
  let ?z1 = "\<lparr>ndata = p, nlen = n, ncap = n, npart = False\<rparr>"
  have len: "length xs = m" "length ys = n" using assms by (auto dest: seg_length)
  have pre: "seg h (ndata ?z1) n = Some (take n zs0)" "seg h (ndata x) n = Some (take n xs)"
    using seg_take(1) [OF assms(1,8)] seg_take(1) [OF assms(2,8)] by simp_all
  have pre2: "aliased (ndata x) (ndata ?z1) n" "aliased (ndata y) (ndata ?z1) n"
    "min (nlen ?z1) (min (nlen x) (nlen y)) = n"
    using assms sep_mono [OF assms(4), of n n] sep_mono [OF assms(5), of n n] by (auto simp: aliased_def)
  obtain zs1 c where c: "vv ?z1 x y h = Inr (c, put (ndata ?z1) zs1 h)" "length zs1 = n"
    "int (val zs1) + sg * int (Base ^ n * unat c) = int (val (take n xs)) + sg * int (val ys)" "unat c \<le> 1"
    by (rule vv_sum [OF pre assms(3) pre2])
  have c0: "c = 0 \<longleftrightarrow> low_fits sg xs ys"
    unfolding low_fits_def Let_def len(2)
    using val_bound [of zs1] c(2) by (intro carry_low_fits [OF c(3) of_nat_0_le_iff _ c(4)]) (simp only: of_nat_less_iff)
  show thesis
  proof (cases "n < m")
    case False
    then have "n = m" using assms(8) by simp
    then show thesis using c len by (intro that [OF c(1), of c zs1]) (auto simp: carry_clean_def)
  next
    case True
    let ?h = "put p zs1 h"
    have "m - n \<le> 32 \<or> c = 0" using assms(9) c0 by auto
    then have pre3: "n < m" "sep (ndata x) m p m" "c = 0 \<or> m - n \<le> 32" using True assms(4) by auto
    have seg: "seg ?h p m = Some (overlay 0 zs1 zs0)" using seg_put_sub [OF assms(1), of 0 zs1] c(2) assms(8) by simp
    have segx: "seg ?h (ndata x) m = Some xs"
      using assms(2) sep_mono [OF assms(4), of m n] c(2) True by (simp add: seg_put_sep)
    obtain zs2 d where d: "vw \<lparr>ndata = padd p n, nlen = m - n, ncap = m - n, npart = k\<rparr>
        \<lparr>ndata = padd (ndata x) n, nlen = m - n, ncap = m - n, npart = k\<rparr> c ?h = Inr (d, put (padd p n) zs2 ?h)"
      "length zs2 = m - n" "unat d \<le> 1"
      "int (val zs2) + sg * int (Base ^ (m - n) * unat d) = int (val (drop n xs)) + sg * int (unat c) \<longleftrightarrow>
        m - n = 1 \<or> absorbs (xs ! n) c"
      by (rule vw_high [OF seg segx pre3])
    have "absorbs (xs ! n) c \<longleftrightarrow> low_fits sg xs ys \<or> absorbs (xs ! n) 1"
      using c0 c(4) absorbs_0 by (cases "c = 0") (auto simp: word_unat_eq_iff le_Suc_eq absorbs_def)
    then have clean: "carry_clean sg xs ys \<longleftrightarrow> m - n = 1 \<or> absorbs (xs ! n) c"
      using True len by (auto simp: carry_clean_def Let_def absorbs_def)
    show thesis
    proof (rule that [OF c(1), of d "zs1 @ zs2"])
      show "n < m \<longrightarrow> vw \<lparr>ndata = padd p n, nlen = m - n, ncap = m - n, npart = k\<rparr>
        \<lparr>ndata = padd (ndata x) n, nlen = m - n, ncap = m - n, npart = k\<rparr> c (put (ndata ?z1) zs1 h) =
        Inr (d, put p (zs1 @ zs2) h)"
        using d(1) put_put_append [of p zs1 zs2 h] c(2) by simp
      show "int (val (zs1 @ zs2)) + sg * int (Base ^ m * unat d) = int (val xs) + sg * int (val ys) \<longleftrightarrow>
        carry_clean sg xs ys"
        unfolding clean d(4) [symmetric] using split_value [OF c(3), of "val zs2" "m - n" "unat d" "val (drop n xs)"]
          c(2) True len val_take_drop [of xs n] by (simp add: val_append flip: power_add)
    qed (use True d c in auto)
  qed
qed

end

end
