(* ===== verification/NatAdd.thy ===== *)
theory NatAdd
  imports NatVec
begin

text \<open>
  Addition, \<open>cmake/bigint/src/natadd.c\<close>. \<open>addVV\<close> adds two vectors, \<open>addVW\<close> adds a word to a
  vector, \<open>natAdd\<close> adds two numbers.
\<close>

section \<open>Operations\<close>

definition addVV :: "cnat \<Rightarrow> cnat \<Rightarrow> cnat \<Rightarrow> mem \<Rightarrow> (u64 \<times> mem) result" where
  "addVV z x y h =
     vloop2 UIntAdd (ndata z) (ndata x) (ndata y) (min (nlen z) (min (nlen x) (nlen y))) 0 0 h"

function addVWlarge_loop :: "cnat \<Rightarrow> cnat \<Rightarrow> nat \<Rightarrow> u64 \<Rightarrow> u64 \<Rightarrow> mem \<Rightarrow> (u64 \<times> mem) result" where
  "addVWlarge_loop z x i c oc h =
     (if i < nlen z \<and> i < nlen x
      then if c = 0
           then bnd (memcpy (padd (ndata z) i) (padd (ndata x) i) (nlen x) h) (\<lambda>h. Inr (c, h))
           else bnd (rd (ndata x) i h) (\<lambda>a.
                case vw_step UIntAdd a (c, oc) of (zi, (c, oc)) \<Rightarrow>
                bnd (wr (ndata z) i zi h) (\<lambda>h. addVWlarge_loop z x (Suc i) c oc h))
      else Inr (c, h))"
  by pat_completeness auto
termination
  by (relation "measure (\<lambda>(z, x, i, c, oc, h). nlen z - i)") auto

declare addVWlarge_loop.simps [simp del]

definition addVWlarge :: "cnat \<Rightarrow> cnat \<Rightarrow> u64 \<Rightarrow> mem \<Rightarrow> (u64 \<times> mem) result" where
  "addVWlarge z x y h = addVWlarge_loop z x 0 y 0 h"

definition addVW :: "cnat \<Rightarrow> cnat \<Rightarrow> u64 \<Rightarrow> mem \<Rightarrow> (u64 \<times> mem) result" where
  "addVW z x y h =
     (if 32 < nlen z then addVWlarge z x y h
      else bnd (vloop1 (vw_step UIntAdd) (ndata z) (ndata x) (min (nlen z) (nlen x)) 0 (y, 0) h)
             (\<lambda>((c, oc), h). Inr (c, h)))"

function natAdd :: "cnat \<Rightarrow> cnat \<Rightarrow> mem \<Rightarrow> (cnat \<times> mem) result" where
  "natAdd x y h =
     (let m = nlen x; n = nlen y
      in if m < n then natAdd y x h
         else if m = 0 \<or> n = 0 then Inr (x, h)
         else let (z, h) = natNewLen (m + 1) h
              in bnd (natPart z 0 n) (\<lambda>z1.
                 bnd (addVV z1 x y h) (\<lambda>(c, h).
                 bnd (if n < m
                      then bnd (natPart z n m) (\<lambda>zz. bnd (natPart x n (nlen x)) (\<lambda>xx. addVW zz xx c h))
                      else Inr (c, h)) (\<lambda>(c, h).
                 bnd (natSetValue z m c h) (\<lambda>h.
                 bnd (natNorm z h) (\<lambda>z. Inr (z, h)))))))"
  by pat_completeness auto
termination
  by (relation "measure (\<lambda>(x, y, h). if nlen x < nlen y then 1 else 0)") auto

declare natAdd.simps [simp del]

section \<open>The vector routines\<close>

lemma UIntAdd_64 [simp]: "UIntAdd = U64Add"
  by (intro ext) (simp add: UIntAdd_def UintSize_def)

interpretation add: carry_vec UIntAdd 1 addVV addVW
proof
  fix c x y s d :: u64
  assume *: "unat c \<le> 1" "UIntAdd x y c = (s, d)"
  then have "U64Add x y c = (s, d)" by simp
  note U64Add_exact [OF *(1) this]
  then show "int (unat s) + 1 * int (Base * unat d) = int (unat x) + 1 * int (unat y + unat c)"
    and "unat d \<le> 1" by simp_all
qed (simp_all add: addVV_def addVW_def addVWlarge_def addVWlarge_loop.simps [of _ _ 0])

text \<open>Beyond 32 words, a carry that stops at the first word makes the code copy one word too many.\<close>

lemma addVWlarge_overrun:
  assumes "32 < nlen x" and "nlen z = nlen x" and "ndata x = Ptr b off" and "blk h b = Some ws"
    and "length ws = off + nlen x" and "wr (ndata z) 0 v h = Inr h'" and "blk h' b = Some ws'"
    and "length ws' = length ws" and "c \<noteq> 0" and "UIntAdd (ws ! off) c 0 = (v, 0)"
  shows "addVW z x c h = Inl OutOfBounds"
proof -
  have "rd (ndata x) 0 h = Inr (ws ! off)" using assms by (simp add: rd.simps)
  then have "addVW z x c h = addVWlarge_loop z x 1 0 0 h'"
    using assms by (simp add: addVW_def addVWlarge_def addVWlarge_loop.simps [of _ _ 0] vw_step_pair)
  also have "\<dots> = bnd (memcpy (padd (ndata z) 1) (padd (ndata x) 1) (nlen x) h') (\<lambda>h. Inr (0, h))"
    using assms by (simp add: addVWlarge_loop.simps [of _ _ "Suc 0"])
  also have "\<dots> = Inl OutOfBounds" using assms by (simp add: memcpy_def seg.simps)
  finally show ?thesis .
qed

section \<open>Addition of numbers\<close>

lemma natAdd_swap: "nlen x < nlen y \<Longrightarrow> natAdd x y h = natAdd y x h"
  by (subst natAdd.simps) simp

lemma natAdd_empty: "nlen y = 0 \<Longrightarrow> natAdd x y h = Inr (x, h)"
  by (subst natAdd.simps) simp

text \<open>With operands that are not empty, the sum is the only new block.\<close>

lemma natAdd_fresh:
  assumes "mem_ok h" and "words h x xs" and "words h y ys" and "length ys \<le> length xs" and "ys \<noteq> []"
    and "length xs - length ys \<le> 32 \<or> low_fits 1 xs ys"
  obtains z zs h' ws where "natAdd x y h = Inr (z, h')" and "words h' z zs"
    and "val zs = val xs + val ys \<longleftrightarrow> carry_clean 1 xs ys" and "normal zs" and "extends h h'"
    and "ndata z = Ptr (nxt h) 0" and "\<not> npart z" and "nxt h' = Suc (nxt h)" and "blk h' = (blk h)(nxt h \<mapsto> ws)"
proof -
  define m n where "m = length xs" and "n = length ys"
  have len: "nlen x = m" "nlen y = n" "n \<le> m" "0 < n" "0 < m"
    using assms words_length [OF assms(2)] words_length [OF assms(3)] unfolding m_def n_def
    by (auto simp: neq_Nil_conv)
  define p where "p = Ptr (nxt h) 0"
  define z where "z = \<lparr>ndata = p, nlen = Suc m, ncap = Suc m, npart = False\<rparr>"
  define h1 where "h1 = alloc (Suc m) h"
  have ext: "extends h h1" by (simp add: h1_def assms(1))
  have sz: "seg h1 p (Suc m) = Some (replicate (Suc m) 0)" unfolding h1_def p_def by (rule seg_alloc_new)
  note sx = words_extends [OF ext assms(2), unfolded words_def len]
    and sy = words_extends [OF ext assms(3), unfolded words_def len]
  have sepx: "sep (ndata x) m p m" "sep (ndata y) n p m"
    using seg_fresh_sep [OF assms(1)] assms(2,3) len unfolding words_def p_def by auto
  have cond: "m - n \<le> 32 \<or> low_fits 1 xs ys" using assms(6) by (simp add: m_def n_def)
  from seg_take(1) [OF sz, of m] have sz': "seg h1 p m = Some (take m (replicate (Suc m) 0))" by simp
  obtain zs c d h' where r: "addVV \<lparr>ndata = p, nlen = n, ncap = n, npart = False\<rparr> x y h1 = Inr (c, h')"
    "n < m \<longrightarrow> addVW \<lparr>ndata = padd p n, nlen = m - n, ncap = m - n, npart = 0 < n\<rparr>
        \<lparr>ndata = padd (ndata x) n, nlen = m - n, ncap = m - n, npart = 0 < n\<rparr> c h' = Inr (d, put p zs h1)"
    "n = m \<longrightarrow> d = c \<and> h' = put p zs h1" "length zs = m" "unat d \<le> 1"
    "int (val zs) + 1 * int (Base ^ m * unat d) = int (val xs) + 1 * int (val ys) \<longleftrightarrow> carry_clean 1 xs ys"
    by (rule add.split_run [where k = "0 < n", OF sz' sx sy sepx len(1-3) cond])
  have w: "wr p m d (put p zs h1) = Inr (put p (zs @ [d]) h1)"
    using wr_ahead [OF sz, of zs d] r(4) by simp
  have wz: "words (put p (zs @ [d]) h1) z (zs @ [d])"
    using seg_put_same [of h1 p "zs @ [d]"] sz r(4) by (simp add: words_def z_def)
  have new: "natNewLen (Suc m) h = (z, h1)" using natNewLen_ok [OF assms(1)] by (simp add: z_def p_def h1_def)
  have run: "natAdd x y h = Inr (z\<lparr>nlen := length (strip (zs @ [d]))\<rparr>, put p (zs @ [d]) h1)"
    using len r(1-3) w natNorm_words(1) [OF wz]
    by (subst natAdd.simps) (cases "n < m"; simp add: Let_def new natPart_ok natSetValue_def z_def)
  show thesis
  proof (rule that [OF run])
    show "words (put p (zs @ [d]) h1) (z\<lparr>nlen := length (strip (zs @ [d]))\<rparr>) (strip (zs @ [d]))"
      by (rule natNorm_words(2) [OF wz])
    show "extends h (put p (zs @ [d]) h1)" unfolding p_def using ext by (rule extends_put) simp
    show "val (strip (zs @ [d])) = val xs + val ys \<longleftrightarrow> carry_clean 1 xs ys"
      using r(4,6) by (simp add: val_append flip: of_nat_add of_nat_mult of_nat_power)
    show "blk (put p (zs @ [d]) h1) = (blk h)(nxt h \<mapsto> overlay 0 (zs @ [d]) (replicate (Suc m) 0))"
      by (simp add: p_def h1_def alloc_def put.simps)
  qed (simp_all add: normal_strip z_def p_def h1_def alloc_def)
qed

lemma natAdd_ge:
  assumes "mem_ok h" and "words h x xs" and "words h y ys" and "length ys \<le> length xs" and "ys \<noteq> []"
    and "length xs - length ys \<le> 32 \<or> low_fits 1 xs ys"
  obtains z zs h' where "natAdd x y h = Inr (z, h')" and "words h' z zs"
    and "val zs = val xs + val ys \<longleftrightarrow> carry_clean 1 xs ys" and "normal zs" and "extends h h'"
  using natAdd_fresh [OF assms] by metis

text \<open>
  C2. \<open>natAdd\<close> on two numbers whose lengths differ by at most 32 words, in either order: it returns, it
  changes nothing that was allocated before, the result has no leading zero word if the operands
  have none, and it is the sum of the operands exactly when the carry out of the common words is
  clean (absent, or going to a single word, or absorbed by the first further word). When it is not,
  the loop of \<open>addVW\<close> has added the carry twice.
\<close>

theorem natAdd_sum:
  assumes "mem_ok h" and "words h x xs" and "words h y ys"
    and "length xs \<le> length ys + 32" and "length ys \<le> length xs + 32"
  shows "\<exists>z zs h'. natAdd x y h = Inr (z, h') \<and> words h' z zs \<and> extends h h' \<and>
    (normal xs \<and> normal ys \<longrightarrow> normal zs) \<and>
    (val zs = val xs + val ys \<longleftrightarrow>
      (if length xs < length ys then carry_clean 1 ys xs else carry_clean 1 xs ys))"
proof -
  note len = words_length [OF assms(2)] words_length [OF assms(3)]
  consider "xs = []" | "ys = []" | "length ys \<le> length xs" "ys \<noteq> []" | "length xs < length ys" "xs \<noteq> []" by force
  then show ?thesis
  proof cases
    case 1
    then show ?thesis using assms len natAdd_empty [of x y h] natAdd_empty [of y x h] natAdd_swap [of x y h]
      by (cases "ys = []") (auto simp: carry_clean_def low_fits_def)
  next
    case 2
    then show ?thesis using assms len natAdd_empty [of y x h] by (auto simp: carry_clean_def low_fits_def)
  next
    case 3
    then have "length xs - length ys \<le> 32 \<or> low_fits 1 xs ys" using assms by linarith
    from natAdd_ge [OF assms(1-3) 3 this] show ?thesis using 3 by (metis leD)
  next
    case 4
    then have "length ys - length xs \<le> 32 \<or> low_fits 1 ys xs" using assms by linarith
    from natAdd_ge [OF assms(1,3,2) less_imp_le [OF 4(1)] 4(2) this] show ?thesis
      using 4 len natAdd_swap [of x y h] by (metis add.commute)
  qed
qed

theorem natAdd_sum_witness:
  "(\<exists>z zs h'. natAdd (slice 0 2) (slice 1 1) (mem_of [[0xFFFFFFFFFFFFFFFF, 5], [1]]) = Inr (z, h') \<and> words h' z zs \<and>
      val zs = 6 * Base) \<and>
   (\<exists>z zs h'. natAdd (slice 0 3) (slice 1 1) (mem_of [[0xFFFFFFFFFFFFFFFF, 0xFFFFFFFFFFFFFFFF, 5], [1]]) = Inr (z, h') \<and> words h' z zs \<and>
      val zs \<noteq> 6 * Base ^ 2)"
proof
  have w: "words (mem_of [[0xFFFFFFFFFFFFFFFF, 5], [1]]) (slice 0 2) [0xFFFFFFFFFFFFFFFF, 5]" "words (mem_of [[0xFFFFFFFFFFFFFFFF, 5], [1]]) (slice 1 1) [1]"
    using words_mem_of [of 0 "[[0xFFFFFFFFFFFFFFFF, 5], [1]]" 2] words_mem_of [of 1 "[[0xFFFFFFFFFFFFFFFF, 5], [1]]" 1] by simp_all
  have "carry_clean 1 [0xFFFFFFFFFFFFFFFF, 5] [1]" by (simp add: carry_clean_def)
  then show "\<exists>z zs h'. natAdd (slice 0 2) (slice 1 1) (mem_of [[0xFFFFFFFFFFFFFFFF, 5], [1]]) = Inr (z, h') \<and> words h' z zs \<and>
      val zs = 6 * Base"
    using natAdd_sum [OF mem_ok_mem_of w] by auto
next
  have w: "words (mem_of [[0xFFFFFFFFFFFFFFFF, 0xFFFFFFFFFFFFFFFF, 5], [1]]) (slice 0 3) [0xFFFFFFFFFFFFFFFF, 0xFFFFFFFFFFFFFFFF, 5]"
    "words (mem_of [[0xFFFFFFFFFFFFFFFF, 0xFFFFFFFFFFFFFFFF, 5], [1]]) (slice 1 1) [1]"
    using words_mem_of [of 0 "[[0xFFFFFFFFFFFFFFFF, 0xFFFFFFFFFFFFFFFF, 5], [1]]" 3] words_mem_of [of 1 "[[0xFFFFFFFFFFFFFFFF, 0xFFFFFFFFFFFFFFFF, 5], [1]]" 1] by simp_all
  have "\<not> carry_clean 1 [0xFFFFFFFFFFFFFFFF, 0xFFFFFFFFFFFFFFFF, 5] [1]"
    by (simp add: carry_clean_def low_fits_def Let_def)
  then show "\<exists>z zs h'. natAdd (slice 0 3) (slice 1 1) (mem_of [[0xFFFFFFFFFFFFFFFF, 0xFFFFFFFFFFFFFFFF, 5], [1]]) = Inr (z, h') \<and> words h' z zs \<and>
      val zs \<noteq> 6 * Base ^ 2"
    using natAdd_sum [OF mem_ok_mem_of w] by fastforce
qed

end
