(* ===== verification/NatSub.thy ===== *)
theory NatSub
  imports NatVec
begin

text \<open>
  Subtraction, \<open>cmake/bigint/src/natsub.c\<close>. \<open>subVV\<close> subtracts two vectors, \<open>subVW\<close> subtracts a word
  from a vector, \<open>natSub\<close> subtracts two numbers and asserts that the result is not negative.
\<close>

section \<open>Operations\<close>

definition subVV :: "cnat \<Rightarrow> cnat \<Rightarrow> cnat \<Rightarrow> mem \<Rightarrow> (u64 \<times> mem) result" where
  "subVV z x y h =
     vloop2 UIntSub (ndata z) (ndata x) (ndata y) (min (nlen z) (min (nlen x) (nlen y))) 0 0 h"

function subVWlarge_loop :: "cnat \<Rightarrow> cnat \<Rightarrow> nat \<Rightarrow> u64 \<Rightarrow> u64 \<Rightarrow> mem \<Rightarrow> (u64 \<times> mem) result" where
  "subVWlarge_loop z x i c oc h =
     (if i < nlen z \<and> i < nlen x
      then if c = 0
           then bnd (memcpy (padd (ndata z) i) (padd (ndata x) i) (nlen x) h) (\<lambda>h. Inr (c, h))
           else bnd (rd (ndata x) i h) (\<lambda>a.
                case vw_step UIntSub a (c, oc) of (zi, (c, oc)) \<Rightarrow>
                bnd (wr (ndata z) i zi h) (\<lambda>h. subVWlarge_loop z x (Suc i) c oc h))
      else Inr (c, h))"
  by pat_completeness auto
termination
  by (relation "measure (\<lambda>(z, x, i, c, oc, h). nlen z - i)") auto

declare subVWlarge_loop.simps [simp del]

definition subVWlarge :: "cnat \<Rightarrow> cnat \<Rightarrow> u64 \<Rightarrow> mem \<Rightarrow> (u64 \<times> mem) result" where
  "subVWlarge z x y h = subVWlarge_loop z x 0 y 0 h"

definition subVW :: "cnat \<Rightarrow> cnat \<Rightarrow> u64 \<Rightarrow> mem \<Rightarrow> (u64 \<times> mem) result" where
  "subVW z x y h =
     (if 32 < nlen z then subVWlarge z x y h
      else bnd (vloop1 (vw_step UIntSub) (ndata z) (ndata x) (min (nlen z) (nlen x)) 0 (y, 0) h)
             (\<lambda>((c, oc), h). Inr (c, h)))"

definition natSub :: "cnat \<Rightarrow> cnat \<Rightarrow> mem \<Rightarrow> (cnat \<times> mem) result" where
  "natSub x y h =
     (let m = nlen x; n = nlen y
      in cassert (n \<le> m)
         (if m = 0 \<or> n = 0 then Inr (x, h)
          else let (z, h) = natNewLen m h
               in bnd (natPart z 0 n) (\<lambda>z1.
                  bnd (subVV z1 x y h) (\<lambda>(c, h).
                  bnd (if n < m
                       then bnd (natPart z n (nlen z)) (\<lambda>zz. bnd (natPart x n (nlen x)) (\<lambda>xx. subVW zz xx c h))
                       else Inr (c, h)) (\<lambda>(c, h).
                  cassert (c = 0) (bnd (natNorm z h) (\<lambda>z. Inr (z, h))))))))"

section \<open>The vector routines\<close>

lemma UIntSub_64 [simp]: "UIntSub = U64Sub"
  by (intro ext) (simp add: UIntSub_def UintSize_def)

interpretation sub: carry_vec UIntSub "-1" subVV subVW
proof
  fix c x y s d :: u64
  assume *: "unat c \<le> 1" "UIntSub x y c = (s, d)"
  then have "U64Sub x y c = (s, d)" by simp
  note U64Sub_exact [OF *(1) this]
  then show "int (unat s) + - 1 * int (Base * unat d) = int (unat x) + - 1 * int (unat y + unat c)"
    and "unat d \<le> 1" by simp_all
qed (simp_all add: subVV_def subVW_def subVWlarge_def subVWlarge_loop.simps [of _ _ 0])

section \<open>Subtraction of numbers\<close>

lemma natSub_run:
  assumes "mem_ok h" and "words h x xs" and "words h y ys" and "length ys \<le> length xs" and "ys \<noteq> []"
    and "length xs - length ys \<le> 32 \<or> low_fits (-1) xs ys"
  obtains z zs h' and d :: u64 where "natSub x y h = cassert (d = 0) (Inr (z, h'))" and "words h' z zs"
    and "int (val zs) - int (Base ^ length xs * unat d) = int (val xs) - int (val ys) \<longleftrightarrow> carry_clean (-1) xs ys"
    and "val zs < Base ^ length xs" and "normal zs" and "extends h h'"
proof -
  define m n where "m = length xs" and "n = length ys"
  have len: "nlen x = m" "nlen y = n" "n \<le> m" "0 < n" "0 < m"
    using assms words_length [OF assms(2)] words_length [OF assms(3)] unfolding m_def n_def
    by (auto simp: neq_Nil_conv)
  define p where "p = Ptr (nxt h) 0"
  define z where "z = \<lparr>ndata = p, nlen = m, ncap = m, npart = False\<rparr>"
  define h1 where "h1 = alloc m h"
  have ext: "extends h h1" by (simp add: h1_def assms(1))
  have sz: "seg h1 p m = Some (replicate m 0)" unfolding h1_def p_def by (rule seg_alloc_new)
  note sx = words_extends [OF ext assms(2), unfolded words_def len]
    and sy = words_extends [OF ext assms(3), unfolded words_def len]
  have sepx: "sep (ndata x) m p m" "sep (ndata y) n p m"
    using seg_fresh_sep [OF assms(1)] assms(2,3) len unfolding words_def p_def by auto
  have cond: "m - n \<le> 32 \<or> low_fits (-1) xs ys" using assms(6) by (simp add: m_def n_def)
  obtain zs c d h' where r: "subVV \<lparr>ndata = p, nlen = n, ncap = n, npart = False\<rparr> x y h1 = Inr (c, h')"
    "n < m \<longrightarrow> subVW \<lparr>ndata = padd p n, nlen = m - n, ncap = m - n, npart = 0 < n\<rparr>
        \<lparr>ndata = padd (ndata x) n, nlen = m - n, ncap = m - n, npart = 0 < n\<rparr> c h' = Inr (d, put p zs h1)"
    "n = m \<longrightarrow> d = c \<and> h' = put p zs h1" "length zs = m" "unat d \<le> 1"
    "int (val zs) + - 1 * int (Base ^ m * unat d) = int (val xs) + - 1 * int (val ys) \<longleftrightarrow> carry_clean (-1) xs ys"
    by (rule sub.split_run [where k = "0 < n", OF sz sx sy sepx len(1-3) cond])
  have wz: "words (put p zs h1) z zs"
    using seg_put_same [of h1 p zs] sz r(4) by (simp add: words_def z_def)
  have new: "natNewLen m h = (z, h1)" using natNewLen_ok [OF assms(1) len(5)] by (simp add: z_def p_def h1_def)
  have run: "natSub x y h = cassert (d = 0) (Inr (z\<lparr>nlen := length (strip zs)\<rparr>, put p zs h1))"
    using len r(1-3) natNorm_words(1) [OF wz] unfolding natSub_def
    by (cases "n < m") (simp_all add: Let_def new natPart_ok z_def)
  show thesis
  proof (rule that [OF run])
    show "words (put p zs h1) (z\<lparr>nlen := length (strip zs)\<rparr>) (strip zs)"
      by (rule natNorm_words(2) [OF wz])
    show "extends h (put p zs h1)" unfolding p_def using ext by (rule extends_put) simp
    show "val (strip zs) < Base ^ length xs" using val_bound [of zs] r(4) by (simp add: m_def)
    show "int (val (strip zs)) - int (Base ^ length xs * unat d) = int (val xs) - int (val ys) \<longleftrightarrow>
        carry_clean (-1) xs ys"
      using r(6) by (simp add: m_def)
  qed (rule normal_strip)
qed

text \<open>The outcome of a subtraction, shared by the statements on numbers and on signed objects.\<close>

lemma natSub_outcome:
  assumes "mem_ok h" and "words h x xs" and "words h y ys" and "normal xs"
    and "length xs \<le> length ys + 32" and "carry_clean (-1) xs ys"
  shows "if length xs < length ys \<or> val xs < val ys then natSub x y h = Inl AssertFail
    else \<exists>z zs h'. natSub x y h = Inr (z, h') \<and> words h' z zs \<and> extends h h' \<and> normal zs \<and>
      val zs = val xs - val ys"
proof -
  note len = words_length [OF assms(2)] words_length [OF assms(3)]
  consider "length xs < length ys" | "ys = []" | "length ys \<le> length xs" "ys \<noteq> []" by force
  then show ?thesis
  proof cases
    case 3
    then have "length xs - length ys \<le> 32 \<or> low_fits (-1) xs ys" using assms by linarith
    then obtain z zs h' and d :: u64 where r: "natSub x y h = cassert (d = 0) (Inr (z, h'))" "words h' z zs"
      "int (val zs) - int (Base ^ length xs * unat d) = int (val xs) - int (val ys) \<longleftrightarrow> carry_clean (-1) xs ys"
      "val zs < Base ^ length xs" "normal zs" "extends h h'"
      by (rule natSub_run [OF assms(1-3) 3])
    have e: "int (val zs) - int (Base ^ length xs * unat d) = int (val xs) - int (val ys)"
      using r(3) assms(6) by simp
    show ?thesis
    proof (cases "d = 0")
      case True
      with e have "val zs + val ys = val xs" by simp
      with True r 3 show ?thesis by auto
    next
      case False
      then have "Base ^ length xs * 1 \<le> Base ^ length xs * unat d"
        by (intro mult_le_mono2) (simp add: Suc_le_eq unat_gt_0)
      with e r(4) have "val xs < val ys" by linarith
      with False r show ?thesis by simp
    qed
  qed (use assms len in \<open>auto simp: natSub_def Let_def\<close>)
qed

text \<open>
  C10. \<open>natSub\<close> on operands of at least and at most 32 words more than the subtrahend, when the borrow
  out of the common words is clean: the call succeeds exactly when the subtrahend is not
  larger, and then returns the difference, without leading zero words and without changing
  anything allocated before; otherwise the assertion on the last borrow fails. A longer subtrahend
  fails the first assertion.
\<close>

theorem natSub_difference:
  assumes "mem_ok h" and "words h x xs" and "words h y ys" and "normal xs"
    and "length xs \<le> length ys + 32" and "carry_clean (-1) xs ys"
  shows "if length xs < length ys \<or> val xs < val ys then natSub x y h = Inl AssertFail
    else \<exists>z zs h'. natSub x y h = Inr (z, h') \<and> words h' z zs \<and> extends h h' \<and> normal zs \<and>
      val zs = val xs - val ys"
  by (rule natSub_outcome [OF assms])

theorem natSub_difference_witness:
  "(\<exists>z zs h'. natSub (slice 0 2) (slice 1 1) (mem_of [[0, 5], [1]]) = Inr (z, h') \<and> words h' z zs \<and>
      val zs = 5 * Base - 1) \<and>
   natSub (slice 0 1) (slice 1 1) (mem_of [[3], [4]]) = Inl AssertFail"
proof
  have w: "words (mem_of [[0, 5], [1]]) (slice 0 2) [0, 5]" "words (mem_of [[0, 5], [1]]) (slice 1 1) [1]"
    using words_mem_of [of 0 "[[0, 5], [1]]" 2] words_mem_of [of 1 "[[0, 5], [1]]" 1] by simp_all
  have "normal [0, 5]" "carry_clean (-1) [0, 5] [1]" by (simp_all add: carry_clean_def normal_def)
  then show "\<exists>z zs h'. natSub (slice 0 2) (slice 1 1) (mem_of [[0, 5], [1]]) = Inr (z, h') \<and> words h' z zs \<and>
      val zs = 5 * Base - 1"
    using natSub_difference [OF mem_ok_mem_of w] by auto
next
  have w: "words (mem_of [[3], [4]]) (slice 0 1) [3]" "words (mem_of [[3], [4]]) (slice 1 1) [4]"
    using words_mem_of [of 0 "[[3], [4]]" 1] words_mem_of [of 1 "[[3], [4]]" 1] by simp_all
  have "normal [3]" "carry_clean (-1) [3] [4]" by (simp_all add: carry_clean_def normal_def)
  then show "natSub (slice 0 1) (slice 1 1) (mem_of [[3], [4]]) = Inl AssertFail"
    using natSub_difference [OF mem_ok_mem_of w] by simp
qed

end
