(* ===== verification/NatShift.thy ===== *)
theory NatShift
  imports NatCore
begin

text \<open>
  Shifting a vector by less than a word, \<open>shlVU\<close> and \<open>shrVU\<close> of \<open>cmake/bigint/src/natdiv.c\<close>. The
  left shift walks down and the right shift walks up, so that both work in place: the left shift multiplies by
  a power of two and returns the bits shifted out, the right shift divides by one.
\<close>

section \<open>Operations\<close>

fun shl_loop :: "ptr \<Rightarrow> ptr \<Rightarrow> nat \<Rightarrow> nat \<Rightarrow> nat \<Rightarrow> mem \<Rightarrow> mem result" where
  "shl_loop z x s s1 0 h = Inr h"
| "shl_loop z x s s1 (Suc i) h =
     bnd (rd x (Suc i) h) (\<lambda>a. bnd (rd x i h) (\<lambda>b.
     bnd (wr z (Suc i) (push_bit s a OR drop_bit s1 b) h) (\<lambda>h. shl_loop z x s s1 i h)))"

definition shlVU :: "cnat \<Rightarrow> cnat \<Rightarrow> nat \<Rightarrow> mem \<Rightarrow> (u64 \<times> mem) result" where
  "shlVU z x s h =
     (if s = 0 then bnd (natCopy z x h) (\<lambda>h. Inr (0, h))
      else if nlen z = 0 then Inr (0, h)
      else let s = s mod 64; s1 = (64 - s) mod 64
           in bnd (rd (ndata x) (nlen z - 1) h) (\<lambda>a.
              bnd (shl_loop (ndata z) (ndata x) s s1 (nlen z - 1) h) (\<lambda>h.
              bnd (rd (ndata x) 0 h) (\<lambda>b.
              bnd (wr (ndata z) 0 (push_bit s b) h) (\<lambda>h. Inr (drop_bit s1 a, h))))))"

function shr_loop :: "ptr \<Rightarrow> ptr \<Rightarrow> nat \<Rightarrow> nat \<Rightarrow> nat \<Rightarrow> nat \<Rightarrow> mem \<Rightarrow> mem result" where
  "shr_loop z x s s1 n i h =
     (if i < n
      then bnd (rd x (i - 1) h) (\<lambda>a. bnd (rd x i h) (\<lambda>b.
           bnd (wr z (i - 1) (drop_bit s a OR push_bit s1 b) h) (\<lambda>h. shr_loop z x s s1 n (Suc i) h)))
      else Inr h)"
  by pat_completeness auto
termination
  by (relation "measure (\<lambda>(z, x, s, s1, n, i, h). n - i)") auto

declare shr_loop.simps [simp del]

definition shrVU :: "cnat \<Rightarrow> cnat \<Rightarrow> nat \<Rightarrow> mem \<Rightarrow> (u64 \<times> mem) result" where
  "shrVU z x s h =
     cassert (nlen x = nlen z)
     (if s = 0 then bnd (natCopy z x h) (\<lambda>h. Inr (0, h))
      else if nlen z = 0 then Inr (0, h)
      else let s = s mod 64; s1 = (64 - s) mod 64
           in bnd (rd (ndata x) 0 h) (\<lambda>a.
              bnd (shr_loop (ndata z) (ndata x) s s1 (nlen z) 1 h) (\<lambda>h.
              bnd (rd (ndata x) (nlen z - 1) h) (\<lambda>b.
              bnd (wr (ndata z) (nlen z - 1) (drop_bit s b) h) (\<lambda>h. Inr (push_bit s1 a, h))))))"

section \<open>Shifting left multiplies\<close>

lemma Base_split: "s \<le> 64 \<Longrightarrow> Base = 2 ^ s * 2 ^ (64 - s)"
  by (simp flip: power_add)

lemma shift_out:
  assumes "s \<le> 64"
  shows "unat (push_bit s a) + Base * unat (drop_bit (64 - s) a) = unat (a :: u64) * 2 ^ s"
proof -
  have "unat (push_bit s a) = unat a mod 2 ^ (64 - s) * 2 ^ s"
    using Base_split [OF assms] by (simp only: unat_push_bit mult_mod_left) (simp add: mult.commute)
  moreover have "Base * unat (drop_bit (64 - s) a) = 2 ^ (64 - s) * (unat a div 2 ^ (64 - s)) * 2 ^ s"
    using Base_split [OF assms] by (simp only: unat_drop_bit) (simp add: ac_simps)
  moreover have "unat a mod 2 ^ (64 - s) + 2 ^ (64 - s) * (unat a div 2 ^ (64 - s)) = unat a" by simp
  ultimately show ?thesis by (metis add_mult_distrib)
qed

lemma unat_shift_in: "s \<le> 64 \<Longrightarrow> unat (push_bit s (hi :: u64) OR drop_bit (64 - s) lo) = unat (push_bit s hi) + unat (drop_bit (64 - s) lo)"
  by (simp add: unat_disjoint_or shift_in_disjoint)

lemma shl_loop_run:
  assumes "seg h z (Suc i) = Some zs" and "seg h x (Suc i) = Some xs" and "aliased x z (Suc i)" and "s \<le> 64"
  shows "\<exists>ys. shl_loop z x s (64 - s) i h = Inr (put (padd z 1) ys h) \<and> length ys = i \<and>
    unat (push_bit s (xs ! 0)) + Base * val ys + Base ^ Suc i * unat (drop_bit (64 - s) (xs ! i)) = val xs * 2 ^ s"
  using assms(1-3)
proof (induction i arbitrary: h zs xs)
  case 0
  then obtain a where "xs = [a]" using seg_length [of h x 1 xs] by (auto simp: length_Suc_conv)
  then show ?case using shift_out [OF assms(4), of a] by simp
next
  case (Suc i)
  have len: "length xs = Suc (Suc i)" using Suc.prems(2) by (rule seg_length)
  define v where "v = push_bit s (xs ! Suc i) OR drop_bit (64 - s) (xs ! i)"
  let ?h = "put (padd z (Suc i)) [v] h"
  have segs: "seg ?h z (Suc i) = Some (take (Suc i) zs)" "seg ?h x (Suc i) = Some (take (Suc i) xs)"
    using seg_put_above [OF Suc.prems(1), of z "Suc i" "[v]"] seg_put_above [OF Suc.prems(2,3), of "Suc i" "[v]"] by (simp_all add: aliased_def)
  obtain ys where ys: "shl_loop z x s (64 - s) i ?h = Inr (put (padd z 1) ys ?h)" "length ys = i"
    "unat (push_bit s (xs ! 0)) + Base * val ys + Base ^ Suc i * unat (drop_bit (64 - s) (xs ! i)) = val (take (Suc i) xs) * 2 ^ s"
    using Suc.IH [OF segs aliased_shrink [OF Suc.prems(3)]] by auto
  have run: "shl_loop z x s (64 - s) (Suc i) h = Inr (put (padd z 1) (ys @ [v]) h)"
    using rd_seg [OF Suc.prems(2)] wr_seg [OF Suc.prems(1)] ys(1,2) put_below [of "padd z 1" ys "[v]" h] by (simp add: v_def)
  have "unat (push_bit s (xs ! Suc i)) + Base * unat (drop_bit (64 - s) (xs ! Suc i)) = unat (xs ! Suc i) * 2 ^ s" by (rule shift_out [OF assms(4)])
  then have "Base ^ Suc i * (unat (push_bit s (xs ! Suc i)) + Base * unat (drop_bit (64 - s) (xs ! Suc i))) = Base ^ Suc i * (unat (xs ! Suc i) * 2 ^ s)" by simp
  then have top: "Base ^ Suc i * unat (push_bit s (xs ! Suc i)) + Base ^ Suc (Suc i) * unat (drop_bit (64 - s) (xs ! Suc i)) = Base ^ Suc i * unat (xs ! Suc i) * 2 ^ s"
    by (simp only: add_mult_distrib2 power_Suc ac_simps)
  have "val xs = val (take (Suc i) xs) + Base ^ Suc i * unat (xs ! Suc i)" using val_nth_split [of "Suc i" xs] len by simp
  then have "unat (push_bit s (xs ! 0)) + Base * val (ys @ [v]) + Base ^ Suc (Suc i) * unat (drop_bit (64 - s) (xs ! Suc i)) = val xs * 2 ^ s"
    using ys(2,3) top unat_shift_in [OF assms(4), of "xs ! Suc i" "xs ! i"] by (simp add: val_append v_def algebra_simps)
  then show ?case using run ys(2) by (intro exI [of _ "ys @ [v]"]) simp
qed

lemma shlVU_value:
  assumes "seg h (ndata z) n = Some zs" and "seg h (ndata x) n = Some xs" and "aliased (ndata x) (ndata z) n"
    and "nlen z = n" and "nlen x = n" and "n \<le> ncap z" and "s < 64"
  obtains rs c where "shlVU z x s h = Inr (c, put (ndata z) rs h)" and "length rs = n" and "val rs + Base ^ n * unat c = val xs * 2 ^ s"
proof -
  have len: "length xs = n" using assms(2) by (rule seg_length)
  consider "s = 0" | "0 < s" "n = 0" | i where "0 < s" "n = Suc i" by (cases n) auto
  then show thesis
  proof cases
    case 1
    then show thesis using assms len memcpy_seg [OF assms(2,1)] by (intro that [of 0 xs]) (simp_all add: shlVU_def natCopy_def)
  next
    case 2
    then show thesis using assms(4) len by (intro that [of 0 "[]"]) (simp_all add: shlVU_def)
  next
    case 3
    note segs = assms(1-3) [unfolded 3(2)]
    obtain ys where ys: "shl_loop (ndata z) (ndata x) s (64 - s) i h = Inr (put (padd (ndata z) 1) ys h)" "length ys = i"
      "unat (push_bit s (xs ! 0)) + Base * val ys + Base ^ Suc i * unat (drop_bit (64 - s) (xs ! i)) = val xs * 2 ^ s"
      using shl_loop_run [OF segs, of s] assms(7) by auto
    let ?h = "put (padd (ndata z) 1) ys h"
    have "seg h (ndata x) 1 = Some (take 1 xs)" using seg_take(1) [OF segs(2), of 1] by simp
    moreover have "sep (ndata x) 1 (padd (ndata z) 1) (length ys)" using segs(3) ys(2) by (cases "ndata x"; cases "ndata z") (auto simp: aliased_def)
    ultimately have "seg ?h (ndata x) 1 = Some (take 1 xs)" by (simp add: seg_put_sep)
    from rd_seg [OF this, of 0] have rd0: "rd (ndata x) 0 ?h = Inr (xs ! 0)" by simp
    have "seg ?h (ndata z) (Suc i) = Some (overlay 1 ys zs)" using seg_put_sub [OF segs(1), of 1 ys] ys(2) by simp
    from wr_seg [OF this, of 0] have wr0: "wr (ndata z) 0 a ?h = Inr (put (ndata z) (a # ys) h)" for a
      using put_below [of "ndata z" "[a]" ys h] by simp
    have "shlVU z x s h = Inr (drop_bit (64 - s) (xs ! i), put (ndata z) (push_bit s (xs ! 0) # ys) h)"
      using 3 assms(4,7) rd_seg [OF segs(2), of i] ys(1) rd0 wr0 by (simp add: shlVU_def)
    then show thesis by (rule that) (use ys 3 in simp_all)
  qed
qed

section \<open>Shifting right divides\<close>

fun shr_words :: "nat \<Rightarrow> u64 list \<Rightarrow> u64 list" where
  "shr_words s (a # b # xs) = (drop_bit s a OR push_bit (64 - s) b) # shr_words s (b # xs)"
| "shr_words s [a] = [drop_bit s a]"
| "shr_words s [] = []"

lemma length_shr_words [simp]: "length (shr_words s xs) = length xs"
  by (induction s xs rule: shr_words.induct) simp_all

lemma val_mod_pow: "s \<le> 64 \<Longrightarrow> val (b # xs) mod 2 ^ s = unat b mod 2 ^ s"
  by (simp only: val.simps Base_split mult.assoc mod_mult_self2)

lemma val_shr_words:
  assumes "s \<le> 64"
  shows "val (shr_words s xs) = val xs div 2 ^ s"
  using assms
proof (induction s xs rule: shr_words.induct)
  case (1 s a b xs)
  define V where "V = val (b # xs)"
  have e: "Base * V = 2 ^ s * (2 ^ (64 - s) * V)" using Base_split [OF "1.prems"] by (metis mult.assoc)
  have "64 - (64 - s) = s" using "1.prems" by simp
  then have "unat (drop_bit s a OR push_bit (64 - s) b) = unat a div 2 ^ s + unat (push_bit (64 - s) b)"
    using unat_shift_in [of "64 - s" b a] by (simp add: or.commute unat_drop_bit)
  moreover have "unat (push_bit (64 - s) b) = 2 ^ (64 - s) * (unat b mod 2 ^ s)"
    using Base_split [OF "1.prems"] by (simp only: unat_push_bit mult_mod_left mult.commute [of "2 ^ (64 - s)"]) simp
  moreover have "2 ^ (64 - s) * (V mod 2 ^ s) + Base * (V div 2 ^ s) = 2 ^ (64 - s) * V"
    unfolding Base_split [OF "1.prems"] by (simp add: mult.assoc mult.left_commute [of "2 ^ s"] flip: add_mult_distrib2)
  moreover have "(unat a + Base * V) div 2 ^ s = unat a div 2 ^ s + 2 ^ (64 - s) * V" unfolding e by simp
  ultimately have "unat (drop_bit s a OR push_bit (64 - s) b) + Base * (V div 2 ^ s) = (unat a + Base * V) div 2 ^ s"
    using val_mod_pow [OF "1.prems", of b xs] by (simp only: V_def [symmetric])
  then show ?case using "1.IH" "1.prems" unfolding V_def by (simp only: shr_words.simps val.simps)
next
  case (2 s a)
  then show ?case by (simp add: unat_drop_bit)
qed simp

lemma shr_words_snoc: "xs \<noteq> [] \<Longrightarrow> shr_words s xs = butlast (shr_words s xs) @ [drop_bit s (last xs)]"
proof (induction s xs rule: shr_words.induct)
  case (1 s a b xs)
  have "shr_words s (b # xs) \<noteq> []" by (cases xs) simp_all
  with 1 show ?case by simp
qed simp_all

lemma shr_loop_run:
  assumes "seg h z n = Some zs" and "seg h x n = Some xs" and "aliased x z n"
  shows "length rs = i \<Longrightarrow> i < n \<Longrightarrow> shr_loop z x s (64 - s) n (Suc i) (put z rs h) = Inr (put z (rs @ butlast (shr_words s (drop i xs))) h)"
proof (induction "n - i" arbitrary: i rs)
  case (Suc k)
  have len: "length xs = n" using assms(2) by (rule seg_length)
  show ?case
  proof (cases "Suc i < n")
    case True
    define v where "v = drop_bit s (xs ! i) OR push_bit (64 - s) (xs ! Suc i)"
    have "shr_loop z x s (64 - s) n (Suc i) (put z rs h) = shr_loop z x s (64 - s) n (Suc (Suc i)) (put z (rs @ [v]) h)"
      using True Suc.prems rd_ahead [OF assms, of rs i] rd_ahead [OF assms, of rs "Suc i"] wr_ahead [OF assms(1), of rs v]
      by (subst shr_loop.simps) (simp add: v_def)
    also have "\<dots> = Inr (put z ((rs @ [v]) @ butlast (shr_words s (drop (Suc i) xs))) h)"
      using True Suc.hyps Suc.prems by (intro Suc.hyps(1)) simp_all
    moreover have "drop i xs = xs ! i # xs ! Suc i # drop (Suc (Suc i)) xs" "drop (Suc i) xs = xs ! Suc i # drop (Suc (Suc i)) xs"
      using True len by (simp_all add: Cons_nth_drop_Suc)
    moreover have "shr_words s (xs ! Suc i # drop (Suc (Suc i)) xs) \<noteq> []" by (metis length_shr_words length_0_conv list.distinct(1))
    ultimately show ?thesis by (simp add: v_def)
  next
    case False
    then have "drop i xs = [xs ! i]" using Suc.prems len by (metis Cons_nth_drop_Suc drop_all leI)
    then show ?thesis using False by (subst shr_loop.simps) simp
  qed
qed simp

lemma shrVU_value:
  assumes "seg h (ndata z) n = Some zs" and "seg h (ndata x) n = Some xs" and "aliased (ndata x) (ndata z) n"
    and "nlen z = n" and "nlen x = n" and "n \<le> ncap z" and "s < 64"
  obtains rs c where "shrVU z x s h = Inr (c, put (ndata z) rs h)" and "length rs = n" and "val rs = val xs div 2 ^ s"
proof -
  have len: "length xs = n" using assms(2) by (rule seg_length)
  consider "s = 0" | "0 < s" "n = 0" | i where "0 < s" "n = Suc i" by (cases n) auto
  then show thesis
  proof cases
    case 1
    then show thesis using assms len memcpy_seg [OF assms(2,1)] by (intro that [of 0 xs]) (simp_all add: shrVU_def natCopy_def)
  next
    case 2
    then show thesis using assms len by (intro that [of 0 "[]"]) (simp_all add: shrVU_def)
  next
    case 3
    define bs where "bs = butlast (shr_words s xs)"
    have ne: "xs \<noteq> []" and lb: "length bs = i" using 3 len by (auto simp: bs_def)
    have loop: "shr_loop (ndata z) (ndata x) s (64 - s) n 1 h = Inr (put (ndata z) bs h)"
      using shr_loop_run [OF assms(1-3), of "[]" 0 s] 3 by (simp add: bs_def)
    have "rd (ndata x) i (put (ndata z) bs h) = Inr (last xs)"
      using rd_ahead [OF assms(1-3), of bs i] lb 3(2) len ne by (simp add: last_conv_nth)
    moreover have "wr (ndata z) i a (put (ndata z) bs h) = Inr (put (ndata z) (bs @ [a]) h)" for a
      using wr_ahead [OF assms(1), of bs a] lb 3(2) by simp
    ultimately have "shrVU z x s h = Inr (push_bit (64 - s) (xs ! 0), put (ndata z) (bs @ [drop_bit s (last xs)]) h)"
      using 3 assms(4,5,7) loop rd_seg [OF assms(2), of 0] by (simp add: shrVU_def)
    moreover have "bs @ [drop_bit s (last xs)] = shr_words s xs" using shr_words_snoc [OF ne] by (simp add: bs_def)
    ultimately show thesis using that [of _ "shr_words s xs"] len val_shr_words [of s xs] assms(7) by simp
  qed
qed

end
