(* ===== verification/NatMul.thy ===== *)
theory NatMul
  imports NatAdd NatSub NatShift
begin

text \<open>
  Multiplication, \<open>cmake/bigint/src/natmul.c\<close>: the schoolbook method, Karatsuba's method from 40
  words on, and squaring. \<open>natMul\<close> splits operands that are not of equal suitable length into
  blocks, multiplies the blocks recursively and adds the products at their places.
\<close>

section \<open>Word and vector operations\<close>

definition mulWW :: "u64 \<Rightarrow> u64 \<Rightarrow> u64 \<times> u64" where
  "mulWW x y = UIntMul x y"

definition mulAddWWW :: "u64 \<Rightarrow> u64 \<Rightarrow> u64 \<Rightarrow> u64 \<times> u64" where
  "mulAddWWW x y c =
     (let (lo, hi) = UIntMul x y; (lo, cc) = UIntAdd lo c 0 in (lo, hi + cc))"

text \<open>One iteration of \<open>addMulVVW\<close> on the words \<open>a\<close> of \<open>x\<close> and \<open>b\<close> of \<open>z\<close> with carry \<open>c\<close>.\<close>

definition addMul_step :: "u64 \<Rightarrow> u64 \<Rightarrow> u64 \<Rightarrow> u64 \<Rightarrow> u64 \<times> u64" where
  "addMul_step y a b c =
     (let (z0, z1) = mulAddWWW a y b; (lo, cc) = UIntAdd z0 c 0 in (lo, cc + z1))"

definition addMulVVW :: "cnat \<Rightarrow> cnat \<Rightarrow> u64 \<Rightarrow> mem \<Rightarrow> (u64 \<times> mem) result" where
  "addMulVVW z x y h =
     vloop2 (addMul_step y) (ndata z) (ndata x) (ndata z) (min (nlen z) (nlen x)) 0 0 h"

function basicMul_loop :: "cnat \<Rightarrow> cnat \<Rightarrow> cnat \<Rightarrow> nat \<Rightarrow> mem \<Rightarrow> mem result" where
  "basicMul_loop z x y i h =
     (if i < nlen y
      then bnd (rd (ndata y) i h) (\<lambda>yi.
           bnd (if yi \<noteq> 0
                then bnd (natPart z i (i + nlen x)) (\<lambda>zi.
                     bnd (addMulVVW zi x yi h) (\<lambda>(c, h). wr (ndata z) (nlen x + i) c h))
                else Inr h)
             (\<lambda>h. basicMul_loop z x y (Suc i) h))
      else Inr h)"
  by pat_completeness auto
termination
  by (relation "measure (\<lambda>(z, x, y, i, h). nlen y - i)") auto

declare basicMul_loop.simps [simp del]

definition basicMul :: "cnat \<Rightarrow> cnat \<Rightarrow> cnat \<Rightarrow> mem \<Rightarrow> mem result" where
  "basicMul z x y h =
     bnd (natPart z 0 (nlen x + nlen y)) (\<lambda>zz.
     bnd (natClear zz h) (\<lambda>h. basicMul_loop z x y 0 h))"

definition mulAddWW :: "u64 \<Rightarrow> u64 \<Rightarrow> u64 \<times> u64" where
  "mulAddWW x y = (let (lo, hi) = UIntMul x y in (lo, hi))"

definition mulAddVWW :: "cnat \<Rightarrow> cnat \<Rightarrow> u64 \<Rightarrow> u64 \<Rightarrow> mem \<Rightarrow> (u64 \<times> mem) result" where
  "mulAddVWW z x y r h =
     vloop1 (\<lambda>a c. mulAddWWW a y c) (ndata z) (ndata x) (min (nlen z) (nlen x)) 0 r h"

definition natMulAddWW :: "cnat \<Rightarrow> u64 \<Rightarrow> u64 \<Rightarrow> mem \<Rightarrow> (cnat \<times> mem) result" where
  "natMulAddWW x y r h =
     (let m = nlen x
      in if m = 0 \<or> y = 0 then natNew r h
         else let (z, h) = natNewLen (m + 1) h
              in bnd (natPart z 0 m) (\<lambda>zz.
                 bnd (mulAddVWW zz x y r h) (\<lambda>(c, h).
                 bnd (wr (ndata z) m c h) (\<lambda>h.
                 bnd (natNorm z h) (\<lambda>z. Inr (z, h))))))"

section \<open>Karatsuba multiplication\<close>

definition karatsubaThreshold :: nat where
  "karatsubaThreshold = 40"

function karatsubaLen_loop :: "nat \<Rightarrow> nat \<Rightarrow> nat \<Rightarrow> nat" where
  "karatsubaLen_loop n threshold i =
     (if threshold < n then karatsubaLen_loop (n div 2) threshold (Suc i) else n * 2 ^ i)"
  by pat_completeness auto
termination
  by (relation "measure (\<lambda>(n, threshold, i). n)") auto

declare karatsubaLen_loop.simps [simp del]

definition karatsubaLen :: "nat \<Rightarrow> nat \<Rightarrow> nat" where
  "karatsubaLen n threshold = karatsubaLen_loop n threshold 0"

definition karatsubaAdd :: "cnat \<Rightarrow> cnat \<Rightarrow> nat \<Rightarrow> mem \<Rightarrow> mem result" where
  "karatsubaAdd z x n h =
     bnd (natPart z 0 n) (\<lambda>zl. bnd (addVV zl z x h) (\<lambda>(c, h).
     if c \<noteq> 0
     then bnd (natPart z n (n + n div 2)) (\<lambda>zz. bnd (natPart z n (nlen z)) (\<lambda>xx.
          bnd (addVW zz xx c h) (\<lambda>(_, h). Inr h)))
     else Inr h))"

definition karatsubaSub :: "cnat \<Rightarrow> cnat \<Rightarrow> nat \<Rightarrow> mem \<Rightarrow> mem result" where
  "karatsubaSub z x n h =
     bnd (natPart z 0 n) (\<lambda>zl. bnd (subVV zl z x h) (\<lambda>(c, h).
     if c \<noteq> 0
     then bnd (natPart z n (n + n div 2)) (\<lambda>zz. bnd (natPart z n (nlen z)) (\<lambda>xx.
          bnd (subVW zz xx c h) (\<lambda>(_, h). Inr h)))
     else Inr h))"

text \<open>The difference of two vectors with its sign, as \<open>karatsuba\<close> computes it twice.\<close>

definition abs_diff :: "cnat \<Rightarrow> cnat \<Rightarrow> cnat \<Rightarrow> int \<Rightarrow> mem \<Rightarrow> (int \<times> mem) result" where
  "abs_diff d a b s h =
     bnd (subVV d a b h) (\<lambda>(c, h).
     if c \<noteq> 0 then bnd (subVV d b a h) (\<lambda>(_, h). Inr (- s, h)) else Inr (s, h))"

lemma natPart_len: "natPart p from to = Inr t \<Longrightarrow> nlen t = to - from"
  by (auto simp: natPart_def cassert_def split: if_splits)

function karatsuba :: "cnat \<Rightarrow> cnat \<Rightarrow> cnat \<Rightarrow> mem \<Rightarrow> mem result" where
  "karatsuba z x y h =
     (let n = nlen y
      in if odd n \<or> n < karatsubaThreshold \<or> n < 2 then basicMul z x y h
         else let n2 = n div 2
         in bnd (natPart x 0 n2) (\<lambda>x0. bnd (natPart x n2 (nlen x)) (\<lambda>x1.
            bnd (natPart y 0 n2) (\<lambda>y0. bnd (natPart y n2 (nlen y)) (\<lambda>y1.
            bnd (karatsuba z x0 y0 h) (\<lambda>h.
            bnd (natPart z n (nlen z)) (\<lambda>zn.
            bnd (karatsuba zn x1 y1 h) (\<lambda>h.
            bnd (natPart z (2 * n) (2 * n + n2)) (\<lambda>xd.
            bnd (abs_diff xd x1 x0 1 h) (\<lambda>(s, h).
            bnd (natPart z (2 * n + n2) (3 * n)) (\<lambda>yd.
            bnd (abs_diff yd y0 y1 s h) (\<lambda>(s, h).
            bnd (natPart z (n * 3) (nlen z)) (\<lambda>p.
            bnd (karatsuba p xd yd h) (\<lambda>h.
            bnd (natPart z (n * 4) (nlen z)) (\<lambda>r.
            bnd (memcpy (ndata r) (ndata z) (n * 2) h) (\<lambda>h.
            bnd (natPart z n2 (nlen z)) (\<lambda>z2.
            bnd (karatsubaAdd z2 r n h) (\<lambda>h.
            bnd (natPart r n (nlen r)) (\<lambda>rn.
            bnd (karatsubaAdd z2 rn n h) (\<lambda>h.
            if 0 < s then karatsubaAdd z2 p n h else karatsubaSub z2 p n h))))))))))))))))))))"
  by pat_completeness auto
termination
  by (relation "measure (\<lambda>(z, x, y, h). nlen y)") (auto simp: karatsubaThreshold_def dest!: natPart_len)

declare karatsuba.simps [simp del]

definition addAt :: "cnat \<Rightarrow> cnat \<Rightarrow> nat \<Rightarrow> mem \<Rightarrow> mem result" where
  "addAt z x i h =
     (if 0 < nlen x
      then bnd (natPart z i (i + nlen x)) (\<lambda>z1. bnd (natPart z i (nlen z)) (\<lambda>z2.
           bnd (addVV z1 z2 x h) (\<lambda>(c, h).
           if c \<noteq> 0
           then let j = i + nlen x
                in if j < nlen z
                   then bnd (natPart z j (nlen z)) (\<lambda>z3. bnd (addVW z3 z3 c h) (\<lambda>(_, h). Inr h))
                   else Inr h
           else Inr h)))
      else Inr h)"

section \<open>Products of slices\<close>

lemma natNorm_len: "natNorm p h = Inr t \<Longrightarrow> nlen t \<le> nlen p"
proof -
  have "norm_loop d n h = Inr k \<Longrightarrow> k \<le> n" for d n k
    by (induction n) (auto simp: bnd_eq_Inr split: if_splits)
  then show "natNorm p h = Inr t \<Longrightarrow> nlen t \<le> nlen p" by (auto simp: natNorm_def bnd_eq_Inr)
qed

lemma karatsubaLen_loop_bounds:
  "karatsubaLen_loop n k i \<le> n * 2 ^ i \<and> (0 < n \<longrightarrow> 0 < k \<longrightarrow> 0 < karatsubaLen_loop n k i)"
proof (induction n k i rule: karatsubaLen_loop.induct)
  case (1 n k i)
  show ?case
  proof (cases "k < n")
    case True
    have "n div 2 * 2 * 2 ^ i \<le> n * 2 ^ i" by (rule mult_le_mono1) simp
    then have "n div 2 * (2 * 2 ^ i) \<le> n * 2 ^ i" by (simp only: mult.assoc)
    with 1 True show ?thesis by (auto simp: karatsubaLen_loop.simps [of n] intro: order_trans)
  qed (auto simp: karatsubaLen_loop.simps [of n])
qed

lemma karatsubaLen_bounds: "karatsubaLen n k \<le> n" "0 < n \<Longrightarrow> 0 < k \<Longrightarrow> 0 < karatsubaLen n k"
  using karatsubaLen_loop_bounds [of n k 0] by (simp_all add: karatsubaLen_def)

text \<open>
  \<open>natMul_blocks\<close> is the loop of \<open>natMul\<close> over the blocks of \<open>k\<close> words of the longer operand; with
  \<open>k = 0\<close>, which \<open>karatsubaLen\<close> never returns, it would not end.
\<close>

function (sequential) natMul :: "cnat \<Rightarrow> cnat \<Rightarrow> mem \<Rightarrow> (cnat \<times> mem) result"
  and natMul_blocks :: "cnat \<Rightarrow> cnat \<Rightarrow> cnat \<Rightarrow> cnat \<Rightarrow> nat \<Rightarrow> nat \<Rightarrow> mem \<Rightarrow> mem result" where
  "natMul x y h =
     (let m = nlen x; n = nlen y
      in if m < n then natMul y x h
         else if m = 0 \<or> n = 0 then natNew 0 h
         else if n = 1 then bnd (rd (ndata y) 0 h) (\<lambda>y0. natMulAddWW x y0 0 h)
         else if n < karatsubaThreshold
         then let (z, h) = natNewLen (m + n) h
              in bnd (basicMul z x y h) (\<lambda>h. bnd (natNorm z h) (\<lambda>z. Inr (z, h)))
         else
           let k = karatsubaLen n karatsubaThreshold
           in bnd (natPart x 0 k) (\<lambda>x0. bnd (natPart y 0 k) (\<lambda>y0.
              let (z, h) = natNewLen (max (6 * k) (m + n)) h
              in bnd (karatsuba z x0 y0 h) (\<lambda>h.
                 bnd (natPart z 0 (m + n)) (\<lambda>z.
                 bnd (natPart z (2 * k) (nlen z)) (\<lambda>zc. bnd (natClear zc h) (\<lambda>h.
                 bnd (if k < n \<or> m \<noteq> n
                      then bnd (natNorm x0 h) (\<lambda>x0.
                           bnd (natPart y k (nlen y)) (\<lambda>y1.
                           bnd (natMul x0 y1 h) (\<lambda>(t, h).
                           bnd (addAt z t k h) (\<lambda>h.
                           bnd (natFree t h) (\<lambda>(_, h).
                           bnd (natNorm y0 h) (\<lambda>y0. natMul_blocks z x y0 y1 k k h))))))
                      else Inr h) (\<lambda>h.
                 bnd (natNorm z h) (\<lambda>z. Inr (z, h))))))))))"
| "natMul_blocks z x y0 y1 k i h =
     (if i < nlen x
      then if k = 0 then Inl OutOfFuel
           else bnd (natPart x i (nlen x)) (\<lambda>xi.
                bnd (if k < nlen xi then natPart xi 0 k else Inr xi) (\<lambda>xi.
                bnd (natNorm xi h) (\<lambda>xi.
                bnd (natMul xi y0 h) (\<lambda>(t, h). bnd (addAt z t i h) (\<lambda>h. bnd (natFree t h) (\<lambda>(_, h).
                bnd (natMul xi y1 h) (\<lambda>(t, h). bnd (addAt z t (i + k) h) (\<lambda>h. bnd (natFree t h) (\<lambda>(_, h).
                natMul_blocks z x y0 y1 k (i + k) h)))))))))
      else Inr h)"
  by pat_completeness auto
termination
  apply (relation "measures [\<lambda>a. case a of Inl (x, y, h) \<Rightarrow> nlen x + nlen y
      | Inr (z, x, y0, y1, k, i, h) \<Rightarrow> k + max (nlen y0) (nlen y1),
    \<lambda>a. case a of Inl (x, y, h) \<Rightarrow> (if nlen x < nlen y then 1 else 0)
      | Inr (z, x, y0, y1, k, i, h) \<Rightarrow> 2 + (nlen x - i)]")
  apply (auto dest!: natPart_len natNorm_len split: if_splits)
  subgoal for x y by (insert karatsubaLen_bounds(1) [of "nlen y" karatsubaThreshold]) (linarith)
  subgoal for x y by (insert karatsubaLen_bounds(1) [of "nlen y" karatsubaThreshold]) (linarith)
  done

declare natMul.simps [simp del] natMul_blocks.simps [simp del]

section \<open>Squaring\<close>

definition basicSqrThreshold :: nat where
  "basicSqrThreshold = 20"

definition karatsubaSqrThreshold :: nat where
  "karatsubaSqrThreshold = 260"

text \<open>\<open>sqr_word z i d\<close> stores the two words of \<open>d * d\<close> at \<open>2 * i\<close>, the high word first as the code does.\<close>

definition sqr_word :: "cnat \<Rightarrow> nat \<Rightarrow> u64 \<Rightarrow> mem \<Rightarrow> mem result" where
  "sqr_word z i d h =
     (let (lo, hi) = mulWW d d in bnd (wr (ndata z) (2 * i + 1) hi h) (\<lambda>h. wr (ndata z) (2 * i) lo h))"

function basicSqr_loop :: "cnat \<Rightarrow> cnat \<Rightarrow> cnat \<Rightarrow> nat \<Rightarrow> mem \<Rightarrow> mem result" where
  "basicSqr_loop z t x i h =
     (if i < nlen x
      then bnd (rd (ndata x) i h) (\<lambda>d. bnd (sqr_word z i d h) (\<lambda>h.
           bnd (natPart t i (2 * i)) (\<lambda>ti. bnd (natPart x 0 i) (\<lambda>xi.
           bnd (addMulVVW ti xi d h) (\<lambda>(c, h). bnd (wr (ndata t) (2 * i) c h) (\<lambda>h.
           basicSqr_loop z t x (Suc i) h))))))
      else Inr h)"
  by pat_completeness auto
termination
  by (relation "measure (\<lambda>(z, t, x, i, h). nlen x - i)") auto

declare basicSqr_loop.simps [simp del]

definition basicSqr :: "cnat \<Rightarrow> cnat \<Rightarrow> mem \<Rightarrow> mem result" where
  "basicSqr z x h =
     (let n = nlen x; (t, h) = natNewLen (2 * n) h
      in bnd (rd (ndata x) 0 h) (\<lambda>d. bnd (sqr_word z 0 d h) (\<lambda>h.
         bnd (basicSqr_loop z t x 1 h) (\<lambda>h.
         bnd (natPart t 1 (2 * n - 1)) (\<lambda>t1.
         bnd (shlVU t1 t1 1 h) (\<lambda>(c, h). bnd (wr (ndata t) (2 * n - 1) c h) (\<lambda>h.
         bnd (addVV z z t h) (\<lambda>(_, h).
         bnd (natFree t h) (\<lambda>(_, h). Inr h)))))))))"

function karatsubaSqr :: "cnat \<Rightarrow> cnat \<Rightarrow> mem \<Rightarrow> mem result" where
  "karatsubaSqr z x h =
     (let n = nlen x
      in if odd n \<or> n < karatsubaSqrThreshold \<or> n < 2
         then bnd (natPart z 0 (2 * n)) (\<lambda>zz. basicSqr zz x h)
         else let n2 = n div 2
         in bnd (natPart x 0 n2) (\<lambda>x0. bnd (natPart x n2 (nlen x)) (\<lambda>x1.
            bnd (karatsubaSqr z x0 h) (\<lambda>h.
            bnd (natPart z n (nlen z)) (\<lambda>z1.
            bnd (karatsubaSqr z1 x1 h) (\<lambda>h.
            bnd (natPart z (2 * n) (2 * n + n2)) (\<lambda>xd.
            bnd (abs_diff xd x1 x0 1 h) (\<lambda>(_, h).
            bnd (natPart z (n * 3) (nlen z)) (\<lambda>p.
            bnd (karatsubaSqr p xd h) (\<lambda>h.
            bnd (natPart z (n * 4) (nlen z)) (\<lambda>r.
            bnd (natPart z 0 (n * 2)) (\<lambda>zl.
            bnd (natCopy r zl h) (\<lambda>h.
            bnd (natPart z n2 (nlen z)) (\<lambda>z2.
            bnd (karatsubaAdd z2 r n h) (\<lambda>h.
            bnd (natPart r n (nlen r)) (\<lambda>rn.
            bnd (karatsubaAdd z2 rn n h) (\<lambda>h.
            karatsubaSub z2 p n h)))))))))))))))))"
  by pat_completeness auto
termination
  by (relation "measure (\<lambda>(z, x, h). nlen x)") (auto simp: karatsubaSqrThreshold_def dest!: natPart_len)

declare karatsubaSqr.simps [simp del]

function natSqr :: "cnat \<Rightarrow> mem \<Rightarrow> (cnat \<times> mem) result" where
  "natSqr x h =
     (let n = nlen x
      in if n = 0 then Inr (natNewLen 0 h)
         else if n = 1
         then bnd (rd (ndata x) 0 h) (\<lambda>d.
              let (z, h) = natNewLen 2 h
              in bnd (sqr_word z 0 d h) (\<lambda>h. bnd (natNorm z h) (\<lambda>z. Inr (z, h))))
         else if n < basicSqrThreshold
         then let (z, h) = natNewLen (2 * n) h
              in bnd (basicMul z x x h) (\<lambda>h. bnd (natNorm z h) (\<lambda>z. Inr (z, h)))
         else if n < karatsubaSqrThreshold
         then let (z, h) = natNewLen (2 * n) h
              in bnd (basicSqr z x h) (\<lambda>h. bnd (natNorm z h) (\<lambda>z. Inr (z, h)))
         else
           let k = karatsubaLen n karatsubaSqrThreshold
           in bnd (natPart x 0 k) (\<lambda>x0.
              let (z, h) = natNewLen (max (6 * k) (2 * n)) h
              in bnd (karatsubaSqr z x0 h) (\<lambda>h.
                 bnd (natPart z 0 (2 * n)) (\<lambda>z.
                 bnd (natPart z (2 * k) (nlen z)) (\<lambda>zc. bnd (natClear zc h) (\<lambda>h.
                 bnd (if k < n
                      then bnd (natNorm x0 h) (\<lambda>x0.
                           bnd (natPart x k (nlen x)) (\<lambda>x1.
                           bnd (natMul x0 x1 h) (\<lambda>(t, h).
                           bnd (addAt z t k h) (\<lambda>h. bnd (addAt z t k h) (\<lambda>h.
                           bnd (natFree t h) (\<lambda>(_, h).
                           bnd (natSqr x1 h) (\<lambda>(t, h).
                           bnd (addAt z t (2 * k) h) (\<lambda>h.
                           bnd (natFree t h) (\<lambda>(_, h). Inr h)))))))))
                      else Inr h) (\<lambda>h.
                 bnd (natNorm z h) (\<lambda>z. Inr (z, h)))))))))"
  by pat_completeness auto
termination
  apply (relation "measure (\<lambda>(x, h). nlen x)")
   apply simp
  subgoal for x h
    by (insert karatsubaLen_bounds [of "nlen x" karatsubaSqrThreshold])
      (auto simp: karatsubaSqrThreshold_def dest!: natPart_len)
  done

declare natSqr.simps [simp del]

section \<open>What the vector operations compute\<close>

lemma UIntMul_64 [simp]: "UIntMul = U64Mul"
  by (intro ext) (simp add: UIntMul_def UintSize_def)

lemma unat_add_high:
  fixes hi cc :: u64
  assumes "unat lo + Base * (unat hi + unat cc) < Base * Base"
  shows "unat (hi + cc) = unat hi + unat cc"
proof -
  have "Base * (unat hi + unat cc) < Base * Base" using assms by linarith
  then have "unat hi + unat cc < Base" by simp
  then show ?thesis by (simp add: word_nat)
qed

lemma mulAddWWW_exact:
  assumes "mulAddWWW x y c = (lo, hi)"
  shows "unat lo + Base * unat hi = unat x * unat y + unat c"
proof -
  obtain l0 h0 where m: "U64Mul x y = (l0, h0)" by fastforce
  obtain l1 cc where a: "U64Add l0 c 0 = (l1, cc)" by fastforce
  have e: "unat l1 + Base * (unat h0 + unat cc) = unat x * unat y + unat c"
    using U64Mul_exact [OF m] U64Add_exact(1) [OF _ a] by simp
  have "unat x * unat y \<le> (Base - 1) * (Base - 1)"
    using unat64_less [of x] unat64_less [of y] by (intro mult_le_mono) linarith+
  then have "unat x * unat y + unat c < Base * Base" using unat64_less [of c] by simp
  with e have "unat (h0 + cc) = unat h0 + unat cc" by (intro unat_add_high [of l1]) linarith
  with e assms m a show ?thesis by (simp add: mulAddWWW_def)
qed

lemma addMul_step_exact:
  assumes "addMul_step y a b c = (lo, d)"
  shows "unat lo + Base * unat d = unat a * unat y + unat b + unat c"
proof -
  obtain z0 z1 where m: "mulAddWWW a y b = (z0, z1)" by fastforce
  obtain l1 cc where a: "U64Add z0 c 0 = (l1, cc)" by fastforce
  have e: "unat l1 + Base * (unat cc + unat z1) = unat a * unat y + unat b + unat c"
    using mulAddWWW_exact [OF m] U64Add_exact(1) [OF _ a] by simp
  have "unat a * unat y \<le> (Base - 1) * (Base - 1)"
    using unat64_less [of a] unat64_less [of y] by (intro mult_le_mono) linarith+
  then have "unat a * unat y + unat b + unat c < Base * Base" using unat64_less [of c] unat64_less [of b] by simp
  with e have "unat (cc + z1) = unat cc + unat z1" by (intro unat_add_high [of l1]) linarith
  with e assms m a show ?thesis by (simp add: addMul_step_def)
qed

lemma vmap2_addMul:
  assumes "vmap2 (addMul_step y) c xs zs = (rs, d)" and "length xs = length zs"
  shows "val rs + Base ^ length xs * unat d = val xs * unat y + val zs + unat c"
  using assms
proof (induction xs arbitrary: zs rs c d)
  case (Cons x xs)
  then obtain z zs' where zs: "zs = z # zs'" by (cases zs) auto
  obtain v e where v: "addMul_step y x z c = (v, e)" by fastforce
  obtain vs f where vs: "vmap2 (addMul_step y) e xs zs' = (vs, f)" by fastforce
  have rs: "rs = v # vs" "d = f" using Cons.prems zs v vs by auto
  have "val vs + Base ^ length xs * unat f = val xs * unat y + val zs' + unat e"
    using Cons.IH [OF vs] Cons.prems zs by simp
  from arg_cong [OF this, of "\<lambda>t. Base * t"] addMul_step_exact [OF v] rs zs show ?case
    by (simp add: algebra_simps)
qed simp

lemma vmap1_mulAdd:
  assumes "vmap1 (\<lambda>a c. mulAddWWW a y c) r xs = (rs, d)"
  shows "val rs + Base ^ length xs * unat d = val xs * unat y + unat r"
  using assms
proof (induction xs arbitrary: rs r d)
  case (Cons x xs)
  obtain v e where v: "mulAddWWW x y r = (v, e)" by fastforce
  obtain vs f where vs: "vmap1 (\<lambda>a c. mulAddWWW a y c) e xs = (vs, f)" by fastforce
  have rs: "rs = v # vs" "d = f" using Cons.prems v vs by auto
  from arg_cong [OF Cons.IH [OF vs], of "\<lambda>t. Base * t"] mulAddWWW_exact [OF v] rs show ?case
    by (simp add: algebra_simps)
qed simp

lemma addMulVVW_sum:
  assumes "seg h (ndata z) n = Some zs" and "seg h (ndata x) n = Some xs" and "aliased (ndata x) (ndata z) n"
    and "min (nlen z) (nlen x) = n"
  obtains rs c where "addMulVVW z x y h = Inr (c, put (ndata z) rs h)" and "length rs = n"
    and "val rs + Base ^ n * unat c = val xs * unat y + val zs"
proof -
  obtain rs c where rs: "vmap2 (addMul_step y) 0 xs zs = (rs, c)" by fastforce
  have len: "length xs = n" "length zs = n" using assms by (auto dest: seg_length)
  have "aliased (ndata z) (ndata z) n" by (simp add: aliased_def)
  then have "addMulVVW z x y h = Inr (c, put (ndata z) rs h)"
    using assms by (simp add: addMulVVW_def vloop2_seg rs)
  then show thesis
    by (rule that) (use length_vmap2 [OF rs] vmap2_addMul [OF rs] len in simp_all)
qed

lemma mulAddVWW_sum:
  assumes "seg h (ndata z) n = Some zs" and "seg h (ndata x) n = Some xs" and "aliased (ndata x) (ndata z) n"
    and "min (nlen z) (nlen x) = n"
  obtains rs c where "mulAddVWW z x y r h = Inr (c, put (ndata z) rs h)" and "length rs = n"
    and "val rs + Base ^ n * unat c = val xs * unat y + unat r"
proof -
  obtain rs c where rs: "vmap1 (\<lambda>a c. mulAddWWW a y c) r xs = (rs, c)" by fastforce
  have len: "length xs = n" using assms by (auto dest: seg_length)
  have "mulAddVWW z x y r h = Inr (c, put (ndata z) rs h)"
    using assms by (simp add: mulAddVWW_def vloop1_seg rs)
  then show thesis
    by (rule that) (use length_vmap1 [OF rs] vmap1_mulAdd [OF rs] len in simp_all)
qed

section \<open>Multiplication by a word\<close>

lemma natMulAddWW_product:
  assumes "mem_ok h" and "words h x xs" and "xs \<noteq> []" and "y \<noteq> 0"
  obtains z zs h' where "natMulAddWW x y r h = Inr (z, h')" and "words h' z zs"
    and "val zs = val xs * unat y + unat r" and "normal zs" and "extends h h'"
proof -
  define m where "m = length xs"
  have len: "nlen x = m" "0 < m"
    unfolding m_def using words_length [OF assms(2)] assms(3) by (simp, blast)
  define p where "p = Ptr (nxt h) 0"
  define z where "z = \<lparr>ndata = p, nlen = Suc m, ncap = Suc m, npart = False\<rparr>"
  define h1 where "h1 = alloc (Suc m) h"
  let ?zz = "\<lparr>ndata = p, nlen = m, ncap = m, npart = False\<rparr>"
  have ext: "extends h h1" by (simp add: h1_def assms(1))
  have sz: "seg h1 p (Suc m) = Some (replicate (Suc m) 0)" unfolding h1_def p_def by (rule seg_alloc_new)
  have sz': "seg h1 (ndata ?zz) m = Some (take m (replicate (Suc m) 0))" using seg_take(1) [OF sz, of m] by simp
  note sx = words_extends [OF ext assms(2), unfolded words_def len]
  have al: "aliased (ndata x) (ndata ?zz) m" "min (nlen ?zz) (nlen x) = m"
    using seg_fresh_sep [OF assms(1)] assms(2) len unfolding words_def p_def aliased_def by auto
  obtain rs c where r: "mulAddVWW ?zz x y r h1 = Inr (c, put (ndata ?zz) rs h1)" "length rs = m"
    "val rs + Base ^ m * unat c = val xs * unat y + unat r" by (rule mulAddVWW_sum [OF sz' sx al])
  have w: "wr p m c (put p rs h1) = Inr (put p (rs @ [c]) h1)" using wr_ahead [OF sz, of rs c] r(2) by simp
  have wz: "words (put p (rs @ [c]) h1) z (rs @ [c])"
    using seg_put_same [of h1 p "rs @ [c]"] sz r(2) by (simp add: words_def z_def)
  have new: "natNewLen (Suc m) h = (z, h1)" using natNewLen_ok [OF assms(1)] by (simp add: z_def p_def h1_def)
  have "natMulAddWW x y r h = Inr (z\<lparr>nlen := length (strip (rs @ [c]))\<rparr>, put p (rs @ [c]) h1)"
    using len assms(4) r(1) w natNorm_words(1) [OF wz]
    by (simp add: natMulAddWW_def Let_def new natPart_ok z_def)
  then show thesis
  proof (rule that)
    show "words (put p (rs @ [c]) h1) (z\<lparr>nlen := length (strip (rs @ [c]))\<rparr>) (strip (rs @ [c]))"
      by (rule natNorm_words(2) [OF wz])
    show "extends h (put p (rs @ [c]) h1)" unfolding p_def using ext by (rule extends_put) simp
    show "val (strip (rs @ [c])) = val xs * unat y + unat r" using r(2,3) by (simp add: val_append)
  qed (rule normal_strip)
qed

section \<open>Schoolbook multiplication\<close>

lemma basicMul_step:
  assumes sz: "seg h p (nlen x + n) = Some zs0" and sx: "seg h (ndata x) (nlen x) = Some xs"
    and sep: "sep (ndata x) (nlen x) p (nlen x + n)" and i: "i < n" and rs: "length rs = nlen x + i"
  obtains rs' where "length rs' = Suc (nlen x + i)" and "val rs' = val rs + Base ^ i * (val xs * unat yi)"
    and "bnd (addMulVVW \<lparr>ndata = padd p i, nlen = nlen x, ncap = nlen x, npart = k\<rparr> x yi
          (put p (rs @ replicate (n - i) 0) h)) (\<lambda>(c, h). wr p (nlen x + i) c h) =
        Inr (put p (rs' @ replicate (n - Suc i) 0) h)"
proof -
  let ?h = "put p (rs @ replicate (n - i) 0) h"
  let ?z = "\<lparr>ndata = padd p i, nlen = nlen x, ncap = nlen x, npart = k\<rparr>"
  have sz': "seg ?h p (nlen x + n) = Some (rs @ replicate (n - i) 0)"
    using seg_put_same [of h p "rs @ replicate (n - i) 0"] sz rs i by simp
  have pre: "seg ?h (ndata ?z) (nlen x) = Some (drop i rs)"
    using seg_slice [OF sz', of i "nlen x"] i rs by simp
  have sx': "seg ?h (ndata x) (nlen x) = Some xs"
    using sx sep i rs by (simp add: seg_put_sep)
  have al: "aliased (ndata x) (ndata ?z) (nlen x)" "min (nlen ?z) (nlen x) = nlen x"
    using sep i by (cases p; cases "ndata x"; auto simp: aliased_def)+
  obtain qs c where q: "addMulVVW ?z x yi ?h = Inr (c, put (ndata ?z) qs ?h)" "length qs = nlen x"
    "val qs + Base ^ nlen x * unat c = val xs * unat yi + val (drop i rs)"
    by (rule addMulVVW_sum [OF pre sx' al])
  have ov: "overlay i qs (rs @ replicate (n - i) 0) = take i rs @ qs @ replicate (n - i) 0"
    using overlay_middle [of "take i rs" i "drop i rs" qs "replicate (n - i) 0"] q(2) rs
    by (simp flip: append_assoc)
  have put: "put (ndata ?z) qs ?h = put p (take i rs @ qs @ replicate (n - i) 0) h"
    using put_put_sub [of i qs "rs @ replicate (n - i) 0" p h] q(2) rs i by (simp add: ov)
  have len: "length (take i rs @ qs @ replicate (n - i) 0) = nlen x + n" using q(2) rs i by simp
  have rep: "replicate (n - i) (0::u64) = 0 # replicate (n - Suc i) 0"
    using i by (metis Suc_diff_Suc replicate_Suc)
  have wr: "wr p (nlen x + i) c (put p (take i rs @ qs @ replicate (n - i) 0) h) =
      Inr (put p ((take i rs @ qs @ [c]) @ replicate (n - Suc i) 0) h)"
    using wr_put [of h p "take i rs @ qs @ replicate (n - i) 0" zs0 "nlen x + i" c] len sz q(2) rs i
    by (simp add: rep list_update_append)
  show thesis
  proof (rule that [of "take i rs @ qs @ [c]"])
    show "bnd (addMulVVW ?z x yi ?h) (\<lambda>(c, h). wr p (nlen x + i) c h) =
        Inr (put p ((take i rs @ qs @ [c]) @ replicate (n - Suc i) 0) h)"
      unfolding q(1) put by (simp only: bnd_Inr prod.case wr)
    have "val (take i rs @ qs @ [c]) = val (take i rs) + Base ^ i * (val qs + Base ^ nlen x * unat c)"
      using rs q(2) by (simp add: val_append)
    also have "\<dots> = val rs + Base ^ i * (val xs * unat yi)"
      unfolding q(3) using val_take_drop [of rs i] rs by (simp add: algebra_simps)
    finally show "val (take i rs @ qs @ [c]) = val rs + Base ^ i * (val xs * unat yi)" .
  qed (use rs q(2) in simp)
qed

lemma basicMul_loop_product:
  assumes "seg h p (nlen x + nlen y) = Some zs0" and "ndata z = p" and "seg h (ndata x) (nlen x) = Some xs"
    and "seg h (ndata y) (nlen y) = Some ys"
    and "sep (ndata x) (nlen x) p (nlen x + nlen y)" and "sep (ndata y) (nlen y) p (nlen x + nlen y)"
    and "i \<le> nlen y" and "length rs = nlen x + i" and "val rs = val xs * val (take i ys)"
  shows "\<exists>rs'. basicMul_loop z x y i (put p (rs @ replicate (nlen y - i) 0) h) = Inr (put p rs' h) \<and>
    length rs' = nlen x + nlen y \<and> val rs' = val xs * val ys"
  using assms(7-9)
proof (induction "nlen y - i" arbitrary: i rs)
  case 0
  then show ?case using seg_length [OF assms(4)] by (subst basicMul_loop.simps) auto
next
  case (Suc j)
  then have i: "i < nlen y" by simp
  let ?h = "put p (rs @ replicate (nlen y - i) 0) h"
  have rdy: "rd (ndata y) i ?h = Inr (ys ! i)"
    using rd_seg [of ?h "ndata y" "nlen y" ys i] assms(4,6) Suc.prems i by (simp add: seg_put_sep)
  have len: "length ys = nlen y" using assms(4) by (rule seg_length)
  have take: "val (take (Suc i) ys) = val (take i ys) + Base ^ i * unat (ys ! i)"
    using i len by (simp add: take_Suc_conv_app_nth val_append)
  obtain rs' where r: "length rs' = Suc (nlen x + i)" "val rs' = val rs + Base ^ i * (val xs * unat (ys ! i))"
    "bnd (addMulVVW \<lparr>ndata = padd p i, nlen = nlen x, ncap = nlen x, npart = 0 < i\<rparr> x (ys ! i) ?h)
      (\<lambda>(c, h). wr p (nlen x + i) c h) = Inr (put p (rs' @ replicate (nlen y - Suc i) 0) h)"
    by (rule basicMul_step [where k = "0 < i", OF assms(1,3,5) i Suc.prems(2)])
  define rs2 where "rs2 = (if ys ! i = 0 then rs @ [0] else rs')"
  have rep: "replicate (nlen y - i) (0::u64) = 0 # replicate (nlen y - Suc i) 0"
    using i by (metis Suc_diff_Suc replicate_Suc)
  have "basicMul_loop z x y i ?h = basicMul_loop z x y (Suc i) (put p (rs2 @ replicate (nlen y - Suc i) 0) h)"
    using i rdy r(3) assms(2)
    by (subst basicMul_loop.simps) (simp add: natPart_ok rs2_def, simp add: rep)
  moreover have "length rs2 = nlen x + Suc i" "val rs2 = val xs * val (take (Suc i) ys)"
    using r Suc.prems take by (simp_all add: rs2_def val_append algebra_simps)
  ultimately show ?case using Suc.hyps(1) [of "Suc i" rs2] Suc.hyps(2) i by simp
qed

text \<open>\<open>basicMul\<close> overwrites the first words of its result, whatever they were, with the product.\<close>

lemma basicMul_product:
  assumes "seg h (ndata z) (nlen x + nlen y) = Some zs0" and "words h x xs" and "words h y ys"
    and "sep (ndata x) (nlen x) (ndata z) (nlen x + nlen y)" and "sep (ndata y) (nlen y) (ndata z) (nlen x + nlen y)"
  obtains rs where "basicMul z x y h = Inr (put (ndata z) rs h)" and "length rs = nlen x + nlen y"
    and "val rs = val xs * val ys"
proof -
  let ?n = "nlen x + nlen y"
  have "natClear \<lparr>ndata = ndata z, nlen = ?n, ncap = ?n, npart = False\<rparr> h = Inr (put (ndata z) (replicate ?n 0) h)"
    using natClear_words [of h "\<lparr>ndata = ndata z, nlen = ?n, ncap = ?n, npart = False\<rparr>" zs0] assms(1)
    by (simp add: words_def)
  moreover obtain rs where "basicMul_loop z x y 0 (put (ndata z) (replicate (nlen x) 0 @ replicate (nlen y - 0) 0) h) =
      Inr (put (ndata z) rs h)" "length rs = ?n" "val rs = val xs * val ys"
    using basicMul_loop_product [OF assms(1) refl assms(2,3) [unfolded words_def] assms(4,5), of 0 "replicate (nlen x) 0"]
    by auto
  ultimately show thesis
    by (intro that) (simp_all add: basicMul_def natPart_ok replicate_add)
qed

section \<open>Multiplication of numbers\<close>

lemma natMul_swap: "nlen x < nlen y \<Longrightarrow> natMul x y h = natMul y x h"
  by (subst natMul.simps) simp

lemma natMul_ge:
  assumes "mem_ok h" and "words h x xs" and "words h y ys" and "length ys \<le> length xs" and "length ys < 40"
  shows "\<exists>z zs h'. natMul x y h = Inr (z, h') \<and> words h' z zs \<and> extends h h' \<and> val zs = val xs * val ys \<and>
    (xs \<noteq> [] \<and> ys \<noteq> [] \<and> normal ys \<longrightarrow> normal zs)"
proof -
  note len = words_length [OF assms(2)] words_length [OF assms(3)]
  consider "ys = []" | "length ys = 1" | "2 \<le> length ys"
    by (metis One_nat_def Suc_1 length_0_conv less_2_cases not_le)
  then show ?thesis
  proof cases
    case 1
    obtain z h' where "natNew 0 h = Inr (z, h')" "words h' z [0]" "extends h h'" by (rule natNew_words [OF assms(1)])
    with 1 len show ?thesis by (subst natMul.simps) (auto simp: Let_def)
  next
    case 2
    then obtain w where w: "ys = [w]" by (auto simp: length_Suc_conv)
    have xne: "xs \<noteq> []" using 2 assms(4) by auto
    have "rd (ndata y) 0 h = Inr w" using rd_seg [of h "ndata y" "nlen y" ys 0] assms(3) 2 w len by (simp add: words_def)
    then have run: "natMul x y h = natMulAddWW x w 0 h"
      using 2 len assms(4) xne by (subst natMul.simps) (auto simp: Let_def)
    show ?thesis
    proof (cases "w = 0")
      case True
      obtain z h' where "natNew 0 h = Inr (z, h')" "words h' z [0]" "extends h h'" by (rule natNew_words [OF assms(1)])
      with True run w show ?thesis by (auto simp: natMulAddWW_def Let_def normal_def)
    next
      case False
      obtain z zs h' where "natMulAddWW x w 0 h = Inr (z, h')" "words h' z zs"
        "val zs = val xs * unat w + unat (0::u64)" "normal zs" "extends h h'"
        by (rule natMulAddWW_product [OF assms(1,2) xne False])
      with run w show ?thesis by auto
    qed
  next
    case 3
    define N where "N = nlen x + nlen y"
    define p where "p = Ptr (nxt h) 0"
    define z where "z = \<lparr>ndata = p, nlen = N, ncap = N, npart = False\<rparr>"
    define h1 where "h1 = alloc N h"
    have N: "0 < N" using 3 len by (simp add: N_def)
    have ext: "extends h h1" by (simp add: h1_def assms(1))
    have sz: "seg h1 (ndata z) N = Some (replicate N 0)" unfolding h1_def p_def z_def by (simp add: seg_alloc_new)
    have sep: "sep (ndata x) (nlen x) (ndata z) N" "sep (ndata y) (nlen y) (ndata z) N"
      using seg_fresh_sep [OF assms(1)] assms(2,3) unfolding words_def p_def z_def by auto
    obtain rs where r: "basicMul z x y h1 = Inr (put (ndata z) rs h1)" "length rs = N" "val rs = val xs * val ys"
      using basicMul_product [OF sz [unfolded N_def] words_extends [OF ext assms(2)] words_extends [OF ext assms(3)]]
        sep unfolding N_def by metis
    have new: "natNewLen N h = (z, h1)" using natNewLen_ok [OF assms(1) N] by (simp add: z_def p_def h1_def)
    have wz: "words (put p rs h1) z rs" using seg_put_same [of h1 p rs] sz r(2) by (simp add: words_def z_def)
    have "natMul x y h = Inr (z\<lparr>nlen := length (strip rs)\<rparr>, put p rs h1)"
      using 3 len assms(4,5) r(1) new natNorm_words(1) [OF wz]
      by (subst natMul.simps) (simp add: Let_def karatsubaThreshold_def N_def z_def)
    moreover have "extends h (put p rs h1)" unfolding p_def using ext by (rule extends_put) simp
    ultimately show ?thesis using natNorm_words(2) [OF wz] r(3) normal_strip [of rs] by auto
  qed
qed

text \<open>
  C1. \<open>natMul\<close> below the Karatsuba threshold (the shorter operand has fewer than 40 words), in either
  order of the operands: it returns, leaves everything allocated before unchanged, and the
  result is the product. It has no leading zero word if the operands are non-empty and
  have none.
\<close>

theorem natMul_product:
  assumes "mem_ok h" and "words h x xs" and "words h y ys" and "length xs < 40 \<or> length ys < 40"
  shows "\<exists>z zs h'. natMul x y h = Inr (z, h') \<and> words h' z zs \<and> extends h h' \<and> val zs = val xs * val ys \<and>
    (xs \<noteq> [] \<and> ys \<noteq> [] \<and> normal xs \<and> normal ys \<longrightarrow> normal zs)"
proof (cases "length ys \<le> length xs")
  case True
  then have "length ys < 40" using assms(4) by linarith
  from natMul_ge [OF assms(1-3) True this] show ?thesis by blast
next
  case False
  then have "length xs \<le> length ys" "length xs < 40" using assms(4) by linarith+
  from natMul_ge [OF assms(1,3,2) this] False natMul_swap [of x y h]
    words_length [OF assms(2)] words_length [OF assms(3)]
  show ?thesis by (auto simp: mult.commute)
qed

theorem natMul_product_witness:
  "\<exists>z zs h'. natMul (slice 0 1) (slice 1 2) (mem_of [[3], [0xFFFFFFFFFFFFFFFF, 5]]) = Inr (z, h') \<and>
    words h' z zs \<and> val zs = 18 * Base - 3 \<and> normal zs"
proof -
  let ?h = "mem_of [[3], [0xFFFFFFFFFFFFFFFF, 5]]"
  have w: "words ?h (slice 0 1) [3]" "words ?h (slice 1 2) [0xFFFFFFFFFFFFFFFF, 5]"
    using words_mem_of [of 0 "[[3], [0xFFFFFFFFFFFFFFFF, 5]]" 1] words_mem_of [of 1 "[[3], [0xFFFFFFFFFFFFFFFF, 5]]" 2]
    by simp_all
  from natMul_product [OF mem_ok_mem_of w] show ?thesis by (auto simp: normal_def)
qed

end
