(* ===== verification/NatDiv.thy ===== *)
theory NatDiv
  imports NatMul
begin

text \<open>
  Division, \<open>cmake/bigint/src/natdiv.c\<close>: by a word with a precomputed reciprocal (\<open>divWW\<close>,
  \<open>natDivW\<close>), schoolbook long division (\<open>natDivBasic\<close>), recursive division from 100 words on
  (\<open>natDivRecursive\<close>), and \<open>natDiv\<close>, which selects among them and normalises the operands.
\<close>

section \<open>Division by a word\<close>

definition divRecursiveThreshold :: nat where
  "divRecursiveThreshold = 100"

definition nlz :: "u64 \<Rightarrow> nat" where
  "nlz x = LeadingZeros x"

text \<open>A shift by the word size or more is an error.\<close>

definition shl :: "u64 \<Rightarrow> nat \<Rightarrow> u64 result" where
  "shl x s = (if s < 64 then Inr (push_bit s x) else Inl BadShift)"

definition reciprocalWord :: "u64 \<Rightarrow> u64 result" where
  "reciprocalWord d1 =
     bnd (shl d1 (nlz d1)) (\<lambda>u. bnd (UIntDiv (NOT u) M_word u) (\<lambda>(q, rem). Inr q))"

text \<open>The second half of \<open>divWW\<close>, after the operands were shifted: \<open>d\<close> has its top bit set.\<close>

definition divWW_norm :: "u64 \<Rightarrow> u64 \<Rightarrow> u64 \<Rightarrow> u64 \<Rightarrow> u64 \<times> u64" where
  "divWW_norm x1 x0 d m =
     (let (t0, t1) = UIntMul m x1;
          (_, c) = UIntAdd t0 x0 0;
          (qq, _) = UIntAdd t1 x1 c;
          (dq0, dq1) = UIntMul d qq;
          (r0, b) = UIntSub x0 dq0 0;
          (r1, _) = UIntSub x1 dq1 b;
          (qq, r0) = (if r1 \<noteq> 0 then (qq + 1, r0 - d) else (qq, r0))
      in if d \<le> r0 then (qq + 1, r0 - d) else (qq, r0))"

definition divWW :: "u64 \<Rightarrow> u64 \<Rightarrow> u64 \<Rightarrow> u64 \<Rightarrow> (u64 \<times> u64) result" where
  "divWW x1 x0 y m =
     (let s = nlz y
      in bnd (if s \<noteq> 0
              then bnd (shl x1 s) (\<lambda>x1'. bnd (shl x0 s) (\<lambda>x0'. bnd (shl y s) (\<lambda>y'.
                     Inr (x1' OR drop_bit (W_bits - s) x0, x0', y'))))
              else Inr (x1, x0, y)) (\<lambda>(x1, x0, d).
         let (qq, r0) = divWW_norm x1 x0 d m in Inr (qq, drop_bit s r0)))"

fun divWVW_loop :: "ptr \<Rightarrow> ptr \<Rightarrow> u64 \<Rightarrow> u64 \<Rightarrow> nat \<Rightarrow> u64 \<Rightarrow> mem \<Rightarrow> (u64 \<times> mem) result" where
  "divWVW_loop z x y rec 0 r h = Inr (r, h)"
| "divWVW_loop z x y rec (Suc i) r h =
     bnd (rd x i h) (\<lambda>a. bnd (divWW r a y rec) (\<lambda>(q, r).
     bnd (wr z i q h) (\<lambda>h. divWVW_loop z x y rec i r h)))"

definition natDivWVW :: "cnat \<Rightarrow> u64 \<Rightarrow> cnat \<Rightarrow> u64 \<Rightarrow> mem \<Rightarrow> (u64 \<times> mem) result" where
  "natDivWVW z xn x y h =
     (if nlen x = 1
      then bnd (rd (ndata x) 0 h) (\<lambda>a. bnd (UIntDiv xn a y) (\<lambda>(q, r).
           bnd (wr (ndata z) 0 q h) (\<lambda>h. Inr (r, h))))
      else bnd (reciprocalWord y) (\<lambda>rec. divWVW_loop (ndata z) (ndata x) y rec (nlen z) xn h))"

text \<open>The output parameter \<open>r\<close> is passed in with its present value: two branches do not set it.\<close>

definition natDivW :: "cnat \<Rightarrow> u64 \<Rightarrow> u64 \<Rightarrow> mem \<Rightarrow> (cnat \<times> u64 \<times> mem) result" where
  "natDivW x y r h =
     (let m = nlen x
      in cassert (y \<noteq> 0)
         (if y = 1 then bnd (natDup x h) (\<lambda>(z, h). Inr (z, r, h))
          else if m = 0 then bnd (natNew 0 h) (\<lambda>(z, h). Inr (z, r, h))
          else let (z, h) = natNewLen m h
               in bnd (natDivWVW z 0 x y h) (\<lambda>(r, h). bnd (natNorm z h) (\<lambda>z. Inr (z, r, h)))))"

section \<open>Long division\<close>

definition greaterThan :: "u64 \<Rightarrow> u64 \<Rightarrow> u64 \<Rightarrow> u64 \<Rightarrow> bool" where
  "greaterThan x1 x2 y1 y2 \<longleftrightarrow> x1 > y1 \<or> x1 = y1 \<and> x2 > y2"

text \<open>
  The loop that lowers the estimated quotient digit while it is too large for the second word of
  the divisor. It ends for all inputs: a digit of 0 is never too large.
\<close>

function qhat_loop :: "u64 \<Rightarrow> u64 \<Rightarrow> u64 \<Rightarrow> u64 \<Rightarrow> u64 \<Rightarrow> u64" where
  "qhat_loop qhat rhat vn1 vn2 ujn2 =
     (let (x2, x1) = mulWW qhat vn2
      in if greaterThan x1 x2 rhat ujn2
         then let qhat = qhat - 1; preRhat = rhat; rhat = rhat + vn1
              in if rhat < preRhat then qhat else qhat_loop qhat rhat vn1 vn2 ujn2
         else qhat)"
  by pat_completeness auto
termination
proof (relation "measure (\<lambda>(qhat, rhat, vn1, vn2, ujn2). unat qhat)", simp, simp del: in_measure)
  fix qhat rhat vn1 vn2 ujn2 x y :: u64 and p
  assume *: "(x, y) = mulWW qhat vn2" "greaterThan y x rhat ujn2"
  have "qhat \<noteq> 0"
  proof
    assume "qhat = 0"
    then have "U64Mul 0 vn2 = (x, y)" using *(1) by (simp add: mulWW_def)
    from U64Mul_exact [OF this] have "x = 0" "y = 0" by (simp_all add: word_unat_eq_iff)
    with *(2) show False by (simp add: greaterThan_def)
  qed
  then show "((qhat - 1, rhat + vn1, vn1, vn2, ujn2), qhat, rhat, vn1, vn2, ujn2)
      \<in> measure (\<lambda>(qhat, rhat, vn1, vn2, ujn2). unat qhat)"
    by (simp add: unat_minus_one unat_gt_0)
qed

declare qhat_loop.simps [simp del]

text \<open>Reading at an index that may be negative.\<close>

fun rdi :: "ptr \<Rightarrow> int \<Rightarrow> mem \<Rightarrow> u64 result" where
  "rdi Null i h = Inl NullDeref"
| "rdi (Ptr b off) i h =
     (if 0 \<le> int off + i then rd (Ptr b 0) (nat (int off + i)) h else Inl OutOfBounds)"

text \<open>The quotient digit for position \<open>j\<close>, before the multiply-and-subtract step.\<close>

definition div_qhat :: "cnat \<Rightarrow> cnat \<Rightarrow> u64 \<Rightarrow> u64 \<Rightarrow> nat \<Rightarrow> mem \<Rightarrow> u64 result" where
  "div_qhat u v vn1 rec j h =
     (let n = nlen v
      in bnd (if j + n < nlen u then rd (ndata u) (j + n) h else Inr 0) (\<lambda>ujn.
         if ujn \<noteq> vn1
         then bnd (rdi (ndata u) (int (j + n) - 1) h) (\<lambda>ujn1.
              bnd (divWW ujn ujn1 vn1 rec) (\<lambda>(qhat, rhat).
              bnd (rdi (ndata v) (int n - 2) h) (\<lambda>vn2.
              bnd (rdi (ndata u) (int (j + n) - 2) h) (\<lambda>ujn2.
              Inr (qhat_loop qhat rhat vn1 vn2 ujn2)))))
         else Inr M_word))"

text \<open>One iteration: multiply and subtract, add back if that was too much, store the digit.\<close>

definition div_step :: "cnat \<Rightarrow> cnat \<Rightarrow> cnat \<Rightarrow> cnat \<Rightarrow> u64 \<Rightarrow> u64 \<Rightarrow> nat \<Rightarrow> nat \<Rightarrow> mem \<Rightarrow> mem result" where
  "div_step q u v qhatv vn1 rec m j h =
     (let n = nlen v
      in bnd (div_qhat u v vn1 rec j h) (\<lambda>qhat.
         bnd (natPart qhatv 0 n) (\<lambda>qv. bnd (mulAddVWW qv v qhat 0 h) (\<lambda>(c, h).
         bnd (wr (ndata qhatv) n c h) (\<lambda>h.
         bnd (rd (ndata qhatv) n h) (\<lambda>qn.
         let qhl = (if nlen u < j + nlen qhatv \<and> qn = 0 then nlen qhatv - 1 else nlen qhatv)
         in bnd (natPart u j (j + qhl)) (\<lambda>ul. bnd (natPart u j (nlen u)) (\<lambda>uj.
            bnd (subVV ul uj qhatv h) (\<lambda>(c, h).
            bnd (if c \<noteq> 0
                 then bnd (natPart u j (j + n)) (\<lambda>u3. bnd (natPart u j (nlen u)) (\<lambda>uj.
                      bnd (addVV u3 uj v h) (\<lambda>(cc, h).
                      bnd (if n < qhl
                           then bnd (rd (ndata u) (j + n) h) (\<lambda>a. wr (ndata u) (j + n) (a + cc) h)
                           else Inr h) (\<lambda>h. Inr (qhat - 1, h)))))
                 else Inr (qhat, h)) (\<lambda>(qhat, h).
            if j = m \<and> m = nlen q \<and> qhat = 0 then Inr h
            else wr (ndata q) j qhat h))))))))))"

fun div_loop :: "cnat \<Rightarrow> cnat \<Rightarrow> cnat \<Rightarrow> cnat \<Rightarrow> u64 \<Rightarrow> u64 \<Rightarrow> nat \<Rightarrow> nat \<Rightarrow> mem \<Rightarrow> mem result" where
  "div_loop q u v qhatv vn1 rec m 0 h = Inr h"
| "div_loop q u v qhatv vn1 rec m (Suc j) h =
     bnd (div_step q u v qhatv vn1 rec m j h) (\<lambda>h. div_loop q u v qhatv vn1 rec m j h)"

definition natDivBasic :: "cnat \<Rightarrow> cnat \<Rightarrow> cnat \<Rightarrow> mem \<Rightarrow> mem result" where
  "natDivBasic q u v h =
     (let n = nlen v; m = nlen u - n; steps = (if n \<le> nlen u then Suc m else 0);
          (qhatv, h) = natNewLen (n + 1) h
      in bnd (rdi (ndata v) (int n - 1) h) (\<lambda>vn1.
         bnd (reciprocalWord vn1) (\<lambda>rec.
         bnd (div_loop q u v qhatv vn1 rec m steps h) (\<lambda>h.
         bnd (natFree qhatv h) (\<lambda>(_, h). Inr h)))))"

section \<open>Recursive division\<close>

text \<open>
  The corrections of an estimated quotient \<open>qhat\<close> in \<open>natDivRecursiveStep\<close>: \<open>rec_fix\<close> is the body of
  the two correction loops; the first loop (\<open>rec_fix_break\<close>) leaves at the first estimate that fits,
  the second (\<open>rec_fix_twice\<close>) tests twice.
\<close>

definition rec_fix :: "cnat \<Rightarrow> cnat \<Rightarrow> cnat \<Rightarrow> cnat \<Rightarrow> nat \<Rightarrow> mem \<Rightarrow> mem result" where
  "rec_fix qhat qhatv u v s h =
     bnd (subVW qhat qhat 1 h) (\<lambda>(_, h).
     bnd (natPart qhatv 0 s) (\<lambda>ql. bnd (natPart v 0 s) (\<lambda>vl.
     bnd (subVV ql ql vl h) (\<lambda>(c, h).
     bnd (if s < nlen qhatv
          then bnd (natPart qhatv s (nlen qhatv)) (\<lambda>qh. bnd (subVW qh qh c h) (\<lambda>(_, h). Inr h))
          else Inr h) (\<lambda>h.
     bnd (natPart u s (nlen u)) (\<lambda>uh. bnd (natPart v s (nlen v)) (\<lambda>vh. addAt uh vh 0 h)))))))"

fun rec_fix_break :: "nat \<Rightarrow> cnat \<Rightarrow> cnat \<Rightarrow> cnat \<Rightarrow> cnat \<Rightarrow> nat \<Rightarrow> mem \<Rightarrow> mem result" where
  "rec_fix_break 0 qhat qhatv u v s h = Inr h"
| "rec_fix_break (Suc i) qhat qhatv u v s h =
     bnd (natNorm u h) (\<lambda>un. bnd (natCmp qhatv un h) (\<lambda>cmp.
     if cmp \<le> 0 then Inr h
     else bnd (rec_fix qhat qhatv u v s h) (\<lambda>h. rec_fix_break i qhat qhatv u v s h)))"

fun rec_fix_twice :: "nat \<Rightarrow> cnat \<Rightarrow> cnat \<Rightarrow> cnat \<Rightarrow> cnat \<Rightarrow> nat \<Rightarrow> mem \<Rightarrow> mem result" where
  "rec_fix_twice 0 qhat qhatv u v s h = Inr h"
| "rec_fix_twice (Suc i) qhat qhatv u v s h =
     bnd (natNorm u h) (\<lambda>un. bnd (natCmp qhatv un h) (\<lambda>cmp.
     bnd (if 0 < cmp then rec_fix qhat qhatv u v s h else Inr h) (\<lambda>h.
     rec_fix_twice i qhat qhatv u v s h)))"

text \<open>Subtracting \<open>qhatv\<close> from the low words of \<open>u\<close>, with the borrow going to the high words.\<close>

definition rec_sub :: "cnat \<Rightarrow> cnat \<Rightarrow> mem \<Rightarrow> (u64 \<times> mem) result" where
  "rec_sub u qhatv h =
     bnd (natPart u 0 (nlen qhatv)) (\<lambda>ul. bnd (subVV ul ul qhatv h) (\<lambda>(c, h).
     if 0 < c then bnd (natPart u (nlen qhatv) (nlen u)) (\<lambda>uh. subVW uh uh c h) else Inr (c, h)))"

text \<open>
  \<open>natDivRecursiveStep\<close>; \<open>natDivRecursiveLoop\<close> is its loop over the blocks of \<open>B\<close> words. The array of
  temporaries is a list with one entry per depth. With \<open>B = 0\<close>, which a divisor of at least 100
  words rules out, the loop would not end.
\<close>

function (sequential) natDivRecursiveStep ::
    "cnat \<Rightarrow> cnat \<Rightarrow> cnat \<Rightarrow> nat \<Rightarrow> cnat list \<Rightarrow> nat \<Rightarrow> mem \<Rightarrow> (cnat list \<times> mem) result"
  and natDivRecursiveLoop ::
    "cnat \<Rightarrow> cnat \<Rightarrow> cnat \<Rightarrow> nat \<Rightarrow> nat \<Rightarrow> nat \<Rightarrow> cnat list \<Rightarrow> nat \<Rightarrow> mem \<Rightarrow> (cnat list \<times> mem) result" where
  "natDivRecursiveStep z u v depth temps tempsNum h =
     bnd (natNorm u h) (\<lambda>u. bnd (natNorm v h) (\<lambda>v.
     if nlen u = 0 then bnd (natClear z h) (\<lambda>h. Inr (temps, h))
     else let n = nlen v
     in if n < divRecursiveThreshold then bnd (natDivBasic z u v h) (\<lambda>h. Inr (temps, h))
     else if nlen u < n then Inr (temps, h)
     else let m = nlen u - n; B = n div 2
     in bnd (tab_read temps depth) (\<lambda>td.
        bnd (if ndata td = Null then Inr (natNewLen n h) else natMake td (B + 1) h) (\<lambda>(td, h).
        natDivRecursiveLoop z u v depth B m (temps[depth := td]) tempsNum h))))"
| "natDivRecursiveLoop z u v depth B j temps tempsNum h =
     (let n = nlen v; s = B - 1
      in bnd (tab_read temps depth) (\<lambda>qhat.
         if B < j \<and> B = 0 then Inl OutOfFuel
         else if B < j
         then bnd (natPart u (j - B) (nlen u)) (\<lambda>uu.
              bnd (natClear qhat h) (\<lambda>h.
              cassert (depth + 1 < tempsNum)
              (bnd (natPart uu s (B + n)) (\<lambda>uh. bnd (natPart v s (nlen v)) (\<lambda>vh.
              bnd (natDivRecursiveStep qhat uh vh (depth + 1) temps tempsNum h) (\<lambda>(temps, h).
              bnd (natNorm qhat h) (\<lambda>qhat.
              bnd (natPart v 0 s) (\<lambda>vl. bnd (natMul qhat vl h) (\<lambda>(qhatv, h).
              bnd (rec_fix_break 2 qhat qhatv uu v s h) (\<lambda>h.
              bnd (natNorm uu h) (\<lambda>un. bnd (natCmp qhatv un h) (\<lambda>cmp.
              cassert (cmp \<le> 0)
              (bnd (rec_sub uu qhatv h) (\<lambda>(_, h).
              bnd (addAt z qhat (j - B) h) (\<lambda>h.
              bnd (natFree qhatv h) (\<lambda>(_, h).
              natDivRecursiveLoop z u v depth B (j - B) temps tempsNum h))))))))))))))))
         else
              bnd (natClear qhat h) (\<lambda>h.
              cassert (depth + 1 < tempsNum)
              (bnd (natPart u s (nlen u)) (\<lambda>uh. bnd (natNorm uh h) (\<lambda>uh. bnd (natPart v s (nlen v)) (\<lambda>vh.
              bnd (natDivRecursiveStep qhat uh vh (depth + 1) temps tempsNum h) (\<lambda>(temps, h).
              bnd (natNorm qhat h) (\<lambda>qhat.
              bnd (natPart v 0 s) (\<lambda>vl. bnd (natMul qhat vl h) (\<lambda>(qhatv, h).
              bnd (rec_fix_twice 2 qhat qhatv u v s h) (\<lambda>h.
              bnd (natNorm u h) (\<lambda>un. bnd (natCmp qhatv un h) (\<lambda>cmp.
              cassert (cmp \<le> 0)
              (bnd (rec_sub u qhatv h) (\<lambda>(c, h).
              cassert (c \<le> 0)
              (bnd (natNorm qhat h) (\<lambda>qn. bnd (addAt z qn 0 h) (\<lambda>h.
              bnd (natFree qhatv h) (\<lambda>(_, h). Inr (temps, h)))))))))))))))))))))"
  by pat_completeness auto
termination
  by (relation "measures [\<lambda>a. case a of Inl (z, u, v, depth, temps, tn, h) \<Rightarrow> tn - depth
      | Inr (z, u, v, depth, B, j, temps, tn, h) \<Rightarrow> tn - depth,
    \<lambda>a. case a of Inl _ \<Rightarrow> 1 | Inr _ \<Rightarrow> 0,
    \<lambda>a. case a of Inl _ \<Rightarrow> 0 | Inr (z, u, v, depth, B, j, temps, tn, h) \<Rightarrow> j]") auto

declare natDivRecursiveStep.simps [simp del] natDivRecursiveLoop.simps [simp del]

text \<open>
  The request for the array of temporaries (whether it is granted, and the memory afterwards); the
  array itself is the list \<open>temps\<close>.
\<close>

definition obj_alloc :: "mem \<Rightarrow> bool \<times> mem" where
  "obj_alloc h = (\<not> nomem h (nxt h), h\<lparr>nxt := Suc (nxt h)\<rparr>)"

fun free_all :: "cnat list \<Rightarrow> mem \<Rightarrow> mem result" where
  "free_all [] h = Inr h"
| "free_all (t # ts) h = bnd (natFree t h) (\<lambda>(_, h). free_all ts h)"

definition natDivRecursive :: "cnat \<Rightarrow> cnat \<Rightarrow> cnat \<Rightarrow> mem \<Rightarrow> mem result" where
  "natDivRecursive z u v h =
     (let recDepth = 2 * Len (word_of_nat (nlen v));
          (tmp, h) = natNewLen (3 * nlen v) h;
          (ok, h) = obj_alloc h
      in if \<not> ok then Inr h
         else bnd (natClear z h) (\<lambda>h.
              bnd (natDivRecursiveStep z u v 0
                    (replicate recDepth \<lparr>ndata = Null, nlen = 0, ncap = 0, npart = False\<rparr>) recDepth h) (\<lambda>(temps, h).
              bnd (free_all temps h) (\<lambda>h.
              bnd (natFree tmp h) (\<lambda>(_, h). Inr h)))))"

section \<open>Division of numbers\<close>

definition natDivLarge :: "cnat \<Rightarrow> cnat \<Rightarrow> cnat \<Rightarrow> cnat \<Rightarrow> mem \<Rightarrow> (cnat \<times> cnat \<times> mem) result" where
  "natDivLarge z u uIn vIn h =
     (let n = nlen vIn; m = nlen uIn - n
      in bnd (rdi (ndata vIn) (int n - 1) h) (\<lambda>top.
         let shift = nlz top; (v, h) = natNewLen n h
         in bnd (shlVU v vIn shift h) (\<lambda>(_, h).
            bnd (natMake u (nlen uIn + 1) h) (\<lambda>(u, h).
            bnd (natPart u 0 (nlen uIn)) (\<lambda>ul. bnd (shlVU ul uIn shift h) (\<lambda>(c, h).
            bnd (wr (ndata u) (nlen uIn) c h) (\<lambda>h.
            bnd (natMake z (m + 1) h) (\<lambda>(q, h).
            bnd (if n < divRecursiveThreshold then natDivBasic q u v h else natDivRecursive q u v h) (\<lambda>h.
            bnd (natNorm q h) (\<lambda>q.
            bnd (shrVU u u shift h) (\<lambda>(_, h).
            bnd (natNorm u h) (\<lambda>r.
            bnd (natFree v h) (\<lambda>(_, h). Inr (q, r, h))))))))))))))"

text \<open>\<open>natDiv\<close> returns the quotient, the remainder and the memory.\<close>

definition natDiv :: "cnat \<Rightarrow> cnat \<Rightarrow> cnat \<Rightarrow> cnat \<Rightarrow> mem \<Rightarrow> (cnat \<times> cnat \<times> mem) result" where
  "natDiv z z2 u v h =
     cassert (0 < nlen v)
     (bnd (natCmp u v h) (\<lambda>cmp.
      if cmp < 0
      then bnd (natPart z 0 0) (\<lambda>q. bnd (natSet z2 u h) (\<lambda>(r, h). Inr (q, r, h)))
      else if nlen v = 1
      then bnd (rd (ndata v) 0 h) (\<lambda>v0.
           bnd (natDivW u v0 (junk_word h) h) (\<lambda>(q, r2, h).
           bnd (natSetWord z2 r2 h) (\<lambda>(r, h). Inr (q, r, h))))
      else natDivLarge z z2 u v h))"

definition natRem :: "cnat \<Rightarrow> cnat \<Rightarrow> cnat \<Rightarrow> mem \<Rightarrow> (cnat \<times> mem) result" where
  "natRem z u v h =
     (let (qp, h) = natNewLen 0 h in bnd (natDiv qp z u v h) (\<lambda>(_, r, h). Inr (r, h)))"

section \<open>Division with a reciprocal\<close>

text \<open>
  The arithmetic of \<open>divWW\<close>: with the divisor \<open>d\<close> in the upper half of the word range and
  \<open>m = (b * b - 1) div d - b\<close>, the estimate \<open>qq\<close> never exceeds the quotient and leaves a remainder below
  \<open>b + d\<close>.
\<close>

lemma reciprocal_estimate:
  fixes b d m x1 x0 qq :: nat
  assumes d: "d < b" and m: "m + b = (b * b - 1) div d" and x: "x1 < d" "x0 < b"
    and qq: "qq = (m * x1 + x1 * b + x0) div b"
  shows "qq * d \<le> x1 * b + x0" and "x1 * b + x0 < qq * d + b + d" and "m * x1 + x1 * b + x0 < b * b"
proof -
  define k where "k = m + b"
  obtain e where e: "b = d + e" using d less_imp_add_positive by blast
  have b: "0 < b" "0 < d" using assms by auto
  have k1: "k * d + 1 \<le> b * b"
    using div_times_less_eq_dividend [of "b * b - 1" d] mult_pos_pos [OF b(1) b(1)] unfolding k_def m by linarith
  have k2: "b * b \<le> k * d + d" 
    using dividend_less_div_times [OF b(2), of "b * b - 1"] unfolding k_def m by linarith
  have sum: "m * x1 + x1 * b + x0 = k * x1 + x0" by (simp add: k_def algebra_simps)
  have q1: "qq * b \<le> k * x1 + x0" unfolding qq sum by (rule div_times_less_eq_dividend)
  have q2: "k * x1 + x0 + 1 \<le> qq * b + b"
    using dividend_less_div_times [OF b(1), of "k * x1 + x0"] unfolding qq sum by linarith
  have "qq * b * d \<le> (k * x1 + x0) * d" using q1 by (rule mult_le_mono1)
  moreover have "k * d * x1 + x1 \<le> b * b * x1" using mult_le_mono1 [OF k1, of x1] by (simp add: algebra_simps)
  moreover have "x0 * d \<le> x0 * b" using d by simp
  ultimately have "b * (qq * d) \<le> b * (x1 * b + x0)" by (simp only: algebra_simps)
  then show "qq * d \<le> x1 * b + x0" using b by simp
  have "b * b * x1 \<le> k * d * x1 + d * x1" using mult_le_mono1 [OF k2, of x1] by (simp add: algebra_simps)
  moreover have "k * d * x1 + x0 * d + d \<le> qq * b * d + b * d"
    using mult_le_mono1 [OF q2, of d] by (simp add: algebra_simps)
  moreover have "d * x1 + d \<le> d * d" using x(1) mult_le_mono2 [of "x1 + 1" d d] by (simp add: algebra_simps)
  moreover have "e * x0 \<le> e * b" using x(2) by simp
  moreover have "x0 * b \<le> x0 * d + e * x0" "b * d + e * b \<le> b * b" by (simp_all add: e algebra_simps)
  moreover have "d * d < d * b" using d b by simp
  ultimately have "b * (x1 * b + x0) < b * (qq * d + b + d)"
    using b by (simp only: algebra_simps)
  then show "x1 * b + x0 < qq * d + b + d" using b by simp
  have "k * x1 + k \<le> k * d" using x(1) mult_le_mono2 [of "x1 + 1" d k] by (simp add: algebra_simps)
  with k1 x(2) show "m * x1 + x1 * b + x0 < b * b" unfolding sum by (simp add: k_def)
qed

lemma divWW_last:
  fixes qq r d :: u64
  assumes "unat qq * unat d + unat r = X" and "unat r < 2 * unat d" and "X < unat d * Base"
    and "(if d \<le> r then (qq + 1, r - d) else (qq, r)) = (q', r')"
  shows "unat q' = X div unat d" and "unat r' = X mod unat d"
proof -
  have "unat q' * unat d + unat r' = X \<and> unat r' < unat d"
  proof (cases "d \<le> r")
    case True
    then have "unat d \<le> unat r" by (simp add: word_le_nat_alt)
    then have "(unat qq + 1) * unat d < Base * unat d"
      using assms(1,3) by (simp only: algebra_simps)
    then have "unat qq + 1 < Base" by (simp only: mult_less_cancel2)
    then have "unat (qq + 1) = unat qq + 1" by (simp add: word_nat)
    moreover have "unat (r - d) = unat r - unat d" using True by (simp add: unat_sub)
    ultimately show ?thesis using True assms \<open>unat d \<le> unat r\<close> by (auto simp: algebra_simps)
  next
    case False
    then show ?thesis using assms by (auto simp: word_le_nat_alt)
  qed
  then have "X = unat r' + unat d * unat q'" "unat r' < unat d" by (simp_all add: algebra_simps)
  then show "unat q' = X div unat d" "unat r' = X mod unat d" by simp_all
qed

lemma divWW_norm_exact:
  assumes d: "Base \<le> 2 * unat d" and m: "unat m + Base = (Base * Base - 1) div unat d" and x: "x1 < d"
    and r: "divWW_norm x1 x0 d m = (q', r')"
  shows "unat q' = (unat x1 * Base + unat x0) div unat d" and "unat r' = (unat x1 * Base + unat x0) mod unat d"
proof -
  define X where "X = unat x1 * Base + unat x0"
  obtain t0 t1 where t: "U64Mul m x1 = (t0, t1)" by fastforce
  obtain s c where c: "U64Add t0 x0 0 = (s, c)" by fastforce
  obtain qq c2 where qq: "U64Add t1 x1 c = (qq, c2)" by fastforce
  obtain dq0 dq1 where dq: "U64Mul d qq = (dq0, dq1)" by fastforce
  obtain r0 b where r0: "U64Sub x0 dq0 0 = (r0, b)" by fastforce
  obtain r1 b2 where r1: "U64Sub x1 dq1 b = (r1, b2)" by fastforce
  note c1 = U64Add_exact [OF _ c] and b1 = U64Sub_exact [OF _ r0]
  have c1: "unat s + Base * unat c = unat t0 + unat x0" "unat c \<le> 1" using U64Add_exact [OF _ c] by simp_all
  have b1: "unat r0 + unat dq0 = unat x0 + Base * unat b" "unat b \<le> 1" using U64Sub_exact [OF _ r0] by simp_all
  have x1: "unat x1 < unat d" using x by (simp add: word_less_nat_alt)
  define T where "T = unat m * unat x1 + unat x1 * Base + unat x0"
  note est = reciprocal_estimate [OF unat64_less [of d] m x1 unat64_less [of x0] refl]
  have T: "T = (unat t1 + unat x1 + unat c) * Base + unat s"
    using U64Mul_exact [OF t] c1(1) by (simp add: T_def algebra_simps)
  with est(3) have "(unat t1 + unat x1 + unat c) * Base < Base * Base" by (simp add: T_def)
  then have "unat t1 + unat x1 + unat c < Base" by simp
  with U64Add_exact(1) [OF c1(2) qq] have q: "unat qq = unat t1 + unat x1 + unat c"
    by (cases "unat c2 = 0") auto
  have "T div Base = unat qq" unfolding T q using unat64_less [of s] by simp
  with est(1,2) have le: "unat qq * unat d \<le> X" and up: "X < unat qq * unat d + Base + unat d"
    unfolding X_def T_def by simp_all
  have "unat r1 * Base + unat r0 + unat qq * unat d = X + Base * Base * unat b2"
    using U64Mul_exact [OF dq] b1(1) U64Sub_exact(1) [OF b1(2) r1] by (simp add: X_def algebra_simps)
  moreover have "unat r1 * Base + unat r0 < Base * Base"
    using unat64_less [of r1] unat64_less [of r0] by (intro two_digit_less)
  moreover have "unat b2 = 0 \<or> Base * Base * 1 \<le> Base * Base * unat b2" by (cases "unat b2") simp_all
  ultimately have R: "unat r1 * Base + unat r0 + unat qq * unat d = X" using le by linarith
  have lt: "X < unat d * Base" using x1 unat64_less [of x0] unfolding X_def by (intro two_digit_less)
  define p where "p = (if r1 \<noteq> 0 then (qq + 1, r0 - d) else (qq, r0))"
  have p: "unat (fst p) * unat d + unat (snd p) = X \<and> unat (snd p) < 2 * unat d"
  proof (cases "r1 = 0")
    case True
    then show ?thesis using R d unat64_less [of r0] by (simp add: p_def)
  next
    case False
    then have "1 \<le> unat r1" by (simp add: Suc_le_eq unat_gt_0)
    moreover have "unat r1 < 2" using R up unat64_less [of d] by linarith
    ultimately have one: "unat r1 = 1" by linarith
    have "unat r0 < unat d" using R up one by linarith
    then have sub: "unat (r0 - d) = unat r0 + Base - unat d"
      using unat64_less [of d] by (simp add: unat_sub_if_size word_size)
    have "(unat qq + 1) * unat d < Base * unat d"
      using R one lt unat64_less [of d] by (simp only: algebra_simps)
    then have "unat qq + 1 < Base" by (simp only: mult_less_cancel2)
    then have "unat (qq + 1) = unat qq + 1" by (simp add: word_nat)
    with False R one sub d unat64_less [of r0] unat64_less [of d] \<open>unat r0 < unat d\<close> show ?thesis
      by (simp add: p_def algebra_simps)
  qed
  have "divWW_norm x1 x0 d m = (if d \<le> snd p then (fst p + 1, snd p - d) else (fst p, snd p))"
    by (simp add: divWW_norm_def Let_def t c qq dq r0 r1 p_def)
  from divWW_last [OF _ _ lt this [symmetric, unfolded r]] p
  show "unat q' = (unat x1 * Base + unat x0) div unat d" and "unat r' = (unat x1 * Base + unat x0) mod unat d"
    by (simp_all add: X_def)
qed

lemma LeadingZeros_64: "LeadingZeros y = LeadingZeros64 y"
  by (simp add: LeadingZeros_def LeadingZeros64_def Len_def UintSize_def)

lemma M_word_unat: "unat M_word = Base - 1"
  by (simp add: M_word_def B_word_def W_bits_def UintSize_def unat_max64)

lemma UIntDiv_64 [simp]: "UIntDiv = U64Div"
  by (intro ext) (simp add: UIntDiv_def UintSize_def)

lemma nlz_norm:
  assumes "y \<noteq> 0"
  shows "nlz y < 64" and "unat (push_bit (nlz y) y) = unat y * 2 ^ nlz y" and "Base \<le> 2 * (unat y * 2 ^ nlz y)"
    and "unat y * 2 ^ nlz y < Base"
  using LeadingZeros64_norm [OF assms] by (simp_all add: nlz_def LeadingZeros_64)

lemma reciprocalWord_exact:
  assumes "y \<noteq> 0"
  obtains m where "reciprocalWord y = Inr m" and "unat m + Base = (Base * Base - 1) div (unat y * 2 ^ nlz y)"
proof -
  define u where "u = push_bit (nlz y) y"
  have u: "unat u = unat y * 2 ^ nlz y" "Base \<le> 2 * unat u" using nlz_norm [OF assms] by (simp_all add: u_def)
  then have u0: "0 < unat u" by linarith
  have "NOT u = -1 - u" by (simp add: not_eq_complement)
  then have not: "unat (NOT u) = Base - 1 - unat u" using unat_sub [of u "-1"] by (simp add: unat_max64)
  have "u \<noteq> 0" "NOT u < u" using u not by (auto simp: word_less_nat_alt)
  from U64Div_exact [OF this, of M_word] obtain q r where q: "U64Div (NOT u) M_word u = Inr (q, r)"
    "unat q = ((Base - 1 - unat u) * Base + (Base - 1)) div unat u" by (auto simp: not M_word_unat)
  define A where "A = (Base - 1 - unat u) * Base + (Base - 1)"
  have "A + Base * unat u = Base * Base - 1"
    using unat64_less [of u] unfolding A_def by (simp add: diff_mult_distrib)
  moreover have "(A + Base * unat u) div unat u = Base + A div unat u" using u0 by simp
  ultimately have "unat q + Base = (Base * Base - 1) div unat u" 
    using q(2) [folded A_def] by (metis add.commute)
  with q show thesis using nlz_norm(1) [OF assms] u(1)
    by (intro that [of q]) (simp_all add: reciprocalWord_def shl_def flip: u_def)
qed

lemma divWW_exact:
  assumes "x1 < y" and "reciprocalWord y = Inr m"
  obtains q r where "divWW x1 x0 y m = Inr (q, r)"
    and "unat q = (unat x1 * Base + unat x0) div unat y" and "unat r = (unat x1 * Base + unat x0) mod unat y"
proof -
  have y: "y \<noteq> 0" using assms(1) by auto
  let ?s = "nlz y"
  define X where "X = unat x1 * Base + unat x0"
  define d where "d = push_bit ?s y"
  define w1 where "w1 = (if ?s \<noteq> 0 then push_bit ?s x1 OR drop_bit (64 - ?s) x0 else push_bit ?s x1)"
  define w0 where "w0 = push_bit ?s x0"
  note nz = nlz_norm [OF y]
  have m: "unat m + Base = (Base * Base - 1) div unat d"
    using reciprocalWord_exact [OF y] assms(2) nz(2) by (metis d_def sum.inject(2))
  have x1: "unat x1 < unat y" using assms(1) by (simp add: word_less_nat_alt)
  then have "unat x1 * 2 ^ ?s < unat y * 2 ^ ?s" by simp
  then have "unat x1 * 2 ^ ?s < Base" using nz(4) by linarith
  from shift_two_words [OF nz(1) this, of x0]
  have W: "unat w1 * Base + unat w0 = X * 2 ^ ?s" by (simp add: w1_def w0_def X_def)
  have Xlt: "X < unat y * Base" unfolding X_def using x1 unat64_less [of x0] by (intro two_digit_less)
  have "w1 < d"
  proof -
    have "unat w1 * Base \<le> X * 2 ^ ?s" using W by linarith
    also have "\<dots> < unat y * Base * 2 ^ ?s" using Xlt by simp
    finally have "unat w1 * Base < unat d * Base" using nz(2) by (simp add: d_def mult.commute mult.left_commute)
    then show ?thesis by (simp add: word_less_nat_alt)
  qed
  obtain q r where qr: "divWW_norm w1 w0 d m = (q, r)" by fastforce
  have "Base \<le> 2 * unat d" using nz by (simp add: d_def)
  note ex = divWW_norm_exact [OF this m \<open>w1 < d\<close> qr, unfolded W]
  have run: "divWW x1 x0 y m = Inr (q, drop_bit ?s r)"
    using nz(1) qr
    by (cases "?s = 0") (simp_all add: divWW_def shl_def W_bits_def UintSize_def w1_def w0_def d_def)
  show thesis
  proof (rule that [OF run])
    show "unat q = (unat x1 * Base + unat x0) div unat y" using ex(1) nz(2) by (simp add: d_def X_def)
    show "unat (drop_bit ?s r) = (unat x1 * Base + unat x0) mod unat y"
      using ex(2) nz(2) by (simp add: unat_drop_bit d_def X_def mult_mod_left)
  qed
qed

lemma divWVW_loop_exact:
  assumes "seg h z i = Some zs" and "seg h x i = Some xs" and "aliased x z i"
    and "reciprocalWord y = Inr m" and "r < y"
  shows "\<exists>qs r'. divWVW_loop z x y m i r h = Inr (r', put z qs h) \<and> length qs = i \<and> r' < y \<and>
    val qs * unat y + unat r' = val xs + Base ^ i * unat r"
  using assms(1-3,5)
proof (induction i arbitrary: h r zs xs)
  case 0
  then show ?case by simp
next
  case (Suc i)
  have len: "length xs = Suc i" using Suc.prems(2) by (rule seg_length)
  obtain q r1 where q: "divWW r (xs ! i) y m = Inr (q, r1)"
    "unat q = (unat r * Base + unat (xs ! i)) div unat y" "unat r1 = (unat r * Base + unat (xs ! i)) mod unat y"
    by (rule divWW_exact [OF Suc.prems(4) assms(4)])
  have y: "0 < unat y" using Suc.prems(4) by (simp add: word_less_nat_alt)
  then have lt: "r1 < y" using q(3) by (simp add: word_less_nat_alt)
  have e: "unat q * unat y + unat r1 = unat r * Base + unat (xs ! i)" using q(2,3) by simp
  let ?h = "put (padd z i) [q] h"
  have "seg ?h z i = Some (take i zs)" "seg ?h x i = Some (take i xs)"
    using seg_put_above [OF Suc.prems(1), of z i "[q]"] seg_put_above [OF Suc.prems(2,3), of i "[q]"]
    by (simp_all add: aliased_def)
  from Suc.IH [OF this aliased_shrink [OF Suc.prems(3)] lt] obtain qs r' where
    qs: "divWVW_loop z x y m i r1 ?h = Inr (r', put z qs ?h)" "length qs = i" "r' < y"
      "val qs * unat y + unat r' = val (take i xs) + Base ^ i * unat r1" by auto
  have "divWVW_loop z x y m (Suc i) r h = Inr (r', put z (qs @ [q]) h)"
    using rd_seg [OF Suc.prems(2), of i] wr_seg [OF Suc.prems(1), of i q] q(1) qs(1,2) put_below [of z qs "[q]" h] by simp
  moreover have "val (qs @ [q]) * unat y + unat r' = val (take i xs) + Base ^ i * (unat r * Base + unat (xs ! i))"
    unfolding e [symmetric] using qs(2,4) by (simp add: val_append algebra_simps)
  moreover have "val xs = val (take i xs) + Base ^ i * unat (xs ! i)"
    using val_nth_split [of i xs] len by simp
  ultimately show ?case using qs(2,3) by (intro exI [of _ "qs @ [q]"] exI [of _ r']) (simp add: algebra_simps)
qed

lemma natDivWVW_exact:
  assumes "seg h (ndata z) n = Some zs" and "seg h (ndata x) n = Some xs" and "aliased (ndata x) (ndata z) n"
    and "nlen z = n" and "nlen x = n" and "y \<noteq> 0"
  shows "\<exists>qs r. natDivWVW z 0 x y h = Inr (r, put (ndata z) qs h) \<and> length qs = n \<and>
    val qs = val xs div unat y \<and> unat r = val xs mod unat y"
proof (cases "n = 1")
  case True
  then obtain a where a: "xs = [a]" using seg_length [OF assms(2)] by (auto simp: length_Suc_conv)
  have lt: "0 < y" using assms(6) by (simp add: word_gt_0)
  from U64Div_exact [OF assms(6) this, of a] obtain q r where
    "U64Div 0 a y = Inr (q, r)" "unat q = unat a div unat y" "unat r = unat a mod unat y" by auto
  then show ?thesis
    using True a assms rd_seg [OF assms(2), of 0] wr_seg [OF assms(1), of 0 q]
    by (intro exI [of _ "[q]"] exI [of _ r]) (simp add: natDivWVW_def)
next
  case False
  obtain m where m: "reciprocalWord y = Inr m" by (rule reciprocalWord_exact [OF assms(6)])
  have "0 < y" using assms(6) by (simp add: word_gt_0)
  from divWVW_loop_exact [OF assms(1-3) m this] obtain qs r where r:
    "divWVW_loop (ndata z) (ndata x) y m n 0 h = Inr (r, put (ndata z) qs h)" "length qs = n" "r < y"
    "val qs * unat y + unat r = val xs" by auto
  have "val xs div unat y = val qs" "val xs mod unat y = unat r"
    using r(3) unfolding r(4) [symmetric] by (simp_all add: word_less_nat_alt)
  with r False assms m show ?thesis by (auto simp: natDivWVW_def)
qed

lemma natDivW_run:
  assumes "mem_ok h" and "words h x xs" and "y \<noteq> 0" and "y \<noteq> 1" and "xs \<noteq> []"
  obtains z zs r' h' where "natDivW x y r h = Inr (z, r', h')" and "words h' z zs" and "extends h h'" and "normal zs"
    and "val zs = val xs div unat y" and "unat r' = val xs mod unat y"
    and "ndata z = Ptr (nxt h) 0" and "\<not> npart z" and "blk h' (nxt h) \<noteq> None"
proof -
  define n where "n = nlen x"
  have n: "nlen x = n" "0 < n" using words_nonempty [OF assms(2,5)] by (simp_all add: n_def)
  define p where "p = Ptr (nxt h) 0"
  define z where "z = \<lparr>ndata = p, nlen = n, ncap = n, npart = False\<rparr>"
  define h1 where "h1 = alloc n h"
  have ext: "extends h h1" by (simp add: h1_def assms(1))
  have sz: "seg h1 (ndata z) n = Some (replicate n 0)" unfolding h1_def p_def z_def by (simp add: seg_alloc_new)
  note sx = words_extends [OF ext assms(2), unfolded words_def n]
  have al: "aliased (ndata x) (ndata z) n"
    using seg_fresh_sep [OF assms(1)] assms(2) n unfolding words_def p_def z_def aliased_def by auto
  obtain qs r' where q: "natDivWVW z 0 x y h1 = Inr (r', put (ndata z) qs h1)" "length qs = n"
    "val qs = val xs div unat y" "unat r' = val xs mod unat y"
    using natDivWVW_exact [OF sz sx al _ n(1) assms(3)] by (auto simp: z_def)
  have new: "natNewLen n h = (z, h1)" using natNewLen_ok [OF assms(1) n(2)] by (simp add: z_def p_def h1_def)
  have wz: "words (put p qs h1) z qs" using seg_put_same [of h1 p qs] sz q(2) by (simp add: words_def z_def)
  have "natDivW x y r h = Inr (z\<lparr>nlen := length (strip qs)\<rparr>, r', put p qs h1)"
    using n assms(3,4) q(1) new natNorm_words(1) [OF wz] by (simp add: natDivW_def Let_def z_def)
  then show thesis
  proof (rule that)
    show "words (put p qs h1) (z\<lparr>nlen := length (strip qs)\<rparr>) (strip qs)" by (rule natNorm_words(2) [OF wz])
    show "extends h (put p qs h1)" unfolding p_def using ext by (rule extends_put) simp
    show "blk (put p qs h1) (nxt h) \<noteq> None" by (simp add: p_def h1_def alloc_def put.simps)
  qed (simp_all add: q normal_strip z_def p_def)
qed

text \<open>
  \<open>natDivW\<close> divides a number by a word. A zero divisor fails the assertion. For a divisor of at least
  2 and a non-empty dividend the quotient and the remainder are exact, the quotient has no leading
  zero word and nothing allocated before is changed. For the divisor 1 the quotient is
  a copy of the dividend, but the remainder keeps the value it had before the call.
\<close>

theorem natDivW_quotient:
  assumes "mem_ok h" and "words h x xs" and "xs \<noteq> []"
  shows "if y = 0 then natDivW x y r h = Inl AssertFail
    else \<exists>z zs r' h'. natDivW x y r h = Inr (z, r', h') \<and> words h' z zs \<and> extends h h' \<and>
      (normal xs \<longrightarrow> normal zs) \<and> val zs = val xs div unat y \<and>
      (if y = 1 then r' = r else unat r' = val xs mod unat y)"
proof -
  consider "y = 0" | "y = 1" | "y \<noteq> 0" "y \<noteq> 1" by blast
  then show ?thesis
  proof cases
    case 1
    then show ?thesis by (simp add: natDivW_def Let_def)
  next
    case 2
    obtain z h' where "natDup x h = Inr (z, h')" "words h' z xs" "extends h h'" by (rule natDup_words [OF assms(1,2)])
    with 2 show ?thesis by (auto simp: natDivW_def Let_def)
  next
    case 3
    obtain z zs r' h' where "natDivW x y r h = Inr (z, r', h')" "words h' z zs" "extends h h'" "normal zs"
      "val zs = val xs div unat y" "unat r' = val xs mod unat y"
      by (rule natDivW_run [OF assms(1,2) 3 assms(3)])
    with 3 show ?thesis by auto
  qed
qed

theorem natDivW_quotient_witness:
  "\<exists>z zs r' h'. natDivW (slice 0 2) 10 7 (mem_of [[5, 1]]) = Inr (z, r', h') \<and> words h' z zs \<and>
    val zs = (Base + 5) div 10 \<and> unat r' = 1"
proof -
  have w: "words (mem_of [[5, 1]]) (slice 0 2) [5, 1]" using words_mem_of [of 0 "[[5, 1]]" 2] by simp
  have "normal [5, 1]" by (simp add: normal_def)
  with natDivW_quotient [OF mem_ok_mem_of w, of 10 7] show ?thesis by fastforce
qed

end
