(* ===== verification/NatConv.thy ===== *)
theory NatConv
  imports NatDiv
begin

text \<open>
  Exponentiation and conversion to text, \<open>cmake/bigint/src/natconv.c\<close>. Numbers of more than eight
  words are split by a table of powers of the base; smaller ones are divided repeatedly by the
  largest power of the base that fits a word. Bases that are powers of two are converted by shifting.
\<close>

section \<open>Bit lengths\<close>

record divisor =
  bbb :: cnat
  nbits :: nat
  ndigits :: nat

definition leafSize :: nat where
  "leafSize = 8"

definition natBitLen :: "cnat \<Rightarrow> mem \<Rightarrow> nat result" where
  "natBitLen x h =
     (if nlen x = 0 then Inr 0
      else bnd (rd (ndata x) (nlen x - 1) h) (\<lambda>top.
           let top = top OR drop_bit 1 top;
               top = top OR drop_bit 2 top;
               top = top OR drop_bit 4 top;
               top = top OR drop_bit 8 top;
               top = top OR drop_bit 16 top;
               top = top OR drop_bit 16 (drop_bit 16 top)
           in Inr ((nlen x - 1) * W_bits + Len top)))"

text \<open>The scan for the lowest non-zero word, which has no bound of its own and ends at the latest
  with an access outside the array.\<close>

fun room :: "ptr \<Rightarrow> nat \<Rightarrow> mem \<Rightarrow> nat" where
  "room Null i h = 0"
| "room (Ptr b off) i h = (case blk h b of None \<Rightarrow> 0 | Some ws \<Rightarrow> length ws - (off + i))"

lemma room_less: "rd p i h = Inr w \<Longrightarrow> room p (Suc i) h < room p i h"
  by (cases p) (auto simp: rd.simps split: option.splits if_splits)

function power2_scan :: "ptr \<Rightarrow> nat \<Rightarrow> mem \<Rightarrow> nat result" where
  "power2_scan d i h = bnd (rd d i h) (\<lambda>w. if w = 0 then power2_scan d (Suc i) h else Inr i)"
  by pat_completeness auto
termination
  by (relation "measure (\<lambda>(d, i, h). room d i h)") (auto dest: room_less)

declare power2_scan.simps [simp del]

definition natIsPower2 :: "cnat \<Rightarrow> mem \<Rightarrow> int result" where
  "natIsPower2 x h =
     bnd (power2_scan (ndata x) 0 h) (\<lambda>i.
     bnd (rd (ndata x) i h) (\<lambda>w.
     if int i = int (nlen x) - 1 \<and> w AND (w - 1) = 0
     then bnd (TrailingZeros w) (\<lambda>t. Inr (int (i * W_bits + t)))
     else Inr (-1)))"

section \<open>Exponentiation\<close>

text \<open>The three special methods are not implemented: they return their first argument.\<close>

definition natExpNNMontgomery :: "cnat \<Rightarrow> cnat \<Rightarrow> cnat \<Rightarrow> cnat \<Rightarrow> mem \<Rightarrow> cnat result" where
  "natExpNNMontgomery z x y m h = natNorm z h"

definition natExpNNWindowed :: "cnat \<Rightarrow> cnat \<Rightarrow> cnat \<Rightarrow> nat \<Rightarrow> mem \<Rightarrow> cnat result" where
  "natExpNNWindowed z x y logM h = natNorm z h"

definition natExpNNMontgomeryEven :: "cnat \<Rightarrow> cnat \<Rightarrow> cnat \<Rightarrow> cnat \<Rightarrow> mem \<Rightarrow> cnat result" where
  "natExpNNMontgomeryEven z x y m h = natNorm z h"

text \<open>
  One round of square-and-multiply on the variables \<open>(z, zz, q, r)\<close>: square, multiply by \<open>x\<close> if the
  bit is set, reduce modulo \<open>m\<close> if there is a modulus.
\<close>

type_synonym exp_vars = "cnat \<times> cnat \<times> cnat \<times> cnat"

definition exp_round :: "cnat \<Rightarrow> cnat \<Rightarrow> bool \<Rightarrow> exp_vars \<Rightarrow> mem \<Rightarrow> (exp_vars \<times> mem) result" where
  "exp_round x m bitset vars h =
     (case vars of (z, zz, q, r) \<Rightarrow>
      bnd (natSqr z h) (\<lambda>(zz, h). bnd (natFree z h) (\<lambda>(z, h).
      let (z, zz) = natSwap (z, zz)
      in bnd (if bitset
              then bnd (natMul z x h) (\<lambda>(zz, h). bnd (natFree z h) (\<lambda>(z, h).
                   let (z, zz) = natSwap (z, zz) in Inr (z, zz, h)))
              else Inr (z, zz, h)) (\<lambda>(z, zz, h).
         if nlen m \<noteq> 0
         then bnd (natDiv zz r z m h) (\<lambda>(zz, r, h). bnd (natFree z h) (\<lambda>(z, h).
              let (zz, q) = natSwap (zz, q); (z, r) = natSwap (z, r) in Inr ((z, zz, q, r), h)))
         else Inr ((z, zz, q, r), h)))))"

text \<open>\<open>exp_bits k v\<close> runs \<open>k\<close> rounds, taking the bits of \<open>v\<close> from the top.\<close>

fun exp_bits :: "cnat \<Rightarrow> cnat \<Rightarrow> nat \<Rightarrow> u64 \<Rightarrow> exp_vars \<Rightarrow> mem \<Rightarrow> (exp_vars \<times> mem) result" where
  "exp_bits x m 0 v vars h = Inr (vars, h)"
| "exp_bits x m (Suc j) v vars h =
     bnd (exp_round x m (v AND push_bit (W_bits - 1) 1 \<noteq> 0) vars h) (\<lambda>(vars, h).
     exp_bits x m j (push_bit 1 v) vars h)"

fun exp_words :: "cnat \<Rightarrow> cnat \<Rightarrow> cnat \<Rightarrow> nat \<Rightarrow> exp_vars \<Rightarrow> mem \<Rightarrow> (exp_vars \<times> mem) result" where
  "exp_words x m y 0 vars h = Inr (vars, h)"
| "exp_words x m y (Suc i) vars h =
     bnd (rd (ndata y) i h) (\<lambda>v. bnd (exp_bits x m W_bits v vars h) (\<lambda>(vars, h).
     exp_words x m y i vars h))"

definition is_one :: "cnat \<Rightarrow> mem \<Rightarrow> bool result" where
  "is_one x h = (if nlen x = 1 then bnd (rd (ndata x) 0 h) (\<lambda>w. Inr (w = 1)) else Inr False)"

definition natExpNN :: "cnat \<Rightarrow> cnat \<Rightarrow> cnat \<Rightarrow> cnat \<Rightarrow> bool \<Rightarrow> mem \<Rightarrow> (cnat \<times> mem) result" where
  "natExpNN z x y m slow h =
     bnd (is_one m h) (\<lambda>m1. if m1 then natSetWord z 0 h
     else if nlen y = 0 then natSetWord z 1 h
     else if nlen x = 0 then natSetWord z 0 h
     else bnd (is_one x h) (\<lambda>x1. if x1 then natSetWord z 1 h
     else bnd (is_one y h) (\<lambda>y1. if y1 then (if nlen m \<noteq> 0 then natRem z x m h else natSet z x h)
     else bnd (if nlen m \<noteq> 0 then natMake z (nlen m) h else Inr (z, h)) (\<lambda>(z, h).
     if nlen m \<noteq> 0 \<and> 1 < nlen y \<and> \<not> slow
     then bnd (rd (ndata m) 0 h) (\<lambda>m0.
          if m0 AND 1 = 1 then bnd (natExpNNMontgomery z x y m h) (\<lambda>z. Inr (z, h))
          else bnd (natIsPower2 m h) (\<lambda>logM.
               if 0 \<le> logM then bnd (natExpNNWindowed z x y (nat logM) h) (\<lambda>z. Inr (z, h))
               else bnd (natExpNNMontgomeryEven z x y m h) (\<lambda>z. Inr (z, h))))
     else bnd (natSet z x h) (\<lambda>(z, h).
          bnd (rd (ndata y) (nlen y - 1) h) (\<lambda>v.
          let shift = nlz v + 1
          in bnd (shl v shift) (\<lambda>v.
             let (q, h) = natNewLen 0 h
             in bnd (exp_bits x m (W_bits - shift) v (z, q, q, q) h) (\<lambda>(vars, h).
                bnd (exp_words x m y (nlen y - 1) vars h) (\<lambda>((z, _, _, _), h).
                bnd (natNorm z h) (\<lambda>z. Inr (z, h)))))))))))"

definition natExpWW :: "cnat \<Rightarrow> u64 \<Rightarrow> u64 \<Rightarrow> mem \<Rightarrow> (cnat \<times> mem) result" where
  "natExpWW z x y h =
     bnd (natNew x h) (\<lambda>(nx, h). bnd (natNew y h) (\<lambda>(ny, h).
     let (e, h) = natNewLen 0 h
     in bnd (natExpNN z nx ny e False h) (\<lambda>(r, h).
        bnd (natFree nx h) (\<lambda>(_, h). bnd (natFree ny h) (\<lambda>(_, h). Inr (r, h))))))"

section \<open>The table of divisors\<close>

text \<open>The number of table entries for a number of \<open>m\<close> words.\<close>

function table_size :: "nat \<Rightarrow> nat \<Rightarrow> nat \<Rightarrow> nat" where
  "table_size m w k = (if w < m div 2 \<and> 0 < w then table_size m (2 * w) (Suc k) else k)"
  by pat_completeness auto
termination
  by (relation "measure (\<lambda>(m, w, k). m - w)") auto

declare table_size.simps [simp del]

text \<open>
  The loop that multiplies a table entry by the base as long as it does not grow by a word. Each
  round at least doubles the number, so a counter of one more than its bits is enough.
\<close>

fun grow_loop :: "nat \<Rightarrow> cnat \<Rightarrow> cnat \<Rightarrow> u64 \<Rightarrow> nat \<Rightarrow> mem \<Rightarrow> (nat \<times> mem) result" where
  "grow_loop 0 larger t b nd h = Inl OutOfFuel"
| "grow_loop (Suc f) larger t b nd h =
     bnd (mulAddVWW larger larger b 0 h) (\<lambda>(c, h).
     if c = 0 then bnd (natCopy t larger h) (\<lambda>h. grow_loop f larger t b (nd + 1) h)
     else Inr (nd, h))"

definition divisor_entry ::
  "u64 \<Rightarrow> nat \<Rightarrow> u64 \<Rightarrow> divisor list \<Rightarrow> mem \<Rightarrow> (divisor \<times> mem) result" where
  "divisor_entry b nd bb done h =
     bnd (if done = []
          then let (e, h) = natNewLen 0 h
               in bnd (natExpWW e bb (word_of_nat leafSize) h) (\<lambda>(t, h). Inr (t, nd * leafSize, h))
          else bnd (natSqr (bbb (last done)) h) (\<lambda>(t, h). Inr (t, 2 * ndigits (last done), h))) (\<lambda>(t, nd, h).
     bnd (natDup t h) (\<lambda>(larger, h).
     bnd (grow_loop (Suc (64 * nlen larger)) larger t b nd h) (\<lambda>(nd, h).
     bnd (natBitLen t h) (\<lambda>bits.
     bnd (natFree larger h) (\<lambda>(_, h). Inr (\<lparr>bbb = t, nbits = bits, ndigits = nd\<rparr>, h))))))"

fun divisors_loop :: "nat \<Rightarrow> u64 \<Rightarrow> nat \<Rightarrow> u64 \<Rightarrow> divisor list \<Rightarrow> mem \<Rightarrow> (divisor list \<times> mem) result" where
  "divisors_loop 0 b nd bb done h = Inr (done, h)"
| "divisors_loop (Suc k) b nd bb done h =
     bnd (divisor_entry b nd bb done h) (\<lambda>(d, h). divisors_loop k b nd bb (done @ [d]) h)"

text \<open>\<open>None\<close> is the null pointer: no table.\<close>

definition divisors :: "nat \<Rightarrow> u64 \<Rightarrow> nat \<Rightarrow> u64 \<Rightarrow> mem \<Rightarrow> (divisor list option \<times> mem) result" where
  "divisors m b nd bb h =
     (if leafSize = 0 \<or> m \<le> leafSize then Inr (None, h)
      else let (ok, h) = obj_alloc h
           in if \<not> ok then Inr (None, h)
              else bnd (divisors_loop (table_size m leafSize 1) b nd bb [] h) (\<lambda>(t, h). Inr (Some t, h)))"

section \<open>Conversion to text\<close>

definition MaxBase :: nat where
  "MaxBase = 10 + 26 + 26"

definition digits :: string where
  "digits = ''0123456789abcdefghijklmnopqrstuvwxyzABCDEFGHIJKLMNOPQRSTUVWXYZ''"

text \<open>The loop of \<open>maxPow\<close>; with a base of at least 2 it ends within 64 rounds.\<close>

fun maxPow_loop :: "nat \<Rightarrow> u64 \<Rightarrow> u64 \<Rightarrow> u64 \<Rightarrow> nat \<Rightarrow> (u64 \<times> nat) result" where
  "maxPow_loop 0 b mx p n = Inl OutOfFuel"
| "maxPow_loop (Suc f) b mx p n =
     (if p < mx then maxPow_loop f b mx (p * b) (n + 1) else Inr (p, n))"

definition maxPow :: "u64 \<Rightarrow> (u64 \<times> nat) result" where
  "maxPow b = maxPow_loop 65 b (M_word div b) b 1"

text \<open>Writing a character at an index of the text buffer.\<close>

definition put_char :: "string \<Rightarrow> int \<Rightarrow> char \<Rightarrow> string result" where
  "put_char s i c = (if 0 \<le> i \<and> i < int (length s) then Inr (s[nat i := c]) else Inl OutOfBounds)"

text \<open>
  The loops over the digits of one word remainder, for base 10 and for the other bases. The
  part of the buffer to be filled starts at \<open>off\<close>; both return the index they stopped at.
\<close>

fun digits10 :: "nat \<Rightarrow> u64 \<Rightarrow> nat \<Rightarrow> int \<Rightarrow> string \<Rightarrow> (nat \<times> string) result" where
  "digits10 (Suc j) r (Suc i) off s =
     (let t = r div 10
      in bnd (put_char s (off + int i) (char_of (48 + unat (r - t * 10)))) (\<lambda>s. digits10 j t i off s))"
| "digits10 _ r i off s = Inr (i, s)"

fun digits_base :: "u64 \<Rightarrow> nat \<Rightarrow> u64 \<Rightarrow> nat \<Rightarrow> int \<Rightarrow> string \<Rightarrow> (nat \<times> string) result" where
  "digits_base b (Suc j) r (Suc i) off s =
     bnd (tab_read digits (unat (r mod b))) (\<lambda>c.
     bnd (put_char s (off + int i) c) (\<lambda>s. digits_base b j (r div b) i off s))"
| "digits_base b _ r i off s = Inr (i, s)"

text \<open>
  The loop of \<open>convertWords\<close> that takes off one word remainder after the other. The number at
  least halves in every round, so a counter of one more than its bits is enough.
\<close>

fun leaf_loop :: "nat \<Rightarrow> u64 \<Rightarrow> nat \<Rightarrow> u64 \<Rightarrow> cnat \<Rightarrow> nat \<Rightarrow> int \<Rightarrow> string \<Rightarrow> mem \<Rightarrow> (cnat \<times> nat \<times> string \<times> mem) result" where
  "leaf_loop 0 b nd bb q i off s h = Inl OutOfFuel"
| "leaf_loop (Suc f) b nd bb q i off s h =
     (if 0 < nlen q
      then bnd (natDivW q bb 0 h) (\<lambda>(nq, r, h). bnd (natFree q h) (\<lambda>(_, h).
           bnd (if b = 10 then digits10 nd r i off s else digits_base b nd r i off s) (\<lambda>(i, s).
           leaf_loop f b nd bb nq i off s h)))
      else Inr (q, i, s, h))"

text \<open>The leading zeros.\<close>

fun zero_fill :: "nat \<Rightarrow> int \<Rightarrow> string \<Rightarrow> string result" where
  "zero_fill 0 off s = Inr s"
| "zero_fill (Suc i) off s = bnd (put_char s (off + int i) (CHR ''0'')) (\<lambda>s. zero_fill i off s)"

fun table_index :: "divisor list \<Rightarrow> nat \<Rightarrow> nat \<Rightarrow> nat result" where
  "table_index table minLen 0 = Inr 0"
| "table_index table minLen (Suc i) =
     bnd (tab_read table i) (\<lambda>d. if minLen < nbits d then table_index table minLen i else Inr (Suc i))"

text \<open>
  \<open>convertWords\<close> fills \<open>slen\<close> characters of the buffer from \<open>off\<close> on; \<open>split_loop\<close> is its loop that
  splits a long number by the table. An index of \<open>-1\<close>, an access outside the table, comes from an
  empty rest of the table. The first argument bounds the splitting.
\<close>

function (sequential) convertWords ::
    "nat \<Rightarrow> cnat \<Rightarrow> string \<Rightarrow> int \<Rightarrow> int \<Rightarrow> u64 \<Rightarrow> nat \<Rightarrow> u64 \<Rightarrow> divisor list option \<Rightarrow> nat \<Rightarrow> mem \<Rightarrow> (string \<times> mem) result"
  and split_loop ::
    "nat \<Rightarrow> cnat \<Rightarrow> cnat \<Rightarrow> string \<Rightarrow> int \<Rightarrow> int \<Rightarrow> u64 \<Rightarrow> nat \<Rightarrow> u64 \<Rightarrow> divisor list \<Rightarrow> int \<Rightarrow> mem \<Rightarrow>
     (cnat \<times> cnat \<times> string \<times> int \<times> mem) result" where
  "convertWords f x s off slen b nd bb table tableNum h =
     bnd (natDup x h) (\<lambda>(q, h).
     bnd (case table of
            None \<Rightarrow> Inr (q, s, slen, h)
          | Some t \<Rightarrow>
              let (r, h) = natNewLen 0 h
              in bnd (split_loop f q r s off slen b nd bb t (int tableNum - 1) h) (\<lambda>(q, r, s, slen, h).
                 bnd (natFree r h) (\<lambda>(_, h). Inr (q, s, slen, h)))) (\<lambda>(q, s, slen, h).
     bnd (leaf_loop (Suc (64 * nlen q)) b nd bb q (nat slen) off s h) (\<lambda>(q, i, s, h).
     bnd (natFree q h) (\<lambda>(_, h).
     bnd (zero_fill i off s) (\<lambda>s. Inr (s, h))))))"
| "split_loop f q r s off slen b nd bb table index h =
     (if leafSize < nlen q
      then (case f of 0 \<Rightarrow> Inl OutOfFuel
        | Suc f \<Rightarrow>
            bnd (natBitLen q h) (\<lambda>maxLen.
            if index < 0 then Inl OutOfBounds
            else bnd (table_index table (maxLen div 2) (nat index)) (\<lambda>ix.
            bnd (tab_read table ix) (\<lambda>d.
            bnd (if maxLen \<le> nbits d then bnd (natCmp (bbb d) q h) (\<lambda>c. Inr (0 \<le> c)) else Inr False) (\<lambda>big.
            cassert (big \<longrightarrow> 0 < ix)
            (let ix = (if big then ix - 1 else ix)
             in bnd (tab_read table ix) (\<lambda>d.
                bnd (natDiv q r q (bbb d) h) (\<lambda>(q, r, h).
                let l = slen - int (ndigits d)
                in bnd (convertWords f r s (off + l) (int (ndigits d)) b nd bb (Some table) ix h) (\<lambda>(s, h).
                   split_loop f q r s off l b nd bb table (int ix) h)))))))))
      else Inr (q, r, s, slen, h))"
  by pat_completeness auto
termination
  by (relation "measures [\<lambda>a. case a of Inl (f, _) \<Rightarrow> f | Inr (f, _) \<Rightarrow> f,
    \<lambda>a. case a of Inl _ \<Rightarrow> 1 | Inr _ \<Rightarrow> 0]") auto

declare convertWords.simps [simp del] split_loop.simps [simp del]

text \<open>
  The number of characters reserved, \<^verbatim>\<open>(ssize_t)((double)(natBitLen(x)) / log2((double)base)) + 1\<close>.
  The C language leaves the accuracy of \<open>log2\<close> and of the floating-point division to the implementation, so the
  truncated quotient is a parameter: \<open>quot bits base\<close>. What the conversion relies on is \<open>quot_enough\<close>:
  rounding has not pushed the quotient below a whole number it reaches.
\<close>

type_synonym log_quot = "nat \<Rightarrow> nat \<Rightarrow> nat"

definition text_size :: "log_quot \<Rightarrow> nat \<Rightarrow> nat \<Rightarrow> nat" where
  "text_size quot bits base = quot bits base + 1"

definition quot_enough :: "log_quot \<Rightarrow> nat \<Rightarrow> nat \<Rightarrow> bool" where
  "quot_enough quot bits base \<longleftrightarrow> 2 ^ bits \<le> base ^ (quot bits base + 1)"

text \<open>
  The branch for a base that is a power of two: \<open>pow2_bits\<close> takes the whole digits out of \<open>w\<close>,
  \<open>pow2_words\<close> goes through the words, joining the bits of a digit that crosses a word boundary, and
  \<open>pow2_rest\<close> takes the digits of the last word. All count the index down. A digit of no bits, which
  a base of at least 2 rules out, would make the loops run forever.
\<close>

definition put_digit :: "nat \<Rightarrow> u64 \<Rightarrow> string \<Rightarrow> (nat \<times> string) result" where
  "put_digit i d s = bnd (tab_read digits (unat d)) (\<lambda>c. bnd (put_char s (int i - 1) c) (\<lambda>s. Inr (i - 1, s)))"

function pow2_bits :: "nat \<Rightarrow> u64 \<Rightarrow> u64 \<Rightarrow> nat \<Rightarrow> nat \<Rightarrow> string \<Rightarrow> (u64 \<times> nat \<times> nat \<times> string) result" where
  "pow2_bits shift msk w nb i s =
     (if nb < shift then Inr (w, nb, i, s)
      else if shift = 0 then Inl OutOfFuel
      else bnd (put_digit i (w AND msk) s) (\<lambda>(i, s).
           pow2_bits shift msk (drop_bit shift w) (nb - shift) i s))"
  by pat_completeness auto
termination
  by (relation "measure (\<lambda>(shift, msk, w, nb, i, s). nb)") auto

declare pow2_bits.simps [simp del]

function pow2_words ::
  "cnat \<Rightarrow> nat \<Rightarrow> u64 \<Rightarrow> nat \<Rightarrow> u64 \<Rightarrow> nat \<Rightarrow> nat \<Rightarrow> string \<Rightarrow> mem \<Rightarrow> (u64 \<times> nat \<times> string) result" where
  "pow2_words x shift msk k w nb i s h =
     (if k < nlen x
      then bnd (pow2_bits shift msk w nb i s) (\<lambda>(w, nb, i, s).
           bnd (rd (ndata x) k h) (\<lambda>xk.
           if nb = 0 then pow2_words x shift msk (Suc k) xk W_bits i s h
           else let w = w OR push_bit nb xk
                in bnd (put_digit i (w AND msk) s) (\<lambda>(i, s).
                   pow2_words x shift msk (Suc k) (drop_bit (shift - nb) xk) (W_bits - (shift - nb)) i s h)))
      else Inr (w, i, s))"
  by pat_completeness auto
termination
  by (relation "measure (\<lambda>(x, shift, msk, k, w, nb, i, s, h). nlen x - k)") auto

declare pow2_words.simps [simp del]

lemma drop_bit_less:
  fixes w :: u64
  assumes "w \<noteq> 0" and "shift \<noteq> 0"
  shows "unat (drop_bit shift w) < unat w"
proof -
  have "0 < unat w" using assms(1) by (simp add: unat_gt_0)
  moreover have "1 < (2::nat) ^ shift" using assms(2) by (intro one_less_power) auto
  ultimately show ?thesis by (simp add: unat_drop_bit)
qed

function pow2_rest :: "nat \<Rightarrow> u64 \<Rightarrow> u64 \<Rightarrow> nat \<Rightarrow> string \<Rightarrow> (nat \<times> string) result" where
  "pow2_rest shift msk w i s =
     (if w = 0 then Inr (i, s)
      else if shift = 0 then Inl OutOfFuel
      else bnd (put_digit i (w AND msk) s) (\<lambda>(i, s). pow2_rest shift msk (drop_bit shift w) i s))"
  by pat_completeness auto
termination
  by (relation "measure (\<lambda>(shift, msk, w, i, s). unat w)") (auto intro: drop_bit_less)

declare pow2_rest.simps [simp del]

text \<open>The index of the first character that is not \<open>0\<close>.\<close>

fun skip_zeros :: "string \<Rightarrow> nat \<Rightarrow> nat result" where
  "skip_zeros [] i = Inl OutOfBounds"
| "skip_zeros (c # s) i = (if c = CHR ''0'' then skip_zeros s (Suc i) else Inr i)"

text \<open>Moving the text to the front of the buffer and terminating it.\<close>

definition move_front :: "string \<Rightarrow> nat \<Rightarrow> nat \<Rightarrow> string" where
  "move_front s i slen = (overlay 0 (take (slen - i) (drop i s)) s)[slen - i := CHR 0x00]"

definition cstring :: "string \<Rightarrow> string" where
  "cstring s = takeWhile (\<lambda>c. c \<noteq> CHR 0x00) s"

text \<open>\<open>natI2a\<close> returns the text buffer, or \<open>None\<close> when its allocation fails.\<close>

definition natI2a :: "log_quot \<Rightarrow> cnat \<Rightarrow> bool \<Rightarrow> nat \<Rightarrow> mem \<Rightarrow> (string option \<times> mem) result" where
  "natI2a quot x neg base h =
     cassert (2 \<le> base \<and> base \<le> MaxBase)
     (if nlen x = 0
      then let (ok, h) = obj_alloc h
           in if \<not> ok then Inr (None, h) else Inr (Some [CHR ''0'', CHR 0x00], h)
      else bnd (natBitLen x h) (\<lambda>bits.
           let i = text_size quot bits base;
               i = (if neg then i + 1 else i);
               slen = i;
               (ok, h) = obj_alloc h
           in if \<not> ok then Inr (None, h)
              else
                let s = replicate (slen + 1) (CHR 0x00); b = word_of_nat base
                in bnd (if b = b AND - b
                        then bnd (TrailingZeros b) (\<lambda>shift.
                             let msk = push_bit shift 1 - 1
                             in bnd (rd (ndata x) 0 h) (\<lambda>w.
                                bnd (pow2_words x shift msk 1 w W_bits i s h) (\<lambda>(w, i, s).
                                bnd (pow2_rest shift msk w i s) (\<lambda>(i, s). Inr (i, s, h)))))
                        else bnd (maxPow b) (\<lambda>(bb, nd).
                             bnd (divisors (nlen x) b nd bb h) (\<lambda>(table, h).
                             bnd (convertWords (64 * Suc (nlen x)) x s 0 (int slen) b nd bb table
                                   (case table of None \<Rightarrow> 0 | Some t \<Rightarrow> length t) h) (\<lambda>(s, h).
                             bnd (skip_zeros s 0) (\<lambda>i.
                             bnd (free_all (case table of None \<Rightarrow> [] | Some t \<Rightarrow> map bbb t) h) (\<lambda>h.
                             Inr (i, s, h))))))) (\<lambda>(i, s, h).
                   bnd (if neg then bnd (put_char s (int i - 1) (CHR ''-'')) (\<lambda>s. Inr (i - 1, s)) else Inr (i, s)) (\<lambda>(i, s).
                   Inr (Some (move_front s i slen), h)))))"

end
