(* ===== verification/BigIntC.thy ===== *)
theory BigIntC
  imports NatConv
begin

text \<open>
  Signed numbers, \<open>cmake/bigint/src/bigint.c\<close>. A \<open>BigInt\<close> is a heap object with a sign and a magnitude;
  the program handles pointers to it. The state holds the objects and the word memory; a fresh
  object has arbitrary fields (\<open>junk_obj\<close>), because the code allocates it with \<open>malloc\<close> and one
  operation reads them. Block 0 of the word memory is the static array \<open>word1\<close>.
\<close>

section \<open>Objects and state\<close>

record bigint =
  neg :: bool
  abs_part :: cnat

datatype bptr = BNull | BHeap nat | BOne

record bstate =
  objs :: "nat \<Rightarrow> bigint option"
  onext :: nat
  onomem :: "nat \<Rightarrow> bool"
  junk_obj :: bigint
  wmem :: mem

definition word1 :: u64 where
  "word1 = 1"

definition intOne :: bigint where
  "intOne = \<lparr>neg = False, abs_part = \<lparr>ndata = Ptr 0 0, nlen = 1, ncap = 1, npart = True\<rparr>\<rparr>"

fun obj_get :: "bptr \<Rightarrow> bstate \<Rightarrow> bigint result" where
  "obj_get BNull st = Inl NullDeref"
| "obj_get BOne st = Inr intOne"
| "obj_get (BHeap i) st = (case objs st i of None \<Rightarrow> Inl UseAfterFree | Some x \<Rightarrow> Inr x)"

fun obj_set :: "bptr \<Rightarrow> bigint \<Rightarrow> bstate \<Rightarrow> bstate result" where
  "obj_set BNull x st = Inl NullDeref"
| "obj_set BOne x st = Inl AssertFail"
| "obj_set (BHeap i) x st =
     (case objs st i of None \<Rightarrow> Inl UseAfterFree | Some _ \<Rightarrow> Inr (st\<lparr>objs := (objs st)(i \<mapsto> x)\<rparr>))"

definition obj_malloc :: "bstate \<Rightarrow> bptr \<times> bstate" where
  "obj_malloc st =
     (let i = onext st
      in if onomem st i then (BNull, st\<lparr>onext := Suc i\<rparr>)
         else (BHeap i, st\<lparr>objs := (objs st)(i \<mapsto> junk_obj st), onext := Suc i\<rparr>))"

fun obj_free :: "bptr \<Rightarrow> bstate \<Rightarrow> bstate result" where
  "obj_free BNull st = Inr st"
| "obj_free BOne st = Inl BadFree"
| "obj_free (BHeap i) st =
     (case objs st i of None \<Rightarrow> Inl BadFree | Some _ \<Rightarrow> Inr (st\<lparr>objs := (objs st)(i := None)\<rparr>))"

section \<open>Operations\<close>

text \<open>The argument of \<open>BigIntNewI\<close> is a two's complement word.\<close>

definition BigIntNewI :: "u64 \<Rightarrow> bstate \<Rightarrow> (bptr \<times> bstate) result" where
  "BigIntNewI v st =
     (let (p, st) = obj_malloc st
      in if p = BNull then Inr (BNull, st)
         else let isneg = sint v < 0; x = (if isneg then - v else v)
              in bnd (natNew x (wmem st)) (\<lambda>(t, h).
                 bnd (obj_set p \<lparr>neg = isneg, abs_part = t\<rparr> (st\<lparr>wmem := h\<rparr>)) (\<lambda>st. Inr (p, st))))"

definition BigIntNewU :: "u64 \<Rightarrow> bstate \<Rightarrow> (bptr \<times> bstate) result" where
  "BigIntNewU v st =
     (let (p, st) = obj_malloc st
      in if p = BNull then Inr (BNull, st)
         else bnd (natNew v (wmem st)) (\<lambda>(t, h).
              bnd (obj_set p \<lparr>neg = False, abs_part = t\<rparr> (st\<lparr>wmem := h\<rparr>)) (\<lambda>st. Inr (p, st))))"

definition BigIntFree :: "bptr \<Rightarrow> bstate \<Rightarrow> bstate result" where
  "BigIntFree t st =
     bnd (obj_get t st) (\<lambda>x.
     bnd (natFree (abs_part x) (wmem st)) (\<lambda>(a, h).
     bnd (if npart (abs_part x) then Inr (st\<lparr>wmem := h\<rparr>)
          else obj_set t (x\<lparr>abs_part := a\<rparr>) (st\<lparr>wmem := h\<rparr>)) (\<lambda>st. obj_free t st)))"

text \<open>
  What \<open>BigIntAdd\<close> and \<open>BigIntSub\<close> do with the magnitudes: add them, or subtract the smaller from
  the larger one and turn the sign if they were exchanged.
\<close>

definition add_abs :: "bool \<Rightarrow> bool \<Rightarrow> cnat \<Rightarrow> cnat \<Rightarrow> mem \<Rightarrow> (bool \<times> cnat \<times> mem) result" where
  "add_abs same sg x y h =
     (if same then bnd (natAdd x y h) (\<lambda>(z, h). Inr (sg, z, h))
      else bnd (natCmp x y h) (\<lambda>c.
           if 0 \<le> c then bnd (natSub x y h) (\<lambda>(z, h). Inr (sg, z, h))
           else bnd (natSub y x h) (\<lambda>(z, h). Inr (\<not> sg, z, h))))"

definition BigIntAdd :: "bptr \<Rightarrow> bptr \<Rightarrow> bstate \<Rightarrow> (bptr \<times> bstate) result" where
  "BigIntAdd x y st =
     bnd (obj_get x st) (\<lambda>xv.
     let (p, st) = obj_malloc st
     in if p = BNull then Inr (BNull, st)
        else bnd (obj_get y st) (\<lambda>yv.
             bnd (add_abs (neg xv = neg yv) (neg xv) (abs_part xv) (abs_part yv) (wmem st)) (\<lambda>(sg, z, h).
             bnd (obj_set p \<lparr>neg = (0 < nlen z \<and> sg), abs_part = z\<rparr> (st\<lparr>wmem := h\<rparr>)) (\<lambda>st.
             Inr (p, st)))))"

definition BigIntSub :: "bptr \<Rightarrow> bptr \<Rightarrow> bstate \<Rightarrow> (bptr \<times> bstate) result" where
  "BigIntSub x y st =
     (let (p, st) = obj_malloc st
      in if p = BNull then Inr (BNull, st)
         else bnd (obj_get x st) (\<lambda>xv. bnd (obj_get y st) (\<lambda>yv.
              bnd (add_abs (neg xv \<noteq> neg yv) (neg xv) (abs_part xv) (abs_part yv) (wmem st)) (\<lambda>(sg, z, h).
              bnd (obj_set p \<lparr>neg = (0 < nlen z \<and> sg), abs_part = z\<rparr> (st\<lparr>wmem := h\<rparr>)) (\<lambda>st.
              Inr (p, st))))))"

definition BigIntMul :: "bptr \<Rightarrow> bptr \<Rightarrow> bstate \<Rightarrow> (bptr \<times> bstate) result" where
  "BigIntMul x y st =
     (let (p, st) = obj_malloc st
      in if p = BNull then Inr (BNull, st)
         else bnd (obj_get x st) (\<lambda>xv. bnd (obj_get y st) (\<lambda>yv.
              bnd (natMul (abs_part xv) (abs_part yv) (wmem st)) (\<lambda>(z, h).
              bnd (obj_set p \<lparr>neg = (0 < nlen z \<and> neg xv \<noteq> neg yv), abs_part = z\<rparr> (st\<lparr>wmem := h\<rparr>)) (\<lambda>st.
              Inr (p, st))))))"

text \<open>\<open>QuoRem\<close> hands the uninitialised magnitudes of the two fresh objects to \<open>natDiv\<close> as storage.\<close>

definition QuoRem :: "bptr \<Rightarrow> bptr \<Rightarrow> bptr \<Rightarrow> bstate \<Rightarrow> (bptr \<times> bstate) result" where
  "QuoRem x y r st =
     (let (p, st) = obj_malloc st
      in if p = BNull then Inr (BNull, st)
         else bnd (obj_get p st) (\<lambda>pv. bnd (obj_get r st) (\<lambda>rv.
              bnd (obj_get x st) (\<lambda>xv. bnd (obj_get y st) (\<lambda>yv.
              bnd (natDiv (abs_part pv) (abs_part rv) (abs_part xv) (abs_part yv) (wmem st)) (\<lambda>(q, rr, h).
              bnd (obj_set p \<lparr>neg = (0 < nlen q \<and> neg xv \<noteq> neg yv), abs_part = q\<rparr> (st\<lparr>wmem := h\<rparr>)) (\<lambda>st.
              bnd (natNorm rr (wmem st)) (\<lambda>rr.
              bnd (obj_set r \<lparr>neg = (0 < nlen rr \<and> neg xv), abs_part = rr\<rparr> st) (\<lambda>st.
              Inr (p, st))))))))))"

definition BigIntDiv :: "bptr \<Rightarrow> bptr \<Rightarrow> bstate \<Rightarrow> (bptr \<times> bstate) result" where
  "BigIntDiv x y st =
     (let (r, st) = obj_malloc st
      in if r = BNull then Inr (BNull, st)
         else bnd (obj_get y st) (\<lambda>yv.
              bnd (QuoRem x y r st) (\<lambda>(z, st).
              bnd (BigIntFree r st) (\<lambda>st.
              if z = BNull then Inr (BNull, st)
              else bnd (obj_get r st) (\<lambda>rv.
                   if neg rv then if neg yv then BigIntAdd z BOne st else BigIntSub z BOne st
                   else Inr (z, st))))))"

definition BigInt2Text :: "log_quot \<Rightarrow> bptr \<Rightarrow> nat \<Rightarrow> bstate \<Rightarrow> (string option \<times> bstate) result" where
  "BigInt2Text quot x base st =
     bnd (obj_get x st) (\<lambda>xv.
     bnd (natI2a quot (abs_part xv) (neg xv) base (wmem st)) (\<lambda>(s, h). Inr (s, st\<lparr>wmem := h\<rparr>)))"

definition BigInt2String :: "log_quot \<Rightarrow> bptr \<Rightarrow> bstate \<Rightarrow> (string option \<times> bstate) result" where
  "BigInt2String quot x st =
     bnd (obj_get x st) (\<lambda>xv.
     bnd (natI2a quot (abs_part xv) (neg xv) 10 (wmem st)) (\<lambda>(s, h). Inr (s, st\<lparr>wmem := h\<rparr>)))"

definition BigInt2HexStr :: "log_quot \<Rightarrow> bptr \<Rightarrow> bstate \<Rightarrow> (string option \<times> bstate) result" where
  "BigInt2HexStr quot x st =
     bnd (obj_get x st) (\<lambda>xv.
     bnd (natI2a quot (abs_part xv) (neg xv) 16 (wmem st)) (\<lambda>(s, h). Inr (s, st\<lparr>wmem := h\<rparr>)))"

end
