(* ===== verification/BigIntOps.thy ===== *)
theory BigIntOps
  imports BigIntC
begin

text \<open>
  What the operations of \<open>cmake/bigint/src/bigint.c\<close> mean: addition, subtraction and multiplication of \<open>BigInt\<close> objects are
  the operations on integers, as long as the routines on magnitudes are. The last section shows that a sum can share its
  magnitude with an operand.
\<close>

section \<open>Values of objects\<close>

definition heap_ok :: "bstate \<Rightarrow> bool" where
  "heap_ok st \<longleftrightarrow> mem_ok (wmem st) \<and> (\<forall>i. \<not> onomem st i) \<and> (\<forall>i \<ge> onext st. objs st i = None)"

definition signed_val :: "bool \<Rightarrow> u64 list \<Rightarrow> int" where
  "signed_val s xs = (if s then - int (val xs) else int (val xs))"

text \<open>\<open>holds st p s xs\<close>: the object at \<open>p\<close> has sign \<open>s\<close> and the words \<open>xs\<close>.\<close>

definition holds :: "bstate \<Rightarrow> bptr \<Rightarrow> bool \<Rightarrow> u64 list \<Rightarrow> bool" where
  "holds st p s xs \<longleftrightarrow> (\<exists>x. obj_get p st = Inr x \<and> neg x = s \<and> words (wmem st) (abs_part x) xs)"

text \<open>The state after an operation that has made one object.\<close>

definition with_object :: "bool \<Rightarrow> cnat \<Rightarrow> mem \<Rightarrow> bstate \<Rightarrow> bstate" where
  "with_object s z h st = st\<lparr>objs := (objs st)(onext st \<mapsto> \<lparr>neg = s, abs_part = z\<rparr>), onext := Suc (onext st), wmem := h\<rparr>"

lemma obj_get_old:
  assumes "heap_ok st" and "obj_get p st = Inr x"
  shows "p \<noteq> BHeap (onext st)" and "\<And>o'. obj_get p (st\<lparr>objs := (objs st)(onext st \<mapsto> o'), onext := k\<rparr>) = Inr x"
    and "obj_get p (with_object s z h st) = Inr x"
  using assms by (cases p; auto simp: heap_ok_def with_object_def split: option.splits)+

lemma with_object_ok:
  assumes "heap_ok st" and "extends (wmem st) h" and "words h z zs"
  shows "heap_ok (with_object s z h st)" and "holds (with_object s z h st) (BHeap (onext st)) s zs"
    and "\<And>p t xs. holds st p t xs \<Longrightarrow> holds (with_object s z h st) p t xs"
  using assms obj_get_old(3) [OF assms(1)] words_extends [OF assms(2)]
  by (auto simp: heap_ok_def extends_def holds_def) (auto simp: with_object_def)

lemma make_object:
  assumes "heap_ok st"
  shows "obj_malloc st = (BHeap (onext st), st\<lparr>objs := (objs st)(onext st \<mapsto> junk_obj st), onext := Suc (onext st)\<rparr>)"
    and "obj_set (BHeap (onext st)) \<lparr>neg = s, abs_part = z\<rparr> (st\<lparr>objs := (objs st)(onext st \<mapsto> junk_obj st), onext := Suc (onext st), wmem := h\<rparr>) =
      Inr (with_object s z h st)"
  using assms by (simp_all add: obj_malloc_def heap_ok_def with_object_def Let_def)

section \<open>Signed sums\<close>

text \<open>Sums of magnitudes whose lengths differ by at most one word.\<close>

lemma natAdd_near:
  assumes "mem_ok h" and "words h x xs" and "words h y ys" and "normal xs" and "normal ys"
    and "length xs \<le> Suc (length ys)" and "length ys \<le> Suc (length xs)"
  shows "\<exists>z zs h'. natAdd x y h = Inr (z, h') \<and> words h' z zs \<and> normal zs \<and> extends h h' \<and> val zs = val xs + val ys"
proof -
  note len = words_length [OF assms(2)] words_length [OF assms(3)]
  have c: "carry_clean 1 xs ys" "carry_clean 1 ys xs" "length xs - length ys \<le> 32" "length ys - length xs \<le> 32" using assms(6,7) by (auto simp: carry_clean_def)
  consider "ys = []" | "xs = []" "ys \<noteq> []" | "length ys \<le> length xs" "ys \<noteq> []" | "length xs < length ys" "xs \<noteq> []" by force
  then show ?thesis
  proof cases
    case 1
    then show ?thesis using natAdd_empty [of y x h] len assms by auto
  next
    case 2
    then have "natAdd x y h = natAdd y x h" using len by (intro natAdd_swap) (cases ys; simp)
    then show ?thesis using 2 natAdd_empty [of x y h] len assms by auto
  next
    case 3
    from natAdd_ge [OF assms(1-3) 3 disjI1 [OF c(3)]] c(1) show ?thesis by metis
  next
    case 4
    then have "natAdd x y h = natAdd y x h" using len by (intro natAdd_swap) simp
    with natAdd_ge [OF assms(1,3,2) less_imp_le [OF 4(1)] 4(2) disjI1 [OF c(4)]] c(2) show ?thesis by (metis add.commute)
  qed
qed

lemma natSub_near:
  assumes "mem_ok h" and "words h x xs" and "words h y ys" and "normal xs" and "normal ys" and "length xs \<le> Suc (length ys)" and "val ys \<le> val xs"
  shows "\<exists>z zs h'. natSub x y h = Inr (z, h') \<and> words h' z zs \<and> normal zs \<and> extends h h' \<and> val zs = val xs - val ys"
proof -
  have "length ys \<le> length xs" using normal_length_less [of ys xs] assms(5,7) by (meson not_le)
  moreover have "carry_clean (-1) xs ys" "length xs \<le> length ys + 32" using assms(6) by (simp_all add: carry_clean_def)
  ultimately show ?thesis using natSub_outcome [OF assms(1-4)] assms(7) by (auto split: if_splits)
qed

lemma add_abs_value:
  assumes w: "mem_ok h" "words h x xs" "words h y ys" "normal xs" "normal ys" and l: "length xs \<le> Suc (length ys)" "length ys \<le> Suc (length xs)"
  shows "\<exists>s' z zs h'. add_abs same s x y h = Inr (s', z, h') \<and> words h' z zs \<and> normal zs \<and> extends h h' \<and>
    signed_val s' zs = signed_val s xs + signed_val (if same then s else \<not> s) ys"
proof -
  consider "same" | "\<not> same" "val ys \<le> val xs" | "\<not> same" "val xs < val ys" by linarith
  then show ?thesis
  proof cases
    case 1
    obtain z zs h' where r: "natAdd x y h = Inr (z, h')" "words h' z zs" "normal zs" "extends h h'" "val zs = val xs + val ys" using natAdd_near [OF w l] by blast
    have "add_abs same s x y h = Inr (s, z, h')" using 1 r(1) by (simp add: add_abs_def)
    moreover have "signed_val (s) zs = signed_val s xs + signed_val (if same then s else \<not> s) ys" using 1 r(5) by (auto simp: signed_val_def)
    ultimately show ?thesis using r by blast
  next
    case 2
    obtain z zs h' where r: "natSub x y h = Inr (z, h')" "words h' z zs" "normal zs" "extends h h'" "val zs = val xs - val ys" using natSub_near [OF w l(1)] 2 by blast
    have "add_abs same s x y h = Inr (s, z, h')" using 2 r(1) natCmp_words [OF w(2-5)] by (simp add: add_abs_def)
    moreover have "signed_val (s) zs = signed_val s xs + signed_val (if same then s else \<not> s) ys" using 2 r(5) by (auto simp: signed_val_def)
    ultimately show ?thesis using r by blast
  next
    case 3
    obtain z zs h' where r: "natSub y x h = Inr (z, h')" "words h' z zs" "normal zs" "extends h h'" "val zs = val ys - val xs" using natSub_near [OF w(1,3,2,5,4) l(2)] less_imp_le [OF 3(2)] by blast
    have "add_abs same s x y h = Inr (\<not> s, z, h')" using 3 r(1) natCmp_words [OF w(2-5)] by (simp add: add_abs_def)
    moreover have "signed_val (\<not> s) zs = signed_val s xs + signed_val (if same then s else \<not> s) ys" using 3 r(5) by (auto simp: signed_val_def)
    ultimately show ?thesis using r by blast
  qed
qed

lemma natMul_small:
  assumes "mem_ok h" and "words h x xs" and "words h y ys" and "length xs < 40 \<or> length ys < 40"
  shows "\<exists>z zs h'. natMul x y h = Inr (z, h') \<and> words h' z zs \<and> extends h h' \<and> val zs = val xs * val ys"
proof (cases "length ys \<le> length xs")
  case True
  then have "length ys < 40" using assms(4) by linarith
  from natMul_ge [OF assms(1-3) True this] show ?thesis by blast
next
  case False
  then have le: "length xs \<le> length ys" "length xs < 40" and "natMul x y h = natMul y x h"
    using assms(4) words_length [OF assms(2)] words_length [OF assms(3)] by (auto intro: natMul_swap)
  then show ?thesis using natMul_ge [OF assms(1,3,2) le] by (metis mult.commute)
qed

text \<open>
  What an operation on objects promises: a new object with the value \<open>v\<close>, and every object there was before still holds its
  number.
\<close>

definition makes :: "bstate \<Rightarrow> (bptr \<times> bstate) result \<Rightarrow> int \<Rightarrow> bool" where
  "makes st r v \<longleftrightarrow> (\<exists>p st'. r = Inr (p, st') \<and> heap_ok st' \<and> (\<exists>u zs. holds st' p u zs \<and> signed_val u zs = v) \<and>
     (\<forall>q t xs. holds st q t xs \<longrightarrow> holds st' q t xs))"

lemma makes_object:
  assumes "heap_ok st" and "extends (wmem st) h" and "words h z zs" and "signed_val u zs = v"
  shows "makes st (Inr (BHeap (onext st), with_object (0 < nlen z \<and> u) z h st)) v"
proof -
  have "signed_val (0 < nlen z \<and> u) zs = v" using assms(4) words_length [OF assms(3)] by (auto simp: signed_val_def)
  then show ?thesis using with_object_ok [OF assms(1-3)] unfolding makes_def by blast
qed

lemma holdsE:
  assumes "heap_ok st" and "holds st p s xs"
  obtains x where "neg x = s" and "words (wmem st) (abs_part x) xs" and "obj_get p st = Inr x"
    and "obj_get p (st\<lparr>objs := (objs st)(onext st \<mapsto> junk_obj st), onext := Suc (onext st)\<rparr>) = Inr x"
  using assms(2) obj_get_old(2) [OF assms(1)] by (auto simp: holds_def)

lemma BigIntAdd_BigIntSub_makes:
  assumes ok: "heap_ok st" and p: "holds st p s xs" and q: "holds st q t ys" and n: "normal xs" "normal ys"
    and l: "length xs \<le> Suc (length ys)" "length ys \<le> Suc (length xs)"
  shows "makes st (BigIntAdd p q st) (signed_val s xs + signed_val t ys)" and "makes st (BigIntSub p q st) (signed_val s xs - signed_val t ys)"
proof -
  obtain x where x: "neg x = s" "words (wmem st) (abs_part x) xs" "obj_get p st = Inr x"
    "obj_get p (st\<lparr>objs := (objs st)(onext st \<mapsto> junk_obj st), onext := Suc (onext st)\<rparr>) = Inr x" by (rule holdsE [OF ok p])
  obtain y where y: "neg y = t" "words (wmem st) (abs_part y) ys"
    "obj_get q (st\<lparr>objs := (objs st)(onext st \<mapsto> junk_obj st), onext := Suc (onext st)\<rparr>) = Inr y" by (rule holdsE [OF ok q])
  have m: "mem_ok (wmem st)" using ok by (simp add: heap_ok_def)
  note run = add_abs_value [OF m x(2) y(2) n l]
  obtain u z zs h where a: "add_abs (s = t) s (abs_part x) (abs_part y) (wmem st) = Inr (u, z, h)" "words h z zs" "extends (wmem st) h"
    "signed_val u zs = signed_val s xs + signed_val t ys" using run [of "s = t" s] by (auto split: if_splits)
  have "BigIntAdd p q st = Inr (BHeap (onext st), with_object (0 < nlen z \<and> u) z h st)"
    using a(1) x y make_object [OF ok] by (simp add: BigIntAdd_def)
  then show "makes st (BigIntAdd p q st) (signed_val s xs + signed_val t ys)" using makes_object [OF ok a(3,2,4)] by simp
  obtain u z zs h where b: "add_abs (s \<noteq> t) s (abs_part x) (abs_part y) (wmem st) = Inr (u, z, h)" "words h z zs" "extends (wmem st) h"
    "signed_val u zs = signed_val s xs + signed_val (if s \<noteq> t then s else \<not> s) ys" using run [of "s \<noteq> t" s] by blast
  have "BigIntSub p q st = Inr (BHeap (onext st), with_object (0 < nlen z \<and> u) z h st)"
    using b(1) x y make_object [OF ok] by (simp add: BigIntSub_def)
  moreover have "signed_val u zs = signed_val s xs - signed_val t ys" using b(4) by (auto simp: signed_val_def split: if_splits)
  ultimately show "makes st (BigIntSub p q st) (signed_val s xs - signed_val t ys)" using makes_object [OF ok b(3,2)] by metis
qed

lemma BigIntMul_makes:
  assumes ok: "heap_ok st" and p: "holds st p s xs" and q: "holds st q t ys" and l: "length xs < 40 \<or> length ys < 40"
  shows "makes st (BigIntMul p q st) (signed_val s xs * signed_val t ys)"
proof -
  obtain x where x: "neg x = s" "words (wmem st) (abs_part x) xs" "obj_get p st = Inr x"
    "obj_get p (st\<lparr>objs := (objs st)(onext st \<mapsto> junk_obj st), onext := Suc (onext st)\<rparr>) = Inr x" by (rule holdsE [OF ok p])
  obtain y where y: "neg y = t" "words (wmem st) (abs_part y) ys"
    "obj_get q (st\<lparr>objs := (objs st)(onext st \<mapsto> junk_obj st), onext := Suc (onext st)\<rparr>) = Inr y" by (rule holdsE [OF ok q])
  have m: "mem_ok (wmem st)" using ok by (simp add: heap_ok_def)
  obtain z zs h where z: "natMul (abs_part x) (abs_part y) (wmem st) = Inr (z, h)" "words h z zs" "extends (wmem st) h" "val zs = val xs * val ys"
    using natMul_small [OF m x(2) y(2) l] by blast
  have "BigIntMul p q st = Inr (BHeap (onext st), with_object (0 < nlen z \<and> s \<noteq> t) z h st)"
    using z(1) x y make_object [OF ok] by (simp add: BigIntMul_def)
  moreover have "signed_val (s \<noteq> t) zs = signed_val s xs * signed_val t ys" using z(4) by (auto simp: signed_val_def)
  ultimately show ?thesis using makes_object [OF ok z(3,2), of "s \<noteq> t"] by simp
qed

section \<open>Integers\<close>

text \<open>Two objects, 5 and -7, on an otherwise empty heap.\<close>

definition two_numbers :: bstate where
  "two_numbers = \<lparr>objs = [0 \<mapsto> \<lparr>neg = False, abs_part = slice 1 1\<rparr>, 1 \<mapsto> \<lparr>neg = True, abs_part = slice 2 1\<rparr>, 2 \<mapsto> \<lparr>neg = False, abs_part = slice 1 0\<rparr>],
     onext = 3, onomem = (\<lambda>_. False), junk_obj = intOne, wmem = mem_of [[1], [5], [7]]\<rparr>"

lemma two_numbers_ok:
  "heap_ok two_numbers" "holds two_numbers (BHeap 0) False [5]" "holds two_numbers (BHeap 1) True [7]"
  using words_mem_of [of 1 "[[1], [5], [7]]" 1] words_mem_of [of 2 "[[1], [5], [7]]" 1]
  by (simp_all add: heap_ok_def two_numbers_def holds_def)

text \<open>
  C5. On a heap that grants every request, \<open>BigIntAdd\<close>, \<open>BigIntSub\<close> and \<open>BigIntMul\<close> are addition,
  subtraction and multiplication of integers: they return a new object with the exact result, and
  every object there was before keeps its number. For addition and subtraction the magnitudes have no leading
  zero word and differ in length by at most one word, for multiplication one of them has less than 40
  words.
\<close>

theorem bigint_arithmetic:
  assumes "heap_ok st" and "holds st p s xs" and "holds st q t ys"
  shows "(normal xs \<and> normal ys \<and> length xs \<le> Suc (length ys) \<and> length ys \<le> Suc (length xs) \<longrightarrow>
      makes st (BigIntAdd p q st) (signed_val s xs + signed_val t ys) \<and> makes st (BigIntSub p q st) (signed_val s xs - signed_val t ys)) \<and>
    (length xs < 40 \<or> length ys < 40 \<longrightarrow> makes st (BigIntMul p q st) (signed_val s xs * signed_val t ys))"
  using BigIntAdd_BigIntSub_makes [OF assms] BigIntMul_makes [OF assms] by blast

theorem bigint_arithmetic_witness:
  "makes two_numbers (BigIntAdd (BHeap 0) (BHeap 1) two_numbers) (- 2) \<and> makes two_numbers (BigIntSub (BHeap 0) (BHeap 1) two_numbers) 12 \<and>
   makes two_numbers (BigIntMul (BHeap 0) (BHeap 1) two_numbers) (- 35)"
  using bigint_arithmetic [OF two_numbers_ok] by (simp add: normal_def signed_val_def)

section \<open>Shared magnitudes\<close>

text \<open>
  C33. Adding a number with an empty magnitude, such as the difference of two equal numbers, does not copy the
  other one: the sum shares its memory. Releasing the operand and then the sum, as the other
  operations allow, gives the same memory back twice.
\<close>

theorem BigIntAdd_shares:
  assumes "heap_ok st" and "objs st i = Some x" and "objs st j = Some y" and "neg x = neg y" and "nlen (abs_part y) = 0"
    and "\<not> npart (abs_part x)" and "ndata (abs_part x) = Ptr b 0" and "blk (wmem st) b \<noteq> None"
  shows "\<exists>r st1 st2. BigIntAdd (BHeap i) (BHeap j) st = Inr (r, st1) \<and> BigIntFree (BHeap i) st1 = Inr st2 \<and> BigIntFree r st2 = Inl BadFree"
proof -
  have ij: "i \<noteq> onext st" "j \<noteq> onext st" using assms(1-3) by (auto simp: heap_ok_def)
  let ?z = "\<lparr>neg = (0 < nlen (abs_part x) \<and> neg x), abs_part = abs_part x\<rparr>"
  have "natAdd (abs_part x) (abs_part y) (wmem st) = Inr (abs_part x, wmem st)" using assms(5) by (rule natAdd_empty)
  then have add: "BigIntAdd (BHeap i) (BHeap j) st = Inr (BHeap (onext st), with_object (neg ?z) (abs_part ?z) (wmem st) st)"
    using assms(2-4) ij make_object [OF assms(1)] by (simp add: BigIntAdd_def add_abs_def)
  let ?st = "with_object (neg ?z) (abs_part ?z) (wmem st) st"
  have o: "objs ?st i = Some x" "objs ?st (onext st) = Some ?z" "wmem ?st = wmem st" using assms(2) ij by (simp_all add: with_object_def)
  have free: "BigIntFree (BHeap i) ?st = Inr (?st\<lparr>wmem := (wmem st)\<lparr>blk := (blk (wmem st))(b := None)\<rparr>, objs := (objs ?st)(i := None)\<rparr>)"
    using o assms(6-8) by (auto simp: BigIntFree_def natFree_def cfree.simps)
  then show ?thesis using add o ij assms(6,7) by (auto simp: BigIntFree_def natFree_def cfree.simps)
qed

theorem BigIntAdd_shares_witness:
  "\<exists>r st1 st2. BigIntAdd (BHeap 0) (BHeap 2) two_numbers = Inr (r, st1) \<and> BigIntFree (BHeap 0) st1 = Inr st2 \<and> BigIntFree r st2 = Inl BadFree"
  using BigIntAdd_shares [OF two_numbers_ok(1), of 0 "\<lparr>neg = False, abs_part = slice 1 1\<rparr>" 2 "\<lparr>neg = False, abs_part = slice 1 0\<rparr>" 1]
  by (simp add: two_numbers_def slice_def mem_of_def)

end
