(* ===== verification/BigIntTest.thy ===== *)
theory BigIntTest
  imports BigIntOps
begin

text \<open>
  The test program of the big-integer library, \<open>cmake/bigint/test.c\<close>: it computes a Fibonacci number by repeated
  addition of \<open>BigInt\<close> objects, each time releasing the older operand, and compares the decimal text of the
  result with a file. The lemmas say what an addition and a release do to the heap of objects and to the word memory.
\<close>

section \<open>The program\<close>

text \<open>
  \<open>checkres\<close> reads the file into an array of exactly its size and compares up to the first zero
  character of either text. \<open>res\<close> is the text without its terminating zero; the outcome is the index it reports, if any.
  The file is given by its contents, or \<open>None\<close> if it cannot be opened.
\<close>

definition char_at :: "string \<Rightarrow> nat \<Rightarrow> char" where
  "char_at res i = (if i < length res then res ! i else CHR 0x00)"

function check_loop :: "string \<Rightarrow> string \<Rightarrow> nat \<Rightarrow> nat option result" where
  "check_loop std res i =
     (if length std \<le> i then Inl OutOfBounds
      else if std ! i \<noteq> CHR 0x00 \<and> char_at res i \<noteq> CHR 0x00
      then if std ! i \<noteq> char_at res i then Inr (Some i) else check_loop std res (Suc i)
      else Inr None)"
  by pat_completeness auto
termination
  by (relation "measure (\<lambda>(std, res, i). length std - i)") auto

declare check_loop.simps [simp del]

definition checkres :: "string option \<Rightarrow> bool \<Rightarrow> string \<Rightarrow> nat option result" where
  "checkres file mem res =
     (case file of
        None \<Rightarrow> Inr None
      | Some std \<Rightarrow> if \<not> mem then Inr None else if std = [] then Inr None else check_loop std res 0)"

text \<open>The loop of \<open>Fibonacci\<close>; \<open>sum\<close> (here \<open>acc\<close>) is a null pointer before the first round.\<close>

fun Fibonacci_loop :: "nat \<Rightarrow> bptr \<Rightarrow> bptr \<Rightarrow> bptr \<Rightarrow> bstate \<Rightarrow> (bptr \<times> bptr \<times> bptr \<times> bstate) result" where
  "Fibonacci_loop 0 a b acc st = Inr (a, b, acc, st)"
| "Fibonacci_loop (Suc k) a b acc st =
     bnd (BigIntAdd a b st) (\<lambda>(acc, st).
     bnd (BigIntFree a st) (\<lambda>st.
     Fibonacci_loop k b acc acc st))"

definition Fibonacci_sum :: "nat \<Rightarrow> bstate \<Rightarrow> (bptr \<times> bptr \<times> bptr \<times> bstate) result" where
  "Fibonacci_sum k st =
     bnd (BigIntNewU 1 st) (\<lambda>(a, st).
     bnd (BigIntNewU 1 st) (\<lambda>(b, st).
     Fibonacci_loop k a b BNull st))"

definition Fibonacci_end :: "bptr \<Rightarrow> bptr \<Rightarrow> bstate \<Rightarrow> bstate result" where
  "Fibonacci_end a b st = bnd (BigIntFree a st) (BigIntFree b)"

text \<open>A text that cannot be made is a null pointer, which \<open>checkres\<close> would read when there is a file.\<close>

definition Fibonacci :: "log_quot \<Rightarrow> nat \<Rightarrow> string option \<Rightarrow> bool \<Rightarrow> bstate \<Rightarrow> (nat option \<times> bstate) result" where
  "Fibonacci quot n file mem st =
     bnd (Fibonacci_sum (n * 10000) st) (\<lambda>(a, b, acc, st).
     bnd (BigInt2String quot acc st) (\<lambda>(p, st).
     bnd (case p of None \<Rightarrow> (if file = None \<or> \<not> mem \<or> file = Some [] then Inr None else Inl NullDeref) | Some res \<Rightarrow> checkres file mem res) (\<lambda>r.
     bnd (Fibonacci_end a b st) (\<lambda>st.
     Inr (r, st)))))"

section \<open>Comparing with a file\<close>

lemma check_loop_spec:
  assumes "i \<le> length std" and "i \<le> length res" and "take i std = take i res" and "CHR 0x00 \<notin> set std" and "CHR 0x00 \<notin> set res"
  shows "check_loop std res i =
    (if std = take (length std) res then Inl OutOfBounds
     else if res = take (length res) std then Inr None
     else Inr (Some (LEAST j. j < length std \<and> j < length res \<and> std ! j \<noteq> res ! j)))"
  using assms
proof (induction std res i rule: check_loop.induct)
  case (1 std res i)
  have eq: "std ! j = res ! j" if "j < i" for j using that 1(2-4) by (metis nth_take)
  consider "i = length std" | "i < length std" "i = length res" | "i < length std" "i < length res" using 1(2,3) by linarith
  then show ?case
  proof cases
    case a: 1
    then show ?thesis using 1(4) by (subst check_loop.simps) simp
  next
    case b: 2
    then have "std \<noteq> take (length std) res" "res = take (length res) std" using 1(4) by auto
    then show ?thesis using b by (subst check_loop.simps) (simp add: char_at_def)
  next
    case c: 3
    then have nz: "std ! i \<noteq> CHR 0x00" "char_at res i = res ! i" "res ! i \<noteq> CHR 0x00" using 1(5,6) by (auto simp: char_at_def) (metis nth_mem)+
    show ?thesis
    proof (cases "std ! i = res ! i")
      case True
      then have "take (Suc i) std = take (Suc i) res" using c 1(4) by (simp add: take_Suc_conv_app_nth)
      then show ?thesis using 1(1) c nz True 1(5,6) by (simp add: check_loop.simps [of std res i])
    next
      case False
      then have d: "std \<noteq> take (length std) res" "res \<noteq> take (length res) std" using c by (metis nth_take)+
      have "(LEAST j. j < length std \<and> j < length res \<and> std ! j \<noteq> res ! j) = i" using c False eq by (intro Least_equality) (auto simp: not_less [symmetric])
      then show ?thesis using c nz False d by (simp add: check_loop.simps [of std res i])
    qed
  qed
qed

section \<open>Objects on the heap\<close>

text \<open>\<open>number st i b n\<close>: object \<open>i\<close> is the positive number \<open>n\<close>, and owns block \<open>b\<close>.\<close>

definition number :: "bstate \<Rightarrow> nat \<Rightarrow> nat \<Rightarrow> nat \<Rightarrow> bool" where
  "number st i b n \<longleftrightarrow> (\<exists>x xs. objs st i = Some x \<and> \<not> neg x \<and> ndata (abs_part x) = Ptr b 0 \<and> \<not> npart (abs_part x) \<and>
     words (wmem st) (abs_part x) xs \<and> normal xs \<and> xs \<noteq> [] \<and> val xs = n)"

text \<open>One new object and one new block, with the next free numbers.\<close>

definition added :: "bstate \<Rightarrow> bstate \<Rightarrow> bool" where
  "added st st' \<longleftrightarrow> heap_ok st \<and> heap_ok st' \<and> onext st' = Suc (onext st) \<and> nxt (wmem st') = Suc (nxt (wmem st)) \<and>
     (\<exists>x. objs st' = (objs st)(onext st \<mapsto> x)) \<and> (\<exists>ws. blk (wmem st') = (blk (wmem st))(nxt (wmem st) \<mapsto> ws))"

definition freed :: "nat \<Rightarrow> nat \<Rightarrow> bstate \<Rightarrow> bstate" where
  "freed i b st = st\<lparr>objs := (objs st)(i := None), wmem := (wmem st)\<lparr>blk := (blk (wmem st))(b := None)\<rparr>\<rparr>"

lemma number_block: "number st i b n \<Longrightarrow> objs st i \<noteq> None \<and> blk (wmem st) b \<noteq> None"
  by (auto simp: number_def words_def seg.simps split: if_splits option.splits)

lemma number_old: "heap_ok st \<Longrightarrow> number st i b n \<Longrightarrow> i < onext st \<and> b < nxt (wmem st)"
  using number_block [of st i b n] by (metis heap_ok_def mem_ok_def wf_mem_def not_le)

lemma words_block:
  "blk h' b = blk h b \<Longrightarrow> ndata x = Ptr b off \<Longrightarrow> words h' x ws \<longleftrightarrow> words h x ws"
  by (simp add: words_def seg.simps)

lemma number_same:
  "objs st' i = objs st i \<Longrightarrow> blk (wmem st') b = blk (wmem st) b \<Longrightarrow> number st' i b n \<longleftrightarrow> number st i b n"
  unfolding number_def by (intro arg_cong [of _ _ Ex] ext) (auto simp: words_block [of "wmem st'" b "wmem st"])

lemma number_added: "added st st' \<Longrightarrow> number st i b n \<Longrightarrow> number st' i b n"
  using number_old [of st i b n] number_same [of st' i st b n] by (auto simp: added_def)

lemma number_freed: "i \<noteq> j \<Longrightarrow> b \<noteq> c \<Longrightarrow> number (freed i b st) j c n \<longleftrightarrow> number st j c n"
  by (rule number_same) (simp_all add: freed_def)

lemma heap_ok_freed: "heap_ok st \<Longrightarrow> heap_ok (freed i b st)"
  by (simp add: heap_ok_def freed_def mem_ok_def wf_mem_def)

lemma BigIntFree_number: "number st i b n \<Longrightarrow> BigIntFree (BHeap i) st = Inr (freed i b st)"
  using number_block [of st i b n]
  by (auto simp: number_def BigIntFree_def natFree_def freed_def cfree.simps)

lemma BigIntNewU_number:
  assumes ok: "heap_ok st" and v: "v \<noteq> 0"
  shows "\<exists>st'. BigIntNewU v st = Inr (BHeap (onext st), st') \<and> added st st' \<and> number st' (onext st) (nxt (wmem st)) (unat v)"
proof -
  have m: "mem_ok (wmem st)" "\<not> onomem st (onext st)" using ok by (simp_all add: heap_ok_def)
  obtain z h where z: "natNew v (wmem st) = Inr (z, h)" "words h z [v]" "extends (wmem st) h"
    "z = \<lparr>ndata = Ptr (nxt (wmem st)) 0, nlen = 1, ncap = 8, npart = False\<rparr>" by (rule natNew_words [OF m(1)])
  have h: "nxt h = Suc (nxt (wmem st))" "blk h = (blk (wmem st))(nxt (wmem st) \<mapsto> (replicate 8 0)[0 := v])"
    using z(1) m by (auto simp: natNew_def natNewLen_ok alloc_def wr.simps numeral_eq_Suc)
  let ?st = "st\<lparr>objs := (objs st)(onext st \<mapsto> \<lparr>neg = False, abs_part = z\<rparr>), onext := Suc (onext st), wmem := h\<rparr>"
  have "BigIntNewU v st = Inr (BHeap (onext st), ?st)" using z(1) m(2) by (simp add: BigIntNewU_def obj_malloc_def Let_def)
  moreover have "heap_ok ?st" using ok z(3) by (simp add: heap_ok_def extends_def)
  moreover have "number ?st (onext st) (nxt (wmem st)) (unat v)" using z v by (simp add: number_def normal_def) (intro exI [of _ "[v]"], simp)
  ultimately show ?thesis using ok h by (auto simp: added_def)
qed

text \<open>An addition whose operands are close: the carry goes to at most one further word.\<close>

lemma close_lengths:
  assumes "normal xs" and "normal ys" and "val xs \<le> val ys" and "val ys \<le> 2 * val xs"
  shows "length xs \<le> length ys" and "length ys \<le> Suc (length xs)"
proof -
  show "length xs \<le> length ys" using normal_length_less [of xs ys] assms by (meson not_le)
  show "length ys \<le> Suc (length xs)"
  proof (rule ccontr)
    assume "\<not> ?thesis"
    then have "val (0 # xs) < val ys" using assms(2) by (intro normal_length_less) simp_all
    moreover have "2 * val xs \<le> Base * val xs" by (rule mult_le_mono1) simp
    ultimately show False using assms(4) by simp
  qed
qed

lemma natAdd_close:
  assumes "mem_ok h" and "words h x xs" and "words h y ys" and n: "normal xs" "normal ys" and le: "val xs \<le> val ys" "val ys \<le> 2 * val xs" and "xs \<noteq> []"
  obtains z zs h' ws where "natAdd x y h = Inr (z, h')" and "words h' z zs" and "val zs = val xs + val ys" and "normal zs" and "extends h h'"
    and "ndata z = Ptr (nxt h) 0" and "\<not> npart z" and "nxt h' = Suc (nxt h)" and "blk h' = (blk h)(nxt h \<mapsto> ws)"
proof -
  note l = close_lengths [OF n le]
  have c: "carry_clean 1 xs ys" "carry_clean 1 ys xs" "length ys - length xs \<le> 32 \<or> low_fits 1 ys xs" "length xs - length ys \<le> 32 \<or> low_fits 1 xs ys"
    using l by (auto simp: carry_clean_def)
  show thesis
  proof (cases "length xs < length ys")
    case True
    then have sw: "natAdd x y h = natAdd y x h" using words_length [OF assms(2)] words_length [OF assms(3)] by (intro natAdd_swap) simp
    obtain z zs h' ws where r: "natAdd y x h = Inr (z, h')" "words h' z zs" "val zs = val ys + val xs \<longleftrightarrow> carry_clean 1 ys xs" "normal zs" "extends h h'"
      "ndata z = Ptr (nxt h) 0" "\<not> npart z" "nxt h' = Suc (nxt h)" "blk h' = (blk h)(nxt h \<mapsto> ws)"
      by (rule natAdd_fresh [OF assms(1,3,2) l(1) assms(8) c(3)])
    show ?thesis by (rule that [of z h' zs ws]) (use r c sw in simp_all)
  next
    case False
    then have ge: "length ys \<le> length xs" "ys \<noteq> []" using l(1) assms(8) by (cases ys; simp)+
    obtain z zs h' ws where r: "natAdd x y h = Inr (z, h')" "words h' z zs" "val zs = val xs + val ys \<longleftrightarrow> carry_clean 1 xs ys" "normal zs" "extends h h'"
      "ndata z = Ptr (nxt h) 0" "\<not> npart z" "nxt h' = Suc (nxt h)" "blk h' = (blk h)(nxt h \<mapsto> ws)"
      by (rule natAdd_fresh [OF assms(1-3) ge c(4)])
    show ?thesis by (rule that [of z h' zs ws]) (use r c ge in simp_all)
  qed
qed

lemma BigIntAdd_number:
  assumes ok: "heap_ok st" and x: "number st i b m" and y: "number st j c n" and le: "m \<le> n" "n \<le> 2 * m"
  shows "\<exists>st'. BigIntAdd (BHeap i) (BHeap j) st = Inr (BHeap (onext st), st') \<and> added st st' \<and> number st' (onext st) (nxt (wmem st)) (m + n)"
proof -
  obtain xo xs where xo: "objs st i = Some xo" "\<not> neg xo" "words (wmem st) (abs_part xo) xs" "normal xs" "xs \<noteq> []" "val xs = m" using x by (auto simp: number_def)
  obtain yo ys where yo: "objs st j = Some yo" "\<not> neg yo" "words (wmem st) (abs_part yo) ys" "normal ys" "val ys = n" using y by (auto simp: number_def)
  have m: "mem_ok (wmem st)" "\<not> onomem st (onext st)" using ok by (simp_all add: heap_ok_def)
  have "val xs \<le> val ys" "val ys \<le> 2 * val xs" using le xo yo by simp_all
  from natAdd_close [OF m(1) xo(3) yo(3) xo(4) yo(4) this xo(5)]
  obtain z zs h ws where z: "natAdd (abs_part xo) (abs_part yo) (wmem st) = Inr (z, h)" "words h z zs" "val zs = val xs + val ys" "normal zs" "extends (wmem st) h"
    "ndata z = Ptr (nxt (wmem st)) 0" "\<not> npart z" "nxt h = Suc (nxt (wmem st))" "blk h = (blk (wmem st))(nxt (wmem st) \<mapsto> ws)" .
  let ?st = "st\<lparr>objs := (objs st)(onext st \<mapsto> \<lparr>neg = False, abs_part = z\<rparr>), onext := Suc (onext st), wmem := h\<rparr>"
  have ij: "i \<noteq> onext st" "j \<noteq> onext st" using number_old [OF ok x] number_old [OF ok y] by simp_all
  then have "BigIntAdd (BHeap i) (BHeap j) st = Inr (BHeap (onext st), ?st)"
    using z(1) m(2) xo(1,2) yo(1,2) by (simp add: BigIntAdd_def obj_malloc_def add_abs_def Let_def)
  moreover have "heap_ok ?st" using ok z(5) by (simp add: heap_ok_def extends_def)
  moreover have "0 < val xs" using normal_length_less [of xs "[]"] xo(4,5) by simp
  then have "zs \<noteq> []" using z(3) by auto
  then have "number ?st (onext st) (nxt (wmem st)) (m + n)" using z xo(6) yo(5) by (auto simp: number_def)
  ultimately show ?thesis using ok z(8,9) by (auto simp: added_def)
qed

section \<open>Fibonacci numbers\<close>

fun fib :: "nat \<Rightarrow> nat" where
  "fib 0 = 0"
| "fib (Suc 0) = 1"
| "fib (Suc (Suc n)) = fib n + fib (Suc n)"

lemma fib_mono: "fib n \<le> fib (Suc n)"
  by (induction n rule: fib.induct) simp_all

text \<open>The two numbers the loop works with; nothing else has changed since state \<open>st0\<close>.\<close>

definition fib_pair :: "bstate \<Rightarrow> bstate \<Rightarrow> nat \<Rightarrow> nat \<Rightarrow> nat \<Rightarrow> nat \<Rightarrow> nat \<Rightarrow> bool" where
  "fib_pair st0 st i b j c k \<longleftrightarrow> heap_ok st \<and> number st i b (fib (Suc k)) \<and> number st j c (fib (Suc (Suc k))) \<and> i \<noteq> j \<and> b \<noteq> c \<and>
     (objs st)(i := None, j := None) = objs st0 \<and> (blk (wmem st))(b := None, c := None) = blk (wmem st0)"

lemma added_fresh: "added st st' \<Longrightarrow> objs st (onext st) = None \<and> blk (wmem st) (nxt (wmem st)) = None"
  by (simp add: added_def heap_ok_def mem_ok_def wf_mem_def)

lemma fib_pair_step:
  assumes p: "fib_pair st0 st i b j c k"
  shows "\<exists>st1 st2. BigIntAdd (BHeap i) (BHeap j) st = Inr (BHeap (onext st), st1) \<and> BigIntFree (BHeap i) st1 = Inr st2 \<and>
    fib_pair st0 st2 j c (onext st) (nxt (wmem st)) (Suc k)"
proof -
  have ok: "heap_ok st" and x: "number st i b (fib (Suc k))" and y: "number st j c (fib (Suc (Suc k)))" and ne: "i \<noteq> j" "b \<noteq> c"
    using p by (simp_all add: fib_pair_def)
  let ?l = "onext st" and ?d = "nxt (wmem st)"
  have "fib (Suc (Suc k)) \<le> 2 * fib (Suc k)" using fib_mono [of k] by simp
  from BigIntAdd_number [OF ok x y fib_mono this] obtain st1 where s1: "BigIntAdd (BHeap i) (BHeap j) st = Inr (BHeap ?l, st1)" "added st st1"
    "number st1 ?l ?d (fib (Suc k) + fib (Suc (Suc k)))" by blast
  have lt: "i < ?l" "j < ?l" "b < ?d" "c < ?d" using number_old [OF ok x] number_old [OF ok y] by simp_all
  have f: "BigIntFree (BHeap i) st1 = Inr (freed i b st1)" using BigIntFree_number [OF number_added [OF s1(2) x]] .
  have h: "heap_ok (freed i b st1)" using s1(2) heap_ok_freed by (simp add: added_def)
  have nj: "number (freed i b st1) j c (fib (Suc (Suc k)))" using number_added [OF s1(2) y] number_freed [OF ne] by simp
  have nl: "number (freed i b st1) ?l ?d (fib (Suc (Suc (Suc k))))" using s1(3) lt by (subst number_freed) auto
  obtain x ws where "objs st1 = (objs st)(?l \<mapsto> x)" "blk (wmem st1) = (blk (wmem st))(?d \<mapsto> ws)" using s1(2) by (auto simp: added_def)
  moreover have "objs st0 = (objs st)(i := None, j := None)" "blk (wmem st0) = (blk (wmem st))(b := None, c := None)" using p by (simp_all add: fib_pair_def)
  ultimately have "(objs (freed i b st1))(j := None, ?l := None) = objs st0" "(blk (wmem (freed i b st1)))(c := None, ?d := None) = blk (wmem st0)"
    using added_fresh [OF s1(2)] by (auto simp: freed_def fun_eq_iff)
  then have "fib_pair st0 (freed i b st1) j c ?l ?d (Suc k)" using h nj nl lt by (simp add: fib_pair_def)
  then show ?thesis using s1(1) f by blast
qed

lemma Fibonacci_loop_pair:
  "fib_pair st0 st i b j c k \<Longrightarrow> \<exists>i' b' j' c' st'. Fibonacci_loop n (BHeap i) (BHeap j) acc st = Inr (BHeap i', BHeap j', if n = 0 then acc else BHeap j', st') \<and>
    fib_pair st0 st' i' b' j' c' (n + k)"
proof (induction n arbitrary: st i b j c k acc)
  case (Suc n)
  obtain st1 st2 where s: "BigIntAdd (BHeap i) (BHeap j) st = Inr (BHeap (onext st), st1)" "BigIntFree (BHeap i) st1 = Inr st2"
    "fib_pair st0 st2 j c (onext st) (nxt (wmem st)) (Suc k)" using fib_pair_step [OF Suc.prems] by blast
  from Suc.IH [OF s(3), of "BHeap (onext st)"] show ?case using s(1,2) by (cases n) auto
qed auto

text \<open>
  C6. On a heap that grants every request, the loop of the test program computes the Fibonacci numbers with objects: after \<open>k\<close> additions
  every operation has succeeded, \<open>a\<close> and \<open>b\<close> are the Fibonacci numbers \<open>k + 1\<close> and \<open>k + 2\<close>, \<open>sum\<close> is \<open>b\<close> (or still
  null, if there was no addition), and the two are the only objects and own the only blocks of words that
  have been added to the heap: every intermediate sum has been given back with its words. The conversion of the
  sum to text and the comparison that follow are not part of this.
\<close>

theorem Fibonacci_computes:
  assumes "heap_ok st"
  shows "\<exists>i b j c st'. Fibonacci_sum k st = Inr (BHeap i, BHeap j, if k = 0 then BNull else BHeap j, st') \<and>
    number st' i b (fib (k + 1)) \<and> number st' j c (fib (k + 2)) \<and> i \<noteq> j \<and> b \<noteq> c \<and>
    (objs st')(i := None, j := None) = objs st \<and> (blk (wmem st'))(b := None, c := None) = blk (wmem st)"
proof -
  let ?i = "onext st" and ?b = "nxt (wmem st)" and ?j = "Suc (onext st)" and ?c = "Suc (nxt (wmem st))"
  obtain st1 where s1: "BigIntNewU 1 st = Inr (BHeap ?i, st1)" "added st st1" "number st1 ?i ?b 1" using BigIntNewU_number [OF assms, of 1] by auto
  have n: "onext st1 = ?j" "nxt (wmem st1) = ?c" "heap_ok st1" using s1(2) by (simp_all add: added_def)
  obtain st2 where s2: "BigIntNewU 1 st1 = Inr (BHeap ?j, st2)" "added st1 st2" "number st2 ?j ?c 1" using BigIntNewU_number [OF n(3), of 1] n(1,2) by auto
  obtain x ws y vs where "objs st1 = (objs st)(?i \<mapsto> x)" "blk (wmem st1) = (blk (wmem st))(?b \<mapsto> ws)"
    "objs st2 = (objs st1)(?j \<mapsto> y)" "blk (wmem st2) = (blk (wmem st1))(?c \<mapsto> vs)" using s1(2) s2(2) n(1,2) by (auto simp: added_def)
  then have "(objs st2)(?i := None, ?j := None) = objs st" "(blk (wmem st2))(?b := None, ?c := None) = blk (wmem st)"
    using added_fresh [OF s1(2)] added_fresh [OF s2(2)] n(1,2) by (auto simp: fun_eq_iff)
  then have "fib_pair st st2 ?i ?b ?j ?c 0" using number_added [OF s2(2) s1(3)] s2(2,3) by (simp add: fib_pair_def added_def)
  from Fibonacci_loop_pair [OF this, of k BNull] obtain i b j c st' where
    r: "Fibonacci_loop k (BHeap ?i) (BHeap ?j) BNull st2 = Inr (BHeap i, BHeap j, if k = 0 then BNull else BHeap j, st')" "fib_pair st st' i b j c (k + 0)" by blast
  have "Fibonacci_sum k st = Inr (BHeap i, BHeap j, if k = 0 then BNull else BHeap j, st')" using s1(1) s2(1) r(1) by (simp add: Fibonacci_sum_def)
  then show ?thesis using r(2) unfolding fib_pair_def by auto
qed

text \<open>A heap on which nothing is allocated yet.\<close>

definition empty_heap :: bstate where
  "empty_heap = \<lparr>objs = (\<lambda>_. None), onext = 0, onomem = (\<lambda>_. False), junk_obj = intOne, wmem = mem_of [[1]]\<rparr>"

theorem Fibonacci_computes_witness:
  "\<exists>i b j c st'. Fibonacci_sum 10 empty_heap = Inr (BHeap i, BHeap j, BHeap j, st') \<and> number st' i b 89 \<and> number st' j c 144 \<and>
    i \<noteq> j \<and> (objs st')(i := None, j := None) = (\<lambda>_. None)"
proof -
  have "heap_ok empty_heap" "fib (10 + 1) = 89" "fib (10 + 2) = 144" by (simp_all add: heap_ok_def empty_heap_def numeral_eq_Suc)
  then show ?thesis using Fibonacci_computes [of empty_heap 10] by (simp add: empty_heap_def) blast
qed

text \<open>Releasing the two numbers in a state the loop leaves gives back everything it has added.\<close>

lemma Fibonacci_end_pair:
  assumes "fib_pair st0 st i b j c k"
  shows "\<exists>st'. Fibonacci_end (BHeap i) (BHeap j) st = Inr st' \<and> objs st' = objs st0 \<and> blk (wmem st') = blk (wmem st0)"
proof -
  have x: "number st i b (fib (Suc k))" and y: "number (freed i b st) j c (fib (Suc (Suc k)))" using assms by (simp_all add: fib_pair_def number_freed)
  have "Fibonacci_end (BHeap i) (BHeap j) st = Inr (freed j c (freed i b st))"
    by (simp add: Fibonacci_end_def BigIntFree_number [OF x] BigIntFree_number [OF y])
  then show ?thesis using assms by (simp add: freed_def fib_pair_def)
qed

text \<open>
  Comparing a text with a file whose characters, like those of the text, are not zero: the comparison
  reads behind its array exactly if the file is not empty, its contents are a prefix of the text and there was memory for
  them. In particular this happens whenever the file is right. Otherwise the index of the first difference is
  reported, or nothing if the text is a proper prefix of the file.
\<close>

theorem checkres_outcome:
  assumes "CHR 0x00 \<notin> set std" and "CHR 0x00 \<notin> set res" and "std \<noteq> []"
  shows "checkres (Some std) True res =
    (if std = take (length std) res then Inl OutOfBounds
     else if res = take (length res) std then Inr None
     else Inr (Some (LEAST j. j < length std \<and> j < length res \<and> std ! j \<noteq> res ! j)))"
  using assms by (simp add: checkres_def check_loop_spec)

theorem checkres_outcome_witness:
  "checkres (Some ''144'') True ''144'' = Inl OutOfBounds \<and> checkres (Some ''1445'') True ''144'' = Inr None"
  using checkres_outcome [of "''144''" "''144''"] checkres_outcome [of "''1445''" "''144''"] by simp

end
