(* ===== verification/NatDigit.thy ===== *)
theory NatDigit
  imports NatDiv
begin

text \<open>
  The quotient word that long division estimates in \<open>natDivBasic\<close>, \<open>cmake/bigint/src/natdiv.c\<close>: from the first words of
  dividend and divisor, corrected by the next one, it is at most one too large.
\<close>

section \<open>The estimate of a quotient word\<close>

lemma greaterThan_value:
  "greaterThan x1 x2 y1 y2 \<longleftrightarrow> unat y1 * Base + unat y2 < unat x1 * Base + unat x2"
proof -
  have "unat y1 * Base + unat y2 < unat x1 * Base + unat x2 \<longleftrightarrow> unat y1 < unat x1 \<or> unat y1 = unat x1 \<and> unat y2 < unat x2"
    using unat64_less [of x2] unat64_less [of y2] by linarith
  then show ?thesis by (auto simp: greaterThan_def word_less_nat_alt word_unat_eq_iff)
qed

text \<open>The loop lowers the estimate from the first words to the quotient of the first three words by two.\<close>

lemma qhat_loop_quotient:
  assumes "unat qhat * unat vn1 + unat rhat = X" and "(X * Base + unat ujn2) div (unat vn1 * Base + unat vn2) \<le> unat qhat" and "vn1 \<noteq> 0"
  shows "unat (qhat_loop qhat rhat vn1 vn2 ujn2) = (X * Base + unat ujn2) div (unat vn1 * Base + unat vn2)"
  using assms
proof (induction qhat rhat vn1 vn2 ujn2 rule: qhat_loop.induct)
  case (1 qhat rhat vn1 vn2 ujn2)
  let ?D = "unat vn1 * Base + unat vn2" and ?Y = "X * Base + unat ujn2"
  have D: "0 < ?D" using "1.prems"(3) by (simp add: unat_gt_0)
  obtain lo hi where m: "mulWW qhat vn2 = (lo, hi)" by fastforce
  then have "U64Mul qhat vn2 = (lo, hi)" by (simp add: mulWW_def)
  note prod = U64Mul_exact [OF this]
  have eq: "unat qhat * ?D + (unat rhat * Base + unat ujn2) = ?Y + unat qhat * unat vn2" using "1.prems"(1) by (simp add: algebra_simps flip: add_mult_distrib)
  show ?case
  proof (cases "greaterThan hi lo rhat ujn2")
    case False
    then have "unat qhat * ?D \<le> ?Y" using eq prod by (simp add: greaterThan_value)
    then have "unat qhat \<le> ?Y div ?D" using D by (simp add: less_eq_div_iff_mult_less_eq)
    moreover have "qhat_loop qhat rhat vn1 vn2 ujn2 = qhat" using False m by (subst qhat_loop.simps) simp
    ultimately show ?thesis using "1.prems"(2) by simp
  next
    case True
    then have gt: "?Y < unat qhat * ?D" using eq prod by (simp add: greaterThan_value)
    then have lt: "?Y div ?D < unat qhat" using D by (simp add: div_less_iff_less_mult)
    then have q: "0 < unat qhat" by linarith
    then have q1: "unat (qhat - 1) = unat qhat - 1" by (simp add: unat_minus_one unat_gt_0)
    have step: "qhat_loop qhat rhat vn1 vn2 ujn2 = (if rhat + vn1 < rhat then qhat - 1 else qhat_loop (qhat - 1) (rhat + vn1) vn1 vn2 ujn2)"
      using True m by (subst qhat_loop.simps) simp
    have sum: "unat (qhat - 1) * unat vn1 + (unat rhat + unat vn1) = X" using "1.prems"(1) q q1 by (cases "unat qhat") simp_all
    have wrap: "unat (rhat + vn1) = (if Base \<le> unat rhat + unat vn1 then unat rhat + unat vn1 - Base else unat rhat + unat vn1)"
      using unat64_less [of rhat] unat64_less [of vn1] by (simp add: unat_add64 mod_wrap_once)
    then have over: "rhat + vn1 < rhat \<longleftrightarrow> Base \<le> unat rhat + unat vn1"
      using unat64_less [of vn1] by (simp add: word_less_nat_alt) linarith
    show ?thesis
    proof (cases "rhat + vn1 < rhat")
      case o: True
      have "unat (qhat - 1) * unat vn2 \<le> Base * Base" using unat64_less [of "qhat - 1"] unat64_less [of vn2] by (intro mult_le_mono) simp_all
      also have "\<dots> \<le> (unat rhat + unat vn1) * Base" using o over by simp
      finally have "unat (qhat - 1) * ?D \<le> X * Base" unfolding sum [symmetric] by (simp add: add_mult_distrib add_mult_distrib2 mult.assoc)
      then have "unat (qhat - 1) * ?D \<le> ?Y" by simp
      then have "unat (qhat - 1) \<le> ?Y div ?D" using D by (simp add: less_eq_div_iff_mult_less_eq)
      then show ?thesis using step o lt q1 by simp
    next
      case False
      then have "unat (qhat - 1) * unat vn1 + unat (rhat + vn1) = X" using sum over wrap by simp
      then have "unat (qhat_loop (qhat - 1) (rhat + vn1) vn1 vn2 ujn2) = ?Y div ?D"
        using "1.IH" [OF m [symmetric] refl True refl refl refl False] lt q1 "1.prems"(3) by simp
      then show ?thesis using step False by simp
    qed
  qed
qed

lemma digit_estimate:
  fixes U V Y D E Ul Vl :: nat
  assumes U: "U = Ul + E * Y" "Ul < E" and V: "V = Vl + E * D" "Vl < E" and D: "Base \<le> D" and less: "U < Base * V"
  shows "U div V \<le> Y div D" and "Y div D \<le> Suc (U div V)"
proof -
  have D0: "0 < D" using D by simp
  have E0: "0 < E" using U(2) by simp
  have V0: "0 < V" using V D0 E0 by simp
  define d where "d = U div V"
  have "E * (d * D) \<le> d * V" using V(1) by (simp add: algebra_simps)
  also have "\<dots> \<le> U" by (simp add: d_def)
  also have "U < E * Suc Y" using U by simp
  finally have "d * D < Suc Y" using E0 by (metis mult_less_cancel1)
  then have "d * D \<le> Y" by simp
  then show "U div V \<le> Y div D" using D0 by (simp add: less_eq_div_iff_mult_less_eq flip: d_def)
  define q where "q = Y div D"
  have qD: "q * D \<le> Y" by (simp add: q_def)
  have "E * Y \<le> U" using U(1) by simp
  also have "U < Base * V" by (rule less)
  also have "Base * V < Base * (E * Suc D)" using V by simp
  finally have "E * Y < E * (Base * Suc D)" by (simp add: algebra_simps)
  then have "Y < Base * Suc D" using E0 by (metis mult_less_cancel1)
  with qD have "q * D < Base * Suc D" by (rule le_less_trans)
  also have "\<dots> \<le> (Base + 1) * D" using D by simp
  finally have "q \<le> Base" using D0 by (metis mult_less_cancel2 Suc_eq_plus1 less_Suc_eq_le)
  then have small: "q - 1 \<le> D" using D by linarith
  have "(q - 1) * V \<le> U"
  proof (cases "q = 0")
    case False
    then have "(q - 1) * D + D \<le> Y" using qD by (cases q) simp_all
    then have "E * ((q - 1) * D + D) \<le> E * Y" by simp
    moreover have "(q - 1) * Vl \<le> D * E" using small V(2) by (intro mult_le_mono) simp_all
    ultimately have "(q - 1) * V \<le> E * Y" unfolding V(1) by (simp add: algebra_simps)
    then show ?thesis using U(1) by simp
  qed simp
  then have "q - 1 \<le> U div V" using V0 by (simp add: less_eq_div_iff_mult_less_eq)
  then show "Y div D \<le> Suc (U div V)" by (simp add: q_def)
qed

lemma top_digit:
  fixes U V F Ul Vl v :: nat
  assumes U: "U = Ul + Base * F * v" and V: "V = Vl + F * v" "Vl < F" and v: "Base \<le> 2 * v" and less: "U < Base * V"
  shows "U div V \<le> Base - 1" and "Base - 1 \<le> Suc (U div V)"
proof -
  have "0 < F" "0 < v" using V(2) v by simp_all
  then have V0: "0 < V" using V(1) by simp
  show "U div V \<le> Base - 1" using less V0 by (simp add: div_less_iff_less_mult less_Suc_eq_le [symmetric])
  have "(Base - 2) * Vl \<le> Base * F" using V(2) by (intro mult_le_mono) simp_all
  also have "\<dots> \<le> 2 * v * F" using v by (rule mult_le_mono1)
  finally have "(Base - 2) * V \<le> Base * F * v" unfolding V(1) by (simp add: algebra_simps)
  then have "(Base - 2) * V \<le> U" using U by simp
  then have "Base - 2 \<le> U div V" using V0 by (simp add: less_eq_div_iff_mult_less_eq)
  then show "Base - 1 \<le> Suc (U div V)" by simp
qed

text \<open>A vector by its low words, the two words below position \<open>n\<close>, and the words from there on.\<close>

lemma val_split: "n \<le> length ds \<Longrightarrow> val ds = val (take n ds) + Base ^ n * val (drop n ds)"
  by (metis val_take_drop min.absorb2)

lemma val_split3:
  assumes "2 \<le> n" and "n \<le> length ds"
  shows "val ds = val (take (n - 2) ds) + Base ^ (n - 2) * (unat (ds ! (n - 2)) + Base * (unat (ds ! (n - 1)) + Base * val (drop n ds)))"
proof -
  have "Suc (n - 2) = n - 1" "Suc (n - 1) = n" using assms(1) by linarith+
  then have "drop (n - 2) ds = ds ! (n - 2) # ds ! (n - 1) # drop n ds"
    using assms Cons_nth_drop_Suc [of "n - 2" ds] Cons_nth_drop_Suc [of "n - 1" ds] by simp
  then have "val (drop (n - 2) ds) = unat (ds ! (n - 2)) + Base * (unat (ds ! (n - 1)) + Base * val (drop n ds))" by (simp only: val.simps)
  moreover have "n - 2 \<le> length ds" using assms by simp
  ultimately show ?thesis using val_split [of "n - 2" ds] by (simp only:)
qed

lemma val_take_less: "n \<le> length ds \<Longrightarrow> val (take n ds) < Base ^ n"
  using val_bound [of "take n ds"] by (simp only: length_take min.absorb2)

lemma val_drop_at: "n \<le> length ds \<Longrightarrow> val (drop n ds) = (if n < length ds then unat (ds ! n) + Base * val (drop (Suc n) ds) else 0)"
  using Cons_nth_drop_Suc [of n ds] by (metis drop_all not_le val.simps)

lemma val_high_word:
  assumes "n \<le> length ds" and "val ds < Base ^ Suc n"
  shows "val (drop n ds) = (if n < length ds then unat (ds ! n) else 0)"
proof -
  have "Base ^ n * val (drop n ds) \<le> val ds" using val_split [OF assms(1)] by linarith
  also have "\<dots> < Base ^ n * Base" using assms(2) by (simp add: mult.commute)
  finally have "val (drop n ds) < Base" by (metis mult_less_cancel1)
  then show ?thesis using val_drop_at [OF assms(1)] by (auto split: if_splits)
qed

lemma val_drop_low:
  assumes "val ds < Base ^ k"
  shows "val (drop k ds) = 0" and "val (take k ds) = val ds"
proof -
  have "val (drop k ds) = 0 \<and> val (take k ds) = val ds"
  proof (cases "k \<le> length ds")
    case True
    have "Base ^ k * val (drop k ds) < Base ^ k * 1" using val_split [OF True] assms by linarith
    then have "val (drop k ds) = 0" by (simp only: mult_less_cancel1 less_one)
    then show ?thesis using val_split [OF True] by simp
  qed simp
  then show "val (drop k ds) = 0" and "val (take k ds) = val ds" by simp_all
qed

lemma div_qhat_digit:
  assumes u: "seg h (ndata u) L = Some us" "nlen u = L" and v: "seg h (ndata v) n = Some vs" "nlen v = n" and n: "2 \<le> n" "j + n \<le> L"
    and vn1: "vn1 = vs ! (n - 1)" "Base \<le> 2 * unat vn1" and rec: "reciprocalWord vn1 = Inr rec" and less: "val (drop j us) < Base * val vs"
    and ptr: "ndata u = Ptr bu 0" "ndata v = Ptr bv 0"
  shows "\<exists>qhat. div_qhat u v vn1 rec j h = Inr qhat \<and> val (drop j us) div val vs \<le> unat qhat \<and> unat qhat \<le> Suc (val (drop j us) div val vs)"
proof -
  define ds where "ds = drop j us"
  have lu: "length us = L" and lv: "length vs = n" using seg_length [OF u(1)] seg_length [OF v(1)] by simp_all
  have nd: "n \<le> length ds" using n(2) lu by (simp add: ds_def)
  define ujn where "ujn = (if j + n < L then us ! (j + n) else 0)"
  let ?ujn1 = "us ! (j + n - 1)" and ?ujn2 = "us ! (j + n - 2)" and ?vn2 = "vs ! (n - 2)"
  let ?E = "Base ^ (n - 2)" and ?V = "val vs" and ?U = "val (drop j us)"
  obtain k where "n = Suc (Suc k)" using n(1) by (metis add_2_eq_Suc le_Suc_ex)
  then have E: "Base ^ (n - 1) = Base * ?E" "Base ^ n = Base * Base * ?E" by simp_all
  have V: "?V = val (take (n - 2) vs) + ?E * (unat vn1 * Base + unat ?vn2)"
    using val_split3 [OF n(1), of vs] lv vn1(1) by (simp add: algebra_simps)
  have Vl: "val (take (n - 2) vs) < ?E" using lv by (intro val_take_less) simp
  have "n - 1 < length vs" "Suc (n - 1) = n" using lv n(1) by linarith+
  then have "val (drop (n - 1) vs) = unat vn1" using val_drop_at [of "n - 1" vs] lv vn1(1) by simp
  then have V1: "?V = val (take (n - 1) vs) + Base ^ (n - 1) * unat vn1" using val_split [of "n - 1" vs] lv by (metis diff_le_self)
  have V1l: "val (take (n - 1) vs) < Base ^ (n - 1)" using lv by (intro val_take_less) simp
  have Vless: "?V < Base ^ n" using val_bound [of vs] lv by simp
  have "?U < Base * Base ^ n" using less Vless by (meson less_trans mult_less_cancel1 zero_less_numeral)
  then have "val ds < Base ^ Suc n" by (simp add: ds_def)
  then have hi: "val (drop n ds) = unat ujn" using val_high_word [OF nd] n(2) lu by (auto simp: ds_def ujn_def)
  have nth: "ds ! (n - 1) = ?ujn1" "ds ! (n - 2) = ?ujn2" using n lu by (simp_all add: ds_def)
  define X where "X = unat ujn * Base + unat ?ujn1"
  have U: "?U = val (take (n - 2) ds) + ?E * (X * Base + unat ?ujn2)"
    using val_split3 [OF n(1) nd] hi nth by (simp add: ds_def X_def algebra_simps)
  have Ul: "val (take (n - 2) ds) < ?E" using nd by (intro val_take_less) simp
  have "Base ^ n * unat ujn \<le> ?U" unfolding U X_def E by (simp add: algebra_simps)
  also have "?U < Base * ?V" by (rule less)
  also have "\<dots> < Base * (Base ^ (n - 1) * Suc (unat vn1))"
    using V1 V1l by simp
  finally have "Base ^ n * unat ujn < Base ^ n * Suc (unat vn1)" using E by (simp add: mult.assoc)
  then have le: "unat ujn \<le> unat vn1" by (metis less_Suc_eq_le mult_less_cancel1)
  have reads: "bnd (if j + nlen v < nlen u then rd (ndata u) (j + nlen v) h else Inr 0) f = f ujn"
    "rdi (ndata u) (int (j + nlen v) - 1) h = Inr ?ujn1" "rdi (ndata u) (int (j + nlen v) - 2) h = Inr ?ujn2" "rdi (ndata v) (int (nlen v) - 2) h = Inr ?vn2" for f :: "u64 \<Rightarrow> u64 result"
    using rd_seg [OF u(1)] rd_seg [OF v(1)] u(2) v(2) n ptr by (auto simp: ujn_def nat_diff_distrib nat_add_distrib)
  show ?thesis
  proof (cases "ujn = vn1")
    case True
    have "?U = (val (take (n - 2) ds) + ?E * (unat ?ujn1 * Base + unat ?ujn2)) + Base * Base ^ (n - 1) * unat vn1"
      unfolding U X_def E True by (simp add: algebra_simps)
    moreover have "?V = (val (take (n - 2) vs) + ?E * unat ?vn2) + Base ^ (n - 1) * unat vn1" unfolding V E by (simp add: algebra_simps)
    moreover have "val (take (n - 2) vs) + ?E * unat ?vn2 < Base ^ (n - 1)"
      using V1 V1l V E by (simp add: algebra_simps)
    ultimately have "?U div ?V \<le> Base - 1" "Base - 1 \<le> Suc (?U div ?V)" using top_digit [OF _ _ _ vn1(2) less] by blast+
    moreover have "div_qhat u v vn1 rec j h = Inr M_word" unfolding div_qhat_def Let_def reads using True by simp
    ultimately show ?thesis by (simp add: M_word_unat)
  next
    case False
    then have "ujn < vn1" using le by (simp add: word_less_nat_alt word_unat_eq_iff)
    then obtain q r where q: "divWW ujn ?ujn1 vn1 rec = Inr (q, r)" "unat q = X div unat vn1" "unat r = X mod unat vn1"
      using divWW_exact [OF _ rec, of ujn ?ujn1] X_def by metis
    let ?D = "unat vn1 * Base + unat ?vn2" and ?Y = "X * Base + unat ?ujn2"
    have v0: "vn1 \<noteq> 0" using \<open>ujn < vn1\<close> by auto
    have "?Y div ?D \<le> ?Y div (unat vn1 * Base)" using v0 by (intro div_le_mono2) (simp_all add: unat_gt_0)
    also have "\<dots> = X div unat vn1" using unat64_less [of ?ujn2] by (simp add: div_mult2_eq [symmetric] mult.commute [of _ Base] div_mult2_eq)
    finally have "?Y div ?D \<le> unat q" using q(2) by simp
    moreover have "unat q * unat vn1 + unat r = X" using q(2,3) by simp
    ultimately have "unat (qhat_loop q r vn1 ?vn2 ?ujn2) = ?Y div ?D" using v0 by (intro qhat_loop_quotient)
    moreover have "div_qhat u v vn1 rec j h = Inr (qhat_loop q r vn1 ?vn2 ?ujn2)" unfolding div_qhat_def Let_def reads using False q(1) by simp
    moreover have "?U div ?V \<le> ?Y div ?D" "?Y div ?D \<le> Suc (?U div ?V)"
      using digit_estimate [OF U Ul V Vl _ less] vn1(2) by simp_all
    ultimately show ?thesis by simp
  qed
qed

end
