(* ===== verification/NatLong.thy ===== *)
theory NatLong
  imports NatDigit
begin

text \<open>
  Long division is exact: one step of the loop of \<open>natDivBasic\<close> in \<open>cmake/bigint/src/natdiv.c\<close> finds one quotient word
  and leaves the remainder in the dividend; the loop, the shifts before and after it and \<open>natDiv\<close> follow from that.
\<close>

section \<open>Changing some blocks only\<close>

definition only :: "nat set \<Rightarrow> mem \<Rightarrow> mem \<Rightarrow> bool" where
  "only S h h' \<longleftrightarrow> nxt h' = nxt h \<and> nomem h' = nomem h \<and> junk_word h' = junk_word h \<and> (\<forall>b. b \<notin> S \<longrightarrow> blk h' b = blk h b) \<and>
     (\<forall>b. blk h' b = None \<longleftrightarrow> blk h b = None)"

lemma only_refl [simp]: "only S h h"
  by (simp add: only_def)

lemma only_trans: "only S h h' \<Longrightarrow> only S h' h'' \<Longrightarrow> only S h h''"
  by (simp add: only_def)

lemma only_put: "b \<in> S \<Longrightarrow> only S h (put (Ptr b off) xs h)"
  by (auto simp: only_def put.simps)

lemma only_put_trans: "only S h h' \<Longrightarrow> b \<in> S \<Longrightarrow> only S h (put (Ptr b off) xs h')"
  using only_put only_trans by blast

lemma seg_only: "only S h h' \<Longrightarrow> b \<notin> S \<Longrightarrow> seg h' (Ptr b off) k = seg h (Ptr b off) k"
  by (simp add: only_def seg.simps)

lemma seg_put_block: "b \<noteq> c \<Longrightarrow> seg (put (Ptr c off') xs h) (Ptr b off) k = seg h (Ptr b off) k"
  by (rule seg_only [OF only_put [of c "{c}"]]) simp_all

definition drop_block :: "nat \<Rightarrow> mem \<Rightarrow> mem" where
  "drop_block b h = h\<lparr>blk := (blk h)(b := None)\<rparr>"

lemma drop_block_fields [simp]: "nxt (drop_block b h) = nxt h" "junk_word (drop_block b h) = junk_word h"
  by (simp_all add: drop_block_def)

lemma blk_drop_block: "b' \<noteq> b \<Longrightarrow> blk (drop_block b h) b' = blk h b'"
  by (simp add: drop_block_def)

lemma mem_ok_drop_block [simp]: "mem_ok h \<Longrightarrow> mem_ok (drop_block b h)"
  by (simp add: drop_block_def mem_ok_def wf_mem_def)

lemma words_drop_block: "words h x xs \<Longrightarrow> ndata x = Ptr c off \<Longrightarrow> c \<noteq> b \<Longrightarrow> words (drop_block b h) x xs"
  using seg_other_block [of "drop_block b h" c h off "nlen x"] by (simp add: words_def blk_drop_block)

lemma natFree_block:
  "ndata p = Ptr b 0 \<Longrightarrow> \<not> npart p \<Longrightarrow> blk h b \<noteq> None \<Longrightarrow>
    natFree p h = Inr (\<lparr>ndata = Null, nlen = 0, ncap = 0, npart = False\<rparr>, drop_block b h)"
  by (simp add: natFree_def drop_block_def)

section \<open>One step of the loop\<close>

text \<open>Subtracting the product of the estimate and adding the divisor back if that was too much.\<close>

lemma add_back_value:
  fixes W V q :: nat
  assumes sub: "int z - int (B * c) = int W - int (q * V)" and c: "c \<le> 1"
    and q: "W div V \<le> q" "q \<le> Suc (W div V)" and V: "0 < V" and z: "z < B"
  shows "c = 0 \<Longrightarrow> q = W div V \<and> z = W mod V" and "c \<noteq> 0 \<Longrightarrow> q = Suc (W div V) \<and> z + V = W mod V + B"
proof -
  have W': "W = W div V * V + W mod V" by simp
  show "q = W div V \<and> z = W mod V" if "c = 0"
  proof -
    have "int W = int (z + q * V)" using sub that by simp
    then have e: "W = z + q * V" by (simp only: of_nat_eq_iff)
    then have "q * V \<le> W" by simp
    then have "q \<le> W div V" using V by (simp add: less_eq_div_iff_mult_less_eq)
    then have "q = W div V" using q(1) by simp
    then show ?thesis using e W' by simp
  qed
  show "q = Suc (W div V) \<and> z + V = W mod V + B" if "c \<noteq> 0"
  proof -
    have "c = 1" using c that by simp
    then have "int (z + q * V) = int (W + B)" using sub by simp
    then have e: "z + q * V = W + B" by (simp only: of_nat_eq_iff)
    then have "W < q * V" using z by linarith
    then have "q \<noteq> W div V" by (metis div_times_less_eq_dividend not_less)
    then have "q = Suc (W div V)" using q by simp
    moreover from this have "q * V = W div V * V + V" by simp
    ultimately show ?thesis using e W' by linarith
  qed
qed

lemma sub_window:
  assumes "seg h (Ptr bu j) w = Some ws" and "seg h (Ptr bt 0) (Suc n) = Some ts" and "bu \<noteq> bt" and "w \<le> Suc n" and "val (drop w ts) = 0"
    and "ndata ul = Ptr bu j" "nlen ul = w" and "ndata uj = Ptr bu j" "w \<le> nlen uj" and "ndata qh = Ptr bt 0" "nlen qh = Suc n"
  obtains zs c where "subVV ul uj qh h = Inr (c, put (Ptr bu j) zs h)" and "length zs = w"
    and "int (val zs) - int (Base ^ w * unat c) = int (val ws) - int (val ts)" and "unat c \<le> 1"
proof -
  have segs: "seg h (ndata ul) w = Some ws" "seg h (ndata uj) w = Some ws" "seg h (ndata qh) w = Some (take w ts)"
    using assms(1) seg_take(1) [OF assms(2,4)] assms(6,8,10) by simp_all
  have al: "aliased (ndata uj) (ndata ul) w" "aliased (ndata qh) (ndata ul) w" "min (nlen ul) (min (nlen uj) (nlen qh)) = w"
    using assms by (auto simp: aliased_def)
  obtain zs c where r: "subVV ul uj qh h = Inr (c, put (ndata ul) zs h)" "length zs = w"
    "int (val zs) + - 1 * int (Base ^ w * unat c) = int (val ws) + - 1 * int (val (take w ts))" "unat c \<le> 1"
    by (rule sub.vv_sum [OF segs al])
  have "val ts = val (take w ts)" using assms(5) val_split [of w ts] seg_length [OF assms(2)] assms(4) by simp
  then show thesis using r assms(6) by (intro that) simp_all
qed

lemma rd_shift: "rd (Ptr b 0) (j + n) h = rd (Ptr b j) n h"
  by (simp add: rd.simps split: option.split)

lemma wr_shift: "wr (Ptr b 0) (j + n) v h = wr (Ptr b j) n v h"
  by (simp add: wr.simps split: option.split)

lemma rdi_seg: "seg h p n = Some xs \<Longrightarrow> i < n \<Longrightarrow> rdi p (int i) h = Inr (xs ! i)"
  using rd_seg [of h p n xs i] by (cases p) (auto simp: rd_shift nat_int_add)

lemma add_window:
  assumes "seg h (Ptr bu j) w = Some zs" and "seg h (Ptr bv 0) n = Some vs" and "bu \<noteq> bv" and "w = n \<or> w = Suc n"
    and "ndata v = Ptr bv 0" "nlen v = n" and "ndata u = Ptr bu 0" "j + w \<le> nlen u"
  obtains rs where "bnd (natPart u j (j + n)) (\<lambda>u3. bnd (natPart u j (nlen u)) (\<lambda>uj. bnd (addVV u3 uj v h) (\<lambda>(cc, h).
      bnd (if n < w then bnd (rd (ndata u) (j + n) h) (\<lambda>a. wr (ndata u) (j + n) (a + cc) h) else Inr h) (\<lambda>h. Inr (qhat - 1, h))))) =
      Inr (qhat - 1, put (Ptr bu j) rs h)" and "length rs = w" and "val rs = (val zs + val vs) mod Base ^ w"
proof -
  define u3 where "u3 = \<lparr>ndata = Ptr bu j, nlen = n, ncap = n, npart = 0 < j\<rparr>"
  define uj where "uj = \<lparr>ndata = Ptr bu j, nlen = nlen u - j, ncap = nlen u - j, npart = 0 < j\<rparr>"
  have nw: "n \<le> w" using assms(4) by auto
  have len: "length zs = w" using assms(1) by (rule seg_length)
  have parts: "natPart u j (j + n) = Inr u3" "natPart u j (nlen u) = Inr uj"
    using assms(7,8) by (simp_all add: natPart_ok u3_def uj_def)
  have segs: "seg h (ndata u3) n = Some (take n zs)" "seg h (ndata uj) n = Some (take n zs)" "seg h (ndata v) n = Some vs"
    using seg_take(1) [OF assms(1) nw] assms(2,5) by (simp_all add: u3_def uj_def)
  have al: "aliased (ndata uj) (ndata u3) n" "aliased (ndata v) (ndata u3) n" "min (nlen u3) (min (nlen uj) (nlen v)) = n"
    using assms nw by (auto simp: aliased_def u3_def uj_def)
  obtain rs cc where r: "addVV u3 uj v h = Inr (cc, put (ndata u3) rs h)" "length rs = n"
    "int (val rs) + 1 * int (Base ^ n * unat cc) = int (val (take n zs)) + 1 * int (val vs)" "unat cc \<le> 1"
    by (rule add.vv_sum [OF segs al])
  have sum: "val rs + Base ^ n * unat cc = val (take n zs) + val vs" using r(3) by linarith
  have bound: "val rs < Base ^ n" using val_bound [of rs] r(2) by simp
  have r1: "addVV u3 uj v h = Inr (cc, put (Ptr bu j) rs h)" using r(1) by (simp add: u3_def)
  show thesis
  proof (cases "w = n")
    case True
    then have "val rs = (val zs + val vs) mod Base ^ w" using sum bound len by (metis mod_mult_self2 mod_less order_refl take_all)
    then show thesis using True r1 r(2) by (intro that) (simp_all add: parts)
  next
    case False
    then have w: "w = Suc n" using assms(4) by simp
    let ?h = "put (Ptr bu j) rs h"
    have "seg ?h (Ptr bu j) w = Some (overlay 0 rs zs)" using seg_put_sub [OF assms(1), of 0 rs] r(2) nw by simp
    note at = rd_seg [OF this, of n] wr_seg [OF this, of n]
    have rdn: "rd (Ptr bu j) n ?h = Inr (zs ! n)" using at(1) w len r(2) by simp
    have wrn: "wr (Ptr bu j) n a ?h = Inr (put (Ptr bu j) (rs @ [a]) h)" for a
      using at(2) [of a] w put_put_append [of "Ptr bu j" rs "[a]" h] r(2) by simp
    have "val zs = val (take n zs) + Base ^ n * unat (zs ! n)" using val_nth_split [of n zs] len w by simp
    then have "val zs + val vs = val rs + Base ^ n * (unat (zs ! n) + unat cc)" using sum by (simp add: algebra_simps)
    then have "(val zs + val vs) mod (Base ^ n * Base) = val rs + Base ^ n * ((unat (zs ! n) + unat cc) mod Base)"
      using bound by (simp add: mod_mult2_eq)
    then have "val (rs @ [zs ! n + cc]) = (val zs + val vs) mod Base ^ w"
      using r(2) w by (simp add: val_append unat_add64 mult.commute)
    then show thesis using r1 r(2) w rdn wrn assms(7) by (intro that [of "rs @ [zs ! n + cc]"]) (simp_all add: parts rd_shift wr_shift)
  qed
qed

lemma sub_back:
  assumes u: "seg h (Ptr bu j) w = Some ws" and v: "seg h (Ptr bv 0) n = Some vs" and t: "seg h (Ptr bt 0) (Suc n) = Some ts"
    and ne: "bu \<noteq> bv" "bu \<noteq> bt" and w: "w = n \<or> w = Suc n"
    and at: "ndata v = Ptr bv 0" "nlen v = n" "ndata u = Ptr bu 0" "j + w \<le> nlen u" "ndata qh = Ptr bt 0" "nlen qh = Suc n"
    and prod: "val ts = unat qhat * val vs" "val (drop w ts) = 0" and V: "0 < val vs"
    and q: "val ws div val vs \<le> unat qhat" "unat qhat \<le> Suc (val ws div val vs)"
  obtains rs d where "\<And>f :: u64 \<times> mem \<Rightarrow> mem result. bnd (natPart u j (j + w)) (\<lambda>ul. bnd (natPart u j (nlen u)) (\<lambda>uj. bnd (subVV ul uj qh h) (\<lambda>(c, h).
      bnd (if c \<noteq> 0
        then bnd (natPart u j (j + n)) (\<lambda>u3. bnd (natPart u j (nlen u)) (\<lambda>uj. bnd (addVV u3 uj v h) (\<lambda>(cc, h).
             bnd (if n < w then bnd (rd (ndata u) (j + n) h) (\<lambda>a. wr (ndata u) (j + n) (a + cc) h) else Inr h) (\<lambda>h. Inr (qhat - 1, h)))))
        else Inr (qhat, h)) f))) = f (d, put (Ptr bu j) rs h)"
    and "length rs = w" and "val rs = val ws mod val vs" and "unat d = val ws div val vs"
proof -
  define ul where "ul = \<lparr>ndata = Ptr bu j, nlen = w, ncap = w, npart = 0 < j\<rparr>"
  define uj where "uj = \<lparr>ndata = Ptr bu j, nlen = nlen u - j, ncap = nlen u - j, npart = 0 < j\<rparr>"
  have parts: "natPart u j (j + w) = Inr ul" "natPart u j (nlen u) = Inr uj" using at by (simp_all add: natPart_ok ul_def uj_def)
  have wn: "w \<le> Suc n" using w by auto
  have ats: "ndata ul = Ptr bu j" "nlen ul = w" "ndata uj = Ptr bu j" "w \<le> nlen uj" using at(4) by (simp_all add: ul_def uj_def)
  obtain zs c where z: "subVV ul uj qh h = Inr (c, put (Ptr bu j) zs h)" "length zs = w"
    "int (val zs) - int (Base ^ w * unat c) = int (val ws) - int (val ts)" "unat c \<le> 1"
    by (rule sub_window [OF u t ne(2) wn prod(2) ats at(5,6)])
  have bound: "val zs < Base ^ w" using val_bound [of zs] z(2) by simp
  note fixed = add_back_value [OF z(3) [unfolded prod(1)] z(4) q V bound]
  let ?h = "put (Ptr bu j) zs h"
  show thesis
  proof (cases "c = 0")
    case True
    then show thesis using fixed(1) z(1,2) by (intro that [of qhat zs]) (simp_all add: parts)
  next
    case False
    then have f: "unat qhat = Suc (val ws div val vs)" "val zs + val vs = val ws mod val vs + Base ^ w" using fixed(2) by (simp_all add: unat_eq_zero)
    have "seg ?h (Ptr bu j) w = Some zs" "seg ?h (Ptr bv 0) n = Some vs"
      using seg_put_same [of h "Ptr bu j" zs] u v z(2) ne(1) by (simp_all add: seg_put_block)
    from add_window [OF this ne(1) w at(1-4), of qhat] obtain rs where
      rs: "bnd (natPart u j (j + n)) (\<lambda>u3. bnd (natPart u j (nlen u)) (\<lambda>uj. bnd (addVV u3 uj v ?h) (\<lambda>(cc, h).
        bnd (if n < w then bnd (rd (ndata u) (j + n) h) (\<lambda>a. wr (ndata u) (j + n) (a + cc) h) else Inr h) (\<lambda>h. Inr (qhat - 1, h))))) =
        Inr (qhat - 1, put (Ptr bu j) rs ?h)" "length rs = w" "val rs = (val zs + val vs) mod Base ^ w" by blast
    have "val ws mod val vs \<le> val ws" by simp
    also have "val ws < Base ^ w" using val_bound [of ws] seg_length [OF u] by simp
    finally have "val rs = val ws mod val vs" using rs(3) f(2) by simp
    moreover have "unat (qhat - 1) = val ws div val vs" using f(1) by (subst unat_minus_one) auto
    moreover have "put (Ptr bu j) rs ?h = put (Ptr bu j) rs h" using rs(2) z(2) by (simp add: put_over)
    ultimately show thesis using False rs(1,2) z(1) by (intro that [of "qhat - 1" rs]) (simp_all add: parts(1) parts(2) del: natPart_ok)
  qed
qed

text \<open>The four vectors of the loop: dividend, divisor, product and quotient, each at the start of a block of its own.\<close>

definition layout :: "mem \<Rightarrow> nat \<Rightarrow> nat \<Rightarrow> nat \<Rightarrow> nat \<Rightarrow> cnat \<Rightarrow> cnat \<Rightarrow> cnat \<Rightarrow> cnat \<Rightarrow> u64 list \<Rightarrow> u64 list \<Rightarrow> u64 list \<Rightarrow> bool" where
  "layout h bu bv bt bq u v t q us vs qs \<longleftrightarrow> distinct [bu, bv, bt, bq] \<and>
     ndata u = Ptr bu 0 \<and> ndata v = Ptr bv 0 \<and> ndata t = Ptr bt 0 \<and> ndata q = Ptr bq 0 \<and> nlen t = Suc (nlen v) \<and>
     words h u us \<and> words h v vs \<and> (\<exists>ts. words h t ts) \<and> words h q qs"

lemma layout_seg:
  assumes "layout h bu bv bt bq u v t q us vs qs"
  obtains ts where "seg h (Ptr bu 0) (nlen u) = Some us" and "seg h (Ptr bv 0) (nlen v) = Some vs" and "seg h (Ptr bt 0) (Suc (nlen v)) = Some ts"
    and "seg h (Ptr bq 0) (nlen q) = Some qs" and "length us = nlen u" and "length vs = nlen v" and "length qs = nlen q"
proof -
  obtain ts where "words h t ts" using assms by (auto simp: layout_def)
  moreover have "words h u us" "words h v vs" "words h q qs" using assms by (simp_all add: layout_def)
  moreover note words_length [OF this(1)] words_length [OF this(2)] words_length [OF this(3)]
  ultimately show thesis using assms by (intro that) (simp_all add: layout_def words_def)
qed

lemma layout_put_t:
  "layout h bu bv bt bq u v t q us vs qs \<Longrightarrow> length ts = Suc (nlen v) \<Longrightarrow> layout (put (Ptr bt 0) ts h) bu bv bt bq u v t q us vs qs"
  using seg_put_same [of h "Ptr bt 0" ts] by (auto simp: layout_def words_def seg_put_block)

lemma layout_put_u:
  "layout h bu bv bt bq u v t q us vs qs \<Longrightarrow> j + length rs \<le> nlen u \<Longrightarrow> layout (put (Ptr bu j) rs h) bu bv bt bq u v t q (overlay j rs us) vs qs"
  using seg_put_sub [of h "Ptr bu 0" "nlen u" us j rs] by (auto simp: layout_def words_def seg_put_block)

lemma layout_put_q:
  "layout h bu bv bt bq u v t q us vs qs \<Longrightarrow> j < nlen q \<Longrightarrow> layout (put (Ptr bq j) [d] h) bu bv bt bq u v t q us vs (qs[j := d])"
  using seg_put_sub [of h "Ptr bq 0" "nlen q" qs j "[d]"] words_length [of h q qs] overlay_update [of j qs d]
  by (auto simp: layout_def words_def seg_put_block)

lemma overlay_window: "j + length rs \<le> length us \<Longrightarrow> overlay j rs us = take j us @ rs @ drop (j + length rs) us"
  by (rule nth_equalityI) (auto simp: nth_append min_def)

lemma mul_digit:
  assumes "layout h bu bv bt bq u v t q us vs qs"
  obtains ts where "\<And>f :: u64 \<Rightarrow> mem \<Rightarrow> mem result. bnd (natPart t 0 (nlen v)) (\<lambda>qv. bnd (mulAddVWW qv v qhat 0 h) (\<lambda>(c, h). bnd (wr (ndata t) (nlen v) c h) (\<lambda>h.
      bnd (rd (ndata t) (nlen v) h) (\<lambda>qn. f qn h)))) = f (ts ! nlen v) (put (Ptr bt 0) ts h)"
    and "length ts = Suc (nlen v)" and "val ts = unat qhat * val vs"
proof -
  let ?n = "nlen v"
  obtain ts0 where s: "seg h (Ptr bv 0) ?n = Some vs" "seg h (Ptr bt 0) (Suc ?n) = Some ts0" by (rule layout_seg [OF assms])
  have at: "ndata v = Ptr bv 0" "ndata t = Ptr bt 0" "bv \<noteq> bt" using assms by (auto simp: layout_def)
  define qv where "qv = \<lparr>ndata = Ptr bt 0, nlen = ?n, ncap = ?n, npart = False\<rparr>"
  have segs: "seg h (ndata qv) ?n = Some (take ?n ts0)" "seg h (ndata v) ?n = Some vs" "aliased (ndata v) (ndata qv) ?n" "min (nlen qv) (nlen v) = ?n"
    using seg_take(1) [OF s(2), of ?n] s(1) at by (auto simp: qv_def aliased_def)
  obtain rs c where r: "mulAddVWW qv v qhat 0 h = Inr (c, put (ndata qv) rs h)" "length rs = ?n"
    "val rs + Base ^ ?n * unat c = val vs * unat qhat + unat (0 :: u64)" by (rule mulAddVWW_sum [OF segs])
  have len: "length (rs @ [c]) = Suc ?n" using r(2) by simp
  have w: "wr (Ptr bt 0) ?n c (put (Ptr bt 0) rs h) = Inr (put (Ptr bt 0) (rs @ [c]) h)" using wr_ahead [OF s(2), of rs c] r(2) by simp
  have "seg (put (Ptr bt 0) (rs @ [c]) h) (Ptr bt 0) (Suc ?n) = Some (rs @ [c])" using seg_put_same [of h "Ptr bt 0" "rs @ [c]"] s(2) len by simp
  from rd_seg [OF this, of ?n] have rd: "rd (Ptr bt 0) ?n (put (Ptr bt 0) (rs @ [c]) h) = Inr ((rs @ [c]) ! ?n)" by simp
  have p: "natPart t 0 ?n = Inr qv" using at(2) by (simp add: natPart_ok qv_def)
  show thesis
  proof (rule that [OF _ len])
    show "val (rs @ [c]) = unat qhat * val vs" using r(2,3) by (simp add: val_append mult.commute)
  qed (use r(1) w rd p at(2) in \<open>simp_all add: qv_def\<close>)
qed

lemma div_step_run:
  assumes lay: "layout h bu bv bt bq u v t q us vs qs" and n: "2 \<le> nlen v" "nlen v \<le> nlen u" "nlen q = nlen u - nlen v" "j \<le> nlen q"
    and vn1: "vn1 = vs ! (nlen v - 1)" "Base \<le> 2 * unat vn1" and rec: "reciprocalWord vn1 = Inr rec"
    and less: "val (drop j us) < (if j = nlen q then val vs else Base * val vs)"
  obtains us' h' d where "div_step q u v t vn1 rec (nlen q) j h = Inr h'" and "only {bu, bt, bq} h h'"
    and "layout h' bu bv bt bq u v t q us' vs (if j < nlen q then qs[j := d] else qs)"
    and "take j us' = take j us" and "val (drop j us') = val (drop j us) mod val vs" and "unat d = val (drop j us) div val vs"
proof -
  let ?n = "nlen v" and ?L = "nlen u" and ?W = "val (drop j us)" and ?V = "val vs"
  define w where "w = (if j = nlen q then ?n else Suc ?n)"
  obtain ts0 where s: "seg h (Ptr bu 0) ?L = Some us" "seg h (Ptr bv 0) ?n = Some vs" and len: "length us = ?L" "length vs = ?n" "length qs = nlen q"
    by (rule layout_seg [OF lay])
  have at: "ndata u = Ptr bu 0" "ndata v = Ptr bv 0" "ndata t = Ptr bt 0" "ndata q = Ptr bq 0" "nlen t = Suc ?n" and ne: "bu \<noteq> bv" "bu \<noteq> bt"
    using lay by (auto simp: layout_def)
  have V: "0 < ?V" "?V < Base ^ ?n" using less val_bound [of vs] len(2) by (auto split: if_splits)
  have less': "?W < Base * ?V" using less V(1) by (auto split: if_splits)
  have jw: "j + ?n \<le> ?L" "j + w \<le> ?L" using n by (auto simp: w_def)
  obtain qhat where qh: "div_qhat u v vn1 rec j h = Inr qhat" "?W div ?V \<le> unat qhat" "unat qhat \<le> Suc (?W div ?V)"
    using div_qhat_digit [OF _ refl _ refl n(1) jw(1) vn1 rec less' at(1,2)] s at by auto
  obtain ts where ts: "\<And>f :: u64 \<Rightarrow> mem \<Rightarrow> mem result. bnd (natPart t 0 (nlen v)) (\<lambda>qv. bnd (mulAddVWW qv v qhat 0 h) (\<lambda>(c, h). bnd (wr (ndata t) (nlen v) c h) (\<lambda>h.
      bnd (rd (ndata t) (nlen v) h) (\<lambda>qn. f qn h)))) = f (ts ! nlen v) (put (Ptr bt 0) ts h)"
    "length ts = Suc ?n" "val ts = unat qhat * ?V" using mul_digit [OF lay, of qhat] by blast
  let ?h = "put (Ptr bt 0) ts h"
  have lay1: "layout ?h bu bv bt bq u v t q us vs qs" using layout_put_t [OF lay ts(2)] .
  have top: "j = nlen q \<Longrightarrow> ts ! ?n = 0"
  proof -
    assume "j = nlen q"
    then have "unat qhat \<le> 1" using less qh(3) by simp
    then have "val ts < Base ^ ?n" using ts(3) V(2) by (cases "unat qhat") simp_all
    then have "val (drop ?n ts) = 0" by (rule val_drop_low)
    then show "ts ! ?n = 0" using val_drop_at [of ?n ts] ts(2) by (simp add: unat_eq_zero)
  qed
  have qhl: "(if ?L < j + nlen t \<and> ts ! ?n = 0 then nlen t - 1 else nlen t) = w" using top n jw at(5) by (auto simp: w_def)
  have dropw: "val (drop w ts) = 0" using top ts(2) val_drop_at [of ?n ts] by (auto simp: w_def)
  define ws where "ws = take w (drop j us)"
  have segw: "seg ?h (Ptr bu j) w = Some ws" "seg ?h (Ptr bv 0) ?n = Some vs" "seg ?h (Ptr bt 0) (Suc ?n) = Some ts"
    using seg_slice [of ?h "Ptr bu 0" ?L us j w] jw(2) lay1 seg_put_same [of h "Ptr bt 0" ts] lay ts(2) by (auto simp: layout_def words_def ws_def)
  have Wless: "?W < Base ^ w"
  proof (cases "j = nlen q")
    case True
    then show ?thesis using less V(2) by (simp add: w_def)
  next
    case False
    have "Base * ?V < Base * Base ^ ?n" using V(2) by (simp only: mult_less_cancel1) simp
    then show ?thesis using less' False by (simp add: w_def)
  qed
  note low = val_drop_low [OF Wless]
  have W: "val ws = ?W" using low(2) by (simp add: ws_def)
  have wn: "w = ?n \<or> w = Suc ?n" by (simp add: w_def)
  obtain rs d where r: "\<And>f :: u64 \<times> mem \<Rightarrow> mem result. bnd (natPart u j (j + w)) (\<lambda>ul. bnd (natPart u j (nlen u)) (\<lambda>uj. bnd (subVV ul uj t ?h) (\<lambda>(c, h).
      bnd (if c \<noteq> 0
        then bnd (natPart u j (j + ?n)) (\<lambda>u3. bnd (natPart u j (nlen u)) (\<lambda>uj. bnd (addVV u3 uj v h) (\<lambda>(cc, h).
             bnd (if ?n < w then bnd (rd (ndata u) (j + ?n) h) (\<lambda>a. wr (ndata u) (j + ?n) (a + cc) h) else Inr h) (\<lambda>h. Inr (qhat - 1, h)))))
        else Inr (qhat, h)) f))) = f (d, put (Ptr bu j) rs ?h)"
    "length rs = w" "val rs = ?W mod ?V" "unat d = ?W div ?V"
    using sub_back [OF segw ne wn at(2) refl at(1) jw(2) at(3,5) ts(3) dropw V(1), unfolded W, OF qh(2,3)] by blast
  define us' where "us' = overlay j rs us"
  define h2 where "h2 = put (Ptr bu j) rs ?h"
  have lay2: "layout h2 bu bv bt bq u v t q us' vs qs" using layout_put_u [OF lay1, of j rs] r(2) jw(2) by (simp add: h2_def us'_def)
  have us': "us' = take j us @ rs @ drop (j + w) us" using overlay_window [of j rs us] r(2) jw(2) len(1) by (simp add: us'_def)
  have "val (drop j us') = val rs" using us' jw(1) len(1) low(1) by (simp add: val_append add.commute)
  then have vals: "take j us' = take j us" "val (drop j us') = ?W mod ?V" using us' r(3) jw(1) len(1) by simp_all
  have run: "div_step q u v t vn1 rec (nlen q) j h = (if j = nlen q \<and> d = 0 then Inr h2 else wr (Ptr bq 0) j d h2)"
    unfolding div_step_def Let_def qh(1) bnd_Inr ts(1) qhl r(1) at(4) h2_def by simp
  have only2: "only {bu, bt, bq} h h2" unfolding h2_def by (intro only_put_trans only_refl) simp_all
  show thesis
  proof (cases "j = nlen q")
    case True
    then have "d = 0" using r(4) less by (simp add: unat_eq_zero)
    then show thesis using True run lay2 only2 vals r(4) by (intro that [of h2 us' d]) simp_all
  next
    case False
    then have j: "j < nlen q" using n(4) by simp
    have "wr (Ptr bq 0) j d h2 = Inr (put (Ptr bq j) [d] h2)" using lay2 wr_seg [of h2 "Ptr bq 0" "nlen q" qs j d] j by (auto simp: layout_def words_def)
    then show thesis using j run layout_put_q [OF lay2 j, of d] only_put_trans [OF only2] vals r(4) by (intro that [of "put (Ptr bq j) [d] h2" us' d]) simp_all
  qed
qed

section \<open>The loop\<close>

lemma scaled_division: "b * w = b * (w mod y) + b * (w div y) * y" for b w y :: nat
  by (simp add: mult.assoc flip: add_mult_distrib2)

lemma div_loop_run:
  assumes n: "2 \<le> nlen v" "nlen v \<le> nlen u" "nlen q = nlen u - nlen v"
    and vn1: "vn1 = vs ! (nlen v - 1)" "Base \<le> 2 * unat vn1" and rec: "reciprocalWord vn1 = Inr rec"
  shows "layout h bu bv bt bq u v t q us vs qs \<Longrightarrow> k \<le> nlen q \<Longrightarrow> val (drop k us) < val vs \<Longrightarrow>
    \<exists>us' ds h'. div_loop q u v t vn1 rec (nlen q) k h = Inr h' \<and> only {bu, bt, bq} h h' \<and> layout h' bu bv bt bq u v t q us' vs (ds @ drop k qs) \<and>
      length ds = k \<and> val us' = val us mod val vs \<and> val ds = val us div val vs"
proof (induction k arbitrary: h us qs)
  case 0
  then show ?case by (intro exI [of _ us] exI [of _ "[]"] exI [of _ h]) simp
next
  case (Suc j)
  let ?V = "val vs" and ?W = "val (drop j us)"
  have len: "length us = nlen u" "length qs = nlen q" using Suc.prems(1) words_length [of h u us] words_length [of h q qs] by (simp_all add: layout_def)
  have j: "j < nlen q" "j < length us" "j \<le> length us" using Suc.prems(2) n len by linarith+
  have "?W = unat (us ! j) + Base * val (drop (Suc j) us)" using val_drop_at [OF j(3)] j(2) by simp
  also have "\<dots> < Base * ?V" using two_digit_less [OF Suc.prems(3) unat64_less [of "us ! j"]] by (simp add: algebra_simps)
  finally have less: "?W < (if j = nlen q then ?V else Base * ?V)" using j(1) by simp
  obtain us1 h1 d where s: "div_step q u v t vn1 rec (nlen q) j h = Inr h1" "only {bu, bt, bq} h h1"
    "layout h1 bu bv bt bq u v t q us1 vs (if j < nlen q then qs[j := d] else qs)"
    "take j us1 = take j us" "val (drop j us1) = ?W mod ?V" "unat d = ?W div ?V"
    by (rule div_step_run [OF Suc.prems(1) n less_imp_le [OF j(1)] vn1 rec less])
  have V: "0 < ?V" using Suc.prems(3) by simp
  have "val (drop j us1) < ?V" using s(5) V by simp
  from Suc.IH [OF s(3) less_imp_le [OF j(1)] this] obtain us' ds h' where l: "div_loop q u v t vn1 rec (nlen q) j h1 = Inr h'" "only {bu, bt, bq} h1 h'"
    "layout h' bu bv bt bq u v t q us' vs (ds @ drop j (qs[j := d]))" "length ds = j" "val us' = val us1 mod ?V" "val ds = val us1 div ?V" using j(1) by auto
  have len1: "j \<le> length us1" using s(3) words_length [of h1 u us1] j(3) len(1) by (simp add: layout_def)
  have "val us = val us1 + Base ^ j * unat d * ?V"
    unfolding val_split [OF j(3)] val_split [OF len1] s(4,5) s(6) using scaled_division [of "Base ^ j" ?W ?V] by linarith
  then have "val us mod ?V = val us'" "val us div ?V = val (ds @ [d])" using l(4-6) V by (simp_all add: val_append add.commute)
  moreover have "drop j (qs[j := d]) = d # drop (Suc j) qs" using j(1) len(2) by (simp add: Cons_nth_drop_Suc [symmetric])
  ultimately show ?case using s(1) l only_trans [OF s(2) l(2)] by (intro exI [of _ us'] exI [of _ "ds @ [d]"] exI [of _ h']) simp
qed

lemma only_None: "only S h h' \<Longrightarrow> blk h' b = None \<longleftrightarrow> blk h b = None"
  by (simp add: only_def)

lemma natDivBasic_run:
  assumes ok: "mem_ok h" and at: "ndata u = Ptr bu 0" "ndata v = Ptr bv 0" "ndata q = Ptr bq 0" "distinct [bu, bv, bq]"
    and w: "words h u us" "words h v vs" "words h q qs" and n: "2 \<le> nlen v" "nlen v < nlen u" "nlen q = nlen u - nlen v"
    and top: "Base \<le> 2 * unat (vs ! (nlen v - 1))" "val (drop (nlen q) us) < val vs"
  obtains us' qs' h' where "natDivBasic q u v h = Inr h'" and "words h' u us'" and "words h' v vs" and "words h' q qs'"
    and "val us' = val us mod val vs" and "val qs' = val us div val vs" and "mem_ok h'" and "nxt h \<le> nxt h'"
    and "\<forall>b. b < nxt h \<and> b \<noteq> bu \<and> b \<noteq> bq \<longrightarrow> blk h' b = blk h b"
proof -
  define bt where "bt = nxt h"
  define t where "t = \<lparr>ndata = Ptr bt 0, nlen = Suc (nlen v), ncap = Suc (nlen v), npart = False\<rparr>"
  define h1 where "h1 = alloc (Suc (nlen v)) h"
  have new: "natNewLen (nlen v + 1) h = (t, h1)" using natNewLen_ok [OF ok, of "Suc (nlen v)"] by (simp add: t_def bt_def h1_def)
  have blocks: "bu < bt" "bv < bt" "bq < bt"
    using w n ok seg_wf [of h "ndata u" "nlen u" us] seg_wf [of h "ndata v" "nlen v" vs] seg_wf [of h "ndata q" "nlen q" qs] at
    by (auto simp: words_def mem_ok_def bt_def)
  have ext: "extends h h1" using ok by (simp add: h1_def)
  note w1 = words_extends [OF ext w(1)] words_extends [OF ext w(2)] words_extends [OF ext w(3)]
  have "words h1 t (replicate (Suc (nlen v)) 0)" unfolding words_def t_def h1_def bt_def by (simp only: cnat.simps seg_alloc_new)
  then have lay: "layout h1 bu bv bt bq u v t q us vs qs" using at w1 blocks by (auto simp: layout_def t_def)
  let ?vn1 = "vs ! (nlen v - 1)"
  have vn1: "rdi (ndata v) (int (nlen v) - 1) h1 = Inr ?vn1"
    using rd_seg [of h1 "ndata v" "nlen v" vs "nlen v - 1"] w1(2) n(1) at(2) by (simp add: words_def nat_diff_distrib)
  have "?vn1 \<noteq> 0" using top(1) by auto
  from reciprocalWord_exact [OF this] obtain rec where rec: "reciprocalWord ?vn1 = Inr rec" by blast
  have len: "nlen q \<le> length us" "nlen v \<le> nlen u" using words_length [OF w(1)] n by simp_all
  obtain us1 h2 d where s: "div_step q u v t ?vn1 rec (nlen q) (nlen q) h1 = Inr h2" "only {bu, bt, bq} h1 h2"
    "layout h2 bu bv bt bq u v t q us1 vs (if nlen q < nlen q then qs[nlen q := d] else qs)"
    "take (nlen q) us1 = take (nlen q) us" "val (drop (nlen q) us1) = val (drop (nlen q) us) mod val vs"
    by (rule div_step_run [OF lay n(1) len(2) n(3) order_refl refl top(1) rec]) (use top(2) in simp_all)
  have len1: "nlen q \<le> length us1" using s(3) words_length [of h2 u us1] n by (simp add: layout_def)
  have same: "val us1 = val us" "val (drop (nlen q) us1) < val vs" using val_split [OF len(1)] val_split [OF len1] s(4,5) top(2) by simp_all
  obtain us' ds h3 where l: "div_loop q u v t ?vn1 rec (nlen q) (nlen q) h2 = Inr h3" "only {bu, bt, bq} h2 h3"
    "layout h3 bu bv bt bq u v t q us' vs (ds @ drop (nlen q) qs)" "length ds = nlen q" "val us' = val us mod val vs" "val ds = val us div val vs"
    using div_loop_run [OF n(1) len(2) n(3) refl top(1) rec s(3) order_refl same(2)] same(1) by auto
  have only: "only {bu, bt, bq} h1 h3" using s(2) l(2) by (rule only_trans)
  have qs: "drop (nlen q) qs = []" using words_length [OF w(3)] by simp
  define h' where "h' = drop_block bt h3"
  have "blk h3 bt \<noteq> None" using only_None [OF only] by (simp add: h1_def alloc_def bt_def)
  then have free: "natFree t h3 = Inr (\<lparr>ndata = Null, nlen = 0, ncap = 0, npart = False\<rparr>, h')" by (simp add: natFree_block t_def h'_def)
  have run: "natDivBasic q u v h = Inr h'"
    unfolding natDivBasic_def Let_def new prod.case vn1 rec bnd_Inr using n s(1) l(1) free by (simp del: div_loop.simps(1))
  show thesis
  proof (rule that [OF run])
    show "words h' u us'" "words h' v vs" "words h' q ds"
      using l(3) qs blocks words_drop_block [of h3 _ _ _ 0 bt] by (auto simp: layout_def h'_def)
    show "mem_ok h'" using extends_mem_ok [OF ext] only by (auto simp: mem_ok_def wf_mem_def only_def h'_def drop_block_def)
    show "nxt h \<le> nxt h'" using only by (simp add: only_def h'_def h1_def)
    show "\<forall>b. b < nxt h \<and> b \<noteq> bu \<and> b \<noteq> bq \<longrightarrow> blk h' b = blk h b"
      using only blk_alloc_old [of _ h "Suc (nlen v)"] by (auto simp: only_def h'_def h1_def bt_def blk_drop_block)
  qed (use l(5,6) in simp_all)
qed

section \<open>Division of numbers\<close>

definition no_storage :: cnat where
  "no_storage = \<lparr>ndata = Null, nlen = 0, ncap = 0, npart = False\<rparr>"

lemma natMake_empty:
  assumes "mem_ok h"
  obtains k where "natMake no_storage n h = Inr (\<lparr>ndata = Ptr (nxt h) 0, nlen = n, ncap = k, npart = False\<rparr>, alloc k h)" and "n \<le> k" and "0 < k"
proof (cases "n = 1")
  case True
  then show thesis using natNewLen_ok [OF assms, of 1] by (intro that [of 1]) (simp_all add: natMake_def natFree_def no_storage_def)
next
  case False
  then show thesis using natNewLen_ok [OF assms, of "n + 4"] by (intro that [of "n + 4"]) (simp_all add: natMake_def natFree_def no_storage_def)
qed

text \<open>Shifting the divisor by its leading zeros sets its top bit and loses no bit.\<close>

lemma normalised_divisor:
  assumes "vs ! (n - 1) \<noteq> 0" and "length vs = n" and "0 < n" and "length ws = n" and "val ws + Base ^ n * unat c = val vs * 2 ^ nlz (vs ! (n - 1))"
  shows "val ws = val vs * 2 ^ nlz (vs ! (n - 1))" and "Base \<le> 2 * unat (ws ! (n - 1))" and "Base ^ (n - 1) * 2 ^ nlz (vs ! (n - 1)) \<le> val ws"
proof -
  define t where "t = unat (vs ! (n - 1))"
  define s where "s = nlz (vs ! (n - 1))"
  note nz = nlz_norm [OF assms(1), folded s_def, folded t_def]
  have t0: "0 < t" using assms(1) by (simp add: t_def unat_gt_0)
  have split: "val xs = val (take (n - 1) xs) + Base ^ (n - 1) * unat (xs ! (n - 1))" "val (take (n - 1) xs) < Base ^ (n - 1)"
    if "length xs = n" for xs using val_nth_split [of "n - 1" xs] val_take_less [of "n - 1" xs] that assms(3) by simp_all
  have pn: "Base ^ n = Base ^ (n - 1) * Base" using assms(3) by (metis mult.commute power_eq_if less_not_refl)
  have e: "Base = 2 ^ (64 - s) * 2 ^ s" using Base_split [of s] nz(1) by (metis less_imp_le mult.commute)
  have "t * 2 ^ s < 2 ^ (64 - s) * 2 ^ s" using nz(4) unfolding e .
  then have "Suc t \<le> 2 ^ (64 - s)" by simp
  then have room: "Suc t * 2 ^ s \<le> Base" unfolding e by (rule mult_le_mono1)
  have "val vs < Base ^ (n - 1) * Suc t" using split [OF assms(2)] by (simp add: t_def)
  then have "val vs * 2 ^ s < Base ^ (n - 1) * Suc t * 2 ^ s" by simp
  also have "\<dots> \<le> Base ^ n" unfolding pn mult.assoc using room by (rule mult_le_mono2)
  finally have "Base ^ n * unat c < Base ^ n * 1" using assms(5) by (simp only: s_def [symmetric])
  then have "unat c = 0" by (simp only: mult_less_cancel1 less_one)
  then show v: "val ws = val vs * 2 ^ nlz (vs ! (n - 1))" using assms(5) by simp
  have low: "Base ^ (n - 1) * (t * 2 ^ s) \<le> val ws" using split(1) [OF assms(2)] unfolding v by (simp add: t_def s_def algebra_simps)
  also have "val ws < Base ^ (n - 1) * Suc (unat (ws ! (n - 1)))" using split [OF assms(4)] by simp
  finally have "t * 2 ^ s \<le> unat (ws ! (n - 1))" by (simp only: mult_less_cancel1 less_Suc_eq_le)
  then show "Base \<le> 2 * unat (ws ! (n - 1))" using nz(3) by linarith
  have "Base ^ (n - 1) * 2 ^ s \<le> Base ^ (n - 1) * (t * 2 ^ s)" using t0 by simp
  then show "Base ^ (n - 1) * 2 ^ nlz (vs ! (n - 1)) \<le> val ws" using low by (simp only: s_def)
qed

lemma shifted_dividend:
  assumes "length us = l" and "val ws = val us * 2 ^ s" and "length ws = Suc l" and "0 < n" and "n \<le> l" and "Base ^ (n - 1) * 2 ^ s \<le> V"
  shows "val (drop (Suc (l - n)) ws) < V"
proof -
  let ?k = "Suc (l - n)"
  have k: "?k \<le> length ws" "l = ?k + (n - 1)" using assms(3-5) by simp_all
  have "Base ^ ?k * val (drop ?k ws) \<le> val ws" using val_split [OF k(1)] by linarith
  also have "\<dots> < Base ^ l * 2 ^ s" using val_bound [of us] assms(1,2) by simp
  also have "Base ^ l = Base ^ ?k * Base ^ (n - 1)" using k(2) by (metis power_add)
  finally have "val (drop ?k ws) < Base ^ (n - 1) * 2 ^ s" by (simp only: mult.assoc mult_less_cancel1)
  then show ?thesis using assms(6) by linarith
qed

lemma shl_fresh:
  assumes "mem_ok h" and "words h x xs" and "nlen x = n" and "n \<le> k" and "s < 64" and "ndata z = Ptr (nxt h) 0" "nlen z = n" "n \<le> ncap z"
  obtains rs c where "shlVU z x s (alloc k h) = Inr (c, put (Ptr (nxt h) 0) rs (alloc k h))" and "length rs = n" and "val rs + Base ^ n * unat c = val xs * 2 ^ s"
proof -
  have "seg (alloc k h) (ndata z) n = Some (take n (replicate k 0))" unfolding assms(6) using seg_take(1) [OF seg_alloc_new assms(4)] .
  moreover have "seg (alloc k h) (ndata x) n = Some xs" using words_extends [OF extends_alloc [OF assms(1)] assms(2), of k] assms(3) by (simp add: words_def)
  moreover have "aliased (ndata x) (ndata z) n" using seg_fresh_sep [OF assms(1), of "ndata x" n xs 0 n] assms(2,3,6) by (simp add: words_def aliased_def)
  ultimately show thesis using shlVU_value [OF _ _ _ assms(7,3,8,5)] that assms(6) by metis
qed

lemma shl_divisor:
  assumes "mem_ok h" and "words h v vs" and "nlen v = n" and "0 < n" and "vs ! (n - 1) \<noteq> 0"
  defines "s \<equiv> nlz (vs ! (n - 1))" and "z \<equiv> \<lparr>ndata = Ptr (nxt h) 0, nlen = n, ncap = n, npart = False\<rparr>"
  obtains ws c h' where "shlVU z v s (alloc n h) = Inr (c, h')" and "words h' z ws" and "extends h h'" and "nxt h' = Suc (nxt h)"
    and "val ws = val vs * 2 ^ s" and "Base \<le> 2 * unat (ws ! (n - 1))" and "Base ^ (n - 1) * 2 ^ s \<le> val ws"
proof -
  have len: "length vs = n" using words_length [OF assms(2)] assms(3) by simp
  have s: "s < 64" using nlz_norm(1) [OF assms(5)] by (simp add: s_def)
  obtain rs c where r: "shlVU z v s (alloc n h) = Inr (c, put (Ptr (nxt h) 0) rs (alloc n h))" "length rs = n" "val rs + Base ^ n * unat c = val vs * 2 ^ s"
    by (rule shl_fresh [OF assms(1-3) order_refl s, of z]) (simp_all add: z_def)
  note d = normalised_divisor [OF assms(5) len assms(4) r(2) r(3) [unfolded s_def], folded s_def]
  show thesis
  proof (rule that [OF r(1) _ _ _ d])
    show "words (put (Ptr (nxt h) 0) rs (alloc n h)) z rs" using seg_put_same [of "alloc n h" "Ptr (nxt h) 0" rs] seg_alloc_new [of n h] r(2) by (simp add: words_def z_def)
    show "extends h (put (Ptr (nxt h) 0) rs (alloc n h))" by (rule extends_put) (simp_all add: assms(1))
  qed simp
qed

lemma shl_dividend:
  assumes "mem_ok h" and "words h u us" and "s < 64"
  obtains k ws c h1 h' where "natMake no_storage (nlen u + 1) h = Inr (\<lparr>ndata = Ptr (nxt h) 0, nlen = Suc (nlen u), ncap = k, npart = False\<rparr>, alloc k h)"
    and "Suc (nlen u) \<le> k" and "shlVU \<lparr>ndata = Ptr (nxt h) 0, nlen = nlen u, ncap = nlen u, npart = False\<rparr> u s (alloc k h) = Inr (c, h1)"
    and "wr (Ptr (nxt h) 0) (nlen u) c h1 = Inr h'" and "seg h' (Ptr (nxt h) 0) (Suc (nlen u)) = Some ws" and "extends h h'" and "nxt h' = Suc (nxt h)"
    and "val ws = val us * 2 ^ s"
proof -
  let ?l = "nlen u" and ?p = "Ptr (nxt h) 0"
  obtain k where k: "natMake no_storage (?l + 1) h = Inr (\<lparr>ndata = ?p, nlen = Suc ?l, ncap = k, npart = False\<rparr>, alloc k h)" "Suc ?l \<le> k"
    using natMake_empty [OF assms(1), of "?l + 1"] by (metis Suc_eq_plus1)
  obtain rs c where r: "shlVU \<lparr>ndata = ?p, nlen = ?l, ncap = ?l, npart = False\<rparr> u s (alloc k h) = Inr (c, put ?p rs (alloc k h))" "length rs = ?l"
    "val rs + Base ^ ?l * unat c = val us * 2 ^ s"
    by (rule shl_fresh [OF assms(1,2) refl _ assms(3), of k "\<lparr>ndata = ?p, nlen = ?l, ncap = ?l, npart = False\<rparr>"]) (use k(2) in simp_all)
  have sz: "seg (alloc k h) ?p (Suc ?l) = Some (take (Suc ?l) (replicate k 0))" using seg_take(1) [OF seg_alloc_new k(2)] .
  show thesis
  proof (rule that [OF k r(1)])
    show "wr ?p ?l c (put ?p rs (alloc k h)) = Inr (put ?p (rs @ [c]) (alloc k h))" using wr_ahead [OF sz, of rs c] r(2) by simp
    show "seg (put ?p (rs @ [c]) (alloc k h)) ?p (Suc ?l) = Some (rs @ [c])" using seg_put_same [of "alloc k h" ?p "rs @ [c]"] sz r(2) by simp
    show "extends h (put ?p (rs @ [c]) (alloc k h))" by (rule extends_put) (simp_all add: assms(1))
    show "val (rs @ [c]) = val us * 2 ^ s" using r(2,3) by (simp add: val_append)
  qed simp
qed

text \<open>The three vectors \<open>natDivLarge\<close> works on are in the next three blocks; the divisor's block is given back.\<close>

text \<open>A number that can be released: it is a part of another one, or owns its block.\<close>

definition releasable :: "cnat \<Rightarrow> mem \<Rightarrow> bool" where
  "releasable x h \<longleftrightarrow> (\<exists>x' h'. natFree x h = Inr (x', h'))"

lemma releasable_block: "ndata x = Ptr b 0 \<Longrightarrow> blk h b \<noteq> None \<Longrightarrow> releasable x h"
  by (auto simp: releasable_def natFree_def cfree.simps)

lemma seg_live: "seg h (Ptr b off) (Suc n) = Some ws \<Longrightarrow> blk h b \<noteq> None"
  by (auto simp: seg.simps split: option.splits)

lemma natDivLarge_run:
  assumes ok: "mem_ok h" and w: "words h u us" "words h v vs" and n: "nlen v = n" "2 \<le> n" "n < divRecursiveThreshold" "n \<le> nlen u"
    and top: "vs ! (n - 1) \<noteq> 0"
  obtains q r h' qs rs where "natDivLarge no_storage no_storage u v h = Inr (q, r, h')" and "words h' q qs" and "words h' r rs" and "extends h h'"
    and "normal qs" and "normal rs" and "val qs = val us div val vs" and "val rs = val us mod val vs" and "releasable r h'"
proof -
  let ?l = "nlen u" and ?s = "nlz (vs ! (n - 1))" and ?bv = "nxt h" and ?bu = "Suc (nxt h)" and ?bq = "Suc (Suc (nxt h))"
  have len: "length us = ?l" "length vs = n" using words_length [OF w(1)] words_length [OF w(2)] n(1) by simp_all
  have s: "?s < 64" using nlz_norm(1) [OF top] .
  have n0: "0 < n" using n(2) by simp
  have rdtop: "rdi (ndata v) (int n - 1) h = Inr (vs ! (n - 1))"
    using rdi_seg [of h "ndata v" n vs "n - 1"] w(2) n(1) n0 by (simp add: words_def of_nat_diff)
  define vv where "vv = \<lparr>ndata = Ptr ?bv 0, nlen = n, ncap = n, npart = False\<rparr>"
  obtain vs' c h2 where v': "shlVU vv v ?s (alloc n h) = Inr (c, h2)" "words h2 vv vs'" "extends h h2" "nxt h2 = ?bu"
    "val vs' = val vs * 2 ^ ?s" "Base \<le> 2 * unat (vs' ! (n - 1))" "Base ^ (n - 1) * 2 ^ ?s \<le> val vs'"
    using shl_divisor [OF ok w(2) n(1) n0 top] unfolding vv_def by blast
  have ok2: "mem_ok h2" using v'(3) by (rule extends_mem_ok)
  obtain k us' c' h3 h4 where u': "natMake no_storage (?l + 1) h2 = Inr (\<lparr>ndata = Ptr ?bu 0, nlen = Suc ?l, ncap = k, npart = False\<rparr>, alloc k h2)" "Suc ?l \<le> k"
    "shlVU \<lparr>ndata = Ptr ?bu 0, nlen = ?l, ncap = ?l, npart = False\<rparr> u ?s (alloc k h2) = Inr (c', h3)" "wr (Ptr ?bu 0) ?l c' h3 = Inr h4"
    "seg h4 (Ptr ?bu 0) (Suc ?l) = Some us'" "extends h2 h4" "nxt h4 = ?bq" "val us' = val us * 2 ^ ?s"
    by (rule shl_dividend [OF ok2 words_extends [OF v'(3) w(1)] s, unfolded v'(4)])
  define uu where "uu = \<lparr>ndata = Ptr ?bu 0, nlen = Suc ?l, ncap = k, npart = False\<rparr>"
  have ok4: "mem_ok h4" using u'(6) by (rule extends_mem_ok)
  let ?m = "Suc (?l - n)"
  obtain k' where q': "natMake no_storage ?m h4 = Inr (\<lparr>ndata = Ptr ?bq 0, nlen = ?m, ncap = k', npart = False\<rparr>, alloc k' h4)" "?m \<le> k'"
    using natMake_empty [OF ok4, of ?m] unfolding u'(7) by blast
  define qq where "qq = \<lparr>ndata = Ptr ?bq 0, nlen = ?m, ncap = k', npart = False\<rparr>"
  define h5 where "h5 = alloc k' h4"
  have ext45: "extends h4 h5" using ok4 by (simp add: h5_def)
  have w5: "words h5 uu us'" "words h5 vv vs'" "words h5 qq (take ?m (replicate k' 0))"
    using words_extends [OF ext45, of uu us'] u'(5) words_extends [OF extends_trans [OF u'(6) ext45] v'(2)] seg_take(1) [OF seg_alloc_new [of k' h4] q'(2)] u'(7)
    by (simp_all add: words_def uu_def qq_def h5_def)
  have len': "length us' = Suc ?l" using seg_length [OF u'(5)] .
  have small: "val (drop ?m us') < val vs'" by (rule shifted_dividend [OF len(1) u'(8) len' n0 n(4) v'(7)])
  obtain us2 qs h6 where b: "natDivBasic qq uu vv h5 = Inr h6" "words h6 uu us2" "words h6 vv vs'" "words h6 qq qs" "val us2 = val us' mod val vs'"
    "val qs = val us' div val vs'" "mem_ok h6" "nxt h5 \<le> nxt h6" "\<forall>b. b < nxt h5 \<and> b \<noteq> ?bu \<and> b \<noteq> ?bq \<longrightarrow> blk h6 b = blk h5 b"
    by (rule natDivBasic_run [OF extends_mem_ok [OF ext45] _ _ _ _ w5, of ?bu ?bv ?bq]) (use n v'(6) small in \<open>simp_all add: uu_def vv_def qq_def\<close>)
  have segu: "seg h6 (Ptr ?bu 0) (Suc ?l) = Some us2" using b(2) by (simp add: words_def uu_def)
  have atu: "seg h6 (ndata uu) (Suc ?l) = Some us2" "aliased (ndata uu) (ndata uu) (Suc ?l)" "nlen uu = Suc ?l" "Suc ?l \<le> ncap uu" "ndata uu = Ptr ?bu 0"
    using segu u'(2) by (simp_all add: uu_def aliased_def)
  obtain rs c'' where r: "shrVU uu uu ?s h6 = Inr (c'', put (Ptr ?bu 0) rs h6)" "length rs = Suc ?l" "val rs = val us2 div 2 ^ ?s"
    by (rule shrVU_value [OF atu(1,1,2,3,3,4) s, unfolded atu(5)])
  define h7 where "h7 = put (Ptr ?bu 0) rs h6"
  have w7: "words h7 uu rs" "words h7 qq qs" using seg_put_same [of h6 "Ptr ?bu 0" rs] segu r(2) b(4) by (simp_all add: words_def h7_def uu_def qq_def seg_put_block)
  have "blk h6 ?bv = blk h2 ?bv" using b(9) ext45 u'(6,7) v'(4) by (auto simp: extends_def)
  then have live: "blk h7 ?bv \<noteq> None" using v'(2) n0 by (auto simp: h7_def blk_put_other words_def vv_def seg.simps split: option.splits)
  note norms = natNorm_words [OF b(4)] natNorm_words [OF w7(1)] natNorm_words [OF w7(2)]
  have run: "natDivLarge no_storage no_storage u v h = Inr (qq\<lparr>nlen := length (strip qs)\<rparr>, uu\<lparr>nlen := length (strip rs)\<rparr>, drop_block ?bv h7)"
    using n rdtop natNewLen_ok [OF ok n0] v'(1) u'(1,3,4) q'(1) b(1) r(1) norms(1,3) natFree_block [of vv ?bv h7] live
    by (simp add: natDivLarge_def Let_def natPart_ok vv_def uu_def qq_def h5_def h7_def)
  show thesis
  proof (rule that [OF run])
    show "words (drop_block ?bv h7) (qq\<lparr>nlen := length (strip qs)\<rparr>) (strip qs)" "words (drop_block ?bv h7) (uu\<lparr>nlen := length (strip rs)\<rparr>) (strip rs)"
      using words_drop_block [OF norms(6)] words_drop_block [OF norms(4)] by (simp_all add: qq_def uu_def)
    show "extends h (drop_block ?bv h7)" 
      using ok b(7-9) v'(3) u'(6) ext45 by (auto simp: extends_def h7_def blk_drop_block blk_put_other)
    show "val (strip qs) = val us div val vs" "val (strip rs) = val us mod val vs"
      using b(5,6) r(3) u'(8) v'(5) by (simp_all add: mult_mod_left)
    have "blk h7 ?bu \<noteq> None" using seg_live [of h7 ?bu 0 ?l rs] w7(1) by (simp add: words_def uu_def)
    then show "releasable (uu\<lparr>nlen := length (strip rs)\<rparr>) (drop_block ?bv h7)"
      by (intro releasable_block [of _ ?bu]) (simp_all add: uu_def blk_drop_block)
  qed (simp_all add: normal_strip)
qed

text \<open>The remainder after division by a word goes into a new number.\<close>

lemma natSetWord_empty:
  assumes "mem_ok h"
  obtains z h' zs where "natSetWord no_storage x h = Inr (z, h')" and "words h' z zs" and "extends h h'" and "normal zs" and "val zs = unat x"
    and "releasable z h'"
proof (cases "x = 0")
  case True
  then show thesis using assms by (intro that [of no_storage h "[]"]) (simp_all add: natSetWord_def natPart_ok no_storage_def words_def normal_def releasable_def natFree_def)
next
  case False
  let ?p = "Ptr (nxt h) 0"
  have "seg (alloc 1 h) ?p 1 = Some [0]" using seg_alloc_new [of 1 h] by simp
  then have "wr ?p 0 x (alloc 1 h) = Inr (put ?p [x] (alloc 1 h))" "seg (put ?p [x] (alloc 1 h)) ?p 1 = Some [x]"
    using wr_seg [of "alloc 1 h" ?p 1 "[0]" 0 x] seg_put_same [of "alloc 1 h" ?p "[x]"] by simp_all
  moreover have "extends h (put ?p [x] (alloc 1 h))" by (rule extends_put) (simp_all add: assms)
  moreover have "blk (put ?p [x] (alloc 1 h)) (nxt h) \<noteq> None" using calculation(2) seg_live [of _ "nxt h" 0 0] by fastforce
  then have "releasable \<lparr>ndata = ?p, nlen = 1, ncap = 1, npart = False\<rparr> (put ?p [x] (alloc 1 h))" by (intro releasable_block) simp_all
  ultimately show thesis using False natNewLen_ok [OF assms, of 1]
    by (intro that [of "\<lparr>ndata = ?p, nlen = 1, ncap = 1, npart = False\<rparr>" "put ?p [x] (alloc 1 h)" "[x]"])
      (simp_all add: natSetWord_def natMake_def natFree_def no_storage_def words_def normal_def)
qed

lemma natSet_empty:
  assumes "mem_ok h" and "words h x xs"
  obtains z h' where "natSet no_storage x h = Inr (z, h')" and "words h' z xs" and "extends h h'" and "releasable z h'"
proof -
  let ?p = "Ptr (nxt h) 0"
  obtain k where k: "natMake no_storage (nlen x) h = Inr (\<lparr>ndata = ?p, nlen = nlen x, ncap = k, npart = False\<rparr>, alloc k h)" "nlen x \<le> k" by (rule natMake_empty [OF assms(1)])
  have sz: "seg (alloc k h) ?p (nlen x) = Some (take (nlen x) (replicate k 0))" using seg_take(1) [OF seg_alloc_new k(2)] .
  have sx: "seg (alloc k h) (ndata x) (nlen x) = Some xs" using words_extends [OF extends_alloc [OF assms(1)] assms(2)] by (simp add: words_def)
  have "natSet no_storage x h = Inr (\<lparr>ndata = ?p, nlen = nlen x, ncap = k, npart = False\<rparr>, put ?p xs (alloc k h))"
    using k memcpy_seg [OF sx sz] by (simp add: natSet_def natCopy_def)
  then show thesis
  proof (rule that)
    show "words (put ?p xs (alloc k h)) \<lparr>ndata = ?p, nlen = nlen x, ncap = k, npart = False\<rparr> xs"
      using seg_put_same [of "alloc k h" ?p xs] sz words_length [OF assms(2)] by (simp add: words_def)
    show "extends h (put ?p xs (alloc k h))" by (rule extends_put) (simp_all add: assms(1))
    show "releasable \<lparr>ndata = ?p, nlen = nlen x, ncap = k, npart = False\<rparr> (put ?p xs (alloc k h))"
      by (rule releasable_block [of _ "nxt h"]) (simp_all add: put.simps alloc_def)
  qed
qed

text \<open>\<open>divides h res a b\<close>: the result \<open>res\<close> of a division started in \<open>h\<close> is the quotient \<open>a\<close> and the remainder \<open>b\<close>, in new memory,
  and the remainder can be released.\<close>

definition divides :: "mem \<Rightarrow> (cnat \<times> cnat \<times> mem) result \<Rightarrow> nat \<Rightarrow> nat \<Rightarrow> bool" where
  "divides h res a b \<longleftrightarrow> (\<exists>q r h' qs rs. res = Inr (q, r, h') \<and> words h' q qs \<and> words h' r rs \<and> extends h h' \<and> normal qs \<and> normal rs \<and>
     val qs = a \<and> val rs = b \<and> releasable r h')"

lemma dividesI:
  "res = Inr (q, r, h') \<Longrightarrow> words h' q qs \<Longrightarrow> words h' r rs \<Longrightarrow> extends h h' \<Longrightarrow> normal qs \<Longrightarrow> normal rs \<Longrightarrow> val qs = a \<Longrightarrow> val rs = b \<Longrightarrow>
    releasable r h' \<Longrightarrow> divides h res a b"
  unfolding divides_def by blast

lemma natDiv_word:
  assumes "mem_ok h" and "words h u us" and "words h v [y]" and "normal us" and "y \<noteq> 0" and "unat y \<le> val us" and "natCmp u v h = Inr c" and "0 \<le> c"
  shows "divides h (natDiv no_storage no_storage u v h) (val us div unat y) (if y = 1 then unat (junk_word h) else val us mod unat y)"
proof -
  have us: "us \<noteq> []" using assms(5,6) by (auto simp: unat_eq_zero)
  have rd: "nlen v = 1" "rd (ndata v) 0 h = Inr y" using rd_seg [of h "ndata v" 1 "[y]" 0] words_length [OF assms(3)] assms(3) by (simp_all add: words_def)
  obtain z zs r' h1 where d: "natDivW u y (junk_word h) h = Inr (z, r', h1)" "words h1 z zs" "extends h h1" "normal zs" "val zs = val us div unat y"
    "unat r' = (if y = 1 then unat (junk_word h) else val us mod unat y)"
    using natDivW_quotient [OF assms(1,2) us, of y "junk_word h"] assms(4,5) by (auto split: if_splits)
  obtain r h' rs where r: "natSetWord no_storage r' h1 = Inr (r, h')" "words h' r rs" "extends h1 h'" "normal rs" "val rs = unat r'" "releasable r h'"
    by (rule natSetWord_empty [OF extends_mem_ok [OF d(3)]])
  have "natDiv no_storage no_storage u v h = Inr (z, r, h')" using assms(7,8) rd d(1) r(1) by (simp add: natDiv_def)
  then show ?thesis
    by (rule dividesI) (use words_extends [OF r(3) d(2)] extends_trans [OF d(3) r(3)] d(4-6) r(2,4-6) in simp_all)
qed

lemma natDiv_run:
  assumes "mem_ok h" and "words h u us" and "words h v vs" and "normal us" and "normal vs" and "length vs < divRecursiveThreshold" and "vs \<noteq> []"
  shows "divides h (natDiv no_storage no_storage u v h) (val us div val vs) (if vs = [1] \<and> us \<noteq> [] then unat (junk_word h) else val us mod val vs)"
proof -
  have len: "nlen u = length us" "nlen v = length vs" using words_length assms(2,3) by simp_all
  have last: "vs ! (length vs - 1) \<noteq> 0" using assms(5,7) by (simp add: normal_def last_conv_nth)
  note cmp = natCmp_words [OF assms(2-5)]
  consider "val us < val vs" | y where "val vs \<le> val us" "vs = [y]" | "val vs \<le> val us" "2 \<le> length vs"
    using assms(7) by (cases vs rule: remdups_adj.cases) (auto simp: not_less [symmetric])
  then show ?thesis
  proof cases
    case 1
    obtain z h' where z: "natSet no_storage u h = Inr (z, h')" "words h' z us" "extends h h'" "releasable z h'" by (rule natSet_empty [OF assms(1,2)])
    have "natDiv no_storage no_storage u v h = Inr (no_storage, z, h')"
      using 1 cmp len z(1) assms(7) by (simp add: natDiv_def natPart_ok no_storage_def)
    moreover have "words h' no_storage []" "normal []" by (simp_all add: no_storage_def words_def normal_def)
    moreover have "us = []" if "vs = [1]" using that 1 normal_length_less [OF assms(4), of "[]"] by (cases us) simp_all
    ultimately show ?thesis using 1 z(2-4) assms(4) by (intro dividesI [of _ no_storage z h' "[]" us]) auto
  next
    case 2
    have us: "us \<noteq> []" using 2 last by (auto simp: unat_eq_zero)
    have "divides h (natDiv no_storage no_storage u v h) (val us div unat y) (if y = 1 then unat (junk_word h) else val us mod unat y)"
      using natDiv_word [OF assms(1,2) assms(3) [unfolded 2(2)] assms(4)] cmp 2 last by simp
    then show ?thesis using 2(2) us by (cases "y = 1") simp_all
  next
    case 3
    have "length vs \<le> nlen u" using normal_length_less [OF assms(5), of us] 3(1) len by linarith
    obtain q r h' qs rs where d: "natDivLarge no_storage no_storage u v h = Inr (q, r, h')" "words h' q qs" "words h' r rs" "extends h h'"
      "normal qs" "normal rs" "val qs = val us div val vs" "val rs = val us mod val vs" "releasable r h'"
      by (rule natDivLarge_run [OF assms(1-3) len(2) 3(2) assms(6) \<open>length vs \<le> nlen u\<close> last])
    have "vs \<noteq> [1]" using 3(2) by auto
    moreover have "natDiv no_storage no_storage u v h = Inr (q, r, h')" using 3 assms(7) cmp len d(1) by (simp add: natDiv_def)
    ultimately show ?thesis using d by (intro dividesI) simp_all
  qed
qed

text \<open>
  C9. \<open>natDiv\<close> divides numbers exactly. An empty divisor fails the assertion. For a dividend and a divisor without leading zero words,
  the divisor of less than 100 words, and result numbers without storage, the call succeeds; quotient and remainder have no leading zero
  word and are the integer quotient and remainder, the remainder can be released, and everything allocated before is unchanged. The one exception is the
  divisor 1, for which the remainder of a non-zero dividend is the content of an uninitialised variable.
\<close>

theorem natDiv_exact:
  assumes "mem_ok h" and "words h u us" and "words h v vs" and "normal us" and "normal vs" and "length vs < divRecursiveThreshold"
  shows "if vs = [] then natDiv no_storage no_storage u v h = Inl AssertFail
    else divides h (natDiv no_storage no_storage u v h) (val us div val vs) (if vs = [1] \<and> us \<noteq> [] then unat (junk_word h) else val us mod val vs)"
proof (cases "vs = []")
  case True
  then show ?thesis using words_length [OF assms(3)] by (simp add: natDiv_def)
next
  case False
  then show ?thesis using natDiv_run [OF assms] by simp
qed

theorem natDiv_exact_witness:
  "divides (mem_of [[0, 0, 1], [1, 1]]) (natDiv no_storage no_storage (slice 0 3) (slice 1 2) (mem_of [[0, 0, 1], [1, 1]])) (Base - 1) 1"
proof -
  have w: "words (mem_of [[0, 0, 1], [1, 1]]) (slice 0 3) [0, 0, 1]" "words (mem_of [[0, 0, 1], [1, 1]]) (slice 1 2) [1, 1]"
    using words_mem_of [of 0 "[[0, 0, 1], [1, 1]]" 3] words_mem_of [of 1 "[[0, 0, 1], [1, 1]]" 2] by simp_all
  show ?thesis using natDiv_exact [OF mem_ok_mem_of w] by (simp add: normal_def divRecursiveThreshold_def)
qed

end
