(* ===== verification/BigIntQuo.thy ===== *)
theory BigIntQuo
  imports BigIntOps NatLong "HOL-Library.Signed_Division"
begin

text \<open>
  Division of \<open>BigInt\<close> objects, \<open>cmake/bigint/src/bigint.c\<close>: \<open>QuoRem\<close> is division of integers with truncation, provided that
  the memory of a new object happens to be an empty number, and \<open>BigIntDiv\<close>, which reads the remainder after releasing it.
\<close>

section \<open>Quotient and remainder\<close>

lemma signed_division:
  assumes "val qs = val xs div val ys" and "val rs = val xs mod val ys"
  shows "signed_val (0 < length qs \<and> s \<noteq> t) qs = signed_val s xs sdiv signed_val t ys"
    and "signed_val (0 < length rs \<and> s) rs = signed_val s xs smod signed_val t ys"
proof -
  have q: "int (val qs) = int (val xs) div int (val ys)" and r: "int (val rs) = int (val xs) mod int (val ys)"
    using assms by (simp_all add: zdiv_int zmod_int)
  have "signed_val (0 < length qs \<and> s \<noteq> t) qs = (if s = t then int (val qs) else - int (val qs))" by (auto simp: signed_val_def)
  then show "signed_val (0 < length qs \<and> s \<noteq> t) qs = signed_val s xs sdiv signed_val t ys"
    unfolding q by (cases "val xs = 0"; cases "val ys = 0") (auto simp: signed_val_def signed_divide_int_def)
  have "signed_val (0 < length rs \<and> s) rs = (if s then - int (val rs) else int (val rs))" by (auto simp: signed_val_def)
  then show "signed_val (0 < length rs \<and> s) rs = signed_val s xs smod signed_val t ys"
    unfolding r by (cases "val xs = 0") (auto simp: signed_val_def signed_modulo_int_def)
qed

text \<open>The state \<open>QuoRem\<close> leaves: a new object for the quotient, and the remainder in object \<open>i\<close>.\<close>

definition with_remainder :: "nat \<Rightarrow> bigint \<Rightarrow> bstate \<Rightarrow> bstate" where
  "with_remainder i x st = st\<lparr>objs := (objs st)(i \<mapsto> x)\<rparr>"

lemma holds_with_remainder:
  "holds st p s xs \<Longrightarrow> p \<noteq> BHeap i \<Longrightarrow> holds (with_remainder i x st) p s xs"
  by (cases p) (auto simp: holds_def with_remainder_def)

lemma QuoRem_run:
  assumes ok: "heap_ok st" and p: "holds st p s xs" and q: "holds st q t ys" and r: "objs st i = Some x"
    and d: "\<And>a b. words (wmem st) a xs \<Longrightarrow> words (wmem st) b ys \<Longrightarrow> divides (wmem st) (natDiv (abs_part (junk_obj st)) (abs_part x) a b (wmem st)) k l"
  obtains z rr h qs rs where "QuoRem p q (BHeap i) st =
      Inr (BHeap (onext st), with_remainder i \<lparr>neg = 0 < nlen rr \<and> s, abs_part = rr\<rparr> (with_object (0 < nlen z \<and> s \<noteq> t) z h st))"
    and "extends (wmem st) h" and "words h z qs" and "words h rr rs" and "normal qs" and "normal rs" and "val qs = k" and "val rs = l" and "releasable rr h"
proof -
  obtain a where a: "neg a = s" "words (wmem st) (abs_part a) xs"
    "obj_get p (st\<lparr>objs := (objs st)(onext st \<mapsto> junk_obj st), onext := Suc (onext st)\<rparr>) = Inr a" by (rule holdsE [OF ok p])
  obtain b where b: "neg b = t" "words (wmem st) (abs_part b) ys"
    "obj_get q (st\<lparr>objs := (objs st)(onext st \<mapsto> junk_obj st), onext := Suc (onext st)\<rparr>) = Inr b" by (rule holdsE [OF ok q])
  obtain z rr h qs rs where n: "natDiv (abs_part (junk_obj st)) (abs_part x) (abs_part a) (abs_part b) (wmem st) = Inr (z, rr, h)"
    "words h z qs" "words h rr rs" "extends (wmem st) h" "normal qs" "normal rs" "val qs = k" "val rs = l" "releasable rr h"
    using d [OF a(2) b(2)] unfolding divides_def by blast
  have i: "i \<noteq> onext st" using ok r by (auto simp: heap_ok_def)
  have "natNorm rr h = Inr rr" using natNorm_words(1) [OF n(3)] strip_normal [OF n(6)] words_length [OF n(3)] by simp
  then have "QuoRem p q (BHeap i) st = Inr (BHeap (onext st), with_remainder i \<lparr>neg = 0 < nlen rr \<and> s, abs_part = rr\<rparr> (with_object (0 < nlen z \<and> s \<noteq> t) z h st))"
    using n(1) a b r i make_object [OF ok] by (simp add: QuoRem_def with_remainder_def with_object_def)
  then show thesis using n(4,2,3) n(5-9) by (rule that)
qed

text \<open>
  C12. \<open>QuoRem\<close> divides integers with truncation: the new object is the quotient, the object given for the
  remainder gets the remainder, which has the sign of the dividend, and all other objects keep their
  numbers. The magnitudes have no leading zero word, the divisor is not zero, not 1 or -1 and of less than 100 words,
  and the memory of the new object and of the one for the remainder happens to be an empty number, which nothing in the code
  provides for.
\<close>

theorem QuoRem_truncates:
  assumes "heap_ok st" and "holds st p s xs" and "holds st q t ys" and "normal xs" and "normal ys" and "length ys < divRecursiveThreshold"
    and "ys \<noteq> []" and "ys \<noteq> [1]" and "objs st i = Some x" and "abs_part x = no_storage" and "abs_part (junk_obj st) = no_storage"
  shows "\<exists>st' u qs v rs. QuoRem p q (BHeap i) st = Inr (BHeap (onext st), st') \<and> heap_ok st' \<and>
    holds st' (BHeap (onext st)) u qs \<and> signed_val u qs = signed_val s xs sdiv signed_val t ys \<and>
    holds st' (BHeap i) v rs \<and> signed_val v rs = signed_val s xs smod signed_val t ys \<and>
    (\<forall>o' w zs. o' \<noteq> BHeap i \<and> holds st o' w zs \<longrightarrow> holds st' o' w zs)"
proof -
  have m: "mem_ok (wmem st)" using assms(1) by (simp add: heap_ok_def)
  have d: "divides (wmem st) (natDiv (abs_part (junk_obj st)) (abs_part x) a b (wmem st)) (val xs div val ys) (val xs mod val ys)"
    if "words (wmem st) a xs" "words (wmem st) b ys" for a b
    using natDiv_run [OF m that assms(4-7)] assms(8,10,11) by simp
  obtain z rr h qs rs where r: "QuoRem p q (BHeap i) st =
      Inr (BHeap (onext st), with_remainder i \<lparr>neg = 0 < nlen rr \<and> s, abs_part = rr\<rparr> (with_object (0 < nlen z \<and> s \<noteq> t) z h st))"
    "extends (wmem st) h" "words h z qs" "words h rr rs" "val qs = val xs div val ys" "val rs = val xs mod val ys"
    by (rule QuoRem_run [OF assms(1-3,9) d])
  let ?st = "with_object (0 < nlen z \<and> s \<noteq> t) z h st" and ?x = "\<lparr>neg = 0 < nlen rr \<and> s, abs_part = rr\<rparr>"
  note w = with_object_ok [OF assms(1) r(2,3), where s = "0 < nlen z \<and> s \<noteq> t"]
  have i: "i < onext st" using assms(1,9) by (auto simp: heap_ok_def not_le [symmetric])
  note v = signed_division [OF r(5,6), of s t]
  have "heap_ok (with_remainder i ?x ?st)" using w(1) i by (auto simp: heap_ok_def with_remainder_def with_object_def)
  moreover have "holds (with_remainder i ?x ?st) (BHeap i) (0 < nlen rr \<and> s) rs" using r(4) by (simp add: holds_def with_remainder_def with_object_def)
  moreover have "holds (with_remainder i ?x ?st) (BHeap (onext st)) (0 < nlen z \<and> s \<noteq> t) qs" using holds_with_remainder [OF w(2)] i by simp
  moreover have "\<forall>o' w zs. o' \<noteq> BHeap i \<and> holds st o' w zs \<longrightarrow> holds (with_remainder i ?x ?st) o' w zs" using holds_with_remainder w(3) by blast
  ultimately show ?thesis using r(1) v words_length [OF r(3)] words_length [OF r(4)] by metis
qed

text \<open>The numbers -7 and 3, and an empty object for the remainder.\<close>

definition seven_by_three :: bstate where
  "seven_by_three = \<lparr>objs = [0 \<mapsto> \<lparr>neg = True, abs_part = slice 0 1\<rparr>, 1 \<mapsto> \<lparr>neg = False, abs_part = slice 1 1\<rparr>, 2 \<mapsto> \<lparr>neg = False, abs_part = no_storage\<rparr>],
     onext = 3, onomem = (\<lambda>_. False), junk_obj = \<lparr>neg = False, abs_part = no_storage\<rparr>, wmem = mem_of [[7], [3]]\<rparr>"

lemma seven_by_three_ok:
  "heap_ok seven_by_three" "holds seven_by_three (BHeap 0) True [7]" "holds seven_by_three (BHeap 1) False [3]"
  "onext seven_by_three = 3" "objs seven_by_three 2 = Some \<lparr>neg = False, abs_part = no_storage\<rparr>"
  "abs_part (junk_obj seven_by_three) = no_storage"
  using words_mem_of [of 0 "[[7], [3]]" 1] words_mem_of [of 1 "[[7], [3]]" 1]
  by (simp_all add: heap_ok_def seven_by_three_def holds_def)

theorem QuoRem_truncates_witness:
  "\<exists>st' u qs v rs. QuoRem (BHeap 0) (BHeap 1) (BHeap 2) seven_by_three = Inr (BHeap 3, st') \<and>
    holds st' (BHeap 3) u qs \<and> signed_val u qs = - 2 \<and> holds st' (BHeap 2) v rs \<and> signed_val v rs = - 1"
proof -
  have n: "normal [7]" "normal [3]" "length [3 :: u64] < divRecursiveThreshold" "[3 :: u64] \<noteq> []" "[3 :: u64] \<noteq> [1]"
    "objs seven_by_three 2 = Some \<lparr>neg = False, abs_part = no_storage\<rparr>" "abs_part \<lparr>neg = False, abs_part = no_storage\<rparr> = no_storage"
    "abs_part (junk_obj seven_by_three) = no_storage" using seven_by_three_ok by (simp_all add: normal_def divRecursiveThreshold_def)
  have v: "signed_val True [7] sdiv signed_val False [3] = - 2" "signed_val True [7] smod signed_val False [3] = - 1"
    by (simp_all add: signed_val_def signed_divide_int_def signed_modulo_int_def)
  show ?thesis using QuoRem_truncates [OF seven_by_three_ok(1-3) n] unfolding v seven_by_three_ok(4) by blast
qed

section \<open>Division\<close>

lemma BigIntFree_remainder:
  assumes "objs st i = Some x" and "releasable (abs_part x) (wmem st)"
  obtains st' where "BigIntFree (BHeap i) st = Inr st'" and "obj_get (BHeap i) st' = Inl UseAfterFree"
proof -
  obtain a h where "natFree (abs_part x) (wmem st) = Inr (a, h)" using assms(2) by (auto simp: releasable_def)
  then show thesis using assms(1) by (intro that) (auto simp: BigIntFree_def)
qed

text \<open>
  C34. \<open>BigIntDiv\<close> divides and then reads the remainder it has just released: for magnitudes without leading zero words, a divisor
  that is not zero, not 1 or -1 and of less than 100 words, and new objects whose memory happens to be an empty number, the object for the remainder is allocated,
  \<open>QuoRem\<close> succeeds and returns a quotient that is not a null pointer, the release of the remainder succeeds, and the
  access to its sign that follows is one to freed memory, which is how the call ends.
\<close>

theorem BigIntDiv_reads_freed:
  assumes "heap_ok st" and "holds st p s xs" and "holds st q t ys" and "normal xs" and "normal ys" and "length ys < divRecursiveThreshold"
    and "ys \<noteq> []" and "ys \<noteq> [1]" and "abs_part (junk_obj st) = no_storage"
  shows "\<exists>r st0 z st1 st2. obj_malloc st = (r, st0) \<and> QuoRem p q r st0 = Inr (z, st1) \<and> z \<noteq> BNull \<and>
    BigIntFree r st1 = Inr st2 \<and> obj_get r st2 = Inl UseAfterFree \<and> BigIntDiv p q st = Inl UseAfterFree"
proof -
  let ?i = "onext st" and ?st = "with_object (neg (junk_obj st)) no_storage (wmem st) st"
  have m: "mem_ok (wmem st)" using assms(1) by (simp add: heap_ok_def)
  have st: "obj_malloc st = (BHeap ?i, ?st)"
    using make_object(1) [OF assms(1)] assms(9) by (cases "junk_obj st") (simp add: with_object_def)
  have e: "words (wmem st) no_storage []" by (simp add: no_storage_def words_def)
  note w = with_object_ok [OF assms(1) extends_refl [OF m] e, where s = "neg (junk_obj st)"]
  have d: "divides (wmem ?st) (natDiv (abs_part (junk_obj ?st)) (abs_part \<lparr>neg = neg (junk_obj st), abs_part = no_storage\<rparr>) a b (wmem ?st)) (val xs div val ys) (val xs mod val ys)"
    if "words (wmem ?st) a xs" "words (wmem ?st) b ys" for a b
    using natDiv_run [OF m _ _ assms(4-7), of a b] that assms(8,9) by (simp add: with_object_def)
  have o: "objs ?st ?i = Some \<lparr>neg = neg (junk_obj st), abs_part = no_storage\<rparr>" by (simp add: with_object_def)
  obtain z rr h where r: "QuoRem p q (BHeap ?i) ?st =
      Inr (BHeap (onext ?st), with_remainder ?i \<lparr>neg = 0 < nlen rr \<and> s, abs_part = rr\<rparr> (with_object (0 < nlen z \<and> s \<noteq> t) z h ?st))" "releasable rr h"
    by (rule QuoRem_run [OF w(1) w(3) [OF assms(2)] w(3) [OF assms(3)] o d])
  let ?st1 = "with_remainder ?i \<lparr>neg = 0 < nlen rr \<and> s, abs_part = rr\<rparr> (with_object (0 < nlen z \<and> s \<noteq> t) z h ?st)"
  obtain st2 where f: "BigIntFree (BHeap ?i) ?st1 = Inr st2" "obj_get (BHeap ?i) st2 = Inl UseAfterFree"
    by (rule BigIntFree_remainder [of ?st1 ?i "\<lparr>neg = 0 < nlen rr \<and> s, abs_part = rr\<rparr>"]) (use r(2) in \<open>simp_all add: with_remainder_def with_object_def\<close>)
  obtain yv where "obj_get q ?st = Inr yv" using w(3) [OF assms(3)] by (auto simp: holds_def)
  then have "BigIntDiv p q st = Inl UseAfterFree" using st r(1) f by (simp add: BigIntDiv_def)
  then show ?thesis using st r(1) f by auto
qed

text \<open>The division of -7 by 3 reaches the read.\<close>

theorem BigIntDiv_reads_freed_witness: "BigIntDiv (BHeap 0) (BHeap 1) seven_by_three = Inl UseAfterFree"
  using BigIntDiv_reads_freed [OF seven_by_three_ok(1-3)] seven_by_three_ok(4-6)
  by (auto simp: normal_def divRecursiveThreshold_def)

text \<open>In no state does \<open>BigIntDiv\<close> return a quotient: what it returns, if anything, is a null pointer.\<close>

lemma BigIntDiv_no_quotient: "BigIntDiv x y st = Inr (p, st') \<Longrightarrow> p = BNull"
proof (cases "onomem st (onext st)")
  case True
  then show "BigIntDiv x y st = Inr (p, st') \<Longrightarrow> p = BNull" by (simp add: BigIntDiv_def obj_malloc_def Let_def)
next
  case False
  have gone: "obj_get (BHeap i) st2 = Inl UseAfterFree" if "BigIntFree (BHeap i) st1 = Inr st2" for st1 st2 i
    using that by (auto simp: BigIntFree_def bnd_eq_Inr split: if_splits option.splits prod.splits)
  have "obj_malloc st = (BHeap (onext st), st\<lparr>objs := (objs st)(onext st \<mapsto> junk_obj st), onext := Suc (onext st)\<rparr>)" using False by (simp add: obj_malloc_def Let_def)
  then show "BigIntDiv x y st = Inr (p, st') \<Longrightarrow> p = BNull" using gone by (fastforce simp: BigIntDiv_def bnd_eq_Inr split: if_splits)
qed

end
