(* ===== verification/NatText.thy ===== *)
theory NatText
  imports NatConv NatLong
begin

text \<open>
  The text of a number, \<open>natI2a\<close> of \<open>cmake/bigint/src/natconv.c\<close>, for the numbers it converts without a table of divisors
  and the bases that are not powers of two: the text is the numeral of the number.
\<close>

section \<open>Numerals\<close>

text \<open>The numeral of a number, without leading zeros, and its last \<open>k\<close> digits.\<close>

fun numeral_text :: "nat \<Rightarrow> nat \<Rightarrow> string" where
  "numeral_text b n = (if n = 0 \<or> b < 2 then [] else numeral_text b (n div b) @ [digits ! (n mod b)])"

declare numeral_text.simps [simp del]

fun fixed_text :: "nat \<Rightarrow> nat \<Rightarrow> nat \<Rightarrow> string" where
  "fixed_text b 0 n = []"
| "fixed_text b (Suc k) n = fixed_text b k (n div b) @ [digits ! (n mod b)]"

lemma length_fixed_text [simp]: "length (fixed_text b k n) = k"
  by (induction k arbitrary: n) simp_all

lemma fixed_text_add: "fixed_text b (j + k) n = fixed_text b j (n div b ^ k) @ fixed_text b k n"
  by (induction k arbitrary: n) (simp_all add: div_mult2_eq mult.commute)

lemma fixed_text_mod: "fixed_text b k (n mod b ^ k) = fixed_text b k n"
proof (induction k arbitrary: n)
  case (Suc k)
  have "n mod (b * b ^ k) mod b = n mod b" by (simp add: mod_mod_cancel)
  moreover have "n mod (b * b ^ k) div b = n div b mod b ^ k" by (cases "b = 0") (simp_all add: mod_mult2_eq)
  ultimately show ?case using Suc.IH [of "n div b"] by simp
qed simp

lemma digits_0: "digits ! 0 = CHR ''0''"
  by (simp add: digits_def)

lemma length_digits: "length digits = 62"
  by (simp add: digits_def)

lemma digits_plain:
  assumes "d < 62"
  shows "digits ! d \<noteq> CHR 0x00" and "0 < d \<Longrightarrow> digits ! d \<noteq> CHR ''0''" and "d < 10 \<Longrightarrow> digits ! d = char_of (48 + d)"
proof -
  have m: "digits ! d \<in> set digits" using assms by (simp add: length_digits)
  show "digits ! d \<noteq> CHR 0x00" using m by (auto simp: digits_def)
  have "distinct digits" by (simp add: digits_def)
  then show "0 < d \<Longrightarrow> digits ! d \<noteq> CHR ''0''" using assms nth_eq_iff_index_eq [of digits d 0] by (auto simp: length_digits digits_0)
  have "\<forall>d \<in> set [0..<10]. digits ! d = char_of (48 + d)" by code_simp
  then show "d < 10 \<Longrightarrow> digits ! d = char_of (48 + d)" by simp
qed

lemma fixed_text_0: "fixed_text b k 0 = replicate k (CHR ''0'')"
  by (induction k) (simp_all add: digits_0 replicate_append_same)

lemma fixed_numeral:
  assumes "2 \<le> b" and "n < b ^ k"
  shows "length (numeral_text b n) \<le> k" and "fixed_text b k n = replicate (k - length (numeral_text b n)) (CHR ''0'') @ numeral_text b n"
proof -
  have "length (numeral_text b n) \<le> k \<and> fixed_text b k n = replicate (k - length (numeral_text b n)) (CHR ''0'') @ numeral_text b n"
    using assms(2)
  proof (induction k arbitrary: n)
    case 0
    then show ?case by (simp add: numeral_text.simps)
  next
    case (Suc k)
    show ?case
    proof (cases "n = 0")
      case True
      then show ?thesis by (simp add: fixed_text_0 numeral_text.simps del: fixed_text.simps)
    next
      case False
      have "n div b < b ^ k" using Suc.prems assms(1) by (simp add: less_mult_imp_div_less mult.commute)
      from Suc.IH [OF this] show ?thesis using False assms(1) numeral_text.simps [of b n] by simp
    qed
  qed
  then show "length (numeral_text b n) \<le> k" and "fixed_text b k n = replicate (k - length (numeral_text b n)) (CHR ''0'') @ numeral_text b n" by simp_all
qed

lemma numeral_head:
  assumes "2 \<le> b" and "b \<le> 62" and "n \<noteq> 0"
  shows "\<exists>c cs. numeral_text b n = c # cs \<and> c \<noteq> CHR ''0''"
  using assms(3)
proof (induction n rule: less_induct)
  case (less n)
  have d: "n mod b < 62" using assms mod_less_divisor [of b n] by linarith
  show ?case
  proof (cases "n div b = 0")
    case True
    then have "n mod b \<noteq> 0" using less.prems by (metis div_mult_mod_eq mult_0 add_0)
    then show ?thesis using True less.prems assms(1) digits_plain(2) [OF d] numeral_text.simps [of b n] numeral_text.simps [of b 0] by simp
  next
    case False
    then obtain c cs where "numeral_text b (n div b) = c # cs" "c \<noteq> CHR ''0''" using less.IH [of "n div b"] less.prems assms(1) by auto
    then show ?thesis using less.prems assms(1) numeral_text.simps [of b n] by simp
  qed
qed

lemma numeral_no_end:
  assumes "b \<le> 62"
  shows "CHR 0x00 \<notin> set (numeral_text b n)"
proof (induction n rule: less_induct)
  case (less n)
  show ?case
  proof (cases "n = 0 \<or> b < 2")
    case False
    then have "n mod b < 62" "n div b < n" using assms mod_less_divisor [of b n] by (linarith, simp)
    then show ?thesis using less.IH [of "n div b"] digits_plain(1) [of "n mod b"] False numeral_text.simps [of b n] by auto
  qed (simp add: numeral_text.simps)
qed

section \<open>Writing digits\<close>

lemma put_char_at: "i < length s \<Longrightarrow> put_char s (int i) c = Inr (take i s @ c # drop (Suc i) s)"
  by (simp add: put_char_def upd_conv_take_nth_drop)

lemma one_digit:
  assumes "i < length s" and "u = take i s @ c # drop (Suc i) s" and "k \<le> i"
  shows "take (i - k) u @ xs @ drop i u = take (i - k) s @ (xs @ [c]) @ drop (Suc i) s"
  using assms by simp

lemma digits_base_text:
  assumes "0 < unat b" and "unat b \<le> 62"
  shows "i \<le> length s \<Longrightarrow> digits_base b nd r i 0 s =
    Inr (i - min nd i, take (i - min nd i) s @ fixed_text (unat b) (min nd i) (unat r) @ drop i s)"
proof (induction nd arbitrary: r i s)
  case (Suc j)
  show ?case
  proof (cases i)
    case (Suc k)
    have "unat r mod unat b < unat b" using assms(1) by simp
    then have "unat (r mod b) < 62" using assms(2) unfolding unat_mod by linarith
    then have "digits_base b (Suc j) r i 0 s = digits_base b j (r div b) k 0 (take k s @ digits ! unat (r mod b) # drop (Suc k) s)"
      using Suc Suc.prems by (simp add: tab_read_def length_digits put_char_at)
    then show ?thesis using Suc.IH [of k "take k s @ digits ! unat (r mod b) # drop (Suc k) s" "r div b"] Suc Suc.prems
      by (simp add: unat_div unat_mod)
  qed simp
qed simp

lemma digits10_text:
  "i \<le> length s \<Longrightarrow> digits10 nd r i 0 s = Inr (i - min nd i, take (i - min nd i) s @ fixed_text 10 (min nd i) (unat r) @ drop i s)"
proof (induction nd arbitrary: r i s)
  case (Suc j)
  show ?case
  proof (cases i)
    case (Suc k)
    have "unat (r - r div 10 * 10) = unat r mod 10" by (simp add: minus_div_mult_eq_mod unat_mod)
    then have "char_of (48 + unat (r - r div 10 * 10)) = digits ! (unat r mod 10)" using digits_plain(3) [of "unat r mod 10"] by simp
    then have "digits10 (Suc j) r i 0 s = digits10 j (r div 10) k 0 (take k s @ digits ! (unat r mod 10) # drop (Suc k) s)"
      using Suc Suc.prems by (simp add: put_char_at)
    then show ?thesis using Suc.IH [of k "take k s @ digits ! (unat r mod 10) # drop (Suc k) s" "r div 10"] Suc Suc.prems
      by (simp add: unat_div)
  qed simp
qed simp

lemma zero_fill_text: "i \<le> length s \<Longrightarrow> zero_fill i 0 s = Inr (replicate i (CHR ''0'') @ drop i s)"
  by (induction i arbitrary: s) (simp_all add: put_char_at replicate_append_same)

lemma skip_zeros_at: "skip_zeros (replicate k (CHR ''0'') @ c # s) i = (if c = CHR ''0'' then skip_zeros s (Suc (i + k)) else Inr (i + k))"
  by (induction k arbitrary: i) simp_all

section \<open>Taking off one word after the other\<close>

text \<open>A number in a block of its own that was allocated after \<open>H\<close>.\<close>

definition owns :: "mem \<Rightarrow> mem \<Rightarrow> cnat \<Rightarrow> u64 list \<Rightarrow> bool" where
  "owns H h q qs \<longleftrightarrow> extends H h \<and> words h q qs \<and> \<not> npart q \<and> (\<exists>b. ndata q = Ptr b 0 \<and> nxt H \<le> b \<and> blk h b \<noteq> None)"

lemma extends_drop_block: "extends H h \<Longrightarrow> nxt H \<le> b \<Longrightarrow> extends H (drop_block b h)"
  by (auto simp: extends_def blk_drop_block)

lemma owns_free:
  assumes "owns H h q qs"
  obtains h' where "natFree q h = Inr (no_storage, h')" and "extends H h'"
proof -
  obtain b where b: "ndata q = Ptr b 0" "nxt H \<le> b" "blk h b \<noteq> None" "\<not> npart q" "extends H h" using assms by (auto simp: owns_def)
  show thesis using that [of "drop_block b h"] natFree_block [OF b(1,4,3)] extends_drop_block [OF b(5,2)] by (simp add: no_storage_def)
qed

lemma owns_divide:
  assumes "owns H h q qs" and "qs \<noteq> []" and "y \<noteq> 0" and "y \<noteq> 1"
  obtains z r h1 h2 zs where "natDivW q y r0 h = Inr (z, r, h1)" and "natFree q h1 = Inr (no_storage, h2)" and "owns H h2 z zs" and "normal zs"
    and "val zs = val qs div unat y" and "unat r = val qs mod unat y"
proof -
  obtain b where b: "ndata q = Ptr b 0" "nxt H \<le> b" "blk h b \<noteq> None" "\<not> npart q" "extends H h" "words h q qs" using assms(1) by (auto simp: owns_def)
  have ok: "mem_ok h" using b(5) by (rule extends_mem_ok)
  then have bh: "b < nxt h" using b(3) by (auto simp: mem_ok_def wf_mem_def not_le [symmetric])
  obtain z zs r h1 where d: "natDivW q y r0 h = Inr (z, r, h1)" "words h1 z zs" "extends h h1" "normal zs" "val zs = val qs div unat y"
    "unat r = val qs mod unat y" "ndata z = Ptr (nxt h) 0" "\<not> npart z" "blk h1 (nxt h) \<noteq> None"
    by (rule natDivW_run [OF ok b(6) assms(3,4,2)])
  have "blk h1 b \<noteq> None" using d(3) bh b(3) by (simp add: extends_def)
  then have free: "natFree q h1 = Inr (no_storage, drop_block b h1)" using natFree_block [OF b(1,4)] by (simp add: no_storage_def)
  have "owns H (drop_block b h1) z zs"
    using extends_drop_block [OF extends_trans [OF b(5) d(3)] b(2)] words_drop_block [OF d(2,7)] d(7-9) bh b(5)
    by (auto simp: owns_def extends_def blk_drop_block)
  then show thesis using that [OF d(1) free] d(4-6) by simp
qed

text \<open>The loops over the digits of one remainder, for base 10 and for the others.\<close>

lemma word_digits:
  assumes "2 \<le> unat b" and "unat b \<le> 62" and "i \<le> length s"
  shows "(if b = 10 then digits10 nd r i 0 s else digits_base b nd r i 0 s) =
    Inr (i - min nd i, take (i - min nd i) s @ fixed_text (unat b) (min nd i) (unat r) @ drop i s)"
  using assms digits10_text [OF assms(3)] digits_base_text [of b i s nd r] by auto

lemma text_join:
  assumes b: "0 < b" and k: "k = min nd i" and i': "i' \<le> i - k" and i: "i \<le> length s" and n: "n < b ^ i"
    and s1: "s1 = take (i - k) s @ fixed_text b k (n mod b ^ nd) @ drop i s"
  shows "take i' s1 @ fixed_text b (i - k - i') (n div b ^ nd) @ drop (i - k) s1 = take i' s @ fixed_text b (i - i') n @ drop i s"
    and "n div b ^ nd < b ^ (i - k - i') \<Longrightarrow> n < b ^ (i - i')"
proof -
  have parts: "take i' s1 = take i' s" "drop (i - k) s1 = fixed_text b k (n mod b ^ nd) @ drop i s" using s1 i' i by (auto simp: min_def)
  have sum: "i - i' = (i - k - i') + k" using i' k by (auto simp: min_def)
  show "take i' s1 @ fixed_text b (i - k - i') (n div b ^ nd) @ drop (i - k) s1 = take i' s @ fixed_text b (i - i') n @ drop i s"
  proof (cases "nd \<le> i")
    case True
    then have "k = nd" using k by simp
    then show ?thesis unfolding parts sum fixed_text_add using fixed_text_mod by simp
  next
    case False
    then have "k = i" "n mod b ^ nd = n" using k n b power_increasing [of i nd b] by simp_all
    then show ?thesis using parts i' by simp
  qed
  show "n < b ^ (i - i')" if "n div b ^ nd < b ^ (i - k - i')"
  proof (cases "nd \<le> i")
    case True
    then have "k = nd" using k by simp
    moreover have "n < b ^ (i - k - i') * b ^ nd" using that b by (simp add: div_less_iff_less_mult)
    ultimately show ?thesis unfolding sum power_add by simp
  next
    case False
    then show ?thesis using k i' n by simp
  qed
qed

lemma leaf_loop_text:
  assumes b: "2 \<le> unat b" "unat b \<le> 62" and bb: "unat bb = unat b ^ nd" "0 < nd"
  shows "owns H h q qs \<Longrightarrow> i \<le> length s \<Longrightarrow> val qs < unat b ^ i \<Longrightarrow> val qs < 2 ^ f \<Longrightarrow> normal qs \<or> 0 < f \<Longrightarrow>
    \<exists>q' i' s' h'. leaf_loop (Suc f) b nd bb q i 0 s h = Inr (q', i', s', h') \<and> i' \<le> i \<and> owns H h' q' [] \<and> val qs < unat b ^ (i - i') \<and>
      s' = take i' s @ fixed_text (unat b) (i - i') (val qs) @ drop i s"
proof (induction f arbitrary: h q qs i s)
  case (0 h q qs i s)
  then have "qs = []" using normal_length_less [of qs "[]"] by (cases qs) auto
  then show ?case using 0 words_length [of h q qs] by (auto simp: owns_def)
next
  case (Suc f h q qs i s)
  let ?b = "unat b"
  show ?case
  proof (cases "qs = []")
    case True
    then show ?thesis using Suc.prems words_length [of h q qs] by (auto simp: owns_def)
  next
    case False
    have big: "2 \<le> ?b ^ nd" using b(1) bb(2) self_le_power [of ?b nd] by linarith
    then have "unat bb \<noteq> 0" "unat bb \<noteq> 1" unfolding bb(1) by linarith+
    then have "bb \<noteq> 0" "bb \<noteq> 1" by auto
    from owns_divide [OF Suc.prems(1) False this, of 0] obtain z r h1 h2 zs where
      d: "natDivW q bb 0 h = Inr (z, r, h1)" "natFree q h1 = Inr (no_storage, h2)" "owns H h2 z zs" "normal zs"
        "val zs = val qs div ?b ^ nd" "unat r = val qs mod ?b ^ nd" unfolding bb(1) by blast
    define k where "k = min nd i"
    define s1 where "s1 = take (i - k) s @ fixed_text ?b k (unat r) @ drop i s"
    have pos: "0 < nlen q" using Suc.prems(1) False words_nonempty by (auto simp: owns_def)
    have step: "leaf_loop (Suc (Suc f)) b nd bb q i 0 s h = leaf_loop (Suc f) b nd bb z (i - k) 0 s1 h2"
      using pos d(1,2) word_digits [OF b Suc.prems(2), of nd r] by (simp add: k_def s1_def del: leaf_loop.simps(1))
    have len: "i - k \<le> length s1" using Suc.prems(2) by (simp add: s1_def)
    have less: "val zs < ?b ^ (i - k)"
    proof (cases "nd \<le> i")
      case True
      then have "?b ^ i = ?b ^ nd * ?b ^ (i - nd)" by (simp flip: power_add)
      then show ?thesis using d(5) Suc.prems(3) True by (simp add: k_def less_mult_imp_div_less mult.commute)
    next
      case False
      then have "val qs < ?b ^ nd" using Suc.prems(3) b(1) power_increasing [of i nd ?b] by linarith
      then show ?thesis using d(5) b(1) by simp
    qed
    have "val zs \<le> val qs div 2" unfolding d(5) using big by (intro div_le_mono2) simp_all
    then have fuel: "val zs < 2 ^ f" using Suc.prems(4) by simp
    obtain q' i' s' h' where l: "leaf_loop (Suc f) b nd bb z (i - k) 0 s1 h2 = Inr (q', i', s', h')" "i' \<le> i - k" "owns H h' q' []"
      "val zs < ?b ^ (i - k - i')" "s' = take i' s1 @ fixed_text ?b (i - k - i') (val zs) @ drop (i - k) s1"
      using Suc.IH [OF d(3) len less fuel disjI1 [OF d(4)]] by blast
    have "s' = take i' s @ fixed_text ?b (i - i') (val qs) @ drop i s" "val qs < ?b ^ (i - i')"
      using text_join [OF _ k_def l(2) Suc.prems(2,3) s1_def [unfolded d(6)]] l(4,5) b(1) unfolding d(5) by simp_all
    then show ?thesis using step l(1-3) by auto
  qed
qed

lemma convertWords_text:
  assumes "mem_ok h" and "words h x xs" and "xs \<noteq> []" and b: "2 \<le> unat b" "unat b \<le> 62" and bb: "unat bb = unat b ^ nd" "0 < nd"
    and s: "i \<le> length s" "val xs < unat b ^ i"
  obtains h' where "convertWords f x s 0 (int i) b nd bb None k h = Inr (fixed_text (unat b) i (val xs) @ drop i s, h')" and "extends h h'"
proof -
  obtain q h1 where q: "natDup x h = Inr (q, h1)" "words h1 q xs" "extends h h1" "0 < nlen x \<longrightarrow> ndata q = Ptr (nxt h) 0 \<and> \<not> npart q"
    by (rule natDup_words [OF assms(1,2)])
  have pos: "0 < nlen x" "0 < nlen q" using words_nonempty [OF assms(2,3)] words_nonempty [OF q(2) assms(3)] .
  then have "blk h1 (nxt h) \<noteq> None" using q(2,4) by (auto simp: words_def seg.simps split: option.splits)
  then have own: "owns h h1 q xs" using q pos(1) by (simp add: owns_def)
  have "val xs < 2 ^ (64 * nlen q)" using val_bound [of xs] words_length [OF q(2)] by (simp add: power_mult)
  from leaf_loop_text [OF b bb own s this] pos(2) obtain q' i' s' h2 where
    l: "leaf_loop (Suc (64 * nlen q)) b nd bb q i 0 s h1 = Inr (q', i', s', h2)" "i' \<le> i" "owns h h2 q' []" "val xs < unat b ^ (i - i')"
      "s' = take i' s @ fixed_text (unat b) (i - i') (val xs) @ drop i s" by auto
  obtain h3 where h3: "natFree q' h2 = Inr (no_storage, h3)" "extends h h3" by (rule owns_free [OF l(3)])
  have "i' \<le> length s'" using l(2,5) s(1) by simp
  then have fill: "zero_fill i' 0 s' = Inr (replicate i' (CHR ''0'') @ drop i' s')" by (rule zero_fill_text)
  have "i = i' + (i - i')" using l(2) by simp
  then have "fixed_text (unat b) i (val xs) = fixed_text (unat b) i' (val xs div unat b ^ (i - i')) @ fixed_text (unat b) (i - i') (val xs)"
    by (metis fixed_text_add)
  then have "replicate i' (CHR ''0'') @ drop i' s' = fixed_text (unat b) i (val xs) @ drop i s"
    using l(2,4,5) s(1) by (simp add: fixed_text_0)
  then have "convertWords f x s 0 (int i) b nd bb None k h = Inr (fixed_text (unat b) i (val xs) @ drop i s, h3)"
    using q(1) l(1) h3(1) fill by (simp add: convertWords.simps del: leaf_loop.simps)
  then show thesis using h3(2) by (rule that)
qed

section \<open>The largest power of the base in a word\<close>

lemma maxPow_loop_power:
  assumes "2 \<le> unat b"
  shows "unat p = unat b ^ n \<Longrightarrow> 64 \<le> f + n \<Longrightarrow> \<exists>p' n'. maxPow_loop f b (M_word div b) p n = Inr (p', n') \<and> n \<le> n' \<and> unat p' = unat b ^ n'"
proof (induction f arbitrary: p n)
  case 0
  have "(2 :: nat) ^ 64 \<le> 2 ^ n" using 0 by (intro power_increasing) simp_all
  also have "\<dots> \<le> unat b ^ n" using assms by (intro power_mono) simp_all
  finally show ?case using 0 unat64_less [of p] by simp
next
  case (Suc f)
  show ?case
  proof (cases "p < M_word div b")
    case True
    then have "unat p < (Base - 1) div unat b" by (simp add: word_less_nat_alt unat_div M_word_unat)
    then have "unat p * unat b \<le> (Base - 1) div unat b * unat b" by (intro mult_le_mono1) simp
    also have "\<dots> \<le> Base - 1" by (rule div_times_less_eq_dividend)
    finally have "unat (p * b) = unat b ^ Suc n" using Suc.prems(1) by (simp add: unat_mult64 mult.commute)
    from Suc.IH [OF this] Suc.prems(2) True show ?thesis by (auto intro: Suc_leD)
  qed (use Suc.prems(1) in auto)
qed

lemma maxPow_power:
  assumes "2 \<le> unat b"
  obtains bb nd where "maxPow b = Inr (bb, nd)" and "unat bb = unat b ^ nd" and "0 < nd"
  using maxPow_loop_power [OF assms, of b 1 65] by (auto simp: maxPow_def)

section \<open>The size of the text\<close>

lemma or_ge: "unat a \<le> unat (a OR b)" for a b :: u64
  using le_word_or2 [of a b] by (simp add: word_le_nat_alt)

lemma natBitLen_bound:
  assumes "words h x xs"
  obtains n where "natBitLen x h = Inr n" and "val xs < 2 ^ n" and "n \<le> 64 * length xs"
proof (cases xs rule: rev_cases)
  case Nil
  then show thesis using assms words_length [OF assms] by (intro that [of 0]) (simp_all add: natBitLen_def)
next
  case (snoc ys w)
  have len: "nlen x = Suc (length ys)" using words_length [OF assms] snoc by simp
  have rd: "rd (ndata x) (length ys) h = Inr w" using rd_seg [of h "ndata x" "nlen x" xs "length ys"] assms len snoc by (simp add: words_def nth_append)
  define t1 where "t1 = w OR drop_bit 1 w"
  define t2 where "t2 = t1 OR drop_bit 2 t1"
  define t3 where "t3 = t2 OR drop_bit 4 t2"
  define t4 where "t4 = t3 OR drop_bit 8 t3"
  define t5 where "t5 = t4 OR drop_bit 16 t4"
  define t where "t = t5 OR drop_bit 16 (drop_bit 16 t5)"
  have "unat w \<le> unat t1" "unat t1 \<le> unat t2" "unat t2 \<le> unat t3" "unat t3 \<le> unat t4" "unat t4 \<le> unat t5" "unat t5 \<le> unat t"
    unfolding t1_def t2_def t3_def t4_def t5_def t_def by (rule or_ge)+
  then have le: "unat w \<le> unat t" by linarith
  have t: "natBitLen x h = Inr (length ys * 64 + Len t)"
    unfolding natBitLen_def Let_def t_def t5_def t4_def t3_def t2_def t1_def W_bits_def UintSize_def
    by (simp only: len rd diff_Suc_1 bnd_Inr nat.distinct if_False)
  have "unat w < 2 ^ Len t" using le Len_bitlen [of t] by (simp add: is_bitlen_def)
  then have "val ys + Base ^ length ys * unat w < Base ^ length ys * 2 ^ Len t"
    using val_bound [of ys] two_digit_less [of "unat w" "2 ^ Len t" "val ys" "Base ^ length ys"] by (simp add: mult.commute add.commute)
  then have "val xs < 2 ^ (length ys * 64 + Len t)" using snoc by (simp add: val_append power_add power_mult mult.commute [of _ 64])
  moreover have "length ys * 64 + Len t \<le> 64 * length xs" using snoc Len_le [of t] by simp
  ultimately show thesis using t by (intro that) simp_all
qed

text \<open>The exact quotient, rounded down, is enough.\<close>

fun log_floor :: "nat \<Rightarrow> nat \<Rightarrow> nat \<Rightarrow> nat" where
  "log_floor b n 0 = 0"
| "log_floor b n (Suc k) = (if b ^ Suc k \<le> 2 ^ n then Suc k else log_floor b n k)"

definition exact_quot :: log_quot where
  "exact_quot bits base = log_floor base bits bits"

lemma log_floor_next: "2 ^ n < b ^ Suc k \<Longrightarrow> 2 ^ n < b ^ Suc (log_floor b n k)"
  by (induction k) auto

lemma exact_quot_enough:
  assumes "2 \<le> b"
  shows "quot_enough exact_quot n b"
proof -
  have "(2 :: nat) ^ n < 2 ^ Suc n" by simp
  also have "\<dots> \<le> b ^ Suc n" using assms by (intro power_mono) simp_all
  finally show ?thesis using log_floor_next [of n b n] by (simp add: quot_enough_def exact_quot_def)
qed

section \<open>The text\<close>

lemma obj_alloc_ok:
  assumes "mem_ok h"
  obtains h' where "obj_alloc h = (True, h')" and "extends h h'"
  using assms by (auto simp: obj_alloc_def mem_ok_def extends_def wf_mem_def)

lemma power_bases:
  assumes "2 \<le> n" and "n \<le> 62"
  shows "(word_of_nat n :: u64) = word_of_nat n AND - word_of_nat n \<longleftrightarrow> n \<in> {2, 4, 8, 16, 32}"
proof -
  have "\<forall>n \<in> set [2..<63]. (word_of_nat n :: u64) = word_of_nat n AND - word_of_nat n \<longleftrightarrow> n \<in> {2, 4, 8, 16, 32}" by code_simp
  moreover have "n \<in> set [2..<63]" using assms unfolding set_upt by simp
  ultimately show ?thesis by blast
qed

lemma skip_text:
  assumes "2 \<le> b" and "b \<le> 62" and "n < b ^ k"
  shows "skip_zeros (fixed_text b k n @ [CHR 0x00]) 0 = Inr (k - length (numeral_text b n))"
proof (cases "n = 0")
  case True
  then show ?thesis using skip_zeros_at [of k "CHR 0x00" "[]" 0] by (simp add: fixed_text_0 numeral_text.simps)
next
  case False
  then obtain c cs where "numeral_text b n = c # cs" "c \<noteq> CHR ''0''" using numeral_head [OF assms(1,2)] by blast
  then show ?thesis using fixed_numeral(2) [OF assms(1,3)] skip_zeros_at [of _ c "cs @ [CHR 0x00]" 0] by simp
qed

lemma move_front_text:
  assumes "CHR 0x00 \<notin> set ts"
  shows "cstring (move_front (ps @ ts @ [c]) (length ps) (length ps + length ts)) = ts"
proof -
  have "overlay 0 ts (ps @ ts @ [c]) = ts @ drop (length ts) (ps @ ts @ [c])" using overlay_window [of 0 ts "ps @ ts @ [c]"] by simp
  moreover obtain d ds where "drop (length ts) (ps @ ts @ [c]) = d # ds" by (cases "drop (length ts) (ps @ ts @ [c])") simp_all
  ultimately have "move_front (ps @ ts @ [c]) (length ps) (length ps + length ts) = ts @ CHR 0x00 # ds" by (simp add: move_front_def)
  then show ?thesis using assms by (auto simp: cstring_def takeWhile_append)
qed

text \<open>The sign in front of the numeral; a negative number has one character more, so that there is a place for it.\<close>

definition signed_text :: "bool \<Rightarrow> nat \<Rightarrow> nat \<Rightarrow> string" where
  "signed_text neg b n = (if neg then [CHR ''-''] else []) @ numeral_text b n"

lemma sign_text:
  assumes b: "b \<le> 62" and s: "s = ps @ numeral_text b n @ [CHR 0x00]" and i: "length ps = i" and l: "l = i + length (numeral_text b n)" and neg: "neg \<longrightarrow> 0 < i"
  shows "\<exists>buf. bnd (if neg then bnd (put_char s (int i - 1) (CHR ''-'')) (\<lambda>s. Inr (i - 1, s)) else Inr (i, s))
      (\<lambda>(i, s). Inr (Some (move_front s i l), h)) = Inr (Some buf, h :: mem) \<and> cstring buf = signed_text neg b n"
proof -
  let ?t = "numeral_text b n"
  note no = numeral_no_end [OF b, of n]
  show ?thesis
  proof (cases neg)
    case False
    then show ?thesis using s i l move_front_text [OF no, of ps "CHR 0x00"] by (simp add: signed_text_def)
  next
    case True
    then obtain ps' c where ps: "ps = ps' @ [c]" using neg i by (cases ps rule: rev_cases) auto
    have "put_char s (int (length ps')) (CHR ''-'') = Inr (ps' @ (CHR ''-'' # ?t) @ [CHR 0x00])" unfolding s ps by (subst put_char_at) simp_all
    moreover have "int i - 1 = int (length ps')" "i - 1 = length ps'" "l = length ps' + length (CHR ''-'' # ?t)" using i l ps by simp_all
    moreover have "CHR 0x00 \<notin> set (CHR ''-'' # ?t)" using no by simp
    ultimately show ?thesis using True move_front_text [of "CHR ''-'' # ?t" ps' "CHR 0x00"] by (simp add: signed_text_def)
  qed
qed

lemma natI2a_text:
  assumes "mem_ok h" and "words h x xs" and "length xs \<le> leafSize" and "2 \<le> base" and "base \<le> MaxBase" and "base \<notin> {2, 4, 8, 16, 32}"
    and "\<And>n. n \<le> 64 * length xs \<Longrightarrow> quot_enough quot n base"
  obtains buf h' where "natI2a quot x neg base h = Inr (Some buf, h')" and "extends h h'" and "cstring buf = (if xs = [] then ''0'' else signed_text neg base (val xs))"
proof -
  obtain h1 where h1: "obj_alloc h = (True, h1)" "extends h h1" by (rule obj_alloc_ok [OF assms(1)])
  have len: "nlen x = length xs" using words_length [OF assms(2)] by simp
  show thesis
  proof (cases "xs = []")
    case True
    then show thesis using assms(4,5) h1 len by (intro that [of "[CHR ''0'', CHR 0x00]" h1]) (simp_all add: natI2a_def cstring_def)
  next
    case False
    define b where "b = (word_of_nat base :: u64)"
    have b62: "base \<le> 62" using assms(5) by (simp add: MaxBase_def)
    have b: "unat b = base" "base \<le> 62" "b \<noteq> b AND - b"
      using b62 assms(6) power_bases [OF assms(4) b62] by (auto simp: b_def unat_of_nat)
    obtain n where n: "natBitLen x h = Inr n" "val xs < 2 ^ n" "n \<le> 64 * length xs" by (rule natBitLen_bound [OF assms(2)])
    define k where "k = text_size quot n base"
    define l where "l = (if neg then Suc k else k)"
    have vk: "val xs < base ^ k" using n(2) assms(7) [OF n(3)] unfolding k_def quot_enough_def text_size_def by (rule less_le_trans)
    have vl: "val xs < base ^ l" using vk assms(4) by (auto simp: l_def intro: less_le_trans)
    obtain bb nd where m: "maxPow b = Inr (bb, nd)" "unat bb = unat b ^ nd" "0 < nd" by (rule maxPow_power [of b]) (use b(1) assms(4) in simp)
    have dv: "divisors (nlen x) b nd bb h1 = Inr (None, h1)" using assms(3) len by (simp add: divisors_def)
    let ?s = "replicate (l + 1) (CHR 0x00)"
    obtain h2 where c: "convertWords (64 * Suc (nlen x)) x ?s 0 (int l) b nd bb None 0 h1 = Inr (fixed_text (unat b) l (val xs) @ drop l ?s, h2)" "extends h1 h2"
      by (rule convertWords_text [OF extends_mem_ok [OF h1(2)] words_extends [OF h1(2) assms(2)] False _ _ m(2,3), of l ?s])
        (use b(1,2) assms(4) vl in simp_all)
    have "drop l ?s = [CHR 0x00]" by (simp only: drop_replicate) simp
    then have c': "convertWords (64 * Suc (nlen x)) x ?s 0 (int l) b nd bb None 0 h1 = Inr (fixed_text base l (val xs) @ [CHR 0x00], h2)" using c(1) b(1) by simp
    note skip = skip_text [OF assms(4) b(2) vl]
    let ?t = "numeral_text base (val xs)"
    note t = fixed_numeral [OF assms(4) vk] fixed_numeral [OF assms(4) vl]
    have sg: "neg \<longrightarrow> 0 < l - length ?t" "l = l - length ?t + length ?t" using t(1,3) by (auto simp: l_def)
    have s0: "fixed_text base l (val xs) @ [CHR 0x00] = replicate (l - length ?t) (CHR ''0'') @ ?t @ [CHR 0x00]" using t(4) by simp
    obtain buf where buf: "bnd (if neg then bnd (put_char (fixed_text base l (val xs) @ [CHR 0x00]) (int (l - length ?t) - 1) (CHR ''-''))
        (\<lambda>s. Inr (l - length ?t - 1, s)) else Inr (l - length ?t, fixed_text base l (val xs) @ [CHR 0x00]))
        (\<lambda>(i, s). Inr (Some (move_front s i l), h2)) = Inr (Some buf, h2)" "cstring buf = signed_text neg base (val xs)"
      using sign_text [OF b(2) s0 length_replicate sg(2,1), of h2] by blast
    have size: "(if neg then text_size quot n base + 1 else text_size quot n base) = l" by (simp add: l_def k_def)
    have "natI2a quot x neg base h = Inr (Some buf, h2)"
      using False assms(4,5) len n(1) h1(1) b(3) m(1) dv c' skip buf(1) unfolding natI2a_def Let_def size
      by (simp add: size Let_def flip: b_def)
    then show thesis using that [of buf h2] extends_trans [OF h1(2) c(2)] buf(2) False by simp
  qed
qed

text \<open>Reading a numeral gives the number back.\<close>

definition numeral_value :: "nat \<Rightarrow> string \<Rightarrow> nat" where
  "numeral_value b s = foldl (\<lambda>a c. a * b + length (takeWhile (\<lambda>d. d \<noteq> c) digits)) 0 s"

lemma digit_value: "d < 62 \<Longrightarrow> length (takeWhile (\<lambda>c. c \<noteq> digits ! d) digits) = d"
proof -
  have "\<forall>d \<in> set [0..<62]. length (takeWhile (\<lambda>c. c \<noteq> digits ! d) digits) = d" by code_simp
  then show "d < 62 \<Longrightarrow> length (takeWhile (\<lambda>c. c \<noteq> digits ! d) digits) = d" by (simp del: upt_conv_Cons_Cons)
qed

lemma numeral_value_text:
  assumes "2 \<le> b" and "b \<le> 62"
  shows "numeral_value b (numeral_text b n) = n"
proof (induction n rule: less_induct)
  case (less n)
  show ?case
  proof (cases "n = 0")
    case False
    have "n mod b < 62" using assms mod_less_divisor [of b n] by linarith
    then show ?thesis using False assms(1) less.IH [of "n div b"] digit_value numeral_text.simps [of b n] by (simp add: numeral_value_def)
  qed (simp add: numeral_text.simps numeral_value_def)
qed

end
