(* ===== verification/NatHex.thy ===== *)
theory NatHex
  imports NatText
begin

text \<open>
  The branch of \<open>natI2a\<close>, \<open>cmake/bigint/src/natconv.c\<close>, for a base that is a power of two: it takes the digits out of the words by shifting,
  and a digit may lie across two words.
\<close>

section \<open>Digits from the right\<close>

lemma fixed_is_numeral: "2 \<le> b \<Longrightarrow> n < b ^ k \<Longrightarrow> 0 < k \<longrightarrow> n div b ^ (k - 1) \<noteq> 0 \<Longrightarrow> fixed_text b k n = numeral_text b n"
proof (induction k arbitrary: n)
  case 0
  then show ?case by (simp add: numeral_text.simps)
next
  case (Suc k)
  have "n \<noteq> 0" using Suc.prems(3) by (cases n) simp_all
  moreover have "n div b < b ^ k" using Suc.prems by (simp add: less_mult_imp_div_less mult.commute)
  moreover have "0 < k \<longrightarrow> n div b div b ^ (k - 1) \<noteq> 0" using Suc.prems(3) by (cases k) (simp_all add: div_mult2_eq)
  ultimately show ?case using Suc.IH [of "n div b"] Suc.prems(1) numeral_text.simps [of b n] by simp
qed

text \<open>\<open>wrote b n l i s\<close>: the buffer for \<open>l\<close> characters holds the last digits of \<open>n\<close> from position \<open>i\<close> on, the first of them not a leading zero.\<close>

definition wrote :: "nat \<Rightarrow> nat \<Rightarrow> nat \<Rightarrow> nat \<Rightarrow> string \<Rightarrow> bool" where
  "wrote b n l i s \<longleftrightarrow> length s = Suc l \<and> i \<le> l \<and> drop i s = fixed_text b (l - i) n @ [CHR 0x00] \<and> (i < l \<longrightarrow> n div b ^ (l - i - 1) \<noteq> 0)"

lemma put_digit_wrote:
  assumes "wrote b n l i s" and "2 \<le> b" and "b \<le> 62" and "n < b ^ l" and "n div b ^ (l - i) \<noteq> 0" and "unat d = n div b ^ (l - i) mod b"
  obtains s' where "put_digit i d s = Inr (i - 1, s')" and "wrote b n l (i - 1) s'" and "l - (i - 1) = Suc (l - i)"
proof -
  have w: "length s = Suc l" "i \<le> l" "drop i s = fixed_text b (l - i) n @ [CHR 0x00]" "i < l \<longrightarrow> n div b ^ (l - i - 1) \<noteq> 0"
    using assms(1) by (simp_all add: wrote_def)
  have i: "0 < i" using assms(4,5) by (cases i) auto
  define s' where "s' = take (i - 1) s @ digits ! unat d # drop i s"
  have "unat d < b" using assms(2,6) by simp
  then have "unat d < 62" using assms(3) by linarith
  moreover have "put_char s (int i - 1) (digits ! unat d) = Inr s'"
    using i w put_char_at [of "i - 1" s "digits ! unat d"] by (auto simp: s'_def of_nat_diff)
  ultimately have put: "put_digit i d s = Inr (i - 1, s')" by (simp add: put_digit_def tab_read_def length_digits)
  have l: "l - (i - 1) = Suc (l - i)" using i w by linarith
  have "fixed_text b (1 + (l - i)) n = fixed_text b 1 (n div b ^ (l - i)) @ fixed_text b (l - i) n" by (rule fixed_text_add)
  then have "fixed_text b (Suc (l - i)) n = digits ! unat d # fixed_text b (l - i) n" using assms(6) by simp
  then have "drop (i - 1) s' = fixed_text b (Suc (l - i)) n @ [CHR 0x00]" using i w by (simp add: s'_def del: fixed_text.simps)
  then have "wrote b n l (i - 1) s'" using i w assms(5) l by (simp add: wrote_def s'_def del: fixed_text.simps)
  with put show thesis using l by (rule that)
qed

section \<open>Digits out of words\<close>

lemma mask_digit: "unat (w AND (push_bit e 1 - 1)) = unat (w :: u64) mod 2 ^ e"
proof -
  have "w AND (push_bit e 1 - 1) = take_bit e w" by (simp add: take_bit_eq_mask mask_eq_exp_minus_1)
  moreover have "unat (take_bit e w) = unat w mod 2 ^ e" by (simp only: unsigned_take_bit_eq take_bit_eq_mod [of e "unat w"])
  ultimately show ?thesis by (simp only:)
qed

lemma pow2_bits_wrote:
  assumes e: "0 < e" "e \<le> 5" and msk: "\<And>w. unat (w AND msk) = unat w mod 2 ^ e" and n: "n < (2 ^ e) ^ l" and R: "R \<noteq> 0"
  shows "wrote (2 ^ e) n l i s \<Longrightarrow> n div (2 ^ e) ^ (l - i) = unat w + 2 ^ nb * R \<Longrightarrow> unat w < 2 ^ nb \<Longrightarrow>
    \<exists>w' nb' i' s'. pow2_bits e msk w nb i s = Inr (w', nb', i', s') \<and> nb' < e \<and> wrote (2 ^ e) n l i' s' \<and>
      n div (2 ^ e) ^ (l - i') = unat w' + 2 ^ nb' * R \<and> unat w' < 2 ^ nb'"
proof (induction nb arbitrary: w i s rule: less_induct)
  case (less nb)
  show ?case
  proof (cases "nb < e")
    case True
    then show ?thesis using less.prems by (subst pow2_bits.simps) auto
  next
    case False
    let ?b = "(2 :: nat) ^ e" and ?N = "n div (2 ^ e) ^ (l - i)"
    have b: "2 \<le> ?b" "?b \<le> 62" using e power_increasing [of 1 e "2 :: nat"] power_increasing [of e 5 "2 :: nat"] by simp_all
    have split: "(2 :: nat) ^ nb = 2 ^ e * 2 ^ (nb - e)" using False by (simp flip: power_add)
    have N: "?N \<noteq> 0" using less.prems(2) R by simp
    have "unat (w AND msk) = ?N mod ?b" using less.prems(2) split by (simp add: msk mult.assoc)
    from put_digit_wrote [OF less.prems(1) b n N this] obtain s' where
      p: "put_digit i (w AND msk) s = Inr (i - 1, s')" "wrote ?b n l (i - 1) s'" "l - (i - 1) = Suc (l - i)" by blast
    have "n div ?b ^ (l - (i - 1)) = ?N div ?b" unfolding p(3) power_Suc2 by (rule div_mult2_eq)
    also have "\<dots> = unat (drop_bit e w) + 2 ^ (nb - e) * R" unfolding less.prems(2) split by (simp add: unat_drop_bit mult.assoc)
    finally have "n div ?b ^ (l - (i - 1)) = unat (drop_bit e w) + 2 ^ (nb - e) * R" .
    moreover have "unat (drop_bit e w) < 2 ^ (nb - e)" using less.prems(3) unfolding split by (simp add: unat_drop_bit less_mult_imp_div_less mult.commute)
    moreover have "nb - e < nb" using e(1) False by simp
    moreover have "pow2_bits e msk w nb i s = pow2_bits e msk (drop_bit e w) (nb - e) (i - 1) s'"
      using False e(1) p(1) by (subst pow2_bits.simps) simp
    ultimately show ?thesis using less.IH [of "nb - e" "i - 1" s' "drop_bit e w"] p(2) by simp
  qed
qed

lemma unat_small_or:
  assumes "unat (w :: u64) < 2 ^ nb"
  shows "unat (w OR push_bit nb x) = unat w + unat (push_bit nb x)"
proof (rule unat_disjoint_or, rule bit_word_eqI)
  fix n
  have "take_bit nb w = w" using assms by (simp add: word_unat_eq_iff unsigned_take_bit_eq take_bit_nat_eq_self_iff)
  then have "bit w n \<Longrightarrow> n < nb" by (metis bit_take_bit_iff)
  then show "bit (w AND push_bit nb x) n \<longleftrightarrow> bit (0 :: u64) n" by (auto simp: bit_and_iff bit_push_bit_iff)
qed

text \<open>The digit across two words, and what is left of the second one.\<close>

lemma across:
  assumes "unat (w :: u64) < 2 ^ nb" and "nb < e" and "e \<le> 5"
  shows "(unat w + 2 ^ nb * (unat x + Base * R)) mod 2 ^ e = unat (w OR push_bit nb x) mod 2 ^ e"
    and "(unat w + 2 ^ nb * (unat x + Base * R)) div 2 ^ e = unat (drop_bit (e - nb) x) + 2 ^ (64 - (e - nb)) * R"
    and "unat (drop_bit (e - nb) x) < 2 ^ (64 - (e - nb))"
proof -
  let ?N = "unat w + 2 ^ nb * (unat x + Base * R)"
  have Be: "Base = 2 ^ e * 2 ^ (64 - e)" using assms(3) by (intro Base_split) simp
  have "?N mod 2 ^ e = (unat w + unat x * 2 ^ nb) mod 2 ^ e" unfolding Be by (simp add: algebra_simps flip: add.assoc) (simp add: mult.left_commute [of _ "2 ^ e"])
  also have "\<dots> = (unat w + (unat x * 2 ^ nb) mod Base) mod 2 ^ e"
  proof -
    have "(unat x * 2 ^ nb) mod Base mod 2 ^ e = (unat x * 2 ^ nb) mod 2 ^ e" unfolding Be by (simp add: mod_mod_cancel)
    then show ?thesis by (metis mod_add_right_eq)
  qed
  finally show "?N mod 2 ^ e = unat (w OR push_bit nb x) mod 2 ^ e" using unat_small_or [OF assms(1), of x] by (simp add: unat_push_bit)
  have e: "(2 :: nat) ^ e = 2 ^ nb * 2 ^ (e - nb)" using assms(2) by (simp flip: power_add)
  have Bs: "Base = 2 ^ (e - nb) * 2 ^ (64 - (e - nb))" using assms(3) by (intro Base_split) simp
  have "?N div 2 ^ nb = unat x + Base * R" using assms(1) by simp
  then have "?N div 2 ^ e = (unat x + Base * R) div 2 ^ (e - nb)" unfolding e by (simp add: div_mult2_eq)
  also have "\<dots> = unat x div 2 ^ (e - nb) + 2 ^ (64 - (e - nb)) * R" unfolding Bs by (simp add: mult.assoc)
  finally show "?N div 2 ^ e = unat (drop_bit (e - nb) x) + 2 ^ (64 - (e - nb)) * R" by (simp add: unat_drop_bit)
  have "unat x < 2 ^ (64 - (e - nb)) * 2 ^ (e - nb)" using unat64_less [of x] Bs by (metis mult.commute)
  then show "unat (drop_bit (e - nb) x) < 2 ^ (64 - (e - nb))" by (simp add: unat_drop_bit less_mult_imp_div_less)
qed

lemma pow2_words_wrote:
  assumes e: "0 < e" "e \<le> 5" and msk: "\<And>w. unat (w AND msk) = unat w mod 2 ^ e" and n: "n < (2 ^ e) ^ l" and x: "words h x xs" "normal xs"
  shows "wrote (2 ^ e) n l i s \<Longrightarrow> n div (2 ^ e) ^ (l - i) = unat w + 2 ^ nb * val (drop k xs) \<Longrightarrow> unat w < 2 ^ nb \<Longrightarrow>
    \<exists>w' i' s'. pow2_words x e msk k w nb i s h = Inr (w', i', s') \<and> wrote (2 ^ e) n l i' s' \<and> n div (2 ^ e) ^ (l - i') = unat w'"
proof (induction "nlen x - k" arbitrary: k w nb i s)
  case 0
  then have "drop k xs = []" using words_length [OF x(1)] by simp
  then show ?case using 0 by (subst pow2_words.simps) simp
next
  case (Suc m)
  let ?b = "(2 :: nat) ^ e" and ?R = "val (drop (Suc k) xs)"
  have k: "k < nlen x" "k < length xs" using Suc.hyps(2) words_length [OF x(1)] by simp_all
  have R: "val (drop k xs) = unat (xs ! k) + Base * ?R" using Cons_nth_drop_Suc [OF k(2)] by (metis val.simps(2))
  have "normal (drop k xs)" "length [] < length (drop k xs)" using x(2) k(2) by (auto simp: normal_def)
  then have R0: "val (drop k xs) \<noteq> 0" using normal_length_less [of "drop k xs" "[]"] by simp
  obtain w1 nb1 i1 s1 where p: "pow2_bits e msk w nb i s = Inr (w1, nb1, i1, s1)" "nb1 < e" "wrote ?b n l i1 s1"
    "n div ?b ^ (l - i1) = unat w1 + 2 ^ nb1 * val (drop k xs)" "unat w1 < 2 ^ nb1"
    using pow2_bits_wrote [OF e msk n R0 Suc.prems] by blast
  have rd: "rd (ndata x) k h = Inr (xs ! k)" using rd_seg [of h "ndata x" "nlen x" xs k] x(1) k(1) by (simp add: words_def)
  show ?case
  proof (cases "nb1 = 0")
    case True
    have "pow2_words x e msk k w nb i s h = pow2_words x e msk (Suc k) (xs ! k) 64 i1 s1 h"
      using k(1) p(1) rd True by (subst pow2_words.simps) (simp add: W_bits_def UintSize_def)
    moreover have "n div ?b ^ (l - i1) = unat (xs ! k) + 2 ^ 64 * ?R" using p(4,5) True R by simp
    moreover have "m = nlen x - Suc k" "unat (xs ! k) < 2 ^ 64" using Suc.hyps(2) unat64_less [of "xs ! k"] by simp_all
    ultimately show ?thesis using Suc.hyps(1) [of "Suc k" i1 s1 "xs ! k" 64] p(3) by simp
  next
    case False
    note a = across(1,2) [OF p(5,2) e(2), of "xs ! k" ?R, folded R, folded p(4)] across(3) [OF p(5,2) e(2), of "xs ! k"]
    have b: "2 \<le> ?b" "?b \<le> 62" using e power_increasing [of 1 e "2 :: nat"] power_increasing [of e 5 "2 :: nat"] by simp_all
    have N: "n div ?b ^ (l - i1) \<noteq> 0" using p(4) R0 by simp
    have "unat ((w1 OR push_bit nb1 (xs ! k)) AND msk) = n div ?b ^ (l - i1) mod ?b" using a(1) by (simp add: msk)
    from put_digit_wrote [OF p(3) b n N this] obtain s2 where
      q: "put_digit i1 ((w1 OR push_bit nb1 (xs ! k)) AND msk) s1 = Inr (i1 - 1, s2)" "wrote ?b n l (i1 - 1) s2" "l - (i1 - 1) = Suc (l - i1)" by blast
    have "n div ?b ^ (l - (i1 - 1)) = n div ?b ^ (l - i1) div ?b" unfolding q(3) power_Suc2 by (rule div_mult2_eq)
    then have N': "n div ?b ^ (l - (i1 - 1)) = unat (drop_bit (e - nb1) (xs ! k)) + 2 ^ (64 - (e - nb1)) * ?R" using a(2) by simp
    have "pow2_words x e msk k w nb i s h = pow2_words x e msk (Suc k) (drop_bit (e - nb1) (xs ! k)) (64 - (e - nb1)) (i1 - 1) s2 h"
      using k(1) p(1) rd False q(1) by (subst pow2_words.simps) (simp add: W_bits_def UintSize_def)
    moreover have "m = nlen x - Suc k" using Suc.hyps(2) by simp
    ultimately show ?thesis using Suc.hyps(1) [OF _ q(2) N' a(3)] by simp
  qed
qed

lemma pow2_rest_wrote:
  assumes e: "0 < e" "e \<le> 5" and msk: "\<And>w. unat (w AND msk) = unat w mod 2 ^ e" and n: "n < (2 ^ e) ^ l"
  shows "wrote (2 ^ e) n l i s \<Longrightarrow> n div (2 ^ e) ^ (l - i) = unat w \<Longrightarrow>
    \<exists>i' s'. pow2_rest e msk w i s = Inr (i', s') \<and> wrote (2 ^ e) n l i' s' \<and> n div (2 ^ e) ^ (l - i') = 0"
proof (induction "unat w" arbitrary: w i s rule: less_induct)
  case less
  show ?case
  proof (cases "w = 0")
    case True
    then show ?thesis using less.prems by (subst pow2_rest.simps) simp
  next
    case False
    let ?b = "(2 :: nat) ^ e"
    have b: "2 \<le> ?b" "?b \<le> 62" using e power_increasing [of 1 e "2 :: nat"] power_increasing [of e 5 "2 :: nat"] by simp_all
    have N: "n div ?b ^ (l - i) \<noteq> 0" using less.prems(2) False by (simp add: unat_eq_zero)
    have "unat (w AND msk) = n div ?b ^ (l - i) mod ?b" using less.prems(2) by (simp add: msk)
    from put_digit_wrote [OF less.prems(1) b n N this] obtain s' where
      p: "put_digit i (w AND msk) s = Inr (i - 1, s')" "wrote ?b n l (i - 1) s'" "l - (i - 1) = Suc (l - i)" by blast
    have "n div ?b ^ (l - (i - 1)) = unat (drop_bit e w)" unfolding p(3) power_Suc2 by (simp only: div_mult2_eq less.prems(2) unat_drop_bit)
    moreover have "unat (drop_bit e w) < unat w" using False e(1) by (intro drop_bit_less) simp_all
    moreover have "pow2_rest e msk w i s = pow2_rest e msk (drop_bit e w) (i - 1) s'" using False e(1) p(1) by (subst pow2_rest.simps) simp
    ultimately show ?thesis using less.hyps [OF _ p(2)] by simp
  qed
qed

section \<open>The text\<close>

lemma power_base:
  assumes "base \<in> {2, 4, 8, 16, 32}"
  obtains e where "base = 2 ^ e" and "0 < e" and "e \<le> 5" and "TrailingZeros (word_of_nat base) = Inr e"
    and "(word_of_nat base :: u64) = word_of_nat base AND - word_of_nat base"
proof -
  have "\<forall>e \<in> set [1..<6]. TrailingZeros (word_of_nat (2 ^ e)) = Inr e" by code_simp
  then have tz: "TrailingZeros (word_of_nat (2 ^ e)) = Inr e" if "e \<in> {1, 2, 3, 4, 5}" for e using that by auto
  obtain e where e: "base = 2 ^ e" "e \<in> {1, 2, 3, 4, 5}" using assms
    by (elim insertE emptyE) (auto intro: that [of 1] that [of 2] that [of 3] that [of 4] that [of 5])
  have "2 \<le> base" "base \<le> 62" using assms by auto
  then show thesis using that [OF e(1)] e(2) tz [OF e(2)] power_bases [of base] assms unfolding e(1) by auto
qed

lemma natI2a_power_text:
  assumes "mem_ok h" and "words h x xs" and "normal xs" and "base \<in> {2, 4, 8, 16, 32}"
    and "\<And>n. n \<le> 64 * length xs \<Longrightarrow> quot_enough quot n base"
  obtains buf h' where "natI2a quot x neg base h = Inr (Some buf, h')" and "extends h h'" and "cstring buf = (if xs = [] then ''0'' else signed_text neg base (val xs))"
proof -
  obtain h1 where h1: "obj_alloc h = (True, h1)" "extends h h1" by (rule obj_alloc_ok [OF assms(1)])
  have len: "nlen x = length xs" using words_length [OF assms(2)] by simp
  have base: "2 \<le> base" "base \<le> 62" "base \<le> MaxBase" using assms(4) by (auto simp: MaxBase_def)
  show thesis
  proof (cases "xs = []")
    case True
    then show thesis using base h1 len by (intro that [of "[CHR ''0'', CHR 0x00]" h1]) (simp_all add: natI2a_def cstring_def)
  next
    case False
    obtain e where e: "base = 2 ^ e" "0 < e" "e \<le> 5" "TrailingZeros (word_of_nat base) = Inr e" "(word_of_nat base :: u64) = word_of_nat base AND - word_of_nat base"
      by (rule power_base [OF assms(4)])
    obtain n where n: "natBitLen x h = Inr n" "val xs < 2 ^ n" "n \<le> 64 * length xs" by (rule natBitLen_bound [OF assms(2)])
    define k where "k = text_size quot n base"
    define l where "l = (if neg then Suc k else k)"
    define msk where "msk = (push_bit e 1 - 1 :: u64)"
    have msk: "unat (w AND msk) = unat w mod 2 ^ e" for w unfolding msk_def by (rule mask_digit)
    have vk: "val xs < base ^ k" using n(2) assms(5) [OF n(3)] unfolding k_def quot_enough_def text_size_def by (rule less_le_trans)
    have vl: "val xs < (2 ^ e) ^ l" using vk base(1) unfolding e(1) [symmetric] by (auto simp: l_def intro: less_le_trans)
    let ?s = "replicate (l + 1) (CHR 0x00)"
    have "drop l ?s = [CHR 0x00]" by (simp only: drop_replicate) simp
    then have w0: "wrote (2 ^ e) (val xs) l l ?s" by (simp add: wrote_def)
    have x0: "val xs div (2 ^ e) ^ (l - l) = unat (xs ! 0) + 2 ^ 64 * val (drop 1 xs)" "unat (xs ! 0) < 2 ^ 64"
      using False unat64_less [of "xs ! 0"] by (cases xs; simp)+
    have x1: "words h1 x xs" using words_extends [OF h1(2) assms(2)] .
    obtain w1 i1 s1 where p: "pow2_words x e msk 1 (xs ! 0) 64 l ?s h1 = Inr (w1, i1, s1)" "wrote (2 ^ e) (val xs) l i1 s1" "val xs div (2 ^ e) ^ (l - i1) = unat w1"
      using pow2_words_wrote [OF e(2,3) msk vl x1 assms(3) w0 x0] by blast
    obtain i s where r: "pow2_rest e msk w1 i1 s1 = Inr (i, s)" "wrote (2 ^ e) (val xs) l i s" "val xs div (2 ^ e) ^ (l - i) = 0"
      using pow2_rest_wrote [OF e(2,3) msk vl p(2,3)] by blast
    have rw: "length s = Suc l" "i \<le> l" "drop i s = fixed_text base (l - i) (val xs) @ [CHR 0x00]" "i < l \<longrightarrow> val xs div base ^ (l - i - 1) \<noteq> 0"
      using r(2) unfolding e(1) [symmetric] by (simp_all add: wrote_def)
    have "val xs < base ^ (l - i)" using r(3) base(1) unfolding e(1) [symmetric] by (simp add: div_eq_0_iff)
    then have t: "fixed_text base (l - i) (val xs) = numeral_text base (val xs)" using rw(4) by (intro fixed_is_numeral [OF base(1)]) auto
    have s0: "s = take i s @ numeral_text base (val xs) @ [CHR 0x00]" using rw(3) t by (metis append_take_drop_id)
    have l0: "length (take i s) = i" "l = i + length (numeral_text base (val xs))" using rw(1,2) t length_fixed_text [of base "l - i" "val xs"] by simp_all
    have neg: "neg \<longrightarrow> 0 < i" using rw(4) vk by (cases i) (auto simp: l_def)
    obtain buf where buf: "bnd (if neg then bnd (put_char s (int i - 1) (CHR ''-'')) (\<lambda>s. Inr (i - 1, s)) else Inr (i, s))
      (\<lambda>(i, s). Inr (Some (move_front s i l), h1)) = Inr (Some buf, h1)" "cstring buf = signed_text neg base (val xs)"
      using sign_text [OF base(2) s0 l0 neg, of h1] by blast
    have m2: "2 ^ e - 1 = msk" by (simp add: msk_def)
    have size: "(if neg then text_size quot n base + 1 else text_size quot n base) = l" by (simp add: l_def k_def)
    have rd: "rd (ndata x) 0 h1 = Inr (xs ! 0)" using rd_seg [of h1 "ndata x" "nlen x" xs 0] x1 len False by (simp add: words_def)
    have "natI2a quot x neg base h = Inr (Some buf, h1)"
      using False base len n(1) h1(1) e(4,5) rd p(1) r(1) buf(1) unfolding natI2a_def Let_def size
      by (simp add: size Let_def W_bits_def UintSize_def m2 del: replicate.simps)
    then show thesis using that [of buf h1] h1(2) buf(2) False by simp
  qed
qed

end
