(* ===== verification/BigIntText.thy ===== *)
theory BigIntText
  imports BigIntOps NatHex
begin




end
