(* ===== verification/RpcBuffer.thy ===== *)
theory RpcBuffer
  imports CPrelude
begin

text \<open>
  The serialisation layer of the RPC library, \<open>cmake/rpc_c/rpc_util.c\<close> and \<open>rpc_c.h\<close>: the growing
  output buffer, the input reader, the encoding of typed arguments and its parser. Bytes are
  8-bit words; numbers are laid out with the low byte first, as the hosts the code runs on do.
  A request for memory may be refused: \<open>astate\<close> counts the requests and says which are.
  The packing of ProtoBuf messages is library code and a parameter.
\<close>

section \<open>Data types\<close>

datatype data_type =
    DT_UNKNOWN | DT_S8 | DT_U8 | DT_S16 | DT_U16 | DT_S32 | DT_U32 | DT_S64 | DT_U64
  | DT_S8P | DT_U8P | DT_S16P | DT_U16P | DT_S32P | DT_U32P | DT_S64P | DT_U64P
  | DT_S8CP | DT_U8CP | DT_S16CP | DT_U16CP | DT_S32CP | DT_U32CP | DT_S64CP | DT_U64CP
  | DT_VP | DT_CVP | DT_PB

text \<open>The enumerators in order; the position is the value.\<close>

definition dt_all :: "data_type list" where
  "dt_all =
     [DT_UNKNOWN, DT_S8, DT_U8, DT_S16, DT_U16, DT_S32, DT_U32, DT_S64, DT_U64,
      DT_S8P, DT_U8P, DT_S16P, DT_U16P, DT_S32P, DT_U32P, DT_S64P, DT_U64P,
      DT_S8CP, DT_U8CP, DT_S16CP, DT_U16CP, DT_S32CP, DT_U32CP, DT_S64CP, DT_U64CP,
      DT_VP, DT_CVP, DT_PB]"

fun index_of :: "'a \<Rightarrow> 'a list \<Rightarrow> nat" where
  "index_of x [] = 0"
| "index_of x (y # ys) = (if x = y then 0 else Suc (index_of x ys))"

definition dt_num :: "data_type \<Rightarrow> nat" where
  "dt_num dt = index_of dt dt_all"

definition dt_of :: "nat \<Rightarrow> data_type option" where
  "dt_of n = (if n < length dt_all then Some (dt_all ! n) else None)"

text \<open>The string types and the sizes of the integer types.\<close>

definition is_str :: "data_type \<Rightarrow> bool" where
  "is_str dt \<longleftrightarrow> dt \<in> {DT_S8P, DT_U8P, DT_S8CP, DT_U8CP}"

fun int_size :: "data_type \<Rightarrow> nat" where
  "int_size DT_S8 = 1" | "int_size DT_U8 = 1"
| "int_size DT_S16 = 2" | "int_size DT_U16 = 2"
| "int_size DT_S32 = 4" | "int_size DT_U32 = 4"
| "int_size DT_S64 = 8" | "int_size DT_U64 = 8"
| "int_size _ = 0"

section \<open>Bytes of numbers\<close>

text \<open>The \<open>n\<close> low bytes of a number, low byte first, and the number of a byte string.\<close>

fun to_bytes :: "nat \<Rightarrow> nat \<Rightarrow> u8 list" where
  "to_bytes 0 v = []"
| "to_bytes (Suc n) v = word_of_nat v # to_bytes n (v div 256)"

fun of_bytes :: "u8 list \<Rightarrow> nat" where
  "of_bytes [] = 0"
| "of_bytes (b # bs) = unat b + 256 * of_bytes bs"

section \<open>The output buffer\<close>

record buffer =
  bdata :: "u8 list"
  bcap :: nat
  blen :: nat

definition buffer_new :: "nat \<Rightarrow> astate \<Rightarrow> buffer option \<times> astate" where
  "buffer_new initial_cap a =
     (let (ok, a) = amalloc a
      in if \<not> ok then (None, a)
         else let (ok, a) = amalloc a
              in if \<not> ok then (None, a)
                 else (Some \<lparr>bdata = replicate initial_cap 0, bcap = initial_cap, blen = 0\<rparr>, a))"

text \<open>\<open>put_at\<close> is \<open>memcpy\<close> into the array; \<open>grow\<close> is \<open>realloc\<close>, the new bytes being arbitrary (0 here).\<close>

definition put_at :: "u8 list \<Rightarrow> nat \<Rightarrow> u8 list \<Rightarrow> u8 list result" where
  "put_at d i src =
     (if i + length src \<le> length d then Inr (take i d @ src @ drop (i + length src) d) else Inl OutOfBounds)"

definition grow :: "u8 list \<Rightarrow> nat \<Rightarrow> u8 list" where
  "grow d n = take n d @ replicate (n - length d) 0"

definition buffer_append :: "buffer \<Rightarrow> u8 list \<Rightarrow> astate \<Rightarrow> (int \<times> buffer \<times> astate) result" where
  "buffer_append buf src a =
     (let n = length src;
          (ok, buf, a) =
            (if bcap buf < blen buf + n
             then let new_cap = bcap buf * 2;
                      new_cap = (if new_cap < blen buf + n then blen buf + n else new_cap);
                      (ok, a) = amalloc a
                  in if ok then (True, buf\<lparr>bdata := grow (bdata buf) new_cap, bcap := new_cap\<rparr>, a)
                     else (False, buf, a)
             else (True, buf, a))
      in if \<not> ok then Inr (-1, buf, a)
         else bnd (put_at (bdata buf) (blen buf) src) (\<lambda>d.
              Inr (0, buf\<lparr>bdata := d, blen := blen buf + n\<rparr>, a)))"

definition buffer_append_U32 :: "buffer \<Rightarrow> u32 \<Rightarrow> astate \<Rightarrow> (int \<times> buffer \<times> astate) result" where
  "buffer_append_U32 buf v a = buffer_append buf (to_bytes 4 (unat v)) a"

definition buffer_append_U8 :: "buffer \<Rightarrow> u8 \<Rightarrow> astate \<Rightarrow> (int \<times> buffer \<times> astate) result" where
  "buffer_append_U8 buf v a = buffer_append buf [v] a"

definition buffer_append_string :: "buffer \<Rightarrow> u8 list \<Rightarrow> astate \<Rightarrow> (int \<times> buffer \<times> astate) result" where
  "buffer_append_string buf str a =
     bnd (buffer_append_U32 buf (word_of_nat (length str)) a) (\<lambda>(r, buf, a).
     if r < 0 then Inr (-1, buf, a) else buffer_append buf str a)"

text \<open>
  A value to be sent: the bytes of an integer object, a C string (without its terminator), or a
  ProtoBuf message.
\<close>

datatype 'm arg = AInt u64 | AStr "u8 list" | APb 'm

definition buffer_append_dt ::
  "('m \<Rightarrow> u8 list) \<Rightarrow> buffer \<Rightarrow> data_type \<Rightarrow> 'm arg \<Rightarrow> astate \<Rightarrow> (int \<times> buffer \<times> astate) result" where
  "buffer_append_dt pack buf dt src a =
     (case src of
        AStr str \<Rightarrow>
          if is_str dt
          then let len = length str mod 65536
               in bnd (buffer_append buf (to_bytes 2 len) a) (\<lambda>(ret, buf, a).
                  if ret \<noteq> 0 then Inr (ret, buf, a) else buffer_append buf (take len str) a)
          else Inl AssertFail
      | AInt v \<Rightarrow>
          if 0 < int_size dt then buffer_append buf (to_bytes (int_size dt) (unat v)) a
          else Inl AssertFail
      | APb pb \<Rightarrow>
          if dt = DT_PB
          then let (ok, a) = amalloc a; out = pack pb; res = length out
               in if \<not> ok then Inr (-2, buf, a)
                  else bnd (buffer_append buf (to_bytes 2 res) a) (\<lambda>(ret, buf, a).
                       if ret \<noteq> 0 then Inr (ret, buf, a) else buffer_append buf out a)
          else Inl AssertFail)"

section \<open>Building messages\<close>

text \<open>
  The macros ignore the return codes. An argument is paired with the type \<open>GET_TYPE\<close> selects for it.
\<close>

definition BUFFER_PUSH_ARG ::
  "('m \<Rightarrow> u8 list) \<Rightarrow> data_type \<times> 'm arg \<Rightarrow> buffer \<Rightarrow> astate \<Rightarrow> (buffer \<times> astate) result" where
  "BUFFER_PUSH_ARG pack x buf a =
     bnd (buffer_append buf [word_of_nat (dt_num (fst x))] a) (\<lambda>(_, buf, a).
     bnd (buffer_append_dt pack buf (fst x) (snd x) a) (\<lambda>(_, buf, a). Inr (buf, a)))"

fun APPLY :: "('x \<Rightarrow> buffer \<Rightarrow> astate \<Rightarrow> (buffer \<times> astate) result) \<Rightarrow> 'x list \<Rightarrow> buffer \<Rightarrow> astate \<Rightarrow> (buffer \<times> astate) result" where
  "APPLY m [] buf a = Inr (buf, a)"
| "APPLY m (x # xs) buf a = bnd (m x buf a) (\<lambda>(buf, a). APPLY m xs buf a)"

definition BUFFER_PUSH_ARGS ::
  "('m \<Rightarrow> u8 list) \<Rightarrow> (data_type \<times> 'm arg) list \<Rightarrow> buffer \<Rightarrow> astate \<Rightarrow> (buffer \<times> astate) result" where
  "BUFFER_PUSH_ARGS pack args buf a =
     bnd (buffer_append_U8 buf (word_of_nat (length args)) a) (\<lambda>(_, buf, a).
     APPLY (BUFFER_PUSH_ARG pack) args buf a)"

definition RPC_MAKE_REQ ::
  "('m \<Rightarrow> u8 list) \<Rightarrow> u8 list \<Rightarrow> (data_type \<times> 'm arg) list \<Rightarrow> astate \<Rightarrow> (buffer \<times> astate) result" where
  "RPC_MAKE_REQ pack func args a =
     (case buffer_new 1024 a of
        (None, a) \<Rightarrow> Inl NullDeref
      | (Some buf, a) \<Rightarrow>
          let size = length func mod 65536
          in bnd (buffer_append buf (to_bytes 2 size) a) (\<lambda>(_, buf, a).
             bnd (buffer_append buf (take size func) a) (\<lambda>(_, buf, a).
             BUFFER_PUSH_ARGS pack args buf a)))"

datatype rpc_result = RPC_OK | RPC_ERR

fun res_num :: "rpc_result \<Rightarrow> nat" where
  "res_num RPC_OK = 0" | "res_num RPC_ERR = 1"

definition RPC_MAKE_RSP ::
  "('m \<Rightarrow> u8 list) \<Rightarrow> rpc_result \<Rightarrow> (data_type \<times> 'm arg) list \<Rightarrow> buffer \<Rightarrow> astate \<Rightarrow> (buffer \<times> astate) result" where
  "RPC_MAKE_RSP pack res args buf a =
     bnd (buffer_append_U8 buf (word_of_nat (res_num res)) a) (\<lambda>(_, buf, a).
     BUFFER_PUSH_ARGS pack args buf a)"

section \<open>The reader\<close>

record reader =
  rdata :: "u8 list"
  rlen :: nat
  rpos :: nat

definition reader_init :: "u8 list \<Rightarrow> nat \<Rightarrow> reader" where
  "reader_init data len = \<lparr>rdata = data, rlen = len, rpos = 0\<rparr>"

text \<open>A successful read returns the bytes; a failed one leaves the reader as it was.\<close>

definition reader_read_bytes :: "reader \<Rightarrow> nat \<Rightarrow> (u8 list option \<times> reader) result" where
  "reader_read_bytes r n =
     (if rlen r < rpos r + n then Inr (None, r)
      else if length (rdata r) < rpos r + n then Inl OutOfBounds
      else Inr (Some (take n (drop (rpos r) (rdata r))), r\<lparr>rpos := rpos r + n\<rparr>))"

definition reader_read_uint32 :: "reader \<Rightarrow> (nat option \<times> reader) result" where
  "reader_read_uint32 r =
     (if rlen r < rpos r + 4 then Inr (None, r)
      else if length (rdata r) < rpos r + 4 then Inl OutOfBounds
      else Inr (Some (of_bytes (take 4 (drop (rpos r) (rdata r)))), r\<lparr>rpos := rpos r + 4\<rparr>))"

definition reader_read_uint8 :: "reader \<Rightarrow> (nat option \<times> reader) result" where
  "reader_read_uint8 r =
     (if rlen r < rpos r + 1 then Inr (None, r)
      else if length (rdata r) < rpos r + 1 then Inl OutOfBounds
      else Inr (Some (unat (rdata r ! rpos r)), r\<lparr>rpos := rpos r + 1\<rparr>))"

section \<open>Parsing arguments\<close>

text \<open>
  What the parser hands to the argument handler: the 64-bit variable holding an integer, or the
  buffer of a string or message with its length (the terminating zero byte behind it is implied).
  A handler returns 0 to go on, and the user data it has updated; it may allocate.
\<close>

datatype hval = VInt u64 | VBuf "u8 list"

type_synonym 'u arg_handler = "'u \<Rightarrow> data_type \<Rightarrow> hval \<Rightarrow> nat \<Rightarrow> astate \<Rightarrow> (int \<times> 'u \<times> astate) result"

definition parse_arg :: "'u arg_handler \<Rightarrow> reader \<Rightarrow> 'u \<Rightarrow> astate \<Rightarrow> (int \<times> reader \<times> 'u \<times> astate) result" where
  "parse_arg handler r user_data a =
     bnd (reader_read_bytes r 1) (\<lambda>(db, r).
     case dt_of (case db of None \<Rightarrow> 0 | Some bs \<Rightarrow> of_bytes bs) of
       None \<Rightarrow> Inr (1, r, user_data, a)
     | Some dt \<Rightarrow>
         let len = int_size dt
         in if 0 < len
            then bnd (reader_read_bytes r len) (\<lambda>(vb, r).
                 case vb of None \<Rightarrow> Inr (1, r, user_data, a)
                 | Some bs \<Rightarrow>
                     bnd (handler user_data dt (VInt (word_of_nat (of_bytes bs))) len a) (\<lambda>(c, user_data, a).
                     Inr (if c \<noteq> 0 then 1 else 0, r, user_data, a)))
            else if dt = DT_PB \<or> is_str dt
            then bnd (reader_read_bytes r 2) (\<lambda>(lb, r).
                 case lb of None \<Rightarrow> Inr (1, r, user_data, a)
                 | Some lb \<Rightarrow>
                     let len = of_bytes lb; (ok, a) = amalloc a
                     in bnd (reader_read_bytes r len) (\<lambda>(vb, r).
                        case vb of None \<Rightarrow> Inr (1, r, user_data, a)
                        | Some bs \<Rightarrow>
                            if \<not> ok then Inl NullDeref
                            else bnd (handler user_data dt (VBuf bs) len a) (\<lambda>(c, user_data, a).
                                 Inr (if c \<noteq> 0 then 1 else 0, r, user_data, a))))
            else Inr (1, r, user_data, a))"

fun parse_args_loop ::
  "'u arg_handler \<Rightarrow> nat \<Rightarrow> nat \<Rightarrow> reader \<Rightarrow> 'u \<Rightarrow> astate \<Rightarrow> (int \<times> reader \<times> 'u \<times> astate) result" where
  "parse_args_loop handler i 0 r user_data a = Inr (0, r, user_data, a)"
| "parse_args_loop handler i (Suc n) r user_data a =
     bnd (parse_arg handler r user_data a) (\<lambda>(c, r, user_data, a).
     if c \<noteq> 0 then Inr (int i + 1, r, user_data, a)
     else parse_args_loop handler (Suc i) n r user_data a)"

definition rpc_parse_req_args ::
  "'u arg_handler \<Rightarrow> reader \<Rightarrow> 'u \<Rightarrow> astate \<Rightarrow> (int \<times> reader \<times> 'u \<times> astate) result" where
  "rpc_parse_req_args handler r user_data a =
     bnd (reader_read_bytes r 1) (\<lambda>(nb, r).
     parse_args_loop handler 0 (case nb of None \<Rightarrow> 0 | Some bs \<Rightarrow> of_bytes bs) r user_data a)"

section \<open>Bytes of numbers: laws\<close>

lemma length_to_bytes [simp]: "length (to_bytes n v) = n"
  by (induction n arbitrary: v) auto

lemma of_bytes_to_bytes: "of_bytes (to_bytes n v) = v mod 256 ^ n"
proof (induction n arbitrary: v)
  case (Suc n)
  have "unat (word_of_nat v :: u8) = v mod 256" by (simp add: unat_of_nat)
  then show ?case by (simp add: Suc mod_mult2_eq)
qed simp

lemma of_bytes_bound: "of_bytes bs < 256 ^ length bs"
proof (induction bs)
  case (Cons b bs)
  have "unat b < 256" using unsigned_less [of b, where 'a = nat] by simp
  then have "of_bytes bs * 256 + unat b < 256 ^ length bs * 256" using Cons.IH by (intro two_digit_less)
  then show ?case by (simp add: mult.commute add.commute)
qed simp

lemma dt_num_of [simp]: "dt_of (dt_num dt) = Some dt"
  by (cases dt) (simp_all add: dt_of_def dt_num_def dt_all_def)

lemma dt_num_less: "dt_num dt < 28"
  by (cases dt) (simp_all add: dt_num_def dt_all_def)

lemma dt_of_num: "dt_of n = Some dt \<Longrightarrow> dt_num dt = n"
proof -
  have "\<forall>k \<in> set [0..<28]. dt_num (dt_all ! k) = k" by (simp add: dt_num_def dt_all_def upt_rec)
  moreover assume "dt_of n = Some dt"
  ultimately show ?thesis by (auto simp: dt_of_def dt_all_def split: if_splits)
qed

text \<open>The order of the enumeration.\<close>

instantiation data_type :: linorder
begin

definition less_eq_data_type :: "data_type \<Rightarrow> data_type \<Rightarrow> bool" where
  "less_eq_data_type x y \<longleftrightarrow> dt_num x \<le> dt_num y"

definition less_data_type :: "data_type \<Rightarrow> data_type \<Rightarrow> bool" where
  "less_data_type x y \<longleftrightarrow> dt_num x < dt_num y"

instance
proof
  fix x y :: data_type
  assume "x \<le> y" "y \<le> x"
  then have "dt_num x = dt_num y" by (simp add: less_eq_data_type_def)
  then show "x = y" by (metis dt_num_of option.inject)
qed (auto simp: less_eq_data_type_def less_data_type_def)

end

section \<open>The buffer as a byte string\<close>

definition buf_ok :: "buffer \<Rightarrow> bool" where
  "buf_ok buf \<longleftrightarrow> length (bdata buf) = bcap buf \<and> blen buf \<le> bcap buf"

definition contents :: "buffer \<Rightarrow> u8 list" where
  "contents buf = take (blen buf) (bdata buf)"

lemma buffer_new_ok:
  assumes "granted a"
  obtains buf a' where "buffer_new n a = (Some buf, a')" and "buf_ok buf" and "contents buf = []" and "granted a'"
  using assms by (auto simp: buffer_new_def amalloc_granted buf_ok_def contents_def)

text \<open>
  The contract of every operation that writes to a buffer: if memory is granted, it succeeds, keeps
  the buffer well-formed and appends a fixed byte string.
\<close>

locale appender =
  fixes f :: "buffer \<Rightarrow> astate \<Rightarrow> (buffer \<times> astate) result" and bs :: "u8 list"
  assumes appends: "buf_ok buf \<Longrightarrow> granted a \<Longrightarrow>
    \<exists>buf' a'. f buf a = Inr (buf', a') \<and> buf_ok buf' \<and> contents buf' = contents buf @ bs \<and> granted a'"
begin

lemma then_appends:
  assumes "appender g cs"
  shows "appender (\<lambda>buf a. bnd (f buf a) (\<lambda>(buf, a). g buf a)) (bs @ cs)"
proof
  fix buf a assume "buf_ok buf" "granted a"
  from appends [OF this] obtain b1 a1 where 1: "f buf a = Inr (b1, a1)" "buf_ok b1" "contents b1 = contents buf @ bs" "granted a1"
    by blast
  from appender.appends [OF assms 1(2,4)] 1 show "\<exists>buf' a'. bnd (f buf a) (\<lambda>(buf, a). g buf a) = Inr (buf', a') \<and>
      buf_ok buf' \<and> contents buf' = contents buf @ bs @ cs \<and> granted a'" by auto
qed

lemma length_grows:
  assumes "buf_ok buf" and "granted a" and "f buf a = Inr (buf', a')"
  shows "blen buf' = blen buf + length bs"
proof -
  from appends [OF assms(1,2)] assms(3) have "buf_ok buf'" "contents buf' = contents buf @ bs" by auto
  then have "length (contents buf') = length (contents buf) + length bs" by simp
  then show ?thesis using assms(1) \<open>buf_ok buf'\<close> by (simp add: contents_def buf_ok_def)
qed

end

text \<open>The same contract for the functions that return a code as well.\<close>

definition drop_code :: "(int \<times> buffer \<times> astate) result \<Rightarrow> (buffer \<times> astate) result" where
  "drop_code r = bnd r (\<lambda>(_, buf, a). Inr (buf, a))"

lemma buffer_append_ok:
  assumes "buf_ok buf" and "granted a"
  obtains buf' a' where "buffer_append buf src a = Inr (0, buf', a')" and "buf_ok buf'"
    and "contents buf' = contents buf @ src" and "granted a'"
proof -
  define cap where "cap = (if bcap buf * 2 < blen buf + length src then blen buf + length src else bcap buf * 2)"
  define d where "d = (if bcap buf < blen buf + length src then grow (bdata buf) cap else bdata buf)"
  define c where "c = (if bcap buf < blen buf + length src then cap else bcap buf)"
  have len: "length d = c" "blen buf + length src \<le> c" and pre: "take (blen buf) d = contents buf"
    using assms(1) by (auto simp: d_def c_def cap_def grow_def buf_ok_def contents_def min_def)
  let ?buf = "\<lparr>bdata = take (blen buf) d @ src @ drop (blen buf + length src) d, bcap = c, blen = blen buf + length src\<rparr>"
  have eq: "buf\<lparr>bdata := x, bcap := y, blen := z\<rparr> = \<lparr>bdata = x, bcap = y, blen = z\<rparr>"
    "buf\<lparr>bdata := x, blen := z\<rparr> = \<lparr>bdata = x, bcap = bcap buf, blen = z\<rparr>" for x y z by (cases buf; simp)+
  have "\<exists>a'. buffer_append buf src a = Inr (0, ?buf, a') \<and> granted a'"
    using len assms(2) unfolding buffer_append_def Let_def
    by (cases "bcap buf < blen buf + length src")
      (simp_all add: amalloc_granted put_at_def d_def c_def cap_def [symmetric] eq)
  moreover have "buf_ok ?buf" "contents ?buf = contents buf @ src"
    using len pre assms(1) by (auto simp: buf_ok_def contents_def)
  ultimately show thesis using that by blast
qed

interpretation raw: appender "\<lambda>buf a. drop_code (buffer_append buf src a)" src for src
proof
  fix buf a assume "buf_ok buf" "granted a"
  then obtain buf' a' where "buffer_append buf src a = Inr (0, buf', a')" "buf_ok buf'"
    "contents buf' = contents buf @ src" "granted a'" by (rule buffer_append_ok)
  then show "\<exists>buf' a'. drop_code (buffer_append buf src a) = Inr (buf', a') \<and> buf_ok buf' \<and>
      contents buf' = contents buf @ src \<and> granted a'" by (auto simp: drop_code_def)
qed

section \<open>The encoding\<close>

text \<open>Arguments the macros can build, with lengths that fit the 16-bit length field.\<close>

fun arg_ok :: "('m \<Rightarrow> u8 list) \<Rightarrow> data_type \<times> 'm arg \<Rightarrow> bool" where
  "arg_ok pack (dt, AInt v) \<longleftrightarrow> 0 < int_size dt"
| "arg_ok pack (dt, AStr s) \<longleftrightarrow> is_str dt \<and> length s < 65536"
| "arg_ok pack (dt, APb m) \<longleftrightarrow> dt = DT_PB \<and> length (pack m) < 65536"

fun enc_value :: "('m \<Rightarrow> u8 list) \<Rightarrow> data_type \<times> 'm arg \<Rightarrow> u8 list" where
  "enc_value pack (dt, AInt v) = to_bytes (int_size dt) (unat v)"
| "enc_value pack (dt, AStr s) = to_bytes 2 (length s) @ s"
| "enc_value pack (dt, APb m) = to_bytes 2 (length (pack m)) @ pack m"

definition enc_arg :: "('m \<Rightarrow> u8 list) \<Rightarrow> data_type \<times> 'm arg \<Rightarrow> u8 list" where
  "enc_arg pack x = word_of_nat (dt_num (fst x)) # enc_value pack x"

definition enc_args :: "('m \<Rightarrow> u8 list) \<Rightarrow> (data_type \<times> 'm arg) list \<Rightarrow> u8 list" where
  "enc_args pack xs = word_of_nat (length xs) # concat (map (enc_arg pack) xs)"

lemma appender_dt:
  assumes "arg_ok pack (dt, x)"
  shows "appender (\<lambda>buf a. drop_code (buffer_append_dt pack buf dt x a)) (enc_value pack (dt, x))"
proof
  fix buf a assume b: "buf_ok buf" "granted a"
  show "\<exists>buf' a'. drop_code (buffer_append_dt pack buf dt x a) = Inr (buf', a') \<and> buf_ok buf' \<and>
      contents buf' = contents buf @ enc_value pack (dt, x) \<and> granted a'"
  proof (cases x)
    case (AInt v)
    then show ?thesis
      using raw.appends [OF b, of "to_bytes (int_size dt) (unat v)"] assms by (simp add: buffer_append_dt_def)
  next
    case (AStr s)
    from b obtain b1 a1 where 1: "buffer_append buf (to_bytes 2 (length s)) a = Inr (0, b1, a1)" "buf_ok b1"
      "contents b1 = contents buf @ to_bytes 2 (length s)" "granted a1" by (rule buffer_append_ok)
    from raw.appends [OF 1(2,4), of s] AStr assms 1 show ?thesis by (simp add: buffer_append_dt_def)
  next
    case (APb m)
    have "granted (a\<lparr>acount := Suc (acount a)\<rparr>)" using b by simp
    with b(1) obtain b1 a1 where
      1: "buffer_append buf (to_bytes 2 (length (pack m))) (a\<lparr>acount := Suc (acount a)\<rparr>) = Inr (0, b1, a1)" "buf_ok b1"
      "contents b1 = contents buf @ to_bytes 2 (length (pack m))" "granted a1" by (rule buffer_append_ok)
    from raw.appends [OF 1(2,4), of "pack m"] APb assms 1 b show ?thesis
      by (simp add: buffer_append_dt_def amalloc_granted)
  qed
qed

lemma bnd_drop_code:
  "bnd r (\<lambda>(_, buf, a). k buf a) = bnd (drop_code r) (\<lambda>(buf, a). k buf a)"
  by (cases r) (auto simp: drop_code_def)

lemma appender_push_arg:
  assumes "arg_ok pack x"
  shows "appender (BUFFER_PUSH_ARG pack x) (enc_arg pack x)"
proof -
  obtain dt v where x: "x = (dt, v)" by fastforce
  have "BUFFER_PUSH_ARG pack x = (\<lambda>buf a. bnd (drop_code (buffer_append buf [word_of_nat (dt_num dt)] a))
      (\<lambda>(buf, a). drop_code (buffer_append_dt pack buf dt v a)))"
    by (intro ext) (simp add: BUFFER_PUSH_ARG_def x bnd_drop_code drop_code_def [of "buffer_append_dt _ _ _ _ _"])
  moreover have "enc_arg pack x = [word_of_nat (dt_num dt)] @ enc_value pack (dt, v)" by (simp add: enc_arg_def x)
  ultimately show ?thesis using raw.then_appends [OF appender_dt [OF assms [unfolded x]], where src = "[word_of_nat (dt_num dt)]"] by simp
qed

lemma appender_apply:
  "\<forall>x \<in> set xs. appender (m x) (e x) \<Longrightarrow> appender (APPLY m xs) (concat (map e xs))"
proof (induction xs)
  case Nil
  then show ?case by unfold_locales simp
next
  case (Cons x xs)
  have "APPLY m (x # xs) = (\<lambda>buf a. bnd (m x buf a) (\<lambda>(buf, a). APPLY m xs buf a))" by (intro ext) simp
  with appender.then_appends [of "m x" "e x" "APPLY m xs"] Cons show ?case by simp
qed

lemma appender_push_args:
  assumes "\<forall>x \<in> set xs. arg_ok pack x"
  shows "appender (BUFFER_PUSH_ARGS pack xs) (enc_args pack xs)"
proof -
  have eq: "BUFFER_PUSH_ARGS pack xs = (\<lambda>buf a. bnd (drop_code (buffer_append buf [word_of_nat (length xs)] a))
      (\<lambda>(buf, a). APPLY (BUFFER_PUSH_ARG pack) xs buf a))"
    by (intro ext) (simp add: BUFFER_PUSH_ARGS_def buffer_append_U8_def bnd_drop_code)
  have "appender (APPLY (BUFFER_PUSH_ARG pack) xs) (concat (map (enc_arg pack) xs))"
    using assms appender_push_arg by (intro appender_apply) auto
  from raw.then_appends [OF this, where src = "[word_of_nat (length xs)]"]  show ?thesis
    by (simp add: enc_args_def eq)
qed

lemma appender_make_rsp:
  assumes "\<forall>x \<in> set xs. arg_ok pack x"
  shows "appender (RPC_MAKE_RSP pack res xs) (word_of_nat (res_num res) # enc_args pack xs)"
proof -
  have "RPC_MAKE_RSP pack res xs = (\<lambda>buf a. bnd (drop_code (buffer_append buf [word_of_nat (res_num res)] a))
      (\<lambda>(buf, a). BUFFER_PUSH_ARGS pack xs buf a))"
    by (intro ext) (simp add: RPC_MAKE_RSP_def buffer_append_U8_def bnd_drop_code)
  then show ?thesis using raw.then_appends [OF appender_push_args [OF assms], where src = "[word_of_nat (res_num res)]"] by simp
qed

definition enc_req :: "('m \<Rightarrow> u8 list) \<Rightarrow> u8 list \<Rightarrow> (data_type \<times> 'm arg) list \<Rightarrow> u8 list" where
  "enc_req pack func xs = to_bytes 2 (length func) @ func @ enc_args pack xs"

lemma make_req_ok:
  assumes "granted a" and "length func < 65536" and "\<forall>x \<in> set xs. arg_ok pack x"
  obtains buf a' where "RPC_MAKE_REQ pack func xs a = Inr (buf, a')" and "buf_ok buf"
    and "contents buf = enc_req pack func xs" and "granted a'"
proof -
  obtain b0 a0 where 0: "buffer_new 1024 a = (Some b0, a0)" "buf_ok b0" "contents b0 = []" "granted a0"
    by (rule buffer_new_ok [OF assms(1)])
  let ?f = "\<lambda>buf a. bnd (drop_code (buffer_append buf (to_bytes 2 (length func)) a)) (\<lambda>(buf, a).
      bnd (drop_code (buffer_append buf func a)) (\<lambda>(buf, a). BUFFER_PUSH_ARGS pack xs buf a))"
  have app: "appender ?f (enc_req pack func xs)"
    unfolding enc_req_def by (intro raw.then_appends appender_push_args assms(3))
  have "RPC_MAKE_REQ pack func xs a = ?f b0 a0"
    using 0 assms(2) by (simp add: RPC_MAKE_REQ_def bnd_drop_code)
  with appender.appends [OF app 0(2,4)] 0(3) show thesis using that by auto
qed

section \<open>The reader as a byte string\<close>

definition reader_ok :: "reader \<Rightarrow> bool" where
  "reader_ok r \<longleftrightarrow> rlen r \<le> length (rdata r) \<and> rpos r \<le> rlen r"

definition rest :: "reader \<Rightarrow> u8 list" where
  "rest r = drop (rpos r) (take (rlen r) (rdata r))"

lemma read_bytes_eof:
  "reader_ok r \<Longrightarrow> length (rest r) < n \<Longrightarrow> reader_read_bytes r n = Inr (None, r)"
  by (auto simp: reader_read_bytes_def reader_ok_def rest_def)

lemma read_bytes_ok:
  assumes "reader_ok r" and "n \<le> length (rest r)"
  shows "reader_read_bytes r n = Inr (Some (take n (rest r)), r\<lparr>rpos := rpos r + n\<rparr>)"
    and "reader_ok (r\<lparr>rpos := rpos r + n\<rparr>)" and "rest (r\<lparr>rpos := rpos r + n\<rparr>) = drop n (rest r)"
proof -
  have n: "rpos r + n \<le> rlen r" "rlen r \<le> length (rdata r)" using assms by (auto simp: reader_ok_def rest_def)
  have "take n (rest r) = take n (drop (rpos r) (rdata r))" using n by (simp add: rest_def drop_take)
  with n show "reader_read_bytes r n = Inr (Some (take n (rest r)), r\<lparr>rpos := rpos r + n\<rparr>)"
    by (simp add: reader_read_bytes_def)
  show "reader_ok (r\<lparr>rpos := rpos r + n\<rparr>)" using n by (simp add: reader_ok_def)
  show "rest (r\<lparr>rpos := rpos r + n\<rparr>) = drop n (rest r)"
    unfolding rest_def by (simp add: add.commute)
qed

lemma read_bytes_app:
  assumes "reader_ok r" and "rest r = bs @ cs" and "length bs = n"
  obtains r' where "reader_read_bytes r n = Inr (Some bs, r')" and "reader_ok r'" and "rest r' = cs"
proof -
  have "n \<le> length (rest r)" using assms by simp
  from read_bytes_ok [OF assms(1) this] show thesis using assms that by simp
qed

text \<open>Every read, whatever it is asked for, is safe and keeps the reader well-formed.\<close>

lemma read_bytes_cases:
  assumes "reader_ok r"
  obtains "reader_read_bytes r n = Inr (None, r)" | bs r' where "reader_read_bytes r n = Inr (Some bs, r')"
    and "reader_ok r'" and "length bs = n" and "length (rest r) = n + length (rest r')"
proof (cases "n \<le> length (rest r)")
  case True
  note r = read_bytes_ok [OF assms True]
  show thesis by (rule that(2) [OF r(1,2)]) (use True r(3) in simp_all)
next
  case False
  then show thesis using read_bytes_eof [OF assms] that(1) by simp
qed

section \<open>Parsing what was encoded\<close>

text \<open>What the handler sees of an argument, and the effect of handling a list of arguments.\<close>

fun seen :: "('m \<Rightarrow> u8 list) \<Rightarrow> data_type \<times> 'm arg \<Rightarrow> hval \<times> nat" where
  "seen pack (dt, AInt v) = (VInt (word_of_nat (unat v mod 256 ^ int_size dt)), int_size dt)"
| "seen pack (dt, AStr s) = (VBuf s, length s)"
| "seen pack (dt, APb m) = (VBuf (pack m), length (pack m))"

fun takes :: "data_type \<times> 'm arg \<Rightarrow> astate \<Rightarrow> astate" where
  "takes (dt, AInt v) a = a"
| "takes (dt, AStr s) a = snd (amalloc a)"
| "takes (dt, APb m) a = snd (amalloc a)"

definition handle_one ::
  "('m \<Rightarrow> u8 list) \<Rightarrow> 'u arg_handler \<Rightarrow> data_type \<times> 'm arg \<Rightarrow> 'u \<Rightarrow> astate \<Rightarrow> (int \<times> 'u \<times> astate) result" where
  "handle_one pack handler x u a = (case seen pack x of (v, l) \<Rightarrow> handler u (fst x) v l (takes x a))"

fun handle_all ::
  "('m \<Rightarrow> u8 list) \<Rightarrow> 'u arg_handler \<Rightarrow> nat \<Rightarrow> (data_type \<times> 'm arg) list \<Rightarrow> 'u \<Rightarrow> astate \<Rightarrow>
   (int \<times> 'u \<times> astate) result" where
  "handle_all pack handler i [] u a = Inr (0, u, a)"
| "handle_all pack handler i (x # xs) u a =
     bnd (handle_one pack handler x u a) (\<lambda>(c, u, a).
     if c \<noteq> 0 then Inr (int i + 1, u, a) else handle_all pack handler (Suc i) xs u a)"

text \<open>A handler that does not make memory requests fail.\<close>

definition keeps_granted :: "'u arg_handler \<Rightarrow> bool" where
  "keeps_granted handler \<longleftrightarrow>
     (\<forall>u dt v l a c u' a'. granted a \<longrightarrow> handler u dt v l a = Inr (c, u', a') \<longrightarrow> granted a')"

lemma keeps_grantedD: "keeps_granted handler \<Longrightarrow> granted a \<Longrightarrow> handler u dt v l a = Inr (c, u', a') \<Longrightarrow> granted a'"
  unfolding keeps_granted_def by blast

lemma granted_takes [simp]: "granted (takes x a) \<longleftrightarrow> granted a"
  by (cases "(x, a)" rule: takes.cases) (auto simp: amalloc_def)

lemma handle_one_granted:
  assumes "keeps_granted handler" and "granted a" and "handle_one pack handler x u a = Inr (c, u', a')"
  shows "granted a'"
proof -
  obtain v l where "seen pack x = (v, l)" by fastforce
  with assms(3) have "handler u (fst x) v l (takes x a) = Inr (c, u', a')" by (simp add: handle_one_def)
  with assms(1,2) show ?thesis by (metis keeps_grantedD granted_takes)
qed

lemma int_size_str: "is_str dt \<Longrightarrow> int_size dt = 0"
  by (auto simp: is_str_def)

lemma parse_arg_enc:
  assumes "reader_ok r" and "rest r = enc_arg pack x @ cs" and "arg_ok pack x" and "granted a"
  obtains r' where "reader_ok r'" and "rest r' = cs"
    and "parse_arg handler r u a =
      bnd (handle_one pack handler x u a) (\<lambda>(c, u, a). Inr (if c \<noteq> 0 then 1 else 0, r', u, a))"
proof -
  obtain dt y where x: "x = (dt, y)" by fastforce
  have "rest r = [word_of_nat (dt_num dt)] @ (enc_value pack x @ cs)" using assms(2) by (simp add: enc_arg_def x)
  then obtain r1 where r1: "reader_read_bytes r 1 = Inr (Some [word_of_nat (dt_num dt)], r1)" "reader_ok r1"
    "rest r1 = enc_value pack x @ cs" by (rule read_bytes_app [OF assms(1), where n = 1]) simp
  have dt: "of_bytes [word_of_nat (dt_num dt)] = dt_num dt" using dt_num_less [of dt] by (simp add: unat_of_nat)
  show thesis
  proof (cases y)
    case (AInt v)
    then have n: "0 < int_size dt" and "rest r1 = to_bytes (int_size dt) (unat v) @ cs" using assms(3) r1 x by auto
    then obtain r2 where r2: "reader_read_bytes r1 (int_size dt) = Inr (Some (to_bytes (int_size dt) (unat v)), r2)"
      "reader_ok r2" "rest r2 = cs" by (elim read_bytes_app [OF r1(2)]) simp
    show thesis
      by (rule that [OF r2(2,3)])
        (use r1 r2 n dt AInt x in \<open>simp add: Let_def parse_arg_def of_bytes_to_bytes split_def handle_one_def\<close>)
  next
    case (AStr s)
    then have s: "is_str dt" "length s < 65536" "rest r1 = to_bytes 2 (length s) @ (s @ cs)" using assms(3) r1 x by auto
    then obtain r2 where r2: "reader_read_bytes r1 2 = Inr (Some (to_bytes 2 (length s)), r2)" "reader_ok r2"
      "rest r2 = s @ cs" by (elim read_bytes_app [OF r1(2)]) simp
    from r2(2,3) obtain r3 where r3: "reader_read_bytes r2 (length s) = Inr (Some s, r3)" "reader_ok r3" "rest r3 = cs"
      by (rule read_bytes_app) simp
    show thesis
      by (rule that [OF r3(2,3)])
        (use r1 r2 r3 s dt AStr x assms(4) in
          \<open>simp add: Let_def parse_arg_def of_bytes_to_bytes split_def int_size_str amalloc_granted handle_one_def\<close>)
  next
    case (APb m)
    then have s: "dt = DT_PB" "length (pack m) < 65536" "rest r1 = to_bytes 2 (length (pack m)) @ (pack m @ cs)"
      using assms(3) r1 x by auto
    then obtain r2 where r2: "reader_read_bytes r1 2 = Inr (Some (to_bytes 2 (length (pack m))), r2)" "reader_ok r2"
      "rest r2 = pack m @ cs" by (elim read_bytes_app [OF r1(2)]) simp
    from r2(2,3) obtain r3 where r3: "reader_read_bytes r2 (length (pack m)) = Inr (Some (pack m), r3)" "reader_ok r3"
      "rest r3 = cs" by (rule read_bytes_app) simp
    show thesis
      by (rule that [OF r3(2,3)])
        (use r1 r2 r3 s dt APb x assms(4) in
          \<open>simp add: Let_def parse_arg_def of_bytes_to_bytes split_def amalloc_granted handle_one_def\<close>)
  qed
qed

lemma parse_args_loop_enc:
  assumes "reader_ok r" and "rest r = concat (map (enc_arg pack) xs) @ cs" and "\<forall>x \<in> set xs. arg_ok pack x" and "granted a"
    and k: "keeps_granted handler"
  shows "bnd (parse_args_loop handler i (length xs) r u a) (\<lambda>(c, r, u, a). Inr (c, u, a)) = handle_all pack handler i xs u a"
  using assms(1-4)
proof (induction xs arbitrary: r i u a)
  case (Cons x xs)
  have "rest r = enc_arg pack x @ (concat (map (enc_arg pack) xs) @ cs)" using Cons.prems by simp
  then obtain r' where r: "reader_ok r'" "rest r' = concat (map (enc_arg pack) xs) @ cs"
    "parse_arg handler r u a =
      bnd (handle_one pack handler x u a) (\<lambda>(c, u, a). Inr (if c \<noteq> 0 then 1 else 0, r', u, a))"
    using Cons.prems by (elim parse_arg_enc [OF Cons.prems(1)]) auto
  show ?case
  proof (cases "handle_one pack handler x u a")
    case (Inr p)
    then obtain c u' a' where p: "handle_one pack handler x u a = Inr (c, u', a')" by (cases p) auto
    note g = handle_one_granted [OF k Cons.prems(4) p]
    show ?thesis using p r Cons.IH [OF r(1,2) _ g] Cons.prems(3) by auto
  qed (use r in auto)
qed simp

lemma parse_req_args_enc:
  assumes "reader_ok r" and "rest r = enc_args pack xs @ cs" and "\<forall>x \<in> set xs. arg_ok pack x"
    and "granted a" and "length xs < 256" and "keeps_granted handler"
  shows "bnd (rpc_parse_req_args handler r u a) (\<lambda>(c, r, u, a). Inr (c, u, a)) = handle_all pack handler 0 xs u a"
proof -
  have "rest r = [word_of_nat (length xs)] @ (concat (map (enc_arg pack) xs) @ cs)"
    using assms(2) by (simp add: enc_args_def)
  then obtain r1 where r1: "reader_read_bytes r 1 = Inr (Some [word_of_nat (length xs)], r1)" "reader_ok r1"
    "rest r1 = concat (map (enc_arg pack) xs) @ cs" by (rule read_bytes_app [OF assms(1), where n = 1]) simp
  moreover have "of_bytes [word_of_nat (length xs)] = length xs" using assms(5) by (simp add: unat_of_nat)
  ultimately show ?thesis using parse_args_loop_enc [OF r1(2,3) assms(3,4,6)] by (simp add: rpc_parse_req_args_def)
qed

section \<open>Safety on arbitrary input\<close>

definition total_handler :: "'u arg_handler \<Rightarrow> bool" where
  "total_handler handler \<longleftrightarrow> (\<forall>u dt v l a. granted a \<longrightarrow> (\<exists>c u' a'. handler u dt v l a = Inr (c, u', a') \<and> granted a'))"

lemma parse_arg_safe:
  assumes "reader_ok r" and "granted a" and "total_handler handler"
  shows "\<exists>c r' u' a'. parse_arg handler r u a = Inr (c, r', u', a') \<and> reader_ok r' \<and> granted a' \<and>
    length (rest r') \<le> length (rest r)"
proof -
  have step: "\<exists>vb r'. reader_read_bytes r n = Inr (vb, r') \<and> reader_ok r' \<and> length (rest r') \<le> length (rest r)"
    if "reader_ok r" for r n by (rule read_bytes_cases [OF that, of n]) (use that in auto)
  have h: "\<exists>c r' u' a'. bnd (handler u dt v l a2) (\<lambda>(c, u, a). Inr (if c \<noteq> (0::int) then 1 else 0 :: int, r2, u, a)) = Inr (c, r', u', a') \<and>
      reader_ok r' \<and> granted a' \<and> length (rest r') \<le> length (rest r)"
    if "reader_ok r2" "granted a2" "length (rest r2) \<le> length (rest r)" for dt v l r2 a2
  proof -
    note a2 = that(2)
    obtain c u' a' where "handler u dt v l a2 = Inr (c, u', a')" "granted a'"
      using assms(3) a2 unfolding total_handler_def by meson
    with that show ?thesis by auto
  qed
  from step [OF assms(1), of 1] obtain db r1 where r1: "reader_read_bytes r 1 = Inr (db, r1)" "reader_ok r1"
    "length (rest r1) \<le> length (rest r)" by blast
  show ?thesis
  proof (cases "dt_of (case db of None \<Rightarrow> 0 | Some bs \<Rightarrow> of_bytes bs)")
    case None
    then show ?thesis using r1 assms(2) by (simp add: parse_arg_def)
  next
    case (Some dt)
    from step [OF r1(2), of "int_size dt"] obtain vb r2 where r2: "reader_read_bytes r1 (int_size dt) = Inr (vb, r2)"
      "reader_ok r2" "length (rest r2) \<le> length (rest r1)" by blast
    from step [OF r1(2), of 2] obtain lb r3 where r3: "reader_read_bytes r1 2 = Inr (lb, r3)"
      "reader_ok r3" "length (rest r3) \<le> length (rest r1)" by blast
    from step [OF r3(2), of "of_bytes (the lb)"] obtain sb r4 where
      r4: "reader_read_bytes r3 (of_bytes (the lb)) = Inr (sb, r4)"
      "reader_ok r4" "length (rest r4) \<le> length (rest r3)" by blast
    have g: "granted (a\<lparr>acount := Suc (acount a)\<rparr>)" using assms(2) by simp
    show ?thesis
      using Some r1 r2 r3 r4 assms(2) g h [OF r2(2) assms(2)] h [OF r4(2) g]
      by (cases vb; cases lb; cases sb) (auto simp: parse_arg_def Let_def amalloc_granted)
  qed
qed

lemma parse_args_loop_safe:
  assumes "reader_ok r" and "granted a" and "total_handler handler"
  shows "\<exists>c r' u' a'. parse_args_loop handler i n r u a = Inr (c, r', u', a') \<and> reader_ok r' \<and> 0 \<le> c \<and> c \<le> int (i + n)"
  using assms(1,2)
proof (induction n arbitrary: i r u a)
  case (Suc n)
  obtain c r' u' a' where p: "parse_arg handler r u a = Inr (c, r', u', a')" "reader_ok r'" "granted a'"
    using parse_arg_safe [OF Suc.prems assms(3)] by blast
  from Suc.IH [OF p(2,3), of "Suc i" u'] show ?case using p by (auto simp: algebra_simps)
qed simp

text \<open>
  C7. A message built from typed arguments is read back exactly. Pushing the arguments
  appends their encoding to the buffer (growing it as needed), and parsing the bytes that were
  appended calls the handler once per argument, in order, with the argument's type and with the value
  the encoding preserves: strings and messages whole, integers as the unsigned number of
  their bytes. The parser stops at the first argument the handler refuses and returns its position.
\<close>

theorem push_parse_roundtrip:
  fixes handler :: "'u arg_handler"
  assumes "buf_ok buf" and "granted a" and "\<forall>x \<in> set xs. arg_ok pack x" and "length xs < 256" and "granted a2"
    and "keeps_granted handler"
  shows "\<exists>buf' a' bs. BUFFER_PUSH_ARGS pack xs buf a = Inr (buf', a') \<and> buf_ok buf' \<and>
    contents buf' = contents buf @ bs \<and>
    bnd (rpc_parse_req_args handler (reader_init bs (length bs)) u a2) (\<lambda>(c, r, u, a). Inr (c, u, a)) =
      handle_all pack handler 0 xs u a2"
proof -
  obtain buf' a' where b: "BUFFER_PUSH_ARGS pack xs buf a = Inr (buf', a')" "buf_ok buf'"
    "contents buf' = contents buf @ enc_args pack xs"
    using appender.appends [OF appender_push_args [OF assms(3)] assms(1,2)] by blast
  let ?bs = "enc_args pack xs"
  have r: "reader_ok (reader_init ?bs (length ?bs))" "rest (reader_init ?bs (length ?bs)) = ?bs @ []"
    by (simp_all add: reader_init_def reader_ok_def rest_def)
  note p = parse_req_args_enc [OF r assms(3) assms(5,4,6), of u]
  show ?thesis by (intro exI conjI) (rule b(1), rule b(2), rule b(3), rule p)
qed

theorem push_parse_roundtrip_witness:
  "\<exists>buf' a' bs. BUFFER_PUSH_ARGS (\<lambda>_ :: unit. []) [(DT_S32, AInt 7), (DT_S8CP, AStr [72, 105])]
      \<lparr>bdata = [0, 0], bcap = 2, blen = 0\<rparr> \<lparr>acount = 0, arefuse = (\<lambda>_. False)\<rparr> = Inr (buf', a') \<and>
    contents buf' = bs \<and>
    bnd (rpc_parse_req_args (\<lambda>u dt v l a. Inr (0, u @ [(dt, v, l)], a)) (reader_init bs (length bs)) []
        \<lparr>acount = 0, arefuse = (\<lambda>_. False)\<rparr>) (\<lambda>(c, r, u, a). Inr (c, u, a)) =
      Inr (0, [(DT_S32, VInt 7, 4), (DT_S8CP, VBuf [72, 105], Suc (Suc 0))], \<lparr>acount = 1, arefuse = (\<lambda>_. False)\<rparr>)"
proof -
  have "buf_ok \<lparr>bdata = [0, 0], bcap = 2, blen = 0\<rparr>" "granted \<lparr>acount = 0, arefuse = (\<lambda>_. False)\<rparr>"
    "contents \<lparr>bdata = [0, 0], bcap = 2, blen = 0\<rparr> = []"
    by (simp_all add: buf_ok_def granted_def contents_def)
  with push_parse_roundtrip [of "\<lparr>bdata = [0, 0], bcap = 2, blen = 0\<rparr>" "\<lparr>acount = 0, arefuse = (\<lambda>_. False)\<rparr>"
      "[(DT_S32, AInt 7), (DT_S8CP, AStr [72, 105])]" "\<lambda>_ :: unit. []" "\<lparr>acount = 0, arefuse = (\<lambda>_. False)\<rparr>"
      "\<lambda>u dt v l a. Inr (0, u @ [(dt, v, l)], a)" "[]"]
  show ?thesis by (simp add: is_str_def keeps_granted_def handle_one_def amalloc_def) blast
qed

text \<open>
  Parsing never leaves the message: on any bytes whatever, with any handler that does not itself
  fail, \<open>rpc_parse_req_args\<close> returns a code between 0 and 255 and a reader that still lies within the
  message.
\<close>

theorem parse_req_args_safe:
  assumes "reader_ok r" and "granted a" and "total_handler handler"
  shows "\<exists>c r' u' a'. rpc_parse_req_args handler r u a = Inr (c, r', u', a') \<and> reader_ok r' \<and> 0 \<le> c \<and> c \<le> 255"
proof -
  obtain nb r1 where r1: "reader_read_bytes r 1 = Inr (nb, r1)" "reader_ok r1" "\<forall>bs. nb = Some bs \<longrightarrow> length bs = 1"
    by (rule read_bytes_cases [OF assms(1), of 1]) (use assms(1) in auto)
  let ?n = "case nb of None \<Rightarrow> 0 | Some bs \<Rightarrow> of_bytes bs"
  have "?n \<le> 255" using r1(3) of_bytes_bound [of "the nb"] by (cases nb) auto
  with parse_args_loop_safe [OF r1(2) assms(2,3), of 0 ?n u] r1(1) show ?thesis
    by (fastforce simp: rpc_parse_req_args_def)
qed

theorem parse_req_args_safe_witness:
  "\<exists>c r' u' a'. rpc_parse_req_args (\<lambda>u dt v l a. Inr (0, Suc u, a)) (reader_init [255, 1, 2, 9, 200, 200] 6) 0
      \<lparr>acount = 0, arefuse = (\<lambda>_. False)\<rparr> = Inr (c, r', u', a') \<and> reader_ok r' \<and> 0 \<le> c \<and> c \<le> 255"
  by (rule parse_req_args_safe) (simp_all add: reader_ok_def reader_init_def granted_def total_handler_def)

end
