(* ===== verification/RpcServer.thy ===== *)
theory RpcServer
  imports RpcBuffer
begin

text \<open>
  The server and the client of the RPC library, \<open>cmake/rpc_c/rpc_server.c\<close>, \<open>rpc_client.c\<close> and
  the receiving half of \<open>rpc_util.c\<close>. A connected socket is the list of chunks the reads will see (a
  read returns at most one chunk, or part of it; no chunk, or an empty one, is the end of the stream
  or an error), the bytes written so far, and the number of bytes the peer still accepts.
\<close>

section \<open>Sockets\<close>

record sock =
  inq :: "u8 list list"
  outb :: "u8 list"
  wroom :: nat
  tmo :: nat
  closed :: bool

definition read_sock :: "nat \<Rightarrow> sock \<Rightarrow> u8 list \<times> sock" where
  "read_sock n s =
     (case inq s of [] \<Rightarrow> ([], s)
      | c # cs \<Rightarrow> (take n c, s\<lparr>inq := (if length c \<le> n then cs else drop n c # cs)\<rparr>))"

text \<open>
  A write takes as many bytes as there is room for; without room it fails, as after a timeout or on
  a broken connection.
\<close>

definition write_sock :: "u8 list \<Rightarrow> sock \<Rightarrow> int \<times> sock" where
  "write_sock bs s =
     (let n = min (length bs) (wroom s)
      in if n = 0 \<and> bs \<noteq> [] then (-1, s)
         else (int n, s\<lparr>outb := outb s @ take n bs, wroom := wroom s - n\<rparr>))"

definition close_sock :: "sock \<Rightarrow> sock" where
  "close_sock s = s\<lparr>closed := True\<rparr>"

definition set_sock_timeout :: "sock \<Rightarrow> nat \<Rightarrow> sock" where
  "set_sock_timeout s second = (if 0 < second then s\<lparr>tmo := second\<rparr> else s)"

definition rpc_set_sock_timeout :: "nat \<Rightarrow> sock \<Rightarrow> sock" where
  "rpc_set_sock_timeout timeout_sec s = set_sock_timeout s timeout_sec"

definition rpc_magic_num :: u32 where
  "rpc_magic_num = 0xceadbeef"

function read_sock_until :: "nat \<Rightarrow> u8 list \<Rightarrow> sock \<Rightarrow> u8 list option \<times> sock" where
  "read_sock_until remain acc s =
     (if remain = 0 then (Some acc, s)
      else case read_sock remain s of (bs, s) \<Rightarrow>
           if bs = [] then (None, s) else read_sock_until (remain - length bs) (acc @ bs) s)"
  by pat_completeness auto
termination
  by (relation "measure (\<lambda>(remain, acc, s). remain)") auto

declare read_sock_until.simps [simp del]

definition rpc_read_u32 :: "sock \<Rightarrow> nat option \<times> sock" where
  "rpc_read_u32 s =
     (case read_sock 4 s of (bs, s) \<Rightarrow> if length bs \<noteq> 4 then (None, s) else (Some (of_bytes bs), s))"

section \<open>The handler table\<close>

definition MAX_HANDLERS :: nat where
  "MAX_HANDLERS = 128"

definition MAX_FUNC_NAME_LEN :: nat where
  "MAX_FUNC_NAME_LEN = 256"

definition MAX_MSG_LEN :: nat where
  "MAX_MSG_LEN = 65536"

text \<open>A C string in a byte array: the bytes before the first zero byte.\<close>

definition cstr :: "u8 list \<Rightarrow> u8 list" where
  "cstr bs = takeWhile (\<lambda>b. b \<noteq> 0) bs"

text \<open>The used entries of the static table; the name is the C string stored by \<open>strncpy\<close>.\<close>

type_synonym 'h registry = "(u8 list \<times> 'h) list"

definition rpc_server_register :: "u8 list \<Rightarrow> 'h \<Rightarrow> 'h registry \<Rightarrow> int \<times> 'h registry" where
  "rpc_server_register name handler reg =
     (if MAX_HANDLERS \<le> length reg then (-1, reg)
      else (0, reg @ [(take (MAX_FUNC_NAME_LEN - 1) (cstr name), handler)]))"

fun find_handler :: "u8 list \<Rightarrow> 'h registry \<Rightarrow> 'h option" where
  "find_handler name [] = None"
| "find_handler name ((n, handler) # reg) = (if n = cstr name then Some handler else find_handler name reg)"

section \<open>Handling a connection\<close>

type_synonym rpc_handler = "reader \<Rightarrow> buffer \<Rightarrow> astate \<Rightarrow> (buffer \<times> astate) result"

definition not_found_text :: "u8 list" where
  "not_found_text = map (\<lambda>c. word_of_nat (of_char c)) ''Function not found''"

text \<open>The reply: the handler's, or the error for an unknown function.\<close>

definition make_reply :: "rpc_handler registry \<Rightarrow> u8 list \<Rightarrow> reader \<Rightarrow> astate \<Rightarrow> (buffer \<times> astate) result" where
  "make_reply reg func_name r a =
     (case buffer_new 256 a of
        (None, a) \<Rightarrow> Inl NullDeref
      | (Some out_buf, a) \<Rightarrow>
          (case find_handler func_name reg of
             None \<Rightarrow>
               bnd (buffer_append_U8 out_buf (word_of_nat (res_num RPC_ERR)) a) (\<lambda>(_, out_buf, a).
               bnd (buffer_append_U32 out_buf (word_of_nat (length not_found_text)) a) (\<lambda>(_, out_buf, a).
               bnd (buffer_append out_buf not_found_text a) (\<lambda>(_, out_buf, a). Inr (out_buf, a))))
           | Some handler \<Rightarrow> handler r out_buf a))"

definition send_reply :: "nat \<Rightarrow> buffer \<Rightarrow> sock \<Rightarrow> sock" where
  "send_reply callSN out_buf s =
     (let (_, s) = write_sock (to_bytes 4 (unat rpc_magic_num)) s;
          (_, s) = write_sock (to_bytes 4 callSN) s;
          (_, s) = write_sock (to_bytes 4 (blen out_buf)) s;
          (_, s) = write_sock (take (blen out_buf) (bdata out_buf)) s
      in s)"

text \<open>
  The name is copied into the array \<open>func_name\<close>, and the zero byte is written behind it; both writes must stay in the array. What the array holds behind the
  zero byte does not matter to a C string.
\<close>

definition store_name :: "u8 list \<Rightarrow> u8 list result" where
  "store_name bs =
     bnd (if length bs \<le> MAX_FUNC_NAME_LEN then Inr bs else Inl OutOfBounds) (\<lambda>func_name.
     if length func_name < MAX_FUNC_NAME_LEN then Inr (func_name @ [0]) else Inl OutOfBounds)"

text \<open>Parsing the function name and calling its handler, from a complete message.\<close>

definition dispatch :: "rpc_handler registry \<Rightarrow> u8 list \<Rightarrow> nat \<Rightarrow> sock \<Rightarrow> astate \<Rightarrow> (sock \<times> astate) result" where
  "dispatch reg msg callSN s a =
     bnd (reader_read_bytes (reader_init msg (length msg)) 2) (\<lambda>(nb, r).
     case nb of None \<Rightarrow> Inr (close_sock s, a)
     | Some nb \<Rightarrow>
         let name_len = of_bytes nb
         in if MAX_FUNC_NAME_LEN \<le> name_len then Inr (close_sock s, a)
            else bnd (reader_read_bytes r name_len) (\<lambda>(bs, r).
                 case bs of None \<Rightarrow> Inr (close_sock s, a)
                 | Some bs \<Rightarrow>
                     bnd (store_name bs) (\<lambda>func_name.
                     bnd (make_reply reg func_name r a) (\<lambda>(out_buf, a).
                     Inr (close_sock (send_reply callSN out_buf s), a)))))"

definition handle_client :: "rpc_handler registry \<Rightarrow> nat \<Rightarrow> sock \<Rightarrow> astate \<Rightarrow> (sock \<times> astate) result" where
  "handle_client reg timeout_sec s a =
     (let s = rpc_set_sock_timeout timeout_sec s;
          (mn, s) = rpc_read_u32 s
      in if mn \<noteq> Some (unat rpc_magic_num) then Inr (close_sock s, a)
         else case rpc_read_u32 s of
           (None, s) \<Rightarrow> Inr (close_sock s, a)
         | (Some callSN, s) \<Rightarrow>
             (case rpc_read_u32 s of
                (None, s) \<Rightarrow> Inr (close_sock s, a)
              | (Some msg_len, s) \<Rightarrow>
                  if msg_len = 0 \<or> MAX_MSG_LEN < msg_len then Inr (close_sock s, a)
                  else let (ok, a) = amalloc a
                       in if \<not> ok then Inr (close_sock s, a)
                          else case read_sock_until msg_len [] s of
                            (None, s) \<Rightarrow> Inr (close_sock s, a)
                          | (Some msg, s) \<Rightarrow> dispatch reg msg callSN s a))"

section \<open>The server loop\<close>

text \<open>
  What \<open>select\<close> and \<open>accept\<close> report in one round, and the signal that ends the loop at its next test.
\<close>

datatype sevent = Connection sock | AcceptFailed | Idle | SelectFailed | Signal

fun server_loop :: "rpc_handler registry \<Rightarrow> nat \<Rightarrow> bool \<Rightarrow> sevent list \<Rightarrow> astate \<Rightarrow> (sock list \<times> astate) result" where
  "server_loop reg t is_running [] a = Inr ([], a)"
| "server_loop reg t is_running (e # es) a =
     (if \<not> is_running then Inr ([], a)
      else case e of
        SelectFailed \<Rightarrow> Inr ([], a)
      | Signal \<Rightarrow> server_loop reg t False es a
      | Connection s \<Rightarrow>
          bnd (handle_client reg t s a) (\<lambda>(s, a).
          bnd (server_loop reg t is_running es a) (\<lambda>(ss, a). Inr (s # ss, a)))
      | _ \<Rightarrow> server_loop reg t is_running es a)"

definition rpc_server_run ::
  "rpc_handler registry \<Rightarrow> nat \<Rightarrow> bool \<Rightarrow> bool \<Rightarrow> bool \<Rightarrow> sevent list \<Rightarrow> astate \<Rightarrow> (sock list \<times> astate) result" where
  "rpc_server_run reg t sok bok lok es a =
     (if \<not> sok \<or> \<not> bok \<or> \<not> lok then Inr ([], a) else server_loop reg t True es a)"

section \<open>The client\<close>

record rpc_object =
  otype :: data_type
  oval :: "hval option"

record rpc_rsp =
  rres :: nat
  rdat :: rpc_object

definition rsp_base_data :: "rpc_object arg_handler" where
  "rsp_base_data bd dt v vlen a =
     (if 0 < int_size dt \<or> is_str dt then Inr (0, \<lparr>otype = dt, oval = Some v\<rparr>, a) else Inr (1, bd, a))"

definition rpc_get_rsp :: "sock \<Rightarrow> rpc_rsp \<Rightarrow> nat \<Rightarrow> astate \<Rightarrow> (int \<times> rpc_rsp \<times> sock \<times> astate) result" where
  "rpc_get_rsp s rsp requireCallSN a =
     (let (mn, s) = rpc_read_u32 s
      in if mn \<noteq> Some (unat rpc_magic_num) then Inr (-1, rsp, s, a)
         else case rpc_read_u32 s of
           (None, s) \<Rightarrow> Inr (-1, rsp, s, a)
         | (Some callSN, s) \<Rightarrow>
             (case rpc_read_u32 s of
                (None, s) \<Rightarrow> Inr (-1, rsp, s, a)
              | (Some resp_len, s) \<Rightarrow>
                  let (ok, a) = amalloc a
                  in if \<not> ok then Inr (-1, rsp, s, a)
                     else case read_sock_until resp_len [] s of
                       (None, s) \<Rightarrow> Inr (-1, rsp, s, a)
                     | (Some bs, s) \<Rightarrow>
                         bnd (reader_read_uint8 (reader_init bs resp_len)) (\<lambda>(rt, r).
                         case rt of None \<Rightarrow> Inr (-1, rsp, s, a)
                         | Some rt \<Rightarrow>
                             let rsp = rsp\<lparr>rres := rt\<rparr>
                             in if requireCallSN = callSN
                                then bnd (rpc_parse_req_args rsp_base_data r (rdat rsp) a) (\<lambda>(ret, _, d, a).
                                     Inr (ret, rsp\<lparr>rdat := d\<rparr>, s, a))
                                else Inr (-1, rsp, s, a))))"

definition rpc_rsp_release :: "rpc_rsp \<Rightarrow> rpc_rsp" where
  "rpc_rsp_release rsp =
     rsp\<lparr>rdat := \<lparr>otype = DT_UNKNOWN, oval = (if is_str (otype (rdat rsp)) then None else oval (rdat rsp))\<rparr>\<rparr>"

text \<open>
  \<open>rpc_call\<close> returns its code, whether it released the request buffer, the response, and the counter
  of calls. The set-up of the connection is given by its outcomes.
\<close>

record call_env =
  socket_ok :: bool
  resolve_ok :: bool
  connect_ok :: bool
  conn :: sock

definition rpc_call ::
  "call_env \<Rightarrow> nat \<Rightarrow> u32 \<Rightarrow> buffer \<Rightarrow> rpc_rsp \<Rightarrow> astate \<Rightarrow>
   (int \<times> bool \<times> rpc_rsp \<times> sock \<times> u32 \<times> astate) result" where
  "rpc_call env timeout_sec callSN buf rsp a =
     (let callSN = callSN + 1; s = conn env
      in if \<not> socket_ok env then Inr (-1, False, rsp, s, callSN, a)
         else if \<not> resolve_ok env \<or> \<not> connect_ok env then Inr (-1, False, rsp, close_sock s, callSN, a)
         else
           let s = rpc_set_sock_timeout timeout_sec s; (n, s) = write_sock (to_bytes 4 (unat rpc_magic_num)) s
           in if n \<noteq> 4 then Inr (-1, True, rsp, close_sock s, callSN, a)
              else let (n, s) = write_sock (to_bytes 4 (unat callSN)) s
              in if n \<noteq> 4 then Inr (-1, True, rsp, close_sock s, callSN, a)
              else let (n, s) = write_sock (to_bytes 4 (blen buf)) s
              in if n \<noteq> 4 then Inr (-1, True, rsp, close_sock s, callSN, a)
              else let (n, s) = write_sock (take (blen buf) (bdata buf)) s
              in if n \<noteq> int (blen buf) then Inr (-1, True, rsp, close_sock s, callSN, a)
              else bnd (rpc_get_rsp s rsp (unat callSN) a) (\<lambda>(ret, rsp, s, a).
                   Inr (ret, True, rsp, close_sock s, callSN, a)))"

section \<open>Reading from a socket\<close>

definition pending :: "sock \<Rightarrow> u8 list" where
  "pending s = concat (inq s)"

lemma read_sock_pending:
  assumes "read_sock n s = (bs, s')"
  shows "pending s = bs @ pending s'" and "length bs \<le> n" and "s' = s\<lparr>inq := inq s'\<rparr>"
    and "[] \<notin> set (inq s) \<Longrightarrow> [] \<notin> set (inq s')" and "[] \<notin> set (inq s) \<Longrightarrow> pending s \<noteq> [] \<Longrightarrow> 0 < n \<Longrightarrow> bs \<noteq> []"
  using assms by (auto simp: read_sock_def pending_def split: list.splits if_splits)

lemma read_sock_until_chunks:
  assumes "[] \<notin> set (inq s)"
  shows "\<exists>s'. s' = s\<lparr>inq := inq s'\<rparr> \<and> read_sock_until n acc s =
    (if n \<le> length (pending s) then (Some (acc @ take n (pending s)), s') else (None, s')) \<and>
    (n \<le> length (pending s) \<longrightarrow> pending s' = drop n (pending s))"
  using assms
proof (induction n acc s rule: read_sock_until.induct)
  case (1 n acc s)
  obtain bs s1 where r: "read_sock n s = (bs, s1)" by fastforce
  note p = read_sock_pending [OF r]
  show ?case
  proof (cases "n = 0 \<or> bs = []")
    case True
    show ?thesis
    proof (cases "n = 0")
      case False
      then have "bs = []" "pending s = []" using True p(5) 1(2) by auto
      then show ?thesis using False r p by (auto simp: read_sock_until.simps [of n] intro!: exI [of _ s1])
    qed (auto simp: read_sock_until.simps [of 0] intro!: exI [of _ s])
  next
    case False
    from 1(1) [OF _ r [symmetric]] False p(4) 1(2) obtain s' where s': "s' = s1\<lparr>inq := inq s'\<rparr>"
      "read_sock_until (n - length bs) (acc @ bs) s1 = (if n - length bs \<le> length (pending s1)
        then (Some ((acc @ bs) @ take (n - length bs) (pending s1)), s') else (None, s'))"
      "n - length bs \<le> length (pending s1) \<longrightarrow> pending s' = drop (n - length bs) (pending s1)" by auto
    have "s' = s\<lparr>inq := inq s'\<rparr>" using s'(1) p(3) by (metis sock.surjective sock.update_convs(1) sock.select_convs(1))
    then show ?thesis using s'(2,3) False r p(1,2)
      by (intro exI [of _ s']) (auto simp: read_sock_until.simps [of n])
  qed
qed

lemma read_u32_first:
  assumes "inq s = c # cs" and "4 \<le> length c"
  shows "rpc_read_u32 s = (Some (of_bytes (take 4 c)), s\<lparr>inq := (if length c \<le> 4 then cs else drop 4 c # cs)\<rparr>)"
  using assms by (simp add: rpc_read_u32_def read_sock_def)

section \<open>The handler table: laws\<close>

text \<open>
  What a table of named handlers promises: registering adds an entry that is found under its name
  unless an earlier one is, and fails without effect when the table is full.
\<close>

locale handler_table =
  fixes register :: "'k \<Rightarrow> 'h \<Rightarrow> 't \<Rightarrow> int \<times> 't" and find :: "'k \<Rightarrow> 't \<Rightarrow> 'h option"
    and count :: "'t \<Rightarrow> nat" and cap :: nat and names :: "'k \<Rightarrow> 'k \<Rightarrow> bool"
  assumes register_full: "cap \<le> count t \<Longrightarrow> register k h t = (-1, t)"
    and register_room: "count t < cap \<Longrightarrow> fst (register k h t) = 0 \<and> count (snd (register k h t)) = Suc (count t)"
    and find_register: "count t < cap \<Longrightarrow> find k' (snd (register k h t)) =
      (case find k' t of Some x \<Rightarrow> Some x | None \<Rightarrow> if names k k' then Some h else None)"
begin

lemma first_wins: "find k' t = Some x \<Longrightarrow> find k' (snd (register k h t)) = Some x"
  using register_full [of t k h] find_register [of t k' k h] by (cases "count t < cap") auto

definition register_all :: "('k \<times> 'h) list \<Rightarrow> 't \<Rightarrow> 't" where
  "register_all es t = fold (\<lambda>(k, h) t. snd (register k h t)) es t"

lemma count_le: "count t \<le> cap \<Longrightarrow> count (register_all es t) \<le> cap"
proof (induction es arbitrary: t)
  case (Cons e es)
  obtain k h where e: "e = (k, h)" by fastforce
  have "count (snd (register k h t)) \<le> cap"
    using Cons.prems register_full [of t k h] register_room [of t k h] by (cases "count t < cap") auto
  from Cons.IH [OF this] show ?case by (simp add: register_all_def e)
qed (simp add: register_all_def)

lemma find_register_all:
  "count t + length es \<le> cap \<Longrightarrow> find k' (register_all es t) =
    (case find k' t of Some x \<Rightarrow> Some x | None \<Rightarrow> map_option snd (List.find (\<lambda>(k, h). names k k') es))"
proof (induction es arbitrary: t)
  case (Cons e es)
  obtain k h where e: "e = (k, h)" by fastforce
  have room: "count t < cap" using Cons.prems by simp
  have "count (snd (register k h t)) + length es \<le> cap" using Cons.prems register_room [OF room] by simp
  from Cons.IH [OF this] find_register [OF room, of k' k h] show ?case
    by (auto simp: register_all_def e split: option.splits)
qed (auto simp: register_all_def split: option.splits)

end

interpretation reg: handler_table rpc_server_register find_handler length MAX_HANDLERS
  "\<lambda>n n'. take (MAX_FUNC_NAME_LEN - 1) (cstr n) = cstr n'"
proof
  fix t :: "'a registry" and k k' :: "u8 list" and h :: 'a
  have app: "find_handler k' (t @ [(n, h)]) =
      (case find_handler k' t of Some x \<Rightarrow> Some x | None \<Rightarrow> if n = cstr k' then Some h else None)" for n
    by (induction t) auto
  assume "length t < MAX_HANDLERS"
  then show "find_handler k' (snd (rpc_server_register k h t)) =
      (case find_handler k' t of Some x \<Rightarrow> Some x
       | None \<Rightarrow> if take (MAX_FUNC_NAME_LEN - 1) (cstr k) = cstr k' then Some h else None)"
    by (simp add: rpc_server_register_def app)
qed (auto simp: rpc_server_register_def)

text \<open>
  The handler table after any sequence of registrations into the empty table: it never holds more
  than 128 entries, and as long as the capacity was not exceeded a lookup finds the handler of the
  first registration whose name, cut to 255 bytes, is the name asked for, and nothing otherwise.
\<close>

theorem find_handler_first:
  "length (fold (\<lambda>(n, h) t. snd (rpc_server_register n h t)) es []) \<le> 128 \<and>
   (length es \<le> 128 \<longrightarrow> find_handler name (fold (\<lambda>(n, h) t. snd (rpc_server_register n h t)) es []) =
      map_option snd (List.find (\<lambda>(n, h). take 255 (cstr n) = cstr name) es))"
  using reg.count_le [of "[]" es] reg.find_register_all [of "[]" es name]
  by (simp_all add: reg.register_all_def MAX_HANDLERS_def MAX_FUNC_NAME_LEN_def)

theorem find_handler_first_witness:
  "find_handler [115] (fold (\<lambda>(n, h) t. snd (rpc_server_register n h t)) [([115], 1), ([116], 2), ([115], 3 :: nat)] []) = Some 1"
  using find_handler_first [of "[([115], 1), ([116], 2), ([115], 3 :: nat)]" "[115]"] by (simp add: cstr_def)

section \<open>Serving a request\<close>

text \<open>
  \<open>serves handler bs reply\<close>: given the argument bytes \<open>bs\<close> and an empty buffer, the handler produces
  the reply.
\<close>

definition serves :: "rpc_handler \<Rightarrow> u8 list \<Rightarrow> u8 list \<Rightarrow> bool" where
  "serves handler bs reply \<longleftrightarrow> (\<forall>r buf a. reader_ok r \<and> rest r = bs \<and> buf_ok buf \<and> contents buf = [] \<and> granted a \<longrightarrow>
     (\<exists>out a'. handler r buf a = Inr (out, a') \<and> buf_ok out \<and> contents out = reply \<and> granted a'))"

definition not_found_reply :: "u8 list" where
  "not_found_reply = 1 # to_bytes 4 (length not_found_text) @ not_found_text"

lemma make_reply_ok:
  assumes "reader_ok r" and "granted a"
    and "case find_handler name reg of None \<Rightarrow> reply = not_found_reply | Some handler \<Rightarrow> serves handler (rest r) reply"
  obtains out a' where "make_reply reg name r a = Inr (out, a')" and "buf_ok out" and "contents out = reply" and "granted a'"
proof -
  obtain b a1 where b: "buffer_new 256 a = (Some b, a1)" "buf_ok b" "contents b = []" "granted a1"
    by (rule buffer_new_ok [OF assms(2)])
  show thesis
  proof (cases "find_handler name reg")
    case (Some handler)
    with assms(1,3) b show thesis using that unfolding serves_def by (fastforce simp: make_reply_def)
  next
    case None
    let ?n = "word_of_nat (length not_found_text) :: u32"
    have n: "unat ?n = length not_found_text" by (simp add: not_found_text_def)
    let ?f = "\<lambda>buf a. bnd (drop_code (buffer_append buf [1] a)) (\<lambda>(buf, a).
      bnd (drop_code (buffer_append buf (to_bytes 4 (length not_found_text)) a)) (\<lambda>(buf, a).
      drop_code (buffer_append buf not_found_text a)))"
    have "appender ?f ([1] @ to_bytes 4 (length not_found_text) @ not_found_text)"
      by (intro raw.then_appends raw.appender_axioms)
    from appender.appends [OF this b(2,4)] obtain out a' where
      o: "?f b a1 = Inr (out, a')" "buf_ok out" "contents out = not_found_reply" "granted a'"
      using b(3) by (auto simp: not_found_reply_def)
    have "make_reply reg name r a = ?f b a1"
      using None b(1) n by (simp add: make_reply_def buffer_append_U8_def buffer_append_U32_def bnd_drop_code drop_code_def [of "buffer_append _ not_found_text _"])
    with o assms(3) None show thesis using that by simp
  qed
qed

lemma write_sock_ok:
  "length bs \<le> wroom s \<Longrightarrow> write_sock bs s = (int (length bs), s\<lparr>outb := outb s @ bs, wroom := wroom s - length bs\<rparr>)"
  by (simp add: write_sock_def Let_def)

definition frame :: "nat \<Rightarrow> u8 list \<Rightarrow> u8 list" where
  "frame sn body = to_bytes 4 (unat rpc_magic_num) @ to_bytes 4 sn @ to_bytes 4 (length body) @ body"

lemma send_reply_ok:
  assumes "buf_ok out" and "12 + blen out \<le> wroom s"
  shows "outb (send_reply sn out s) = outb s @ frame sn (contents out)"
    and "inq (send_reply sn out s) = inq s" and "closed (send_reply sn out s) = closed s"
  using assms by (simp_all add: send_reply_def write_sock_ok frame_def contents_def buf_ok_def)

text \<open>The three header words, when they arrive in one chunk.\<close>

lemma read_header:
  assumes "inq s = (to_bytes 4 m @ to_bytes 4 sn @ to_bytes 4 n @ c) # cs" and "sn < 2 ^ 32" and "n < 2 ^ 32" and "m < 2 ^ 32"
  shows "\<exists>s1 s2 s3. rpc_read_u32 s = (Some m, s1) \<and> rpc_read_u32 s1 = (Some sn, s2) \<and> rpc_read_u32 s2 = (Some n, s3) \<and>
    s3 = s\<lparr>inq := (if c = [] then cs else c # cs)\<rparr>"
proof -
  have b: "of_bytes (to_bytes 4 k) = k" if "k < 2 ^ 32" for k
    using that by (simp add: of_bytes_to_bytes)
  let ?s1 = "s\<lparr>inq := (to_bytes 4 sn @ to_bytes 4 n @ c) # cs\<rparr>" and ?s2 = "s\<lparr>inq := (to_bytes 4 n @ c) # cs\<rparr>"
  have "rpc_read_u32 s = (Some m, ?s1)" using read_u32_first [OF assms(1)] b [OF assms(4)] by simp
  moreover have "rpc_read_u32 ?s1 = (Some sn, ?s2)" using read_u32_first [of ?s1 "to_bytes 4 sn @ to_bytes 4 n @ c" cs] b [OF assms(2)] by simp
  moreover have "rpc_read_u32 ?s2 = (Some n, s\<lparr>inq := (if c = [] then cs else c # cs)\<rparr>)"
    using read_u32_first [of ?s2 "to_bytes 4 n @ c" cs] b [OF assms(3)] by simp
  ultimately show ?thesis by blast
qed

lemma store_name_ok: "length bs < MAX_FUNC_NAME_LEN \<Longrightarrow> store_name bs = Inr (bs @ [0])"
  by (simp add: store_name_def)

lemma make_reply_terminated: "make_reply reg (name @ [0]) r a = make_reply reg name r a"
proof -
  have "cstr (name @ [0]) = cstr name" by (induction name) (simp_all add: cstr_def)
  then have "find_handler (name @ [0]) reg = find_handler name reg" by (induction reg) auto
  then show ?thesis unfolding make_reply_def by (simp only:)
qed

lemma dispatch_ok:
  assumes "msg = to_bytes 2 (length name) @ name @ args" and "length name < 256" and "granted a"
    and "case find_handler name reg of None \<Rightarrow> reply = not_found_reply | Some handler \<Rightarrow> serves handler args reply"
    and "12 + length reply \<le> wroom s"
  obtains s' a' where "dispatch reg msg sn s a = Inr (s', a')" and "closed s'" and "outb s' = outb s @ frame sn reply"
proof -
  have r: "reader_ok (reader_init msg (length msg))" "rest (reader_init msg (length msg)) = to_bytes 2 (length name) @ (name @ args)"
    using assms(1) by (simp_all add: reader_init_def reader_ok_def rest_def)
  obtain r1 where r1: "reader_read_bytes (reader_init msg (length msg)) 2 = Inr (Some (to_bytes 2 (length name)), r1)"
    "reader_ok r1" "rest r1 = name @ args" by (rule read_bytes_app [OF r]) simp
  obtain r2 where r2: "reader_read_bytes r1 (length name) = Inr (Some name, r2)" "reader_ok r2" "rest r2 = args"
    by (rule read_bytes_app [OF r1(2,3)]) simp
  have n: "of_bytes (to_bytes 2 (length name)) = length name" using assms(2) by (simp add: of_bytes_to_bytes)
  obtain out a' where o: "make_reply reg name r2 a = Inr (out, a')" "buf_ok out" "contents out = reply" "granted a'"
    by (rule make_reply_ok [OF r2(2) assms(3), where name = name and reg = reg and reply = reply]) (use assms(4) r2(3) in auto)
  have len: "blen out = length reply" using o(2,3) by (auto simp: contents_def buf_ok_def)
  have "dispatch reg msg sn s a = Inr (close_sock (send_reply sn out s), a')"
    using r1 r2 n o assms(2) store_name_ok [of name] by (simp add: dispatch_def MAX_FUNC_NAME_LEN_def make_reply_terminated)
  then show thesis
    by (rule that) (use send_reply_ok [OF o(2), of s sn] len assms(5) o(3) in \<open>simp_all add: close_sock_def\<close>)
qed

lemma handle_client_answers:
  assumes "granted a" and "sn < 2 ^ 32" and "length name < 256" and "[] \<notin> set cs"
    and "msg = to_bytes 2 (length name) @ name @ args" and "length msg \<le> 65536" and "c @ concat cs = msg @ extra"
    and "inq s = (to_bytes 4 (unat rpc_magic_num) @ to_bytes 4 sn @ to_bytes 4 (length msg) @ c) # cs"
    and "case find_handler name reg of None \<Rightarrow> reply = not_found_reply | Some handler \<Rightarrow> serves handler args reply"
    and "12 + length reply \<le> wroom s"
  shows "\<exists>s' a'. handle_client reg t s a = Inr (s', a') \<and> closed s' \<and> outb s' = outb s @ frame sn reply"
proof -
  define s0 where "s0 = rpc_set_sock_timeout t s"
  have s0: "inq s0 = inq s" "outb s0 = outb s" "wroom s0 = wroom s"
    by (simp_all add: s0_def rpc_set_sock_timeout_def set_sock_timeout_def)
  have m: "unat rpc_magic_num < 2 ^ 32" and len: "length msg < 2 ^ 32" "0 < length msg"
    using assms(5,6) by (simp_all add: rpc_magic_num_def)
  obtain s1 s2 s3 where h: "rpc_read_u32 s0 = (Some (unat rpc_magic_num), s1)" "rpc_read_u32 s1 = (Some sn, s2)"
    "rpc_read_u32 s2 = (Some (length msg), s3)" "s3 = s0\<lparr>inq := (if c = [] then cs else c # cs)\<rparr>"
    using read_header [OF assms(8) [folded s0(1)] assms(2) len(1) m] by blast
  have "[] \<notin> set (inq s3)" "pending s3 = msg @ extra" using assms(4,7) h(4) by (auto simp: pending_def)
  with read_sock_until_chunks [of s3 "length msg" "[]"] obtain s4 where
    s4: "read_sock_until (length msg) [] s3 = (Some msg, s4)" "s4 = s3\<lparr>inq := inq s4\<rparr>" by auto
  have g: "granted (a\<lparr>acount := Suc (acount a)\<rparr>)" using assms(1) by simp
  have w: "wroom s4 = wroom s" "outb s4 = outb s" using s4(2) h(4) s0 by (metis sock.select_convs sock.update_convs sock.surjective)+
  obtain s' a' where "dispatch reg msg sn s4 (a\<lparr>acount := Suc (acount a)\<rparr>) = Inr (s', a')" "closed s'"
    "outb s' = outb s4 @ frame sn reply"
    by (rule dispatch_ok [OF assms(5,3) g assms(9), of s4 sn]) (use assms(10) w in simp_all)
  with h s4 len assms(1,6) w(2) show ?thesis
    by (simp add: handle_client_def s0_def [symmetric] MAX_MSG_LEN_def amalloc_granted)
qed

text \<open>
  C3. The server answers a well-formed request. If the twelve bytes of the header (magic number, call number, length)
  arrive in the first chunk and the body in any division into chunks, \<open>handle_client\<close> calls
  the handler registered for the function, sends back the magic number, the call number of the request, the length in the byte order of
  the host and the handler's reply (or the not-found reply), and closes the connection. This is the order of the code; the comment above it names another. The header is
  read with one call per number, so a request in which one of them is split is dropped.
\<close>

theorem handle_client_reply:
  assumes "granted a" and "sn < 2 ^ 32" and "length name < 256" and "[] \<notin> set cs"
    and "msg = to_bytes 2 (length name) @ name @ args" and "length msg \<le> 65536" and "c @ concat cs = msg @ extra"
    and "inq s = (to_bytes 4 (unat rpc_magic_num) @ to_bytes 4 sn @ to_bytes 4 (length msg) @ c) # cs"
    and "case find_handler name reg of None \<Rightarrow> reply = not_found_reply | Some handler \<Rightarrow> serves handler args reply"
    and "12 + length reply \<le> wroom s"
  shows "\<exists>s' a'. handle_client reg t s a = Inr (s', a') \<and> closed s' \<and> outb s' = outb s @ frame sn reply"
  by (rule handle_client_answers [OF assms])

text \<open>A handler that sends back the first byte of its arguments.\<close>

definition first_byte :: rpc_handler where
  "first_byte r buf a = bnd (reader_read_bytes r 1) (\<lambda>(bs, _). case bs of None \<Rightarrow> Inr (buf, a) | Some bs \<Rightarrow> drop_code (buffer_append buf bs a))"

lemma first_byte_serves: "serves first_byte (b # bs) [b]"
  unfolding serves_def
proof (intro allI impI, elim conjE)
  fix r buf a
  assume r: "reader_ok r" "rest r = b # bs" and b: "buf_ok buf" "contents buf = []" "granted a"
  obtain r1 where "reader_read_bytes r 1 = Inr (Some [b], r1)" by (rule read_bytes_app [OF r(1), of "[b]" bs]) (use r(2) in auto)
  then show "\<exists>out a'. first_byte r buf a = Inr (out, a') \<and> buf_ok out \<and> contents out = [b] \<and> granted a'"
    using raw.appends [OF b(1,3), of "[b]"] b(2) by (simp add: first_byte_def)
qed

theorem handle_client_reply_witness:
  "\<exists>s' a'. handle_client [([121], \<lambda>r buf a. Inl NullDeref), ([120], first_byte)] 30
      \<lparr>inq = [to_bytes 4 (unat rpc_magic_num) @ to_bytes 4 5 @ to_bytes 4 4 @ [1], [0, 120], [9]],
       outb = [], wroom = 100, tmo = 0, closed = False\<rparr> \<lparr>acount = 0, arefuse = (\<lambda>_. False)\<rparr> = Inr (s', a') \<and>
    closed s' \<and> outb s' = frame 5 [9]"
proof -
  let ?s = "\<lparr>inq = [to_bytes 4 (unat rpc_magic_num) @ to_bytes 4 5 @ to_bytes 4 4 @ [1], [0, 120], [9]],
       outb = [], wroom = 100, tmo = 0, closed = False\<rparr>"
  have "to_bytes 2 1 = [1, 0]" by (simp add: numeral_2_eq_2)
  then have m: "[1, 0, 120, 9] = to_bytes 2 (length [120 :: u8]) @ [120] @ [9 :: u8]" by simp
  have "find_handler [120] [([121], \<lambda>r buf a. Inl NullDeref), ([120], first_byte)] = Some first_byte" by (simp add: cstr_def)
  then show ?thesis
    using handle_client_reply [where a = "\<lparr>acount = 0, arefuse = (\<lambda>_. False)\<rparr>" and sn = 5 and name = "[120]" and
      cs = "[[0, 120], [9]]" and msg = "[1, 0, 120, 9]" and args = "[9]" and c = "[1]" and extra = "[]" and s = ?s and
      reg = "[([121], \<lambda>r buf a. Inl NullDeref), ([120], first_byte)]" and reply = "[9]" and t = 30] m first_byte_serves [of 9 "[]"]
    by (simp add: granted_def)
qed

section \<open>Arbitrary input\<close>

definition safe_handler :: "rpc_handler \<Rightarrow> bool" where
  "safe_handler handler \<longleftrightarrow> (\<forall>r buf a. reader_ok r \<and> buf_ok buf \<and> granted a \<longrightarrow>
     (\<exists>out a'. handler r buf a = Inr (out, a')))"

lemma find_handler_in: "find_handler name reg = Some h \<Longrightarrow> \<exists>n. (n, h) \<in> set reg"
  by (induction reg) (auto split: if_splits)

lemma make_reply_safe:
  assumes "reader_ok r" and "granted a" and "\<forall>(n, h) \<in> set reg. safe_handler h"
  shows "\<exists>out a'. make_reply reg name r a = Inr (out, a')"
proof (cases "find_handler name reg")
  case None
  then have "case find_handler name reg of None \<Rightarrow> not_found_reply = not_found_reply
      | Some handler \<Rightarrow> serves handler (rest r) not_found_reply" by simp
  from make_reply_ok [OF assms(1,2) this] show ?thesis by blast
next
  case (Some h)
  then have "safe_handler h" using assms(3) find_handler_in [OF Some] by auto
  moreover obtain b a1 where b: "buffer_new 256 a = (Some b, a1)" "buf_ok b" "contents b = []" "granted a1"
    by (rule buffer_new_ok [OF assms(2)])
  ultimately show ?thesis using Some assms(1) by (simp add: make_reply_def safe_handler_def)
qed

lemma dispatch_safe:
  assumes "granted a" and "\<forall>(n, h) \<in> set reg. safe_handler h"
  shows "\<exists>s' a'. dispatch reg msg sn s a = Inr (s', a') \<and> closed s'"
proof -
  have ok: "reader_ok (reader_init msg (length msg))" by (simp add: reader_init_def reader_ok_def)
  show ?thesis
  proof (rule read_bytes_cases [OF ok, of 2])
    assume "reader_read_bytes (reader_init msg (length msg)) 2 = Inr (None, reader_init msg (length msg))"
    then show ?thesis by (simp add: dispatch_def close_sock_def)
  next
    fix nb r1 assume r1: "reader_read_bytes (reader_init msg (length msg)) 2 = Inr (Some nb, r1)" "reader_ok r1"
    show ?thesis
    proof (rule read_bytes_cases [OF r1(2), of "of_bytes nb"])
      assume "reader_read_bytes r1 (of_bytes nb) = Inr (None, r1)"
      then show ?thesis using r1 by (simp add: dispatch_def close_sock_def Let_def)
    next
      fix name r2 assume r2: "reader_read_bytes r1 (of_bytes nb) = Inr (Some name, r2)" "reader_ok r2" "length name = of_bytes nb"
      from make_reply_safe [OF r2(2) assms, of "name @ [0]"] r1 r2 store_name_ok [of name] show ?thesis
        by (cases "MAX_FUNC_NAME_LEN \<le> of_bytes nb") (auto simp: dispatch_def close_sock_def Let_def)
    qed
  qed
qed

text \<open>
  C8. The server survives any client. Whatever bytes a connection delivers and however they are
  divided into chunks, \<open>handle_client\<close> returns without a memory error and with the
  connection closed, provided the registered handlers return on every argument string.
\<close>

theorem handle_client_safe:
  assumes "granted a" and "\<forall>(n, h) \<in> set reg. safe_handler h"
  shows "\<exists>s' a'. handle_client reg t s a = Inr (s', a') \<and> closed s'"
proof -
  have cl: "closed (close_sock x)" for x by (simp add: close_sock_def)
  have g: "granted (a\<lparr>acount := Suc (acount a)\<rparr>)" using assms(1) by simp
  note d = dispatch_safe [OF g assms(2)]
  show ?thesis
    unfolding handle_client_def
    by (auto simp: cl Let_def amalloc_granted [OF assms(1)] split: prod.split option.split) (use d in blast)
qed

theorem handle_client_safe_witness:
  "\<exists>s' a'. handle_client [([120], \<lambda>r buf a. Inr (buf, a))] 30
      \<lparr>inq = [[0xef, 0xbe, 0xad, 0xce], [1, 0, 0, 0], [9, 0, 0, 0], [255, 0], []], outb = [], wroom = 0, tmo = 0, closed = False\<rparr>
      \<lparr>acount = 0, arefuse = (\<lambda>_. False)\<rparr> = Inr (s', a') \<and> closed s'"
  by (rule handle_client_safe) (simp_all add: granted_def safe_handler_def)

end
