(* ===== verification/RpcCall.thy ===== *)
theory RpcCall
  imports RpcServer
begin

text \<open>
  A call through client and server. The first part shows what \<open>rpc_get_rsp\<close> and \<open>rpc_call\<close> make of a
  response that arrives; the locale \<open>rpc_method\<close> states what a registered method promises, and
  its lemma composes request, server and response into one call.
\<close>

section \<open>The client's view\<close>

lemma keeps_granted_pure [intro]:
  "(\<And>u dt v l a c u' a'. handler u dt v l a = Inr (c, u', a') \<Longrightarrow> a' = a) \<Longrightarrow> keeps_granted handler"
  unfolding keeps_granted_def by blast

lemma handle_all_granted:
  "keeps_granted handler \<Longrightarrow> granted a \<Longrightarrow> handle_all pack handler i xs u a = Inr (c, u', a') \<Longrightarrow> granted a'"
proof (induction xs arbitrary: i u a)
  case (Cons x xs)
  then show ?case by (auto simp: bnd_eq_Inr split: if_splits dest: handle_one_granted)
qed simp

lemma parse_req_args_result:
  assumes "reader_ok r" and "rest r = enc_args pack xs" and "\<forall>x \<in> set xs. arg_ok pack x"
    and "granted a" and "length xs < 256" and "keeps_granted handler" and "handle_all pack handler 0 xs u a = Inr (c, u', a')"
  obtains r' where "rpc_parse_req_args handler r u a = Inr (c, r', u', a')" and "granted a'"
proof -
  have "bnd (rpc_parse_req_args handler r u a) (\<lambda>(c, r, u, a). Inr (c, u, a)) = Inr (c, u', a')"
    using parse_req_args_enc [of r pack xs "[]" a handler u] assms by simp
  then obtain r' where "rpc_parse_req_args handler r u a = Inr (c, r', u', a')" by (auto simp: bnd_eq_Inr)
  then show thesis by (rule that) (rule handle_all_granted [OF assms(6,4,7)])
qed

lemma rsp_base_data_keeps: "keeps_granted rsp_base_data"
  by (auto simp: rsp_base_data_def split: if_splits)

lemma rpc_get_rsp_body:
  assumes "inq s = [frame sn (b # bs)]" and "sn < 2 ^ 32" and "length (b # bs) < 2 ^ 32" and "granted a"
    and "r = (reader_init (b # bs) (length (b # bs)))\<lparr>rpos := 1\<rparr>"
  obtains s' where "outb s' = outb s" and "reader_ok r" and "rest r = bs" and "granted (snd (amalloc a))"
    and "rpc_get_rsp s rsp sn a = bnd (rpc_parse_req_args rsp_base_data r (rdat rsp) (snd (amalloc a)))
      (\<lambda>(ret, _, d, a). Inr (ret, rsp\<lparr>rres := unat b, rdat := d\<rparr>, s', a))"
proof -
  let ?body = "b # bs"
  have "unat rpc_magic_num < 2 ^ 32" by (simp add: rpc_magic_num_def)
  from read_header [of s "unat rpc_magic_num" sn "length ?body" ?body "[]", OF _ assms(2,3) this] assms(1)
  obtain s1 s2 s3 where h: "rpc_read_u32 s = (Some (unat rpc_magic_num), s1)" "rpc_read_u32 s1 = (Some sn, s2)"
    "rpc_read_u32 s2 = (Some (length ?body), s3)" "s3 = s\<lparr>inq := [?body]\<rparr>" by (auto simp: frame_def)
  have "[] \<notin> set (inq s3)" "pending s3 = ?body" using h(4) by (auto simp: pending_def)
  with read_sock_until_chunks [of s3 "length ?body" "[]"] obtain s4 where
    s4: "read_sock_until (length ?body) [] s3 = (Some ?body, s4)" "s4 = s3\<lparr>inq := inq s4\<rparr>" by auto
  have r: "reader_read_uint8 (reader_init ?body (length ?body)) = Inr (Some (unat b), r)"
    "reader_ok r" "rest r = bs"
    by (simp_all add: reader_read_uint8_def reader_init_def assms(5) reader_ok_def rest_def)
  have g: "granted (snd (amalloc a))" using assms(4) by (simp add: amalloc_def)
  have "rpc_get_rsp s rsp sn a = bnd (rpc_parse_req_args rsp_base_data r (rdat rsp) (snd (amalloc a)))
      (\<lambda>(ret, _, d, a). Inr (ret, rsp\<lparr>rres := unat b, rdat := d\<rparr>, s4, a))"
    using h s4(1) r(1) assms(4) by (simp add: rpc_get_rsp_def amalloc_granted)
  moreover have "outb s4 = outb s" using s4(2) h(4) by (metis sock.select_convs(2) sock.update_convs(1) sock.surjective)
  ultimately show thesis using r(2,3) g that by blast
qed

lemma rpc_get_rsp_ok:
  assumes "inq s = [frame sn (b # enc_args pack xs)]" and "sn < 2 ^ 32" and "length (b # enc_args pack xs) < 2 ^ 32"
    and "\<forall>x \<in> set xs. arg_ok pack x" and "granted a" and "length xs < 256"
    and "handle_all pack rsp_base_data 0 xs (rdat rsp) (snd (amalloc a)) = Inr (c, d, a')"
  obtains s' where "rpc_get_rsp s rsp sn a = Inr (c, rsp\<lparr>rres := unat b, rdat := d\<rparr>, s', a')"
    and "outb s' = outb s" and "granted a'"
proof -
  let ?r = "(reader_init (b # enc_args pack xs) (length (b # enc_args pack xs)))\<lparr>rpos := 1\<rparr>"
  obtain s' where s: "outb s' = outb s" "reader_ok ?r" "rest ?r = enc_args pack xs" "granted (snd (amalloc a))"
    "rpc_get_rsp s rsp sn a = bnd (rpc_parse_req_args rsp_base_data ?r (rdat rsp) (snd (amalloc a)))
      (\<lambda>(ret, _, d, a). Inr (ret, rsp\<lparr>rres := unat b, rdat := d\<rparr>, s', a))"
    by (rule rpc_get_rsp_body [OF assms(1-3,5) refl])
  obtain r' where "rpc_parse_req_args rsp_base_data ?r (rdat rsp) (snd (amalloc a)) = Inr (c, r', d, a')"
    "granted a'" by (rule parse_req_args_result [OF s(2,3) assms(4) s(4) assms(6) rsp_base_data_keeps assms(7)])
  with s that show thesis by simp
qed

lemma rpc_call_ok:
  assumes "socket_ok env" and "resolve_ok env" and "connect_ok env" and "buf_ok buf" and "12 + blen buf \<le> wroom (conn env)"
    and "rpc_get_rsp (set_sock_timeout (conn env) t
          \<lparr>outb := outb (conn env) @ frame (unat (sn + 1)) (contents buf), wroom := wroom (conn env) - 12 - blen buf\<rparr>)
        rsp (unat (sn + 1)) a = Inr (ret, rsp', s', a')"
  shows "rpc_call env t sn buf rsp a = Inr (ret, True, rsp', close_sock s', sn + 1, a')"
proof -
  have t: "outb (set_sock_timeout s t) = outb s" "wroom (set_sock_timeout s t) = wroom s" for s
    by (simp_all add: set_sock_timeout_def)
  have len: "length (take (blen buf) (bdata buf)) = blen buf" using assms(4) by (simp add: buf_ok_def)
  show ?thesis
    using assms len unfolding rpc_call_def Let_def rpc_set_sock_timeout_def
    by (simp add: write_sock_ok t frame_def contents_def)
qed

section \<open>A method and its calls\<close>

text \<open>
  A method is a name in a handler table; on valid arguments the handler found there replies with a
  result code and with values that can be sent.
\<close>

locale rpc_method =
  fixes pack :: "'m \<Rightarrow> u8 list"
    and tab :: "rpc_handler registry"
    and name :: "u8 list"
    and valid :: "(data_type \<times> 'm arg) list \<Rightarrow> bool"
    and answer :: "(data_type \<times> 'm arg) list \<Rightarrow> rpc_result \<times> (data_type \<times> 'm arg) list"
  assumes name_length: "length name < 256"
    and valid_args: "valid xs \<Longrightarrow> (\<forall>x \<in> set xs. arg_ok pack x) \<and> length xs < 256"
    and answer_args: "valid xs \<Longrightarrow> (\<forall>y \<in> set (snd (answer xs)). arg_ok pack y) \<and> length (snd (answer xs)) < 256"
    and answers: "valid xs \<Longrightarrow> \<exists>handler. find_handler name tab = Some handler \<and>
      serves handler (enc_args pack xs) (word_of_nat (res_num (fst (answer xs))) # enc_args pack (snd (answer xs)))"
begin

lemma request:
  assumes "valid xs" and "granted a"
  obtains buf a' where "RPC_MAKE_REQ pack name xs a = Inr (buf, a')" and "buf_ok buf"
    and "contents buf = enc_req pack name xs" and "granted a'"
proof (rule make_req_ok [OF assms(2), of name xs pack])
  show "length name < 65536" using name_length by simp
  show "\<forall>x \<in> set xs. arg_ok pack x" using valid_args [OF assms(1)] by blast
qed (rule that)

lemma reply:
  assumes "valid xs" and "granted a" and "sn < 2 ^ 32" and "inq s = [frame sn (enc_req pack name xs)]"
    and "length (enc_req pack name xs) \<le> 65536"
    and "reply = word_of_nat (res_num (fst (answer xs))) # enc_args pack (snd (answer xs))"
    and "12 + length reply \<le> wroom s"
  shows "\<exists>s' a'. handle_client tab t s a = Inr (s', a') \<and> closed s' \<and> outb s' = outb s @ frame sn reply"
proof (rule handle_client_answers [OF assms(2,3) name_length, where cs = "[]" and extra = "[]"
      and c = "enc_req pack name xs" and msg = "enc_req pack name xs"])
  show "case find_handler name tab of None \<Rightarrow> reply = not_found_reply
      | Some handler \<Rightarrow> serves handler (enc_args pack xs) reply"
    using answers [OF assms(1)] assms(6) by auto
qed (use assms in \<open>simp_all add: enc_req_def frame_def\<close>)

lemma call:
  assumes "valid xs" and "granted a" and "granted b" and "length (enc_req pack name xs) \<le> 65536"
    and "inq s = []" and "inq c = []" and "outb s = []" and "outb c = []"
    and "reply = word_of_nat (res_num (fst (answer xs))) # enc_args pack (snd (answer xs))"
    and "length reply < 2 ^ 32" and "12 + length reply \<le> wroom s" and "12 + length (enc_req pack name xs) \<le> wroom c"
    and "handle_all pack rsp_base_data 0 (snd (answer xs)) (rdat rsp) = (\<lambda>a. Inr (ret, d, upd a))"
  shows "\<exists>buf a' s' b' c' a''. RPC_MAKE_REQ pack name xs a = Inr (buf, a') \<and>
    handle_client tab t (s\<lparr>inq := [frame (unat (sn + 1)) (contents buf)]\<rparr>) b = Inr (s', b') \<and>
    rpc_call \<lparr>socket_ok = True, resolve_ok = True, connect_ok = True, conn = c\<lparr>inq := [outb s']\<rparr>\<rparr> t sn buf rsp a' =
      Inr (ret, True, rsp\<lparr>rres := res_num (fst (answer xs)), rdat := d\<rparr>, c', sn + 1, a'') \<and>
    outb c' = frame (unat (sn + 1)) (contents buf) \<and> closed c' \<and> closed s'"
proof -
  let ?n = "unat (sn + 1)"
  have n: "?n < 2 ^ 32" using unsigned_less [of "sn + 1"] by simp
  obtain buf a' where b: "RPC_MAKE_REQ pack name xs a = Inr (buf, a')" "buf_ok buf"
    "contents buf = enc_req pack name xs" "granted a'" by (rule request [OF assms(1,2)])
  have len: "blen buf = length (enc_req pack name xs)" unfolding b(3) [symmetric] using b(2) by (simp add: contents_def buf_ok_def)
  let ?s = "s\<lparr>inq := [frame ?n (enc_req pack name xs)]\<rparr>"
  have "\<exists>s' b'. handle_client tab t ?s b = Inr (s', b') \<and> closed s' \<and> outb s' = outb ?s @ frame ?n reply"
    by (rule reply [OF assms(1,3) n _ assms(4,9)]) (use assms(11) in simp_all)
  then obtain s' b' where s: "handle_client tab t ?s b = Inr (s', b')" "closed s'" "outb s' = frame ?n reply"
    using assms(7) by auto
  let ?c = "set_sock_timeout (c\<lparr>inq := [outb s']\<rparr>) t
      \<lparr>outb := outb c @ frame ?n (contents buf), wroom := wroom c - 12 - blen buf\<rparr>"
  let ?y = "snd (answer xs)" and ?r = "word_of_nat (res_num (fst (answer xs))) :: u8"
  have r: "unat ?r = res_num (fst (answer xs))" by (cases "fst (answer xs)") simp_all
  have i: "inq ?c = [frame ?n (?r # enc_args pack ?y)]" using s(3) assms(9) by (simp add: set_sock_timeout_def)
  obtain c' where g: "rpc_get_rsp ?c rsp ?n a' = Inr (ret, rsp\<lparr>rres := unat ?r, rdat := d\<rparr>, c', upd (snd (amalloc a')))"
    "outb c' = outb ?c"
  proof (rule rpc_get_rsp_ok [OF i n _ _ b(4)])
    show "length (?r # enc_args pack ?y) < 2 ^ 32" using assms(9,10) by simp
    show "handle_all pack rsp_base_data 0 ?y (rdat rsp) (snd (amalloc a')) = Inr (ret, d, upd (snd (amalloc a')))"
      using assms(13) by simp
  qed (use answer_args [OF assms(1)] in auto)
  have "rpc_call \<lparr>socket_ok = True, resolve_ok = True, connect_ok = True, conn = c\<lparr>inq := [outb s']\<rparr>\<rparr> t sn buf rsp a' =
      Inr (ret, True, rsp\<lparr>rres := unat ?r, rdat := d\<rparr>, close_sock c', sn + 1, upd (snd (amalloc a')))"
    by (rule rpc_call_ok) (use b(2) assms(12) len g(1) in simp_all)
  with b s r g(2) show ?thesis using assms(8) by (auto simp: close_sock_def)
qed

end

end
