(* ===== verification/RpcMain.thy ===== *)
theory RpcMain
  imports RpcCall
begin

text \<open>
  The demonstration program of the RPC library, \<open>cmake/rpc_c/main.c\<close>: the three handlers of the
  server and the three calls of the client. The ProtoBuf code generated from \<open>login.proto\<close> is a
  parameter: \<open>pack\<close> and \<open>unpack\<close> of the login request. The type tag of the 64-bit result of \<open>sum\<close>
  depends on the platform: \<open>ll\<close> says whether \<open>int64_t\<close> is \<open>long long\<close> (64-bit Windows) or \<open>long\<close>
  (64-bit Linux), for which \<open>GET_TYPE\<close> has no case.
\<close>

record req_login =
  username :: "u8 list"
  psw :: "u8 list"

definition chars :: "string \<Rightarrow> u8 list" where
  "chars s = map (\<lambda>c. word_of_nat (of_char c)) s"

section \<open>Handlers\<close>

text \<open>The addition is one of \<open>int64_t\<close>: a sum outside its range is undefined.\<close>

definition int64_fits :: "int \<Rightarrow> bool" where
  "int64_fits z \<longleftrightarrow> - (2 ^ 63) \<le> z \<and> z < 2 ^ 63"

definition add :: "u64 arg_handler" where
  "add user_data dt v vlen a =
     (case v of
        VInt n \<Rightarrow>
          if 0 < int_size dt
          then if int64_fits (sint user_data + sint n) then Inr (0, user_data + n, a) else Inl Overflow
          else Inr (1, user_data, a)
      | VBuf _ \<Rightarrow> Inr (1, user_data, a))"

text \<open>
  \<open>GET_TYPE\<close> of an \<open>int64_t\<close>. Where it is \<open>long\<close> the selection takes its default, and the number is
  tested for being a ProtoBuf message: zero is none, any other number is read through as an address.
\<close>

definition int64_type :: "bool \<Rightarrow> u64 \<Rightarrow> data_type result" where
  "int64_type ll x = (if ll then Inr DT_S64 else if x = 0 then Inr DT_UNKNOWN else Inl OutOfBounds)"

definition sum_handler :: "bool \<Rightarrow> (req_login \<Rightarrow> u8 list) \<Rightarrow> rpc_handler" where
  "sum_handler ll pack args buf a =
     bnd (rpc_parse_req_args add args 0 a) (\<lambda>(res, _, result, a).
     if res = 0
     then bnd (int64_type ll result) (\<lambda>dt. RPC_MAKE_RSP pack RPC_OK [(dt, AInt result)] buf a)
     else RPC_MAKE_RSP pack RPC_ERR [(DT_S8CP, AStr (chars ''RPC call add failed!''))] buf a)"

text \<open>\<open>strcat\<close> into the 256-byte array \<open>result\<close>: the string so far, the new one and a terminator must fit.\<close>

definition concat_arg :: "u8 list arg_handler" where
  "concat_arg user_data dt v vlen a =
     (case v of
        VBuf bs \<Rightarrow>
          if is_str dt
          then if length user_data + length (cstr bs) < 256 then Inr (0, user_data @ cstr bs, a) else Inl OutOfBounds
          else Inr (1, user_data, a)
      | VInt _ \<Rightarrow> Inr (1, user_data, a))"

definition concat_handler :: "(req_login \<Rightarrow> u8 list) \<Rightarrow> rpc_handler" where
  "concat_handler pack args buf a =
     bnd (rpc_parse_req_args concat_arg args [] a) (\<lambda>(res, _, result, a).
     if res = 0 then RPC_MAKE_RSP pack RPC_OK [(DT_S8P, AStr result)] buf a
     else RPC_MAKE_RSP pack RPC_ERR [(DT_S8CP, AStr (chars ''RPC call concat failed!''))] buf a)"

text \<open>
  The login handler writes its reply itself; \<open>memcmp\<close> of an empty password reads through a null
  pointer.
\<close>

definition login_failed :: "(req_login \<Rightarrow> u8 list) \<Rightarrow> buffer \<Rightarrow> astate \<Rightarrow> (int \<times> buffer \<times> astate) result" where
  "login_failed pack buf a =
     bnd (RPC_MAKE_RSP pack RPC_ERR [(DT_S8CP, AStr (chars ''RPC call login failed!''))] buf a) (\<lambda>(buf, a). Inr (1, buf, a))"

definition parse_login ::
  "(req_login \<Rightarrow> u8 list) \<Rightarrow> (u8 list \<Rightarrow> req_login option) \<Rightarrow> buffer arg_handler" where
  "parse_login pack unpack buf dt v vlen a =
     (if dt \<noteq> DT_PB then login_failed pack buf a
      else case v of
        VInt _ \<Rightarrow> login_failed pack buf a
      | VBuf bs \<Rightarrow>
          (case unpack bs of
             None \<Rightarrow> login_failed pack buf a
           | Some login \<Rightarrow>
               if cstr (username login) = chars ''witton''
               then (case psw login of
                       [] \<Rightarrow> Inl NullDeref
                     | c # _ \<Rightarrow>
                         if c = 0x31
                         then bnd (RPC_MAKE_RSP pack RPC_OK [] buf a) (\<lambda>(buf, a). Inr (0, buf, a))
                         else login_failed pack buf a)
               else login_failed pack buf a))"

definition login_handler ::
  "(req_login \<Rightarrow> u8 list) \<Rightarrow> (u8 list \<Rightarrow> req_login option) \<Rightarrow> rpc_handler" where
  "login_handler pack unpack args buf a =
     bnd (rpc_parse_req_args (parse_login pack unpack) args buf a) (\<lambda>(_, _, buf, a). Inr (buf, a))"

section \<open>Server and client\<close>

definition server_registry ::
  "bool \<Rightarrow> (req_login \<Rightarrow> u8 list) \<Rightarrow> (u8 list \<Rightarrow> req_login option) \<Rightarrow> rpc_handler registry" where
  "server_registry ll pack unpack =
     (let (_, reg) = rpc_server_register (chars ''sum'') (sum_handler ll pack) [];
          (_, reg) = rpc_server_register (chars ''concat'') (concat_handler pack) reg;
          (_, reg) = rpc_server_register (chars ''login'') (login_handler pack unpack) reg
      in reg)"

definition server ::
  "bool \<Rightarrow> (req_login \<Rightarrow> u8 list) \<Rightarrow> (u8 list \<Rightarrow> req_login option) \<Rightarrow> bool \<Rightarrow> bool \<Rightarrow> bool \<Rightarrow> sevent list \<Rightarrow> astate \<Rightarrow>
   (sock list \<times> astate) result" where
  "server ll pack unpack sok bok lok es a = rpc_server_run (server_registry ll pack unpack) 30 sok bok lok es a"

text \<open>A client call: build the request, send it, return the code and the response before its release.\<close>

definition do_call ::
  "(req_login \<Rightarrow> u8 list) \<Rightarrow> u8 list \<Rightarrow> (data_type \<times> req_login arg) list \<Rightarrow> call_env \<Rightarrow> u32 \<Rightarrow> rpc_rsp \<Rightarrow> astate \<Rightarrow>
   (int \<times> rpc_rsp \<times> sock \<times> u32 \<times> astate) result" where
  "do_call pack func args env callSN rsp a =
     bnd (RPC_MAKE_REQ pack func args a) (\<lambda>(buf, a).
     bnd (rpc_call env 30 callSN buf rsp a) (\<lambda>(ret, _, rsp, s, callSN, a). Inr (ret, rsp, s, callSN, a)))"

definition rpc_call_login where
  "rpc_call_login pack = do_call pack (chars ''login'') [(DT_PB, APb \<lparr>username = chars ''witton'', psw = [0x31]\<rparr>)]"

definition rpc_call_add where
  "rpc_call_add pack = do_call pack (chars ''sum'') [(DT_S32, AInt 10)]"

definition rpc_call_concat where
  "rpc_call_concat pack =
     do_call pack (chars ''concat'')
       [(DT_S8CP, AStr (chars ''Hello, '')), (DT_S8CP, AStr (chars ''World!'')), 
        (DT_S8CP, AStr [0xe4, 0xbd, 0xa0, 0xe5, 0xa5, 0xbd, 0xef, 0xbc, 0x8c]),
        (DT_S8CP, AStr [0xe4, 0xb8, 0x96, 0xe7, 0x95, 0x8c, 0xef, 0xbc, 0x81])]"

section \<open>The methods of the server\<close>

text \<open>
  What the three handlers compute. Integers are added as the 64-bit variable the parser fills, so an
  argument narrower than 64 bits counts with its unsigned value; strings are joined up to their first
  zero byte.
\<close>

fun int_arg :: "data_type \<times> 'm arg \<Rightarrow> bool" where
  "int_arg (dt, AInt v) \<longleftrightarrow> 0 < int_size dt"
| "int_arg _ \<longleftrightarrow> False"

fun arg_num :: "data_type \<times> 'm arg \<Rightarrow> u64" where
  "arg_num (dt, AInt v) = word_of_nat (unat v mod 256 ^ int_size dt)"
| "arg_num _ = 0"

text \<open>Every partial sum, started from \<open>z\<close>, is in the range of \<open>int64_t\<close>.\<close>

fun sums_fit :: "int \<Rightarrow> (data_type \<times> 'm arg) list \<Rightarrow> bool" where
  "sums_fit z [] \<longleftrightarrow> True"
| "sums_fit z (x # xs) \<longleftrightarrow> int64_fits (z + sint (arg_num x)) \<and> sums_fit (z + sint (arg_num x)) xs"

definition sum_valid :: "(data_type \<times> 'm arg) list \<Rightarrow> bool" where
  "sum_valid xs \<longleftrightarrow> list_all int_arg xs \<and> length xs < 256 \<and> sums_fit 0 xs"

definition sum_answer :: "(data_type \<times> 'm arg) list \<Rightarrow> rpc_result \<times> (data_type \<times> 'm arg) list" where
  "sum_answer xs = (RPC_OK, [(DT_S64, AInt (sum_list (map arg_num xs)))])"

fun str_arg :: "data_type \<times> 'm arg \<Rightarrow> bool" where
  "str_arg (dt, AStr s) \<longleftrightarrow> is_str dt \<and> length s < 65536"
| "str_arg _ \<longleftrightarrow> False"

fun arg_text :: "data_type \<times> 'm arg \<Rightarrow> u8 list" where
  "arg_text (dt, AStr s) = cstr s"
| "arg_text _ = []"

definition joined :: "(data_type \<times> 'm arg) list \<Rightarrow> u8 list" where
  "joined xs = concat (map arg_text xs)"

definition concat_valid :: "(data_type \<times> 'm arg) list \<Rightarrow> bool" where
  "concat_valid xs \<longleftrightarrow> list_all str_arg xs \<and> length xs < 256 \<and> length (joined xs) < 256"

definition concat_answer :: "(data_type \<times> 'm arg) list \<Rightarrow> rpc_result \<times> (data_type \<times> 'm arg) list" where
  "concat_answer xs = (RPC_OK, [(DT_S8P, AStr (joined xs))])"

lemma add_keeps: "keeps_granted add"
  by (auto simp: add_def split: hval.splits if_splits)

lemma concat_arg_keeps: "keeps_granted concat_arg"
  by (auto simp: concat_arg_def split: hval.splits if_splits)

fun takes_all :: "(data_type \<times> 'm arg) list \<Rightarrow> astate \<Rightarrow> astate" where
  "takes_all [] a = a"
| "takes_all (x # xs) a = takes_all xs (takes x a)"

lemma sint_add64: "int64_fits (sint x + sint y) \<Longrightarrow> sint (x + y) = sint x + sint y" for x y :: u64
  by (simp add: int64_fits_def sint_word_ariths(1) signed_take_bit_int_eq_self)

lemma handle_all_add:
  "list_all int_arg xs \<Longrightarrow> handle_all pack add i xs u a =
    (if sums_fit (sint u) xs then Inr (0, u + sum_list (map arg_num xs), a) else Inl Overflow)"
proof (induction xs arbitrary: i u)
  case (Cons x xs)
  then obtain dt v where x: "x = (dt, AInt v)" "0 < int_size dt" by (cases x rule: int_arg.cases) auto
  show ?case
  proof (cases "int64_fits (sint u + sint (arg_num x))")
    case True
    with x have "handle_one pack add x u a = Inr (0, u + arg_num x, a)" by (simp add: handle_one_def add_def)
    with Cons True show ?thesis by (simp add: sint_add64 add.assoc)
  qed (use x in \<open>simp add: handle_one_def add_def\<close>)
qed simp


lemma handle_all_concat:
  "list_all str_arg xs \<Longrightarrow> length u + length (joined xs) < 256 \<Longrightarrow>
   handle_all pack concat_arg i xs u a = Inr (0, u @ joined xs, takes_all xs a)"
proof (induction xs arbitrary: i u a)
  case (Cons x xs)
  then obtain dt s where x: "x = (dt, AStr s)" "is_str dt" by (cases x rule: str_arg.cases) auto
  with Cons show ?case by (simp add: handle_one_def concat_arg_def joined_def)
qed (simp add: joined_def)

text \<open>A handler that parses its arguments and then sends a response computed from them.\<close>

lemma serves_parsed:
  assumes "\<And>r buf a. handler r buf a = bnd (rpc_parse_req_args h r u a) (\<lambda>(c, r, u, a). out c u buf a)"
    and "\<forall>x \<in> set xs. arg_ok pack x" and "length xs < 256" and "keeps_granted h"
    and "\<And>a. \<exists>a'. handle_all pack h 0 xs u a = Inr (c, u', a')" and "appender (out c u') reply"
  shows "serves handler (enc_args pack xs) reply"
  unfolding serves_def
proof (intro allI impI, elim conjE)
  fix r buf a
  assume r: "reader_ok r" "rest r = enc_args pack xs" and b: "buf_ok buf" "contents buf = []" and a: "granted a"
  obtain a1 where h: "handle_all pack h 0 xs u a = Inr (c, u', a1)" using assms(5) by blast
  obtain r' where p: "rpc_parse_req_args h r u a = Inr (c, r', u', a1)" "granted a1"
    by (rule parse_req_args_result [OF r assms(2) a assms(3,4) h])
  from appender.appends [OF assms(6) b(1) p(2)] b(2) p(1) assms(1)
  show "\<exists>out a'. handler r buf a = Inr (out, a') \<and> buf_ok out \<and> contents out = reply \<and> granted a'"
    by simp
qed

lemma find_registered [simp]:
  "find_handler (chars ''sum'') (server_registry ll pack unpack) = Some (sum_handler ll pack)"
  "find_handler (chars ''concat'') (server_registry ll pack unpack) = Some (concat_handler pack)"
  "find_handler (chars ''login'') (server_registry ll pack unpack) = Some (login_handler pack unpack)"
  by (simp_all add: server_registry_def rpc_server_register_def MAX_HANDLERS_def MAX_FUNC_NAME_LEN_def cstr_def chars_def)

interpretation sum: rpc_method pack "server_registry True pack unpack" "chars ''sum''" sum_valid sum_answer
  for pack unpack
proof
  fix xs :: "(data_type \<times> req_login arg) list"
  assume v: "sum_valid xs"
  show ok: "(\<forall>x \<in> set xs. arg_ok pack x) \<and> length xs < 256"
    using v unfolding sum_valid_def list_all_iff by (metis arg_ok.simps(1) int_arg.elims(2))
  have "serves (sum_handler True pack) (enc_args pack xs)
      (word_of_nat (res_num RPC_OK) # enc_args pack [(DT_S64, AInt (sum_list (map arg_num xs)))])"
    by (rule serves_parsed [where h = add and u = 0 and c = 0 and u' = "sum_list (map arg_num xs)" and
          out = "\<lambda>c u. if c = 0 then RPC_MAKE_RSP pack RPC_OK [(DT_S64, AInt u)]
            else RPC_MAKE_RSP pack RPC_ERR [(DT_S8CP, AStr (chars ''RPC call add failed!''))]"])
      (use ok v appender_make_rsp [of "[(DT_S64, AInt (sum_list (map arg_num xs)))]" pack RPC_OK] add_keeps in
        \<open>auto simp: sum_handler_def int64_type_def handle_all_add sum_valid_def intro!: arg_cong [where f = "bnd _"]\<close>)
  then show "\<exists>handler. find_handler (chars ''sum'') (server_registry True pack unpack) = Some handler \<and>
      serves handler (enc_args pack xs) (word_of_nat (res_num (fst (sum_answer xs))) # enc_args pack (snd (sum_answer xs)))"
    by (simp add: sum_answer_def)
qed (simp_all add: chars_def sum_answer_def)

interpretation concat: rpc_method pack "server_registry ll pack unpack" "chars ''concat''" concat_valid concat_answer
  for ll pack unpack
proof
  fix xs :: "(data_type \<times> req_login arg) list"
  assume v: "concat_valid xs"
  show ok: "(\<forall>x \<in> set xs. arg_ok pack x) \<and> length xs < 256"
    using v unfolding concat_valid_def list_all_iff by (metis arg_ok.simps(2) str_arg.elims(2))
  have j: "length (joined xs) < 256" using v by (simp add: concat_valid_def)
  then show "(\<forall>y \<in> set (snd (concat_answer xs)). arg_ok pack y) \<and> length (snd (concat_answer xs)) < 256"
    by (simp add: concat_answer_def is_str_def)
  have "serves (concat_handler pack) (enc_args pack xs)
      (word_of_nat (res_num RPC_OK) # enc_args pack [(DT_S8P, AStr (joined xs))])"
    by (rule serves_parsed [where h = concat_arg and u = "[]" and c = 0 and u' = "joined xs" and
          out = "\<lambda>c u. if c = 0 then RPC_MAKE_RSP pack RPC_OK [(DT_S8P, AStr u)]
            else RPC_MAKE_RSP pack RPC_ERR [(DT_S8CP, AStr (chars ''RPC call concat failed!''))]"])
      (use ok v j appender_make_rsp [of "[(DT_S8P, AStr (joined xs))]" pack RPC_OK] concat_arg_keeps in
        \<open>auto simp: concat_handler_def handle_all_concat concat_valid_def is_str_def intro!: arg_cong [where f = "bnd _"]\<close>)
  then show "\<exists>handler. find_handler (chars ''concat'') (server_registry ll pack unpack) = Some handler \<and>
      serves handler (enc_args pack xs) (word_of_nat (res_num (fst (concat_answer xs))) # enc_args pack (snd (concat_answer xs)))"
    by (simp add: concat_answer_def)
qed (simp_all add: chars_def)


lemma u64_whole [simp]: "(word_of_nat (unat v mod Base) :: u64) = v"
  using unat64_less [of v] by simp









section \<open>Requests that go wrong\<close>

lemma handle_all_concat_overflow:
  "list_all str_arg xs \<Longrightarrow> length u < 256 \<Longrightarrow> 256 \<le> length u + length (joined xs) \<Longrightarrow>
   handle_all pack concat_arg i xs u a = Inl OutOfBounds"
proof (induction xs arbitrary: i u a)
  case (Cons x xs)
  then obtain dt s where x: "x = (dt, AStr s)" "is_str dt" by (cases x rule: str_arg.cases) auto
  with Cons show ?case by (simp add: handle_one_def concat_arg_def joined_def)
qed (simp add: joined_def)

text \<open>
  The concatenation handler writes outside its 256-byte array, for every request whose string
  arguments together have 256 bytes or more.
\<close>

theorem concat_handler_overflow:
  assumes "list_all str_arg xs" and "length xs < 256" and "256 \<le> length (joined xs)"
    and "reader_ok r" and "rest r = enc_args pack xs" and "granted a"
  shows "concat_handler pack r buf a = Inl OutOfBounds"
proof -
  have ok: "\<forall>x \<in> set xs. arg_ok pack x" using assms(1) unfolding list_all_iff by (metis arg_ok.simps(2) str_arg.elims(2))
  have "bnd (rpc_parse_req_args concat_arg r [] a) (\<lambda>(c, r, u, a). Inr (c, u, a)) = Inl OutOfBounds"
    using parse_req_args_enc [OF assms(4) _ ok assms(6,2) concat_arg_keeps, of "[]" "[]"] assms(5)
      handle_all_concat_overflow [OF assms(1) _, of "[]"] assms(3) by simp
  then have "rpc_parse_req_args concat_arg r [] a = Inl OutOfBounds"
    by (cases "rpc_parse_req_args concat_arg r [] a") (auto split: prod.splits)
  then show ?thesis by (simp add: concat_handler_def)
qed

theorem concat_handler_overflow_witness:
  "concat_handler (\<lambda>_. []) (reader_init (enc_args (\<lambda>_ :: req_login. []) [(DT_S8CP, AStr (replicate 300 65))]) 304)
     \<lparr>bdata = [], bcap = 0, blen = 0\<rparr> \<lparr>acount = 0, arefuse = (\<lambda>_. False)\<rparr> = Inl OutOfBounds"
  by (rule concat_handler_overflow [where xs = "[(DT_S8CP, AStr (replicate 300 65))]"])
    (simp_all add: is_str_def joined_def cstr_def takeWhile_replicate granted_def reader_ok_def reader_init_def rest_def
      enc_args_def enc_arg_def)

text \<open>
  Where \<open>int64_t\<close> is \<open>long\<close>, the sum handler never returns on integer arguments: the result has no
  type of its own, so it is read as the address of a message, or fails the assertion if it is zero.
\<close>

lemma make_rsp_unknown: "\<exists>e. RPC_MAKE_RSP pack res [(DT_UNKNOWN, AInt v)] buf a = Inl e"
  unfolding RPC_MAKE_RSP_def BUFFER_PUSH_ARGS_def
  by (auto simp: bnd_def BUFFER_PUSH_ARG_def buffer_append_dt_def split: sum.splits prod.splits)

theorem sum_handler_long:
  assumes "list_all int_arg xs" and "length xs < 256" and "reader_ok r" and "rest r = enc_args pack xs" and "granted a"
  shows "\<exists>e. sum_handler False pack r buf a = Inl e"
proof -
  have ok: "\<forall>x \<in> set xs. arg_ok pack x" using assms(1) unfolding list_all_iff by (metis arg_ok.simps(1) int_arg.elims(2))
  have "bnd (rpc_parse_req_args add r 0 a) (\<lambda>(c, r, u, a). Inr (c, u, a)) = handle_all pack add 0 xs 0 a"
    using parse_req_args_enc [OF assms(3) _ ok assms(5,2) add_keeps, of "[]" 0] assms(4) by simp
  then have "\<exists>c r' u a'. rpc_parse_req_args add r 0 a = Inl Overflow \<or> rpc_parse_req_args add r 0 a = Inr (0, r', u, a')"
    using handle_all_add [OF assms(1), of pack 0 0 a]
    by (cases "rpc_parse_req_args add r 0 a") (auto split: if_splits prod.splits)
  then show ?thesis using make_rsp_unknown by (auto simp: sum_handler_def int64_type_def)
qed

text \<open>
  A call of a function nobody registered returns code 1 with the error mark set: the reply is
  recognised as an error, but its text cannot be parsed and is lost.
\<close>

theorem unknown_call_fails:
  assumes "find_handler name reg = None" and "length name < 256" and "length args \<le> 60000" and "granted a" and "granted b"
    and "sn < 2 ^ 32" and "inq s = [frame sn (to_bytes 2 (length name) @ name @ args)]" and "outb s = []" and "35 \<le> wroom s"
  shows "\<exists>s' b' c' a'. handle_client reg 30 s b = Inr (s', b') \<and>
    rpc_get_rsp (c\<lparr>inq := [outb s']\<rparr>) rsp sn a = Inr (1, rsp\<lparr>rres := 1\<rparr>, c', a')"
proof -
  have n: "length not_found_text = 18" by (simp add: not_found_text_def)
  have tb: "to_bytes 4 18 = [18, 0, 0, 0]" by code_simp
  have l: "length not_found_reply = 23" by (simp add: not_found_reply_def n)
  have "\<exists>s' b'. handle_client reg 30 s b = Inr (s', b') \<and> closed s' \<and> outb s' = outb s @ frame sn not_found_reply"
    by (rule handle_client_answers [OF assms(5,6,2), where cs = "[]" and extra = "[]" and reply = not_found_reply
          and c = "to_bytes 2 (length name) @ name @ args" and msg = "to_bytes 2 (length name) @ name @ args" and args = args])
      (use assms l in \<open>simp_all add: frame_def\<close>)
  then obtain s' b' where s: "handle_client reg 30 s b = Inr (s', b')" "outb s' = frame sn not_found_reply"
    using assms(8) by auto
  let ?c = "c\<lparr>inq := [outb s']\<rparr>"
  obtain b0 bs where nf: "not_found_reply = b0 # bs" "b0 = 1" "bs = 18 # 0 # drop 2 bs" "length bs = 22"
    by (simp add: not_found_reply_def n tb)
  define r where "r = (reader_init (b0 # bs) (length (b0 # bs)))\<lparr>rpos := 1\<rparr>"
  obtain c' where c: "rpc_get_rsp ?c rsp sn a = bnd (rpc_parse_req_args rsp_base_data r (rdat rsp) (snd (amalloc a)))
      (\<lambda>(ret, _, d, a). Inr (ret, rsp\<lparr>rres := unat b0, rdat := d\<rparr>, c', a))" "reader_ok r" "rest r = bs"
    by (rule rpc_get_rsp_body [of ?c sn b0 bs a r, OF _ assms(6) _ assms(4) r_def]) (use s(2) nf l in auto)
  obtain r1 where r1: "reader_read_bytes r 1 = Inr (Some [18], r1)" "reader_ok r1" "rest r1 = 0 # drop 2 bs"
    by (rule read_bytes_app [OF c(2), of "[18]"]) (use c(3) nf in auto)
  obtain r2 where r2: "reader_read_bytes r1 1 = Inr (Some [0], r2)"
    by (rule read_bytes_app [OF r1(2), of "[0]"]) (use r1(3) in auto)
  have p: "parse_arg rsp_base_data r1 (rdat rsp) (snd (amalloc a)) = Inr (1, r2, rdat rsp, snd (amalloc a))"
    using r2 by (simp add: parse_arg_def dt_of_def dt_all_def is_str_def)
  have "parse_args_loop rsp_base_data 0 (Suc 17) r1 (rdat rsp) (snd (amalloc a)) = Inr (1, r2, rdat rsp, snd (amalloc a))"
    using p by (subst parse_args_loop.simps(2)) simp
  then have "rpc_parse_req_args rsp_base_data r (rdat rsp) (snd (amalloc a)) = Inr (1, r2, rdat rsp, snd (amalloc a))"
    using r1(1) by (simp add: rpc_parse_req_args_def del: parse_args_loop.simps)
  with c(1) s(1) nf(2) show ?thesis by simp
qed

theorem unknown_call_fails_witness:
  "\<exists>s' b' c' a'. handle_client [] 30
      \<lparr>inq = [frame 7 (to_bytes 2 1 @ [120] @ [0])], outb = [], wroom = 100, tmo = 0, closed = False\<rparr>
      \<lparr>acount = 0, arefuse = (\<lambda>_. False)\<rparr> = Inr (s', b') \<and>
    rpc_get_rsp \<lparr>inq = [outb s'], outb = [], wroom = 100, tmo = 0, closed = False\<rparr>
      \<lparr>rres = 0, rdat = \<lparr>otype = DT_UNKNOWN, oval = None\<rparr>\<rparr> 7 \<lparr>acount = 0, arefuse = (\<lambda>_. False)\<rparr> =
      Inr (1, \<lparr>rres = 1, rdat = \<lparr>otype = DT_UNKNOWN, oval = None\<rparr>\<rparr>, c', a')"
  using unknown_call_fails [of "[120]" "[]" "[0]" "\<lparr>acount = 0, arefuse = (\<lambda>_. False)\<rparr>"
      "\<lparr>acount = 0, arefuse = (\<lambda>_. False)\<rparr>" 7
      "\<lparr>inq = [frame 7 (to_bytes 2 1 @ [120] @ [0])], outb = [], wroom = 100, tmo = 0, closed = False\<rparr>"
      "\<lparr>inq = [], outb = [], wroom = 100, tmo = 0, closed = False\<rparr>" "\<lparr>rres = 0, rdat = \<lparr>otype = DT_UNKNOWN, oval = None\<rparr>\<rparr>"]
  by (simp add: granted_def)

section \<open>Logging in\<close>

definition accepted :: "req_login \<Rightarrow> bool" where
  "accepted m \<longleftrightarrow> cstr (username m) = chars ''witton'' \<and> hd (psw m) = 0x31"

definition login_valid :: "(req_login \<Rightarrow> u8 list) \<Rightarrow> (u8 list \<Rightarrow> req_login option) \<Rightarrow> (data_type \<times> req_login arg) list \<Rightarrow> bool" where
  "login_valid pack unpack xs \<longleftrightarrow>
     length xs = 1 \<and> fst (hd xs) = DT_PB \<and>
     (case snd (hd xs) of APb m \<Rightarrow> length (pack m) < 65536 \<and> unpack (pack m) = Some m \<and> psw m \<noteq> [] | _ \<Rightarrow> False)"

definition login_answer :: "(data_type \<times> req_login arg) list \<Rightarrow> rpc_result \<times> (data_type \<times> req_login arg) list" where
  "login_answer xs =
     (case xs of [(_, APb m)] \<Rightarrow> if accepted m then (RPC_OK, []) else (RPC_ERR, [(DT_S8CP, AStr (chars ''RPC call login failed!''))])
      | _ \<Rightarrow> (RPC_ERR, []))"

lemma login_validE:
  assumes "login_valid pack unpack xs"
  obtains m where "xs = [(DT_PB, APb m)]" and "length (pack m) < 65536" and "unpack (pack m) = Some m" and "psw m \<noteq> []"
  using assms by (cases xs) (auto simp: login_valid_def split: arg.splits)

text \<open>The handler writes its reply while the argument is being parsed.\<close>

lemma parse_login_run:
  assumes "unpack (pack m) = Some m" and "psw m \<noteq> []"
  shows "parse_login pack unpack buf DT_PB (VBuf (pack m)) l a =
    bnd (case login_answer [(DT_PB, APb m)] of (res, ys) \<Rightarrow> RPC_MAKE_RSP pack res ys buf a)
      (\<lambda>(buf, a). Inr (if accepted m then 0 else 1, buf, a))"
  using assms by (auto simp: parse_login_def login_failed_def login_answer_def accepted_def neq_Nil_conv)

lemma login_reply_args: "\<forall>y \<in> set (snd (login_answer xs)). arg_ok pack y" "length (snd (login_answer xs)) < 256"
  by (auto simp: login_answer_def is_str_def chars_def split: list.splits prod.splits arg.splits)

lemma login_serves:
  assumes "login_valid pack unpack xs"
  shows "serves (login_handler pack unpack) (enc_args pack xs)
    (word_of_nat (res_num (fst (login_answer xs))) # enc_args pack (snd (login_answer xs)))"
  unfolding serves_def
proof (intro allI impI, elim conjE)
  fix r buf a
  assume r: "reader_ok r" "rest r = enc_args pack xs" and b: "buf_ok buf" "contents buf = []" and a: "granted a"
  from assms obtain m where m: "xs = [(DT_PB, APb m)]" "length (pack m) < 65536" "unpack (pack m) = Some m" "psw m \<noteq> []"
    by (rule login_validE)
  have "rest r = [1] @ enc_arg pack (DT_PB, APb m)" using r(2) m(1) by (simp add: enc_args_def)
  then obtain r1 where r1: "reader_read_bytes r 1 = Inr (Some [1], r1)" "reader_ok r1"
    "rest r1 = enc_arg pack (DT_PB, APb m) @ []" by (rule read_bytes_app [OF r(1), where n = 1]) simp_all
  obtain r2 where p: "parse_arg (parse_login pack unpack) r1 buf a =
      bnd (handle_one pack (parse_login pack unpack) (DT_PB, APb m) buf a) (\<lambda>(c, u, a). Inr (if c \<noteq> 0 then 1 else 0, r2, u, a))"
    by (rule parse_arg_enc [OF r1(2,3) _ a]) (use m in auto)
  have g: "granted (snd (amalloc a))" using a by (simp add: amalloc_def)
  obtain res ys where ans: "login_answer xs = (res, ys)" by fastforce
  from appender.appends [OF appender_make_rsp [of ys pack res] b(1) g] login_reply_args(1) [of xs pack] ans b(2)
  obtain out a' where o: "RPC_MAKE_RSP pack res ys buf (snd (amalloc a)) = Inr (out, a')" "buf_ok out"
    "contents out = word_of_nat (res_num res) # enc_args pack ys" "granted a'" by auto
  have "handle_one pack (parse_login pack unpack) (DT_PB, APb m) buf a = Inr (if accepted m then 0 else 1, out, a')"
    using parse_login_run [where unpack = unpack and pack = pack and m = m, OF m(3,4)] o(1) ans m(1) by (simp add: handle_one_def)
  with p r1(1) have "login_handler pack unpack r buf a = Inr (out, a')"
    by (simp add: login_handler_def rpc_parse_req_args_def)
  with o ans show "\<exists>out a'. login_handler pack unpack r buf a = Inr (out, a') \<and> buf_ok out \<and>
      contents out = word_of_nat (res_num (fst (login_answer xs))) # enc_args pack (snd (login_answer xs)) \<and> granted a'"
    by auto
qed

interpretation login: rpc_method pack "server_registry ll pack unpack" "chars ''login''" "login_valid pack unpack" login_answer
  for ll pack unpack
proof
  fix xs :: "(data_type \<times> req_login arg) list"
  assume v: "login_valid pack unpack xs"
  show "(\<forall>x \<in> set xs. arg_ok pack x) \<and> length xs < 256" by (rule login_validE [OF v]) simp
  show "\<exists>handler. find_handler (chars ''login'') (server_registry ll pack unpack) = Some handler \<and>
      serves handler (enc_args pack xs) (word_of_nat (res_num (fst (login_answer xs))) # enc_args pack (snd (login_answer xs)))"
    using login_serves [OF v] by simp
qed (use login_reply_args in \<open>simp_all add: chars_def\<close>)

text \<open>
  A login request, through client and server, given that the ProtoBuf code unpacks what it
  packed: the client is told it is accepted exactly when the user name is witton and the
  password begins with the character 1, for every request with a password.
\<close>

theorem login_call_result:
  assumes "unpack (pack m) = Some m" and "psw m \<noteq> []" and "length (pack m) \<le> 60000" and "granted a" and "granted b"
    and "inq s = []" and "outb s = []" and "100 \<le> wroom s" and "inq c = []" and "outb c = []" and "60100 \<le> wroom c"
  shows "\<exists>buf a' s' b' rsp' c' a''. RPC_MAKE_REQ pack (chars ''login'') [(DT_PB, APb m)] a = Inr (buf, a') \<and>
    handle_client (server_registry ll pack unpack) 30 (s\<lparr>inq := [frame (unat (sn + 1)) (contents buf)]\<rparr>) b = Inr (s', b') \<and>
    rpc_call \<lparr>socket_ok = True, resolve_ok = True, connect_ok = True, conn = c\<lparr>inq := [outb s']\<rparr>\<rparr> 30 sn buf rsp a' =
      Inr (0, True, rsp', c', sn + 1, a'') \<and>
    (rres rsp' = 0 \<longleftrightarrow> cstr (username m) = chars ''witton'' \<and> hd (psw m) = 0x31)"
proof -
  let ?x = "[(DT_PB, APb m)]"
  have v: "login_valid pack unpack ?x" using assms(1-3) by (simp add: login_valid_def)
  have l: "length (enc_req pack (chars ''login'') ?x) \<le> 60012"
    using assms(3) by (simp add: enc_req_def chars_def enc_args_def enc_arg_def)
  let ?r = "word_of_nat (res_num (fst (login_answer ?x))) # enc_args pack (snd (login_answer ?x))"
  have r: "length ?r \<le> 60" by (simp add: login_answer_def enc_args_def enc_arg_def chars_def)
  obtain d upd where h: "handle_all pack rsp_base_data 0 (snd (login_answer ?x)) (rdat rsp) = (\<lambda>a. Inr (0, d, upd a))"
  proof (cases "accepted m")
    case True
    then show thesis using that [of "rdat rsp" "\<lambda>a. a"] by (simp add: login_answer_def fun_eq_iff)
  next
    case False
    then show thesis
      using that [of "\<lparr>otype = DT_S8CP, oval = Some (VBuf (chars ''RPC call login failed!''))\<rparr>" "\<lambda>a. snd (amalloc a)"]
      by (simp add: login_answer_def fun_eq_iff handle_one_def rsp_base_data_def is_str_def)
  qed
  have res: "res_num (fst (login_answer ?x)) = 0 \<longleftrightarrow> accepted m" by (simp add: login_answer_def)
  let ?rsp = "rsp\<lparr>rres := res_num (fst (login_answer ?x)), rdat := d\<rparr>"
  have "rres ?rsp = 0 \<longleftrightarrow> cstr (username m) = chars ''witton'' \<and> hd (psw m) = 0x31" using res by (simp add: accepted_def)
  moreover have "\<exists>buf a' s' b' c' a''. RPC_MAKE_REQ pack (chars ''login'') ?x a = Inr (buf, a') \<and>
    handle_client (server_registry ll pack unpack) 30 (s\<lparr>inq := [frame (unat (sn + 1)) (contents buf)]\<rparr>) b = Inr (s', b') \<and>
    rpc_call \<lparr>socket_ok = True, resolve_ok = True, connect_ok = True, conn = c\<lparr>inq := [outb s']\<rparr>\<rparr> 30 sn buf rsp a' =
      Inr (0, True, ?rsp, c', sn + 1, a'') \<and> outb c' = frame (unat (sn + 1)) (contents buf) \<and> closed c' \<and> closed s'"
    by (rule login.call [OF v assms(4,5) _ assms(6,9,7,10) refl _ _ _ h]) (use l r assms(8,11) in simp_all)
  ultimately show ?thesis
    by (elim exE conjE) (intro exI conjI, assumption+)
qed

theorem login_call_result_witness:
  "\<exists>buf a' s' b' rsp' c' a''. RPC_MAKE_REQ (\<lambda>m :: req_login. psw m) (chars ''login'')
      [(DT_PB, APb \<lparr>username = chars ''witton'', psw = [0x31]\<rparr>)] \<lparr>acount = 0, arefuse = (\<lambda>_. False)\<rparr> = Inr (buf, a') \<and>
    handle_client (server_registry True (\<lambda>m. psw m) (\<lambda>bs. Some \<lparr>username = chars ''witton'', psw = bs\<rparr>)) 30
      \<lparr>inq = [frame 1 (contents buf)], outb = [], wroom = 70000, tmo = 0, closed = False\<rparr>
      \<lparr>acount = 0, arefuse = (\<lambda>_. False)\<rparr> = Inr (s', b') \<and>
    rpc_call \<lparr>socket_ok = True, resolve_ok = True, connect_ok = True,
        conn = \<lparr>inq = [outb s'], outb = [], wroom = 70000, tmo = 0, closed = False\<rparr>\<rparr> 30 0 buf
        \<lparr>rres = 1, rdat = \<lparr>otype = DT_UNKNOWN, oval = None\<rparr>\<rparr> a' = Inr (0, True, rsp', c', 1, a'') \<and> rres rsp' = 0"
  using login_call_result [of "\<lambda>bs. Some \<lparr>username = chars ''witton'', psw = bs\<rparr>" "\<lambda>m. psw m"
      "\<lparr>username = chars ''witton'', psw = [0x31]\<rparr>" "\<lparr>acount = 0, arefuse = (\<lambda>_. False)\<rparr>"
      "\<lparr>acount = 0, arefuse = (\<lambda>_. False)\<rparr>" "\<lparr>inq = [], outb = [], wroom = 70000, tmo = 0, closed = False\<rparr>"
      "\<lparr>inq = [], outb = [], wroom = 70000, tmo = 0, closed = False\<rparr>" True 0
      "\<lparr>rres = 1, rdat = \<lparr>otype = DT_UNKNOWN, oval = None\<rparr>\<rparr>"]
  by (simp add: granted_def cstr_def chars_def)

end
