(* ===== verification/Coroutine.thy ===== *)
theory Coroutine
  imports CPrelude
begin

text \<open>
  The coroutine library, \<open>cmake/coroutine/src/co.c\<close>, in its portable variant (contexts of \<open>ctx.c\<close> on
  one shared stack; the variants for fibers and \<open>ucontext\<close> are left out).

  What a coroutine function does is its program: steps visible from outside (which may use \<open>co_id\<close>),
  the creation of further coroutines, and the points where it calls \<open>co_swap\<close>, with the bytes the
  shared stack holds from there up to its top. Switching contexts (\<open>swap_ctx\<close>, assembler) hands
  control over; it continues a suspended coroutine properly only if the shared stack holds the
  frames it had, which the model checks at every resumption.
\<close>

section \<open>Data\<close>

datatype 'e co_prog =
    Return
  | Do "int \<Rightarrow> 'e" "'e co_prog"
  | Spawn "'e co_prog" "'e co_prog"
  | Swap "u8 list" "'e co_prog"

datatype co_state = CO_NONE | CO_READY | CO_RUNNING | CO_SUSPEND | CO_STOPED

text \<open>
  \<open>cfunc\<close> is the function with its argument or, after a suspension, the rest of it; \<open>cctx\<close> says
  whether the context was allocated; \<open>frames\<close> is what the shared stack held at the suspension.
\<close>

record 'e coroutine =
  cfunc :: "'e co_prog"
  cctx :: bool
  status :: co_state
  ccap :: nat
  csize :: nat
  cstack :: "u8 list option"
  frames :: "u8 list"

text \<open>\<open>blocks\<close> counts the memory blocks the environment owns; \<open>trace\<close> records the visible steps.\<close>

record 'e co_env =
  nco :: int
  cap :: nat
  running_id :: int
  co :: "'e coroutine option list"
  stack_size :: nat
  stack :: "u8 list"
  blocks :: int
  amem :: astate
  trace :: "'e list"

definition STACK_SIZE :: u64 where
  "STACK_SIZE = 1024 * 1024"

definition DEFAULT_COROUTINE :: nat where
  "DEFAULT_COROUTINE = 15"

section \<open>Capacities\<close>

definition IsValidCap :: "nat \<Rightarrow> bool" where
  "IsValidCap n \<longleftrightarrow> (n + 1) AND n = 0 \<and> 0 < n"

function align_loop :: "nat \<Rightarrow> nat \<Rightarrow> nat" where
  "align_loop c n = (if 0 < n \<and> n \<le> c then align_loop c (n * 2) else n)"
  by pat_completeness auto
termination
  by (relation "measure (\<lambda>(c, n). Suc c - n)") auto

declare align_loop.simps [simp del]

definition align :: "nat \<Rightarrow> nat result" where
  "align c = (let n = align_loop c 1 in cassert (IsValidCap (n - 1)) (Inr (n - 1)))"

definition ALIGN :: "u64 \<Rightarrow> u64 \<Rightarrow> u64" where
  "ALIGN x a = (x + a - 1) AND NOT (a - 1)"

section \<open>Opening and closing\<close>

definition co_open :: "nat \<Rightarrow> u64 \<Rightarrow> astate \<Rightarrow> ('e co_env option \<times> astate) result" where
  "co_open c share_stack_size a =
     (let size = unat (ALIGN (if share_stack_size = 0 then STACK_SIZE else share_stack_size) 8);
          (ok, a) = amalloc a
      in if \<not> ok then Inr (None, a)
         else bnd (if c = 0 then cassert (IsValidCap DEFAULT_COROUTINE) (Inr DEFAULT_COROUTINE) else align c) (\<lambda>cp.
              let (ok, a) = amalloc a
              in if \<not> ok then Inr (None, a)
                 else let (ok, a) = amalloc a
                      in if \<not> ok then Inr (None, a)
                         else Inr (Some \<lparr>nco = 0, cap = cp, running_id = -1, co = replicate cp None,
                                stack_size = size, stack = replicate size 0, blocks = 3, amem = a, trace = []\<rparr>, a)))"

text \<open>The blocks a coroutine owns: itself, its context, its saved stack.\<close>

definition owned :: "'e coroutine \<Rightarrow> nat" where
  "owned c = 1 + of_bool (cctx c) + of_bool (cstack c \<noteq> None)"

definition co_delete :: "nat \<Rightarrow> 'e coroutine \<Rightarrow> 'e co_env \<Rightarrow> 'e co_env" where
  "co_delete cid c env = env\<lparr>blocks := blocks env - int (owned c), co := (co env)[cid := None]\<rparr>"

fun close_loop :: "nat \<Rightarrow> 'e co_env \<Rightarrow> 'e co_env" where
  "close_loop 0 env = env"
| "close_loop (Suc n) env =
     (let i = cap env - Suc n
      in close_loop n (case co env ! i of None \<Rightarrow> env | Some c \<Rightarrow> co_delete i c env))"

text \<open>\<open>co_close\<close> releases the coroutines, then the array, the main context and the environment.\<close>

definition co_close :: "'e co_env option \<Rightarrow> 'e co_env option \<times> int" where
  "co_close e = (case e of None \<Rightarrow> (None, 0) | Some env \<Rightarrow> (None, blocks (close_loop (cap env) env) - 3))"

section \<open>Creating a coroutine\<close>

definition co_make :: "'e co_prog \<Rightarrow> 'e co_env \<Rightarrow> 'e coroutine option \<times> 'e co_env" where
  "co_make func env =
     (let (ok, a) = amalloc (amem env)
      in if \<not> ok then (None, env\<lparr>amem := a\<rparr>)
         else let (ok, a) = amalloc a;
                  c = \<lparr>cfunc = func, cctx = ok, status = CO_READY, ccap = 0, csize = 0, cstack = None, frames = []\<rparr>
              in (Some c, env\<lparr>amem := a, blocks := blocks env + int (owned c)\<rparr>))"

function co_new_loop :: "'e coroutine option \<Rightarrow> nat \<Rightarrow> 'e co_env \<Rightarrow> (int \<times> 'e co_env) result" where
  "co_new_loop c i env =
     (if i < cap env
      then let cid = nat ((int i + nco env) AND int (cap env))
           in if cid < length (co env)
              then case co env ! cid of
                     None \<Rightarrow> Inr (int cid, env\<lparr>co := (co env)[cid := c], nco := nco env + 1\<rparr>)
                   | Some _ \<Rightarrow> co_new_loop c (Suc i) env
              else Inl OutOfBounds
      else Inl AssertFail)"
  by pat_completeness auto
termination
  by (relation "measure (\<lambda>(c, i, env). cap env - i)") auto

declare co_new_loop.simps [simp del]

definition co_new :: "'e co_prog \<Rightarrow> 'e co_env \<Rightarrow> (int \<times> 'e co_env) result" where
  "co_new func env =
     (let (c, env) = co_make func env
      in if int (cap env) \<le> nco env
         then let cid = cap env; cp = cid * 2 + 1
              in cassert (IsValidCap cp)
                 (let (ok, a) = amalloc (amem env); env = env\<lparr>amem := a\<rparr>
                  in if \<not> ok then Inr (-1, env)
                     else Inr (int cid, env\<lparr>co := (co env @ replicate (cp - cid) None)[cid := c], cap := cp, nco := nco env + 1\<rparr>))
         else co_new_loop c 0 env)"

section \<open>Running a coroutine\<close>

definition slot :: "nat \<Rightarrow> 'e co_env \<Rightarrow> 'e coroutine result" where
  "slot i env =
     (if i < length (co env) then case co env ! i of None \<Rightarrow> Inl NullDeref | Some c \<Rightarrow> Inr c else Inl OutOfBounds)"

text \<open>
  \<open>save_stack\<close>: the frames from the current position, that of \<open>dummy\<close>, to the top of the shared stack are kept; \<open>bs\<close> is what the stack holds there. The
  first assertion is on the address of the parameter \<open>co\<close>, which lies in the frame of the function, above \<open>dummy\<close>. The saved block has
  the size it was allocated with, and copying more bytes than that into it is an error.
\<close>

definition save_stack :: "u8 list \<Rightarrow> 'e coroutine \<Rightarrow> 'e co_env \<Rightarrow> ('e coroutine \<times> 'e co_env) result" where
  "save_stack bs c env =
     cassert (0 < int (stack_size env) - int (length bs) + 1)
     (cassert (length bs \<le> stack_size env)
       (let (c, env) =
              (if ccap c < length bs
               then let (ok, a) = amalloc (amem env);
                        c' = c\<lparr>ccap := length bs, cstack := (if ok then Some (replicate (length bs) 0) else None)\<rparr>
                    in (c', env\<lparr>amem := a, blocks := blocks env + int (owned c') - int (owned c)\<rparr>)
               else (c, env));
            c = c\<lparr>csize := length bs\<rparr>
        in case cstack c of
             None \<Rightarrow> Inr (c, env)
           | Some s \<Rightarrow>
               if length bs \<le> length s then Inr (c\<lparr>cstack := Some (bs @ drop (length bs) s)\<rparr>, env) else Inl OutOfBounds))"

definition co_swap :: "u8 list \<Rightarrow> 'e co_prog \<Rightarrow> 'e co_env \<Rightarrow> 'e co_env result" where
  "co_swap bs k env =
     (let cid = running_id env
      in cassert (0 \<le> cid)
         (bnd (slot (nat cid) env) (\<lambda>c.
              let env = env\<lparr>running_id := -1, stack := take (stack_size env - length bs) (stack env) @ bs\<rparr>
              in bnd (save_stack bs (c\<lparr>status := CO_SUSPEND, cfunc := k, frames := bs\<rparr>) env) (\<lambda>(c, env).
                 Inr (env\<lparr>co := (co env)[nat cid := Some c]\<rparr>)))))"

text \<open>\<open>co_main\<close>: what follows the coroutine function; \<open>co_run\<close> is the function up to its end or its next suspension.\<close>

definition co_main :: "nat \<Rightarrow> 'e co_env \<Rightarrow> 'e co_env result" where
  "co_main cid env =
     bnd (slot cid env) (\<lambda>c.
     Inr (env\<lparr>co := (co env)[cid := Some (c\<lparr>status := CO_STOPED\<rparr>)], nco := nco env - 1, running_id := -1\<rparr>))"

definition co_id :: "'e co_env \<Rightarrow> int" where
  "co_id env = running_id env"

primrec co_run :: "'e co_prog \<Rightarrow> nat \<Rightarrow> 'e co_env \<Rightarrow> 'e co_env result" where
  "co_run Return cid env = co_main cid env"
| "co_run (Do f k) cid env = co_run k cid (env\<lparr>trace := trace env @ [f (co_id env)]\<rparr>)"
| "co_run (Spawn p k) cid env = bnd (co_new p env) (\<lambda>(_, env). co_run k cid env)"
| "co_run (Swap bs k) cid env = co_swap bs k env"

definition co_resume :: "int \<Rightarrow> 'e co_env \<Rightarrow> (bool \<times> 'e co_env) result" where
  "co_resume i env =
     cassert (running_id env = -1) (cassert (0 \<le> i \<and> i < int (cap env))
       (let cid = nat i
        in if length (co env) \<le> cid then Inl OutOfBounds
           else case co env ! cid of
             None \<Rightarrow> Inr (False, env)
           | Some c \<Rightarrow>
               (case status c of
                  CO_READY \<Rightarrow>
                    if \<not> cctx c then Inl NullDeref
                    else bnd (co_run (cfunc c) cid (env\<lparr>running_id := i, co := (co env)[cid := Some (c\<lparr>status := CO_RUNNING\<rparr>)]\<rparr>))
                           (\<lambda>env. Inr (True, env))
                | CO_SUSPEND \<Rightarrow>
                    (let env = env\<lparr>running_id := i, co := (co env)[cid := Some (c\<lparr>status := CO_RUNNING\<rparr>)]\<rparr>
                     in bnd (case cstack c of
                               None \<Rightarrow> if csize c = 0 then Inr (stack env) else Inl NullDeref
                             | Some s \<Rightarrow>
                                 if csize c \<le> length s \<and> csize c \<le> stack_size env
                                 then Inr (take (stack_size env - csize c) (stack env) @ take (csize c) s)
                                 else Inl OutOfBounds) (\<lambda>st.
                        if drop (stack_size env - length (frames c)) st \<noteq> frames c then Inl BadStack
                        else bnd (co_run (cfunc c) cid (env\<lparr>stack := st\<rparr>)) (\<lambda>env. Inr (True, env))))
                | CO_STOPED \<Rightarrow> Inr (False, co_delete cid c env)
                | _ \<Rightarrow> Inl AssertFail)))"

section \<open>Waiting\<close>

text \<open>
  The work left in an environment: every call of \<open>co_resume\<close> that returns true takes some of it away,
  so the loops of \<open>co_join\<close> and \<open>co_wait\<close> end.
\<close>

primrec prog_work :: "'e co_prog \<Rightarrow> nat" where
  "prog_work Return = 0"
| "prog_work (Do f k) = prog_work k"
| "prog_work (Spawn p k) = Suc (prog_work p) + prog_work k"
| "prog_work (Swap bs k) = Suc (prog_work k)"

definition slot_work :: "'e coroutine option \<Rightarrow> nat" where
  "slot_work s = (case s of None \<Rightarrow> 0 | Some c \<Rightarrow>
     if status c = CO_READY \<or> status c = CO_SUSPEND then Suc (prog_work (cfunc c)) else 0)"

definition work :: "'e co_env \<Rightarrow> nat" where
  "work env = sum_list (map slot_work (co env))"

lemma slot_work_None [simp]: "slot_work None = 0"
  by (simp add: slot_work_def)

lemma sum_list_update_le:
  fixes f :: "'a \<Rightarrow> nat"
  shows "sum_list (map f (xs[i := x])) \<le> sum_list (map f xs) + f x"
  by (induction xs arbitrary: i) (auto split: nat.split simp: add.assoc)

lemma sum_list_update_eq:
  fixes f :: "'a \<Rightarrow> nat"
  shows "i < length xs \<Longrightarrow> sum_list (map f (xs[i := x])) + f (xs ! i) = sum_list (map f xs) + f x"
  by (induction xs arbitrary: i) (auto split: nat.split simp: less_Suc_eq_0_disj)

lemma co_make_work:
  assumes "co_make p env = (c, env')"
  shows "slot_work c \<le> Suc (prog_work p)" and "work env' = work env" and "cap env' = cap env" and "co env' = co env"
  using assms by (auto simp: co_make_def slot_work_def work_def Let_def split: prod.splits if_splits)

lemma co_new_loop_work:
  "co_new_loop c i env = Inr (r, env') \<Longrightarrow> work env' \<le> work env + slot_work c \<and> cap env' = cap env"
proof (induction c i env rule: co_new_loop.induct)
  case (1 c i env)
  from 1(2) show ?case
    using 1(1) sum_list_update_le [of slot_work "co env" _ c]
    by (subst (asm) co_new_loop.simps) (fastforce simp: Let_def work_def split: if_splits option.splits)
qed

lemma co_new_work:
  assumes "co_new p env = Inr (r, env')"
  shows "work env' \<le> work env + Suc (prog_work p)"
proof -
  obtain c env1 where m: "co_make p env = (c, env1)" by fastforce
  note w = co_make_work [OF m]
  show ?thesis
  proof (cases "int (cap env1) \<le> nco env1")
    case True
    let ?xs = "co env1 @ replicate (cap env1 * 2 + 1 - cap env1) None"
    have "sum_list (map slot_work (?xs[cap env1 := c])) \<le> sum_list (map slot_work ?xs) + slot_work c"
      by (rule sum_list_update_le)
    also have "sum_list (map slot_work ?xs) = work env1" by (simp add: work_def sum_list_replicate)
    finally show ?thesis using assms True m w(1,2)
      by (auto simp: co_new_def Let_def cassert_def work_def split: prod.splits if_splits)
  next
    case False
    then show ?thesis using assms m w(1,2) co_new_loop_work [of c 0 env1 r env'] by (simp add: co_new_def)
  qed
qed

lemma save_stack_work:
  assumes "save_stack bs c env = Inr (c', env')"
  shows "co env' = co env" and "status c' = status c" and "cfunc c' = cfunc c" and "cap env' = cap env"
  using assms by (auto simp: save_stack_def cassert_def Let_def split: prod.splits if_splits option.splits)

lemma co_run_work:
  "co_run p i env = Inr env' \<Longrightarrow> work env' \<le> work env + prog_work p"
proof (induction p arbitrary: env)
  case Return
  then obtain c where "slot i env = Inr c" by (auto simp: co_main_def bnd_eq_Inr)
  with Return sum_list_update_le [of slot_work "co env" i "Some (c\<lparr>status := CO_STOPED\<rparr>)"] show ?case
    by (auto simp: co_main_def work_def slot_work_def [of "Some _"])
next
  case (Do f k)
  then show ?case using Do.IH [of "env\<lparr>trace := trace env @ [f (co_id env)]\<rparr>"] by (simp add: work_def)
next
  case (Spawn p k)
  then show ?case using co_new_work [of p env] by (fastforce simp: bnd_eq_Inr)
next
  case (Swap bs k)
  then obtain c c' env1 where c: "slot (nat (running_id env)) env = Inr c"
    "save_stack bs (c\<lparr>status := CO_SUSPEND, cfunc := k, frames := bs\<rparr>)
      (env\<lparr>running_id := -1, stack := take (stack_size env - length bs) (stack env) @ bs\<rparr>) = Inr (c', env1)"
    "env' = env1\<lparr>co := (co env1)[nat (running_id env) := Some c']\<rparr>"
    by (auto simp: co_swap_def Let_def cassert_def bnd_eq_Inr split: if_splits)
  note s = save_stack_work [OF c(2)]
  have "slot_work (Some c') = Suc (prog_work k)" using s by (simp add: slot_work_def)
  then show ?case using sum_list_update_le [of slot_work "co env" "nat (running_id env)" "Some c'"] c(3) s(1)
    by (simp add: work_def)
qed

lemma co_resume_work:
  assumes "co_resume i env = Inr (b, env')"
  shows "if b then work env' < work env else work env' \<le> work env \<and> cap env' = cap env"
proof -
  have i: "0 \<le> i" "nat i < length (co env)" using assms by (auto simp: co_resume_def cassert_def Let_def split: if_splits)
  show ?thesis
  proof (cases "co env ! nat i")
    case None
    then show ?thesis using assms by (auto simp: co_resume_def cassert_def Let_def split: if_splits)
  next
    case (Some c)
    define env1 where "env1 = env\<lparr>running_id := i, co := (co env)[nat i := Some (c\<lparr>status := CO_RUNNING\<rparr>)]\<rparr>"
    have w: "work env1 + slot_work (Some c) = work env"
      using sum_list_update_eq [OF i(2), of slot_work "Some (c\<lparr>status := CO_RUNNING\<rparr>)"] Some
      by (simp add: work_def env1_def slot_work_def [of "Some (_\<lparr>status := _\<rparr>)"])
    have run: "work env' < work env" if "co_run (cfunc c) (nat i) (env1\<lparr>stack := st\<rparr>) = Inr env'"
      "status c = CO_READY \<or> status c = CO_SUSPEND" for st
      using co_run_work [OF that(1)] w that(2) by (auto simp: slot_work_def work_def)
    have same: "env1\<lparr>stack := stack env\<rparr> = env1" by (simp add: env1_def)
    have del: "work (co_delete (nat i) c env) \<le> work env"
      using sum_list_update_le [of slot_work "co env" "nat i" None] by (simp add: co_delete_def work_def)
    show ?thesis
      using assms Some run [of "stack env"] run same del unfolding co_resume_def env1_def [symmetric] Let_def
      by (auto simp: cassert_def bnd_eq_Inr env1_def [symmetric] co_delete_def split: co_state.splits if_splits option.splits)
  qed
qed

function co_join :: "int \<Rightarrow> 'e co_env \<Rightarrow> 'e co_env result" where
  "co_join i env = bnd (co_resume i env) (\<lambda>(b, env). if b then co_join i env else Inr env)"
  by pat_completeness auto
termination
  by (relation "measure (\<lambda>(i, env). work env)") (auto dest: co_resume_work)

declare co_join.simps [simp del]

function wait_pass :: "nat \<Rightarrow> bool \<Rightarrow> 'e co_env \<Rightarrow> (bool \<times> 'e co_env) result" where
  "wait_pass i flag env =
     (if i < cap env
      then bnd (co_resume (int i) env) (\<lambda>(b, env). wait_pass (Suc i) (flag \<or> b) env)
      else Inr (flag, env))"
  by pat_completeness auto
termination
  by (relation "measures [\<lambda>(i, flag, env). work env, \<lambda>(i, flag, env). cap env - i]")
    (auto dest!: co_resume_work split: if_splits)

declare wait_pass.simps [simp del]

lemma wait_pass_work:
  "wait_pass i flag env = Inr (flag', env') \<Longrightarrow>
   work env' \<le> work env \<and> (flag' \<longrightarrow> flag \<or> work env' < work env) \<and> (flag \<longrightarrow> flag')"
proof (induction i flag env rule: wait_pass.induct)
  case (1 i flag env)
  show ?case
  proof (cases "i < cap env")
    case True
    then obtain b env1 where r: "co_resume (int i) env = Inr (b, env1)" "wait_pass (Suc i) (flag \<or> b) env1 = Inr (flag', env')"
      using 1(2) by (subst (asm) wait_pass.simps) (auto simp: bnd_eq_Inr)
    from co_resume_work [OF r(1)] 1(1) [OF True r(1) refl r(2)] show ?thesis by (auto split: if_splits)
  qed (use 1(2) in \<open>auto simp: wait_pass.simps [of i]\<close>)
qed

function co_wait :: "'e co_env \<Rightarrow> 'e co_env result" where
  "co_wait env = bnd (wait_pass 0 False env) (\<lambda>(flag, env). if flag then co_wait env else Inr env)"
  by pat_completeness auto
termination
  by (relation "measure work") (auto dest: wait_pass_work)

declare co_wait.simps [simp del]

end
