(* ===== verification/CoSched.thy ===== *)
theory CoSched
  imports Coroutine
begin

text \<open>
  Correctness of the coroutine library: the invariant of the environment and its preservation, where
  \<open>co_new\<close> places a coroutine, that a resumed coroutine finds its frames, and the order in which
  \<open>co_wait\<close> runs the coroutines.
\<close>

section \<open>The invariant\<close>

primrec prog_fits :: "nat \<Rightarrow> 'e co_prog \<Rightarrow> bool" where
  "prog_fits n Return \<longleftrightarrow> True"
| "prog_fits n (Do f k) \<longleftrightarrow> prog_fits n k"
| "prog_fits n (Spawn p k) \<longleftrightarrow> prog_fits n p \<and> prog_fits n k"
| "prog_fits n (Swap bs k) \<longleftrightarrow> length bs \<le> n \<and> prog_fits n k"

primrec no_spawn :: "'e co_prog \<Rightarrow> bool" where
  "no_spawn Return \<longleftrightarrow> True"
| "no_spawn (Do f k) \<longleftrightarrow> no_spawn k"
| "no_spawn (Spawn p k) \<longleftrightarrow> False"
| "no_spawn (Swap bs k) \<longleftrightarrow> no_spawn k"

definition saved :: "'e coroutine \<Rightarrow> u8 list" where
  "saved c = (case cstack c of None \<Rightarrow> [] | Some s \<Rightarrow> s)"

text \<open>A coroutine of an environment whose shared stack has \<open>n\<close> bytes.\<close>

definition slot_ok :: "nat \<Rightarrow> 'e coroutine \<Rightarrow> bool" where
  "slot_ok n c \<longleftrightarrow> cctx c \<and> prog_fits n (cfunc c) \<and> status c \<noteq> CO_NONE \<and> length (saved c) = ccap c \<and>
     (status c = CO_SUSPEND \<longrightarrow> csize c = length (frames c) \<and> csize c \<le> n \<and> take (csize c) (saved c) = frames c)"

definition slot_live :: "'e coroutine option \<Rightarrow> nat" where
  "slot_live s = (case s of None \<Rightarrow> 0 | Some c \<Rightarrow> of_bool (status c \<noteq> CO_STOPED))"

definition slot_owned :: "'e coroutine option \<Rightarrow> nat" where
  "slot_owned s = (case s of None \<Rightarrow> 0 | Some c \<Rightarrow> owned c)"

text \<open>
  The state of an environment while coroutine \<open>r\<close> runs, or while none does (\<open>r = -1\<close>): the array has
  one entry per unit of capacity, the capacity is one less than a power of two, exactly
  the running coroutine is marked so, \<open>nco\<close> counts the unfinished ones, and the environment
  accounts for all memory.
\<close>

definition env_ok :: "int \<Rightarrow> 'e co_env \<Rightarrow> bool" where
  "env_ok r env \<longleftrightarrow> length (co env) = cap env \<and> (\<exists>k. cap env + 1 = 2 ^ Suc k) \<and> length (stack env) = stack_size env \<and>
     granted (amem env) \<and> running_id env = r \<and>
     (r = -1 \<or> 0 \<le> r \<and> nat r < cap env \<and> co env ! nat r \<noteq> None) \<and>
     (\<forall>i < cap env. \<forall>c. co env ! i = Some c \<longrightarrow> slot_ok (stack_size env) c \<and> (status c = CO_RUNNING \<longleftrightarrow> int i = r)) \<and>
     nco env = int (sum_list (map slot_live (co env))) \<and> blocks env = 3 + int (sum_list (map slot_owned (co env)))"

lemma env_okD:
  assumes "env_ok r env"
  shows "length (co env) = cap env" and "\<exists>k. cap env + 1 = 2 ^ Suc k" and "length (stack env) = stack_size env"
    and "granted (amem env)" and "running_id env = r"
    and "i < cap env \<Longrightarrow> co env ! i = Some c \<Longrightarrow> slot_ok (stack_size env) c"
    and "i < cap env \<Longrightarrow> co env ! i = Some c \<Longrightarrow> status c = CO_RUNNING \<longleftrightarrow> int i = r"
    and "nco env = int (sum_list (map slot_live (co env)))"
    and "blocks env = 3 + int (sum_list (map slot_owned (co env)))"
  using assms unfolding env_ok_def by blast+

lemma env_ok_running: "env_ok r env \<Longrightarrow> r \<noteq> -1 \<Longrightarrow> 0 \<le> r \<and> nat r < cap env \<and> co env ! nat r \<noteq> None"
  by (auto simp: env_ok_def)

text \<open>Replacing one entry of the array.\<close>

lemma env_ok_update:
  assumes "env_ok r env" and "i < cap env" and "r' = -1 \<or> r' = int i" and "r = -1 \<or> r = int i"
    and "\<And>c. s = Some c \<Longrightarrow> slot_ok (stack_size env) c \<and> (status c = CO_RUNNING \<longleftrightarrow> int i = r')"
    and "r' = int i \<Longrightarrow> s \<noteq> None"
    and "env' = env\<lparr>co := (co env)[i := s], running_id := r', stack := st, amem := a, trace := t,
      nco := nco env + int (slot_live s) - int (slot_live (co env ! i)),
      blocks := blocks env + int (slot_owned s) - int (slot_owned (co env ! i))\<rparr>"
    and "length st = stack_size env" and "granted a"
  shows "env_ok r' env'"
proof -
  note ok = env_okD [OF assms(1)]
  have i: "i < length (co env)" using assms(2) ok(1) by simp
  have "int (sum_list (map slot_live ((co env)[i := s]))) + int (slot_live (co env ! i)) = nco env + int (slot_live s)"
    using sum_list_update_eq [OF i, of slot_live s] ok(8) by (simp flip: of_nat_add)
  moreover have "int (sum_list (map slot_owned ((co env)[i := s]))) + int (slot_owned (co env ! i)) = blocks env - 3 + int (slot_owned s)"
    using sum_list_update_eq [OF i, of slot_owned s] ok(9) by (simp flip: of_nat_add)
  moreover have "slot_ok (stack_size env) c \<and> (status c = CO_RUNNING \<longleftrightarrow> int j = r')"
    if "j < cap env" "(co env)[i := s] ! j = Some c" for j c
  proof (cases "j = i")
    case True
    then show ?thesis using that i assms(5) by simp
  next
    case False
    then have "co env ! j = Some c" using that by simp
    with ok(6) [OF that(1) this] ok(7) [OF that(1) this] False assms(3,4) show ?thesis by auto
  qed
  ultimately show ?thesis
    using ok(1,2) i assms(2,3,6,8,9) unfolding env_ok_def assms(7) by auto
qed

section \<open>Opening\<close>

lemma mask_and: "(2 ^ n AND (2 ^ n - 1)) = (0 :: nat)"
  unfolding mask_eq_exp_minus_1 [symmetric] take_bit_eq_mask [symmetric] by (simp add: take_bit_eq_mod)

lemma IsValidCap_exp: "cp + 1 = 2 ^ Suc k \<Longrightarrow> IsValidCap cp"
proof -
  assume *: "cp + 1 = 2 ^ Suc k"
  then have "cp = 2 ^ Suc k - 1" by simp
  moreover have "(2 :: nat) \<le> 2 ^ Suc k" by simp
  then have "0 < cp" using * by linarith
  ultimately show ?thesis using mask_and [of "Suc k"] * unfolding IsValidCap_def by simp
qed

lemma align_loop_exp:
  "n = 2 ^ k \<Longrightarrow> \<exists>m. align_loop c n = 2 ^ m \<and> k \<le> m \<and> c < 2 ^ m \<and> (k < m \<longrightarrow> 2 ^ (m - 1) \<le> c)"
proof (induction c n arbitrary: k rule: align_loop.induct)
  case (1 c n)
  show ?case
  proof (cases "0 < n \<and> n \<le> c")
    case True
    from 1(1) [OF True, of "Suc k"] 1(2) obtain m where m: "align_loop c (n * 2) = 2 ^ m" "Suc k \<le> m" "c < 2 ^ m"
      "Suc k < m \<longrightarrow> 2 ^ (m - 1) \<le> c" by auto
    then have "k < m \<longrightarrow> 2 ^ (m - 1) \<le> c" using 1(2) True by (cases "Suc k = m") auto
    with m True show ?thesis by (auto simp: align_loop.simps [of c n] intro!: exI [of _ m])
  next
    case False
    then have "align_loop c n = n" by (subst align_loop.simps) auto
    with False 1(2) show ?thesis by (intro exI [of _ k]) auto
  qed
qed

lemma align_exp:
  assumes "0 < c"
  obtains k where "align c = Inr (2 ^ Suc k - 1)" and "c \<le> 2 ^ Suc k - 1" and "2 ^ k \<le> c"
proof -
  from align_loop_exp [of 1 0 c] obtain m where m: "align_loop c 1 = 2 ^ m" "c < 2 ^ m" "0 < m \<longrightarrow> 2 ^ (m - 1) \<le> c" by auto
  from m(2) assms obtain k where k: "m = Suc k" by (cases m) auto
  have "IsValidCap (2 ^ Suc k - 1)" by (rule IsValidCap_exp) simp
  with m k show thesis by (intro that [of k]) (auto simp: align_def Let_def)
qed

lemma start_cap:
  obtains k cp where
    "(if c = 0 then cassert (IsValidCap DEFAULT_COROUTINE) (Inr DEFAULT_COROUTINE) else align c) = Inr cp"
    and "cp + 1 = 2 ^ Suc k" and "c \<le> cp" and "c = 0 \<longrightarrow> cp = 15" and "0 < c \<longrightarrow> cp < 2 * c"
proof (cases "c = 0")
  case True
  have "IsValidCap 15" by (rule IsValidCap_exp [of _ 3]) simp
  with True show thesis by (intro that [of 15 3]) (simp_all add: DEFAULT_COROUTINE_def)
next
  case False
  then obtain k where "align c = Inr (2 ^ Suc k - 1)" "c \<le> 2 ^ Suc k - 1" "2 ^ k \<le> c" by (auto elim: align_exp)
  with False show thesis by (intro that [of "2 ^ Suc k - 1" k]) auto
qed

lemma co_open_ok:
  assumes "granted a"
  obtains env a' where "co_open c sz a = Inr (Some env, a')" and "env_ok (-1) env" and "trace env = []"
    and "co env = replicate (cap env) None" and "c \<le> cap env" and "c = 0 \<longrightarrow> cap env = 15" and "0 < c \<longrightarrow> cap env < 2 * c"
    and "stack_size env = unat (ALIGN (if sz = 0 then STACK_SIZE else sz) 8)"
proof (rule start_cap [of c])
  fix k cp
  assume cp: "(if c = 0 then cassert (IsValidCap DEFAULT_COROUTINE) (Inr DEFAULT_COROUTINE) else align c) = Inr cp"
    "cp + 1 = 2 ^ Suc k" "c \<le> cp" "c = 0 \<longrightarrow> cp = 15" "0 < c \<longrightarrow> cp < 2 * c"
  define n where "n = unat (ALIGN (if sz = 0 then STACK_SIZE else sz) 8)"
  define a' where "a' = a\<lparr>acount := Suc (Suc (Suc (acount a)))\<rparr>"
  let ?env = "\<lparr>nco = 0, cap = cp, running_id = -1, co = replicate cp None, stack_size = n, stack = replicate n 0,
      blocks = 3, amem = a', trace = []\<rparr>"
  have "co_open c sz a = Inr (Some ?env, a')"
    using assms cp(1) by (simp add: co_open_def Let_def amalloc_granted n_def a'_def)
  moreover have "env_ok (-1) ?env" unfolding env_ok_def using assms cp(2)
    by (auto simp: slot_live_def slot_owned_def sum_list_replicate a'_def intro: exI [of _ k])
  ultimately show thesis by (rule that) (use cp(3-5) n_def in auto)
qed

section \<open>Creating a coroutine: laws\<close>

definition fresh :: "'e co_prog \<Rightarrow> 'e coroutine" where
  "fresh p = \<lparr>cfunc = p, cctx = True, status = CO_READY, ccap = 0, csize = 0, cstack = None, frames = []\<rparr>"

lemma fresh_slot [simp]: "slot_live (Some (fresh p)) = 1" "slot_owned (Some (fresh p)) = 2"
  "slot_live None = 0" "slot_owned None = 0"
  by (simp_all add: fresh_def slot_live_def slot_owned_def owned_def)

lemma fresh_ok: "prog_fits n p \<Longrightarrow> slot_ok n (fresh p)"
  by (simp add: fresh_def slot_ok_def saved_def)

lemma fresh_fields [simp]: "status (fresh p) = CO_READY" "cfunc (fresh p) = p"
  by (simp_all add: fresh_def)

lemma co_make_granted:
  "granted (amem env) \<Longrightarrow> co_make p env =
    (Some (fresh p), env\<lparr>amem := amem env\<lparr>acount := Suc (Suc (acount (amem env)))\<rparr>, blocks := blocks env + 2\<rparr>)"
  by (simp add: co_make_def amalloc_granted fresh_def owned_def)

lemma and_cap: "cp + 1 = 2 ^ k \<Longrightarrow> j \<le> cp \<Longrightarrow> nat (int j AND int cp) = j"
proof -
  assume *: "cp + 1 = 2 ^ k" "j \<le> cp"
  have k: "int cp + 1 = 2 ^ k" using arg_cong [OF *(1), of int] by simp
  then have "int cp = mask k" by (simp add: mask_eq_exp_minus_1)
  moreover have "take_bit k (int j) = int j" using *(1,2) by (simp add: take_bit_int_eq_self_iff)
  ultimately show ?thesis by (simp flip: take_bit_eq_mask)
qed

text \<open>
  The search for a free entry starts at \<open>nco\<close>. Without one from there on it reads behind the
  array; only when \<open>nco\<close> is 0 has it seen all entries.
\<close>

lemma co_new_loop_find:
  assumes "cap env + 1 = 2 ^ k" and "length (co env) = cap env" and "nco env = int m" and "i + m \<le> cap env"
  shows "co_new_loop c i env =
    (case List.find (\<lambda>j. co env ! j = None) [i + m..<cap env] of
       Some j \<Rightarrow> Inr (int j, env\<lparr>co := (co env)[j := c], nco := nco env + 1\<rparr>)
     | None \<Rightarrow> Inl (if m = 0 then AssertFail else OutOfBounds))"
  using assms(4)
proof (induction "cap env - i" arbitrary: i)
  case 0
  then have "i = cap env" "m = 0" by auto
  then show ?case by (subst co_new_loop.simps) simp
next
  case (Suc n)
  then have i: "i < cap env" by simp
  have id: "nat ((int i + nco env) AND int (cap env)) = i + m"
    using and_cap [OF assms(1) Suc.prems] assms(3) by simp
  show ?case
  proof (cases "i + m < cap env")
    case True
    then have u: "[i + m..<cap env] = (i + m) # [Suc i + m..<cap env]" by (simp add: upt_conv_Cons)
    show ?thesis
      using Suc.hyps(1) [of "Suc i"] Suc.hyps(2) True i id assms(2) unfolding u
      by (subst co_new_loop.simps) (auto simp: Let_def split: option.split)
  next
    case False
    then have "m \<noteq> 0" using i by simp
    with False show ?thesis using i id assms(2) Suc.prems by (subst co_new_loop.simps) (simp add: Let_def)
  qed
qed

lemma sum_list_le_length:
  fixes f :: "'a \<Rightarrow> nat"
  shows "(\<And>x. f x \<le> 1) \<Longrightarrow> sum_list (map f xs) \<le> length xs"
proof (induction xs)
  case (Cons x xs)
  then have "f x \<le> 1" "sum_list (map f xs) \<le> length xs" by auto
  then show ?case by simp
qed simp

lemma slot_live_le: "slot_live s \<le> 1"
  by (auto simp: slot_live_def split: option.split)

lemma env_ok_nco:
  assumes "env_ok r env"
  obtains m where "nco env = int m" and "m \<le> cap env"
  using env_okD(1,8) [OF assms] sum_list_le_length [of slot_live "co env", OF slot_live_le] that by metis

text \<open>What \<open>co_new\<close> does: the entry it takes, or how it fails.\<close>

definition new_place :: "'e co_env \<Rightarrow> nat result" where
  "new_place env =
     (if int (cap env) \<le> nco env then Inr (cap env)
      else case List.find (\<lambda>j. co env ! j = None) [nat (nco env)..<cap env] of
             Some j \<Rightarrow> Inr j | None \<Rightarrow> Inl (if nco env = 0 then AssertFail else OutOfBounds))"

definition placed :: "'e co_prog \<Rightarrow> nat \<Rightarrow> 'e co_env \<Rightarrow> 'e co_env" where
  "placed p j env =
     (let grown = j = cap env
      in env\<lparr>amem := amem env\<lparr>acount := acount (amem env) + (if grown then 3 else 2)\<rparr>, blocks := blocks env + 2, nco := nco env + 1,
           cap := (if grown then 2 * j + 1 else cap env),
           co := (if grown then co env @ Some (fresh p) # replicate j None else (co env)[j := Some (fresh p)])\<rparr>)"

lemma co_new_place:
  assumes "env_ok r env"
  shows "co_new p env = bnd (new_place env) (\<lambda>j. Inr (int j, placed p j env))"
proof -
  note ok = env_okD [OF assms]
  obtain m where m: "nco env = int m" "m \<le> cap env" by (rule env_ok_nco [OF assms])
  from ok(2) obtain k where k: "cap env + 1 = 2 ^ Suc k" ..
  show ?thesis
  proof (cases "int (cap env) \<le> nco env")
    case True
    have v: "IsValidCap (cap env * 2 + 1)" by (rule IsValidCap_exp [of _ "Suc k"]) (use k in simp)
    have e: "cap env * 2 + 1 - cap env = Suc (cap env)" by simp
    show ?thesis using True v ok(1,4)
      by (simp add: co_new_def co_make_granted Let_def amalloc_granted new_place_def placed_def e list_update_append mult.commute eval_nat_numeral)
  next
    case False
    define env1 where "env1 = env\<lparr>amem := amem env\<lparr>acount := Suc (Suc (acount (amem env)))\<rparr>, blocks := blocks env + 2\<rparr>"
    have "co_new p env = co_new_loop (Some (fresh p)) 0 env1"
      using False ok(4) by (simp add: co_new_def co_make_granted env1_def)
    also have "\<dots> = (case List.find (\<lambda>j. co env ! j = None) [m..<cap env] of
       Some j \<Rightarrow> Inr (int j, env1\<lparr>co := (co env1)[j := Some (fresh p)], nco := nco env1 + 1\<rparr>)
     | None \<Rightarrow> Inl (if m = 0 then AssertFail else OutOfBounds))"
      using co_new_loop_find [of env1 "Suc k" m 0 "Some (fresh p)"] k ok(1) m by (simp add: env1_def)
    finally have run: "co_new p env = (case List.find (\<lambda>j. co env ! j = None) [m..<cap env] of
       Some j \<Rightarrow> Inr (int j, env1\<lparr>co := (co env1)[j := Some (fresh p)], nco := nco env1 + 1\<rparr>)
     | None \<Rightarrow> Inl (if m = 0 then AssertFail else OutOfBounds))" .
    have place: "new_place env = (case List.find (\<lambda>j. co env ! j = None) [m..<cap env] of
       Some j \<Rightarrow> Inr j | None \<Rightarrow> Inl (if m = 0 then AssertFail else OutOfBounds))"
      using False m by (simp add: new_place_def)
    show ?thesis
    proof (cases "List.find (\<lambda>j. co env ! j = None) [m..<cap env]")
      case None
      then show ?thesis using run place by simp
    next
      case (Some j)
      then have "j < cap env" by (auto simp: find_Some_iff)
      then show ?thesis using run place Some by (simp add: placed_def env1_def)
    qed
  qed
qed

lemma new_place_less:
  "new_place env = Inr j \<Longrightarrow> j < cap env \<and> co env ! j = None \<or> j = cap env"
  by (auto simp: new_place_def find_Some_iff split: if_splits option.splits)

lemma env_ok_placed:
  assumes ok: "env_ok r env" and fits: "prog_fits (stack_size env) p" and j: "new_place env = Inr j"
  shows "env_ok r (placed p j env)"
proof (cases "j = cap env")
  case True
  note d = env_okD [OF ok]
  from d(2) obtain k where k: "cap env + 1 = 2 ^ Suc k" ..
  have c2: "\<exists>k. 2 * cap env + 1 + 1 = 2 ^ Suc k" by (rule exI [of _ "Suc k"]) (use k in simp)
  have "slot_ok (stack_size env) c \<and> (status c = CO_RUNNING \<longleftrightarrow> int i = r)"
    if "(co env @ Some (fresh p) # replicate (cap env) None) ! i = Some c" "i < 2 * cap env + 1" for i c
  proof (cases "i < cap env")
    case True
    then have "co env ! i = Some c" using that d(1) by (simp add: nth_append)
    with d(6,7) True show ?thesis by blast
  next
    case False
    then have "i = cap env" "c = fresh p" using that d(1) by (auto simp: nth_append nth_Cons split: nat.splits if_splits)
    then show ?thesis using fresh_ok [OF fits] env_ok_running [OF ok] by auto
  qed
  then show ?thesis
    using ok c2 d(1) unfolding env_ok_def placed_def Let_def True
    by (simp add: sum_list_replicate) (auto simp: nth_append)
next
  case False
  then have j: "j < cap env" "co env ! j = None" using new_place_less [OF j] by auto
  note d = env_okD [OF ok]
  have jl: "j < length (co env)" using j d(1) by simp
  have "slot_ok (stack_size env) c \<and> (status c = CO_RUNNING \<longleftrightarrow> int i = r)"
    if "(co env)[j := Some (fresh p)] ! i = Some c" "i < cap env" for i c
  proof (cases "i = j")
    case True
    then have "c = fresh p" using that jl by simp
    with True j show ?thesis using fresh_ok [OF fits] env_ok_running [OF ok] by auto
  next
    case False
    then have "co env ! i = Some c" using that by simp
    with d(6,7) that(2) show ?thesis by blast
  qed
  then show ?thesis
    using ok False j jl sum_list_update_eq [OF jl, of slot_live "Some (fresh p)"] sum_list_update_eq [OF jl, of slot_owned "Some (fresh p)"]
    unfolding env_ok_def placed_def Let_def by (auto simp: nth_list_update)
qed

section \<open>Running: laws\<close>

lemma slot_at: "env_ok r env \<Longrightarrow> i < cap env \<Longrightarrow> co env ! i = Some c \<Longrightarrow> slot i env = Inr c"
  by (simp add: slot_def env_okD(1))

lemma running_slot:
  assumes "env_ok (int i) env"
  obtains c where "i < cap env" and "co env ! i = Some c" and "slot i env = Inr c" and "slot_ok (stack_size env) c"
    and "status c = CO_RUNNING"
proof -
  have i: "i < cap env" "co env ! i \<noteq> None" using env_ok_running [OF assms] by auto
  then obtain c where c: "co env ! i = Some c" by blast
  with env_okD(6,7) [OF assms i(1) c] show thesis using that i slot_at [OF assms i(1) c] by blast
qed

lemma save_stack_ok:
  assumes "length bs \<le> stack_size env" and "length (saved c) = ccap c" and "granted (amem env)"
  obtains c' a where "save_stack bs c env = Inr (c', env\<lparr>amem := a, blocks := blocks env + int (owned c') - int (owned c)\<rparr>)"
    and "granted a" and "status c' = status c" and "cfunc c' = cfunc c" and "cctx c' = cctx c" and "frames c' = frames c"
    and "csize c' = length bs" and "take (length bs) (saved c') = bs" and "length (saved c') = ccap c'"
proof (cases "ccap c < length bs")
  case True
  then show thesis using assms
    by (intro that [of "c\<lparr>ccap := length bs, csize := length bs, cstack := Some bs\<rparr>" "amem env\<lparr>acount := Suc (acount (amem env))\<rparr>"])
      (auto simp: save_stack_def Let_def amalloc_granted owned_def saved_def)
next
  case False
  show thesis
  proof (cases "cstack c")
    case None
    then have "bs = []" using False assms(2) by (simp add: saved_def)
    with False None show thesis using assms
      by (intro that [of "c\<lparr>csize := 0, cstack := None\<rparr>" "amem env"]) (auto simp: save_stack_def Let_def saved_def owned_def)
  next
    case (Some s)
    with False show thesis using assms
      by (intro that [of "c\<lparr>csize := length bs, cstack := Some (bs @ drop (length bs) s)\<rparr>" "amem env"])
        (auto simp: save_stack_def Let_def saved_def owned_def)
  qed
qed

lemma co_swap_ok:
  assumes ok: "env_ok (int i) env" and len: "length bs \<le> stack_size env" and k: "prog_fits (stack_size env) k"
  obtains c env' where "co_swap bs k env = Inr env'" and "env_ok (-1) env'" and "stack_size env' = stack_size env"
    and "cap env' = cap env" and "trace env' = trace env" and "co env' = (co env)[i := Some c]"
    and "status c = CO_SUSPEND" and "cfunc c = k" and "frames c = bs"
proof -
  obtain c where c: "i < cap env" "co env ! i = Some c" "slot i env = Inr c" "slot_ok (stack_size env) c" "status c = CO_RUNNING"
    by (rule running_slot [OF ok])
  let ?st = "take (stack_size env - length bs) (stack env) @ bs"
  let ?c = "c\<lparr>status := CO_SUSPEND, cfunc := k, frames := bs\<rparr>" and ?env = "env\<lparr>running_id := -1, stack := ?st\<rparr>"
  have s: "length bs \<le> stack_size ?env" "length (saved ?c) = ccap ?c" "granted (amem ?env)"
    using len c(4) env_okD(4) [OF ok] by (simp_all add: slot_ok_def saved_def)
  obtain c' a where sv: "save_stack bs ?c ?env = Inr (c', ?env\<lparr>amem := a, blocks := blocks ?env + int (owned c') - int (owned ?c)\<rparr>)"
    "granted a" "status c' = status ?c" "cfunc c' = cfunc ?c" "cctx c' = cctx ?c" "frames c' = frames ?c"
    "csize c' = length bs" "take (length bs) (saved c') = bs" "length (saved c') = ccap c'"
    by (rule save_stack_ok [OF s])
  define env' where "env' = ?env\<lparr>amem := a, blocks := blocks env + int (owned c') - int (owned c), co := (co env)[i := Some c']\<rparr>"
  have run: "co_swap bs k env = Inr env'"
    using sv(1) c(3) env_okD(5) [OF ok] by (simp add: co_swap_def Let_def env'_def owned_def)
  have "slot_ok (stack_size env) c'" using sv len k c(4) by (simp add: slot_ok_def)
  then have "env_ok (-1) env'"
    by (intro env_ok_update [OF ok c(1), where st = ?st and a = a and t = "trace env" and s = "Some c'"])
      (use sv c len env_okD(3) [OF ok] in \<open>auto simp: env'_def slot_live_def slot_owned_def intro!: co_env.equality\<close>)
  with run show thesis by (rule that) (use sv in \<open>simp_all add: env'_def\<close>)
qed

lemma co_main_ok:
  assumes ok: "env_ok (int i) env"
  obtains c env' where "co_main i env = Inr env'" and "env_ok (-1) env'" and "stack_size env' = stack_size env"
    and "cap env' = cap env" and "trace env' = trace env" and "co env' = (co env)[i := Some c]" and "status c = CO_STOPED"
proof -
  obtain c where c: "i < cap env" "co env ! i = Some c" "slot i env = Inr c" "slot_ok (stack_size env) c" "status c = CO_RUNNING"
    by (rule running_slot [OF ok])
  define env' where "env' = env\<lparr>co := (co env)[i := Some (c\<lparr>status := CO_STOPED\<rparr>)], nco := nco env - 1, running_id := -1\<rparr>"
  have run: "co_main i env = Inr env'" using c(3) by (simp add: co_main_def env'_def)
  have "env_ok (-1) env'"
    by (rule env_ok_update [OF ok c(1), where st = "stack env" and a = "amem env" and t = "trace env" and s = "Some (c\<lparr>status := CO_STOPED\<rparr>)"])
      (use c env_okD(3,4) [OF ok] in \<open>auto simp: env'_def slot_live_def slot_owned_def owned_def slot_ok_def saved_def intro!: co_env.equality\<close>)
  with run show thesis by (rule that [of env' "c\<lparr>status := CO_STOPED\<rparr>"]) (simp_all add: env'_def)
qed

lemma env_ok_trace: "env_ok r (env\<lparr>trace := t\<rparr>) \<longleftrightarrow> env_ok r env"
  by (simp add: env_ok_def)

lemma placed_stack [simp]: "stack_size (placed p j env) = stack_size env" "trace (placed p j env) = trace env"
  by (simp_all add: placed_def Let_def)

lemma co_run_safe:
  assumes "env_ok (int i) env" and "prog_fits (stack_size env) p"
  shows "case co_run p i env of Inr env' \<Rightarrow> env_ok (-1) env' \<and> stack_size env' = stack_size env
    | Inl e \<Rightarrow> \<not> no_spawn p \<and> e \<in> {OutOfBounds, AssertFail}"
  using assms
proof (induction p arbitrary: env)
  case Return
  then show ?case by (elim co_main_ok) simp
next
  case (Do f k)
  from Do.IH [of "env\<lparr>trace := trace env @ [f (co_id env)]\<rparr>"] Do.prems show ?case
    by (simp add: env_ok_trace split: sum.splits)
next
  case (Spawn p k)
  show ?case
  proof (cases "new_place env")
    case (Inl e)
    then show ?thesis using co_new_place [OF Spawn.prems(1), of p]
      by (auto simp: new_place_def split: if_splits option.splits)
  next
    case (Inr j)
    from Spawn.prems(2) have f: "prog_fits (stack_size env) p" "prog_fits (stack_size (placed p j env)) k" by simp_all
    from Spawn.IH(2) [OF env_ok_placed [OF Spawn.prems(1) f(1) Inr] f(2)] Inr co_new_place [OF Spawn.prems(1), of p]
    show ?thesis by (auto split: sum.splits)
  qed
next
  case (Swap bs k)
  then have "length bs \<le> stack_size env" "prog_fits (stack_size env) k" by simp_all
  from co_swap_ok [OF Swap.prems(1) this] obtain env' where
    "co_swap bs k env = Inr env'" "env_ok (-1) env'" "stack_size env' = stack_size env" by metis
  then show ?case by simp
qed

section \<open>Resuming: laws\<close>

text \<open>What a coroutine does from one resumption to the next, and the programs that are left to run.\<close>

primrec segment :: "int \<Rightarrow> 'e co_prog \<Rightarrow> 'e list \<times> 'e co_prog option" where
  "segment r Return = ([], None)"
| "segment r (Do f k) = (f r # fst (segment r k), snd (segment r k))"
| "segment r (Spawn p k) = segment r k"
| "segment r (Swap bs k) = ([], Some k)"

definition todo :: "'e coroutine option \<Rightarrow> 'e co_prog option" where
  "todo s = (case s of None \<Rightarrow> None | Some c \<Rightarrow>
     if status c = CO_READY \<or> status c = CO_SUSPEND then Some (cfunc c) else None)"

lemma co_run_segment:
  assumes "env_ok (int i) env" and "prog_fits (stack_size env) p" and "no_spawn p"
  shows "\<exists>env' c. co_run p i env = Inr env' \<and> env_ok (-1) env' \<and> stack_size env' = stack_size env \<and> cap env' = cap env \<and>
    co env' = (co env)[i := Some c] \<and> todo (Some c) = snd (segment (int i) p) \<and>
    trace env' = trace env @ fst (segment (int i) p)"
  using assms
proof (induction p arbitrary: env)
  case Return
  then obtain c env' where "co_main i env = Inr env'" "env_ok (-1) env'" "stack_size env' = stack_size env"
    "cap env' = cap env" "trace env' = trace env" "co env' = (co env)[i := Some c]" "status c = CO_STOPED" by (elim co_main_ok)
  then show ?case by (intro exI [of _ env'] exI [of _ c]) (simp add: todo_def)
next
  case (Do f k)
  have "co_id env = int i" using env_okD(5) [OF Do.prems(1)] by (simp add: co_id_def)
  with Do.IH [of "env\<lparr>trace := trace env @ [f (co_id env)]\<rparr>"] Do.prems show ?case by (simp add: env_ok_trace)
next
  case (Swap bs k)
  then obtain c env' where "co_swap bs k env = Inr env'" "env_ok (-1) env'" "stack_size env' = stack_size env"
    "cap env' = cap env" "trace env' = trace env" "co env' = (co env)[i := Some c]" "status c = CO_SUSPEND" "cfunc c = k"
    by (elim co_swap_ok [of i env bs k]) auto
  then show ?case by (intro exI [of _ env'] exI [of _ c]) (simp add: todo_def)
qed simp

text \<open>
  The environment in which a ready or suspended coroutine goes on; its frames are back on the shared
  stack.
\<close>

definition entered :: "nat \<Rightarrow> 'e coroutine \<Rightarrow> 'e co_env \<Rightarrow> 'e co_env" where
  "entered i c env = env\<lparr>running_id := int i, co := (co env)[i := Some (c\<lparr>status := CO_RUNNING\<rparr>)],
     stack := (if status c = CO_SUSPEND then take (stack_size env - csize c) (stack env) @ frames c else stack env)\<rparr>"

lemma take_self: "take (length fs) st = fs \<Longrightarrow> length fs \<le> length st"
  by (metis length_take min.cobounded1)

lemma entered_ok:
  assumes ok: "env_ok (-1) env" and i: "i < cap env" and c: "co env ! i = Some c" and todo: "todo (Some c) = Some p"
  shows "env_ok (int i) (entered i c env)" and "prog_fits (stack_size (entered i c env)) p"
    and "co_resume (int i) env = bnd (co_run p i (entered i c env)) (\<lambda>env. Inr (True, env))"
proof -
  note d = env_okD [OF ok]
  have s: "slot_ok (stack_size env) c" using d(6) i c by blast
  have p: "cfunc c = p" "status c = CO_READY \<or> status c = CO_SUSPEND" using todo by (auto simp: todo_def split: if_splits)
  show "prog_fits (stack_size (entered i c env)) p" using s p by (simp add: slot_ok_def entered_def)
  have len: "length (stack (entered i c env)) = stack_size env"
    using s d(3) by (auto simp: entered_def slot_ok_def)
  show "env_ok (int i) (entered i c env)"
    by (rule env_ok_update [OF ok i, where st = "stack (entered i c env)" and a = "amem env" and t = "trace env"
          and s = "Some (c\<lparr>status := CO_RUNNING\<rparr>)"])
      (use s c p d(4) len in \<open>auto simp: entered_def slot_live_def slot_owned_def owned_def slot_ok_def saved_def intro!: co_env.equality\<close>)
  have take: "take (csize c) st = frames c" "csize c \<le> length st" if "cstack c = Some st" "status c = CO_SUSPEND" for st
    using that s take_self [of "frames c" st] by (auto simp: slot_ok_def saved_def)
  have none: "frames c = []" "csize c = 0" if "cstack c = None" "status c = CO_SUSPEND"
    using that s by (auto simp: slot_ok_def saved_def)
  have sz: "csize c \<le> stack_size env" "csize c = length (frames c)" if "status c = CO_SUSPEND"
    using that s by (auto simp: slot_ok_def)
  have same: "env\<lparr>running_id := int i, co := l, stack := stack env\<rparr> = env\<lparr>running_id := int i, co := l\<rparr>" for l
    by simp
  show "co_resume (int i) env = bnd (co_run p i (entered i c env)) (\<lambda>env. Inr (True, env))"
  proof (cases "status c = CO_SUSPEND")
    case True
    show ?thesis
    proof (cases "cstack c")
      case None
      then show ?thesis using none True i c d(1,3,5) p(1) by (simp add: co_resume_def entered_def Let_def)
    next
      case (Some s')
      then show ?thesis using take sz True i c d(1,3,5) p(1) by (simp add: co_resume_def entered_def Let_def)
    qed
  next
    case False
    then show ?thesis using i c d(1,5) p s by (auto simp: co_resume_def entered_def slot_ok_def)
  qed
qed

text \<open>Nothing to do: the entry is empty afterwards.\<close>

lemma co_resume_done:
  assumes ok: "env_ok (-1) env" and i: "i < cap env" and todo: "todo (co env ! i) = None"
  obtains env' where "co_resume (int i) env = Inr (False, env')" and "env_ok (-1) env'" and "cap env' = cap env"
    and "stack_size env' = stack_size env" and "trace env' = trace env" and "co env' = (co env)[i := None]"
proof (cases "co env ! i")
  case None
  have "(co env)[i := None] = co env" using None by (metis list_update_id)
  with None show thesis using that [of env] ok i env_okD(1,5) [OF ok] by (simp add: co_resume_def)
next
  case (Some c)
  note d = env_okD [OF ok]
  have st: "status c = CO_STOPED" using todo Some d(6,7) [OF i Some] by (cases "status c") (auto simp: todo_def slot_ok_def)
  define env' where "env' = co_delete i c env"
  have "co_resume (int i) env = Inr (False, env')" using Some st i d(1,5) by (simp add: co_resume_def env'_def)
  moreover have "env_ok (-1) env'"
    by (rule env_ok_update [OF ok i, where st = "stack env" and a = "amem env" and t = "trace env" and s = None])
      (use Some st d(3-5) in \<open>auto simp: env'_def co_delete_def slot_live_def slot_owned_def intro!: co_env.equality\<close>)
  ultimately show thesis by (rule that) (simp_all add: env'_def co_delete_def)
qed

lemma co_resume_safe:
  assumes ok: "env_ok (-1) env" and i: "i < cap env"
  shows "case co_resume (int i) env of Inr (b, env') \<Rightarrow> env_ok (-1) env' \<and> stack_size env' = stack_size env
    | Inl e \<Rightarrow> e \<in> {OutOfBounds, AssertFail} \<and> (\<exists>p. todo (co env ! i) = Some p \<and> \<not> no_spawn p)"
proof (cases "todo (co env ! i)")
  case None
  show ?thesis by (rule co_resume_done [OF ok i None]) simp
next
  case (Some p)
  then obtain c where c: "co env ! i = Some c" by (auto simp: todo_def split: option.splits)
  note e = entered_ok [OF ok i c Some [unfolded c]]
  from co_run_safe [OF e(1,2)] e(3) Some show ?thesis by (auto simp: entered_def split: sum.splits)
qed

section \<open>Round robin\<close>

text \<open>The visible steps of a coroutine, one list per resumption.\<close>

primrec segs :: "int \<Rightarrow> 'e co_prog \<Rightarrow> 'e list list" where
  "segs r Return = [[]]"
| "segs r (Do f k) = (f r # hd (segs r k)) # tl (segs r k)"
| "segs r (Spawn p k) = segs r k"
| "segs r (Swap bs k) = [] # segs r k"

lemma segs_not_Nil [simp]: "segs r p \<noteq> []"
  by (induction p) auto

lemma segs_segment:
  "segs r p = fst (segment r p) # (case snd (segment r p) of None \<Rightarrow> [] | Some k \<Rightarrow> segs r k)"
  by (induction p) auto

lemma segment_keeps:
  "snd (segment r p) = Some k \<Longrightarrow> no_spawn p \<Longrightarrow> no_spawn k"
  by (induction p) auto

definition slot_segs :: "int \<Rightarrow> 'e co_prog option \<Rightarrow> 'e list list" where
  "slot_segs r t = (case t of None \<Rightarrow> [] | Some p \<Rightarrow> segs r p)"

text \<open>What all coroutines of an environment still have to do, by entry.\<close>

definition agenda :: "'e co_env \<Rightarrow> 'e list list list" where
  "agenda env = map (\<lambda>i. slot_segs (int i) (todo (co env ! i))) [0..<cap env]"

definition plain :: "'e co_env \<Rightarrow> bool" where
  "plain env \<longleftrightarrow> (\<forall>i < cap env. \<forall>p. todo (co env ! i) = Some p \<longrightarrow> no_spawn p)"

lemma agenda_nth [simp]: "i < cap env \<Longrightarrow> agenda env ! i = slot_segs (int i) (todo (co env ! i))"
  and agenda_length [simp]: "length (agenda env) = cap env"
  by (simp_all add: agenda_def)

text \<open>One resumption takes the first list off its entry.\<close>

lemma co_resume_agenda:
  assumes ok: "env_ok (-1) env" and i: "i < cap env" and pl: "plain env"
  shows "\<exists>env'. co_resume (int i) env = Inr (agenda env ! i \<noteq> [], env') \<and> env_ok (-1) env' \<and> plain env' \<and> cap env' = cap env \<and>
    trace env' = trace env @ concat (take 1 (agenda env ! i)) \<and> agenda env' = (agenda env)[i := tl (agenda env ! i)] \<and>
    (\<forall>j. j \<noteq> i \<longrightarrow> co env' ! j = co env ! j) \<and> (agenda env ! i = [] \<longrightarrow> co env' ! i = None)"
proof (cases "todo (co env ! i)")
  case None
  obtain env' where e: "co_resume (int i) env = Inr (False, env')" "env_ok (-1) env'" "cap env' = cap env"
    "stack_size env' = stack_size env" "trace env' = trace env" "co env' = (co env)[i := None]"
    by (rule co_resume_done [OF ok i None])
  have "todo (co env' ! j) = todo (co env ! j)" for j
    using None e(6) i env_okD(1) [OF ok] by (cases "j = i") (auto simp: todo_def)
  then have "agenda env' = agenda env" "plain env'" using e(3) pl by (simp_all add: agenda_def plain_def)
  moreover have "agenda env ! i = []" using None i by (simp add: slot_segs_def)
  moreover have "(agenda env)[i := []] = agenda env" using calculation(3) by (metis list_update_id)
  moreover have "co env' ! i = None" using e(6) i env_okD(1) [OF ok] by simp
  ultimately show ?thesis using e by auto
next
  case (Some p)
  then obtain c where c: "co env ! i = Some c" by (auto simp: todo_def split: option.splits)
  note e = entered_ok [OF ok i c Some [unfolded c]]
  have ns: "no_spawn p" using pl i Some by (simp add: plain_def)
  from co_run_segment [OF e(1,2) ns] obtain env' c' where r: "co_run p i (entered i c env) = Inr env'" "env_ok (-1) env'"
    "cap env' = cap env" "co env' = (co (entered i c env))[i := Some c']" "todo (Some c') = snd (segment (int i) p)"
    "trace env' = trace env @ fst (segment (int i) p)" by (auto simp: entered_def)
  have co: "co env' = (co env)[i := Some c']" using r(4) by (simp add: entered_def)
  have il: "i < length (co env)" using i env_okD(1) [OF ok] by simp
  have a: "agenda env ! i = segs (int i) p" using i Some by (simp add: slot_segs_def)
  have "agenda env' = (agenda env)[i := tl (agenda env ! i)]"
  proof (rule nth_equalityI)
    fix j assume "j < length (agenda env')"
    then show "agenda env' ! j = (agenda env)[i := tl (agenda env ! i)] ! j"
      using r(3,5) co il a segs_segment [of "int i" p] by (cases "j = i") (auto simp: slot_segs_def split: option.split)
  qed (simp add: r(3))
  moreover have "plain env'" unfolding plain_def
  proof (intro allI impI)
    fix j q assume "j < cap env'" "todo (co env' ! j) = Some q"
    then show "no_spawn q" using pl r(3,5) co il ns segment_keeps [of "int i" p q]
      by (cases "j = i") (auto simp: plain_def)
  qed
  moreover have "take 1 (segs (int i) p) = [fst (segment (int i) p)]" using segs_segment [of "int i" p] by simp
  ultimately show ?thesis using e(3) r(1-3,5,6) co il a by auto
qed

lemma wait_pass_agenda:
  assumes "env_ok (-1) env" and "plain env" and "i \<le> cap env"
  shows "\<exists>env'. wait_pass i flag env = Inr (flag \<or> (\<exists>s \<in> set (drop i (agenda env)). s \<noteq> []), env') \<and> env_ok (-1) env' \<and> plain env' \<and>
    cap env' = cap env \<and> trace env' = trace env @ concat (concat (map (take 1) (drop i (agenda env)))) \<and>
    agenda env' = take i (agenda env) @ map tl (drop i (agenda env)) \<and> (\<forall>j < i. co env' ! j = co env ! j) \<and>
    (\<forall>j < cap env. i \<le> j \<longrightarrow> agenda env ! j = [] \<longrightarrow> co env' ! j = None)"
  using assms
proof (induction "cap env - i" arbitrary: i flag env)
  case 0
  then show ?case by (subst wait_pass.simps) simp
next
  case (Suc n)
  then have i: "i < cap env" by simp
  from co_resume_agenda [OF Suc.prems(1) i Suc.prems(2)] obtain env1 where
    r: "co_resume (int i) env = Inr (agenda env ! i \<noteq> [], env1)" "env_ok (-1) env1" "plain env1" "cap env1 = cap env"
      "trace env1 = trace env @ concat (take 1 (agenda env ! i))" "agenda env1 = (agenda env)[i := tl (agenda env ! i)]"
      "\<forall>j. j \<noteq> i \<longrightarrow> co env1 ! j = co env ! j" "agenda env ! i = [] \<longrightarrow> co env1 ! i = None" by blast
  have "n = cap env1 - Suc i" "Suc i \<le> cap env1" using Suc.hyps(2) i r(4) by simp_all
  from Suc.hyps(1) [OF this(1) r(2,3) this(2), of "flag \<or> agenda env ! i \<noteq> []"] obtain env' where
    w: "wait_pass (Suc i) (flag \<or> agenda env ! i \<noteq> []) env1 =
        Inr ((flag \<or> agenda env ! i \<noteq> []) \<or> (\<exists>s \<in> set (drop (Suc i) (agenda env1)). s \<noteq> []), env')" "env_ok (-1) env'" "plain env'"
      "cap env' = cap env1" "trace env' = trace env1 @ concat (concat (map (take 1) (drop (Suc i) (agenda env1))))"
      "agenda env' = take (Suc i) (agenda env1) @ map tl (drop (Suc i) (agenda env1))"
      "\<forall>j < Suc i. co env' ! j = co env1 ! j"
      "\<forall>j < cap env1. Suc i \<le> j \<longrightarrow> agenda env1 ! j = [] \<longrightarrow> co env' ! j = None" by blast
  have d: "drop i (agenda env) = agenda env ! i # drop (Suc i) (agenda env)" 
    by (rule Cons_nth_drop_Suc [symmetric]) (simp add: i)
  have d1: "drop (Suc i) (agenda env1) = drop (Suc i) (agenda env)" using r(6) by simp
  have t1: "take (Suc i) (agenda env1) = take i (agenda env) @ [tl (agenda env ! i)]"
    using r(6) i by (simp add: take_Suc_conv_app_nth)
  have "wait_pass i flag env = wait_pass (Suc i) (flag \<or> agenda env ! i \<noteq> []) env1"
    using i r(1) by (subst wait_pass.simps) simp
  moreover have "\<forall>j < cap env. i \<le> j \<longrightarrow> agenda env ! j = [] \<longrightarrow> co env' ! j = None"
    using w(7,8) r(4,6,8) i by (metis agenda_length le_eq_less_or_eq less_Suc_eq nth_list_update_neq Suc_leI)
  ultimately show ?case using w r d d1 t1 by (intro exI [of _ env']) auto
qed

text \<open>A round of the agenda is a row of its transposition.\<close>

lemma transpose_Nil: "\<forall>s \<in> set xss. s = [] \<Longrightarrow> transpose xss = []"
  by (induction xss) auto

lemma transpose_filter: "transpose (filter (\<lambda>s. s \<noteq> []) xss) = transpose xss"
proof (induction xss)
  case (Cons s xss)
  have "[h. (h # t) \<leftarrow> filter (\<lambda>s. s \<noteq> []) xss] = [h. (h # t) \<leftarrow> xss]"
    "[t. (h # t) \<leftarrow> filter (\<lambda>s. s \<noteq> []) xss] = [t. (h # t) \<leftarrow> xss]"
    by (induction xss) (auto split: list.split)
  with Cons show ?case by (cases s) auto
qed simp

lemma transpose_round:
  assumes "\<exists>s \<in> set xss. s \<noteq> []"
  shows "transpose xss = concat (map (take 1) xss) # transpose (map tl xss)"
  using assms
proof (induction xss)
  case (Cons s xss)
  show ?case
  proof (cases s)
    case s: (Cons x xs)
    have heads: "[h. (h # t) \<leftarrow> xss] = concat (map (take 1) xss)"
      by (induction xss) (auto split: list.split)
    have "filter (\<lambda>s. s \<noteq> []) [t. (h # t) \<leftarrow> xss] = filter (\<lambda>s. s \<noteq> []) (map tl xss)"
      by (induction xss) (auto split: list.split)
    then have "filter (\<lambda>s. s \<noteq> []) (xs # [t. (h # t) \<leftarrow> xss]) = filter (\<lambda>s. s \<noteq> []) (xs # map tl xss)" by simp
    from arg_cong [OF this, of transpose] have "transpose (xs # [t. (h # t) \<leftarrow> xss]) = transpose (xs # map tl xss)"
      unfolding transpose_filter .
    then show ?thesis using s heads by simp
  qed (use Cons in auto)
qed simp

lemma co_wait_agenda:
  assumes "env_ok (-1) env" and "plain env"
  shows "\<exists>env'. co_wait env = Inr env' \<and> env_ok (-1) env' \<and> cap env' = cap env \<and> co env' = replicate (cap env) None \<and>
    trace env' = trace env @ concat (concat (transpose (agenda env)))"
  using assms
proof (induction env rule: co_wait.induct)
  case (1 env)
  from wait_pass_agenda [OF 1(2,3), of 0 False] obtain env1 where
    w: "wait_pass 0 False env = Inr (\<exists>s \<in> set (agenda env). s \<noteq> [], env1)" "env_ok (-1) env1" "plain env1" "cap env1 = cap env"
      "trace env1 = trace env @ concat (concat (map (take 1) (agenda env)))" "agenda env1 = map tl (agenda env)"
      "\<forall>j < cap env. agenda env ! j = [] \<longrightarrow> co env1 ! j = None" by auto
  show ?case
  proof (cases "\<exists>s \<in> set (agenda env). s \<noteq> []")
    case True
    from 1(1) [OF w(1) _ True w(2,3)] obtain env' where e: "co_wait env1 = Inr env'" "env_ok (-1) env'" "cap env' = cap env1"
      "co env' = replicate (cap env1) None" "trace env' = trace env1 @ concat (concat (transpose (agenda env1)))" by blast
    have "co_wait env = Inr env'" using w(1) True e(1) by (subst co_wait.simps) simp
    moreover have "trace env' = trace env @ concat (concat (transpose (agenda env)))"
      using e(5) w(5,6) transpose_round [OF True] by simp
    ultimately show ?thesis using e w(4) by simp
  next
    case False
    have l: "length (co env1) = cap env" using env_okD(1) [OF w(2)] w(4) by simp
    have "co env1 = replicate (cap env) None"
      by (rule nth_equalityI) (use l w(7) False in \<open>auto simp del: agenda_nth\<close>)
    moreover have "co_wait env = Inr env1" using w(1) False by (subst co_wait.simps) simp
    moreover have "concat (concat (map (take 1) (agenda env))) = []" "transpose (agenda env) = []"
      using False transpose_Nil [of "agenda env"] by auto
    ultimately show ?thesis using w by simp
  qed
qed

section \<open>Reachable environments\<close>

lemma todo_simps [simp]: "todo None = None" "todo (Some (fresh p)) = Some p"
  by (simp_all add: todo_def)

text \<open>The environments a program can bring about, seen from the main function; memory does not run out.\<close>

inductive co_reach :: "'e co_env \<Rightarrow> bool" where
  opened: "co_open c sz a = Inr (Some env, a') \<Longrightarrow> granted a \<Longrightarrow> co_reach env"
| created: "co_reach env \<Longrightarrow> prog_fits (stack_size env) p \<Longrightarrow> co_new p env = Inr (i, env') \<Longrightarrow> co_reach env'"
| resumed: "co_reach env \<Longrightarrow> co_resume i env = Inr (b, env') \<Longrightarrow> co_reach env'"

inductive_cases co_reachE: "co_reach env"

lemma co_resume_index: "co_resume i env = Inr x \<Longrightarrow> 0 \<le> i \<and> i < int (cap env)"
  by (auto simp: co_resume_def cassert_def split: if_splits)

lemma co_open_env:
  assumes "granted a" and "co_open c sz a = Inr (Some (env :: 'e co_env), a')"
  shows "env_ok (-1) env"
proof -
  obtain env1 :: "'e co_env" and a1 where "co_open c sz a = Inr (Some env1, a1)" "env_ok (-1) env1"
    by (rule co_open_ok [OF assms(1), of c sz]) blast
  with assms(2) show ?thesis by simp
qed

lemma co_reach_ok: "co_reach env \<Longrightarrow> env_ok (-1) env"
proof (induction rule: co_reach.induct)
  case (opened c sz a env a')
  then show ?case by (intro co_open_env)
next
  case (created env p i env')
  then obtain j where "new_place env = Inr j" "env' = placed p j env"
    using co_new_place [OF created.IH, of p] by (auto simp: bnd_eq_Inr)
  with env_ok_placed [OF created.IH created.hyps(2)] show ?case by simp
next
  case (resumed env i b env')
  have k: "int (nat i) = i" "nat i < cap env" using co_resume_index [OF resumed.hyps(2)] by auto
  from co_resume_safe [OF resumed.IH k(2)] resumed.hyps(2) k(1) show ?case by simp
qed

text \<open>
  C14. The bookkeeping of the coroutine environment is right in every state a program can reach:
  the array has exactly as many entries as the capacity, which is one less than a power of two,
  \<open>nco\<close> is the number of unfinished coroutines, nothing is marked as running while the main
  function runs, and every suspended coroutine has its frames saved.
\<close>

theorem co_env_invariant:
  assumes "co_reach env"
  shows "length (co env) = cap env \<and> (\<exists>k. cap env + 1 = 2 ^ Suc k) \<and> co_id env = -1 \<and>
    nco env = int (length (filter (\<lambda>s. \<exists>c. s = Some c \<and> status c \<noteq> CO_STOPED) (co env))) \<and>
    (\<forall>c. Some c \<in> set (co env) \<longrightarrow> status c \<in> {CO_READY, CO_SUSPEND, CO_STOPED} \<and>
      (status c = CO_SUSPEND \<longrightarrow> csize c = length (frames c) \<and> take (csize c) (saved c) = frames c))"
proof -
  note d = env_okD [OF co_reach_ok [OF assms]]
  have "sum_list (map slot_live xs) = length (filter (\<lambda>s. \<exists>c. s = Some c \<and> status c \<noteq> CO_STOPED) xs)" for xs :: "'a coroutine option list"
    by (induction xs) (auto simp: slot_live_def split: option.split)
  moreover have "status c \<in> {CO_READY, CO_SUSPEND, CO_STOPED} \<and>
      (status c = CO_SUSPEND \<longrightarrow> csize c = length (frames c) \<and> take (csize c) (saved c) = frames c)"
    if "Some c \<in> set (co env)" for c
  proof -
    from that d(1) obtain i where i: "i < cap env" "co env ! i = Some c" by (metis in_set_conv_nth)
    from d(6,7) [OF i] show ?thesis by (cases "status c") (auto simp: slot_ok_def)
  qed
  ultimately show ?thesis using d(1,2,5,8) by (simp add: co_id_def) metis
qed

lemma co_reach_example:
  obtains env :: "'e co_env" where "co_reach env" and "cap env = 15" and "co env = replicate 15 None" and "nco env = 0"
    and "trace env = []" and "stack_size env = 64"
proof -
  have g: "granted \<lparr>acount = 0, arefuse = (\<lambda>_. False)\<rparr>" by (simp add: granted_def)
  obtain env :: "'e co_env" and a' where o: "co_open 0 64 \<lparr>acount = 0, arefuse = (\<lambda>_. False)\<rparr> = Inr (Some env, a')"
    "env_ok (-1) env" "trace env = []" "co env = replicate (cap env) None" "cap env = 15"
    "stack_size env = unat (ALIGN (if (64 :: u64) = 0 then STACK_SIZE else 64) 8)"
    by (rule co_open_ok [OF g, of 0 64]) blast
  have "stack_size env = 64" using o(6) by (simp add: ALIGN_def)
  moreover
  have "nco env = 0" using env_okD(8) [OF o(2)] o(4) by (simp add: slot_live_def sum_list_replicate)
  ultimately show thesis using o co_reach.opened [OF o(1) g] by (intro that) auto
qed

theorem co_env_invariant_witness:
  "\<exists>env :: nat co_env. co_reach env \<and> cap env = 15 \<and> co_id env = -1 \<and> nco env = 0"
proof -
  obtain env :: "nat co_env" where e: "co_reach env" "cap env = 15" "co env = replicate 15 None" "nco env = 0" "trace env = []"
    by (rule co_reach_example)
  from co_env_invariant [OF e(1)] e show ?thesis by blast
qed

text \<open>
  C15. Resuming is safe: in every reachable state and for every valid index, \<open>co_resume\<close> returns, and
  it returns true exactly when the coroutine had something left to do. A resumed coroutine always
  finds its frames on the shared stack, and no null pointer is followed. The only failures come from
  a coroutine that itself creates coroutines: the search of \<open>co_new\<close> for a free entry.
\<close>

theorem co_resume_returns:
  assumes "co_reach env" and "0 \<le> i" and "i < int (cap env)"
  shows "case co_resume i env of
      Inr (b, env') \<Rightarrow> b = (todo (co env ! nat i) \<noteq> None) \<and> co_reach env'
    | Inl e \<Rightarrow> e \<in> {OutOfBounds, AssertFail} \<and> (\<exists>p. todo (co env ! nat i) = Some p \<and> \<not> no_spawn p)"
proof -
  note ok = co_reach_ok [OF assms(1)]
  define k where "k = nat i"
  have k: "i = int k" "k < cap env" using assms(2,3) by (auto simp: k_def)
  have b: "b = (todo (co env ! k) \<noteq> None)" if "co_resume (int k) env = Inr (b, env')" for b env'
  proof (cases "todo (co env ! k)")
    case None
    show ?thesis by (rule co_resume_done [OF ok k(2) None]) (use that None in simp)
  next
    case (Some p)
    then obtain c where c: "co env ! k = Some c" by (auto simp: todo_def split: option.splits)
    have "bnd (co_run p k (entered k c env)) (\<lambda>env. Inr (True, env)) = Inr (b, env')"
      using entered_ok(3) [OF ok k(2) c Some [unfolded c]] that by simp
    then show ?thesis using Some by (auto simp: bnd_eq_Inr)
  qed
  from co_resume_safe [OF ok k(2)] b k(1) co_reach.resumed [OF assms(1)] show ?thesis
    by (auto split: sum.splits prod.splits)
qed

text \<open>An environment with a coroutine that was suspended with three bytes on the stack.\<close>

lemma suspended_example:
  obtains env :: "nat co_env" and c where "co_reach env" and "cap env = 15" and "co env ! 0 = Some c" and "status c = CO_SUSPEND"
    and "frames c = [1, 2, 3]" and "cfunc c = Do (\<lambda>i. 8) Return" and "stack_size env = 64"
proof -
  let ?p = "Swap [1, 2, 3] (Do (\<lambda>i. 8) Return) :: nat co_prog"
  obtain env :: "nat co_env" where e: "co_reach env" "cap env = 15" "co env = replicate 15 None" "nco env = 0" "stack_size env = 64"
    by (rule co_reach_example) blast
  have place: "new_place env = Inr 0" using e by (simp add: new_place_def upt_conv_Cons)
  let ?env = "placed ?p 0 env"
  have n: "co_new ?p env = Inr (0, ?env)" using co_new_place [OF co_reach_ok [OF e(1)], of ?p] place by simp
  have r: "co_reach ?env" by (rule co_reach.created [OF e(1) _ n]) (simp add: e(5))
  have c: "cap ?env = 15" "co ?env ! 0 = Some (fresh ?p)" "stack_size ?env = 64" using e by (simp_all add: placed_def)
  note ent = entered_ok [OF co_reach_ok [OF r], of 0 "fresh ?p" ?p, unfolded c, simplified]
  have i: "env_ok (int 0) (entered 0 (fresh ?p) ?env)" using ent(1) by simp
  obtain c' env' where s: "co_swap [1, 2, 3] (Do (\<lambda>i. 8) Return) (entered 0 (fresh ?p) ?env) = Inr env'" "cap env' = 15"
    "co env' = (co (entered 0 (fresh ?p) ?env))[0 := Some c']" "status c' = CO_SUSPEND" "cfunc c' = Do (\<lambda>i. 8) Return" "frames c' = [1, 2, 3]"
    "stack_size env' = 64"
    by (rule co_swap_ok [OF i, of "[1, 2, 3]" "Do (\<lambda>i. 8) Return"]) (use c in \<open>auto simp: entered_def\<close>)
  have "co_resume 0 ?env = Inr (True, env')" using ent(3) s(1) by simp
  then have "co_reach env'" by (rule co_reach.resumed [OF r])
  moreover have "co env' ! 0 = Some c'" using s(3) env_okD(1) [OF co_reach_ok [OF r]] c(1) by (simp add: entered_def)
  ultimately show thesis using that s by blast
qed

theorem co_resume_returns_witness:
  "\<exists>(env :: nat co_env) c env'. co_reach env \<and> co env ! 0 = Some c \<and> status c = CO_SUSPEND \<and> frames c = [1, 2, 3] \<and>
    co_resume 0 env = Inr (True, env') \<and> co_reach env'"
proof -
  obtain env :: "nat co_env" and c where e: "co_reach env" "cap env = 15" "co env ! 0 = Some c" "status c = CO_SUSPEND" "frames c = [1, 2, 3]"
    "cfunc c = Do (\<lambda>i. 8) Return" by (rule suspended_example)
  have "todo (co env ! 0) = Some (Do (\<lambda>i. 8) Return)" using e by (simp add: todo_def)
  with co_resume_returns [OF e(1), of 0] e show ?thesis by (auto split: sum.splits prod.splits)
qed

text \<open>
  Where \<open>co_new\<close> puts a coroutine. With as many unfinished coroutines as the capacity, the
  array is enlarged and the first new entry is taken. Otherwise the first free entry from \<open>nco\<close> on is
  taken; if there is none, the code reads behind the array (or, with no unfinished coroutine at
  all, ends in its failed assertion), although entries before \<open>nco\<close> may be free.
\<close>

theorem co_new_takes:
  assumes "co_reach env"
  shows "co_new p env =
    (if int (cap env) \<le> nco env then Inr (int (cap env), placed p (cap env) env)
     else case List.find (\<lambda>j. co env ! j = None) [nat (nco env)..<cap env] of
            Some j \<Rightarrow> Inr (int j, placed p j env)
          | None \<Rightarrow> Inl (if nco env = 0 then AssertFail else OutOfBounds))"
  using co_new_place [OF co_reach_ok [OF assms], of p]
  by (auto simp: new_place_def split: option.split)

theorem co_new_takes_witness:
  "\<exists>env :: nat co_env. co_new Return env = Inr (0, placed Return 0 env)"
proof -
  obtain env :: "nat co_env" where e: "co_reach env" "cap env = 15" "co env = replicate 15 None" "nco env = 0" "trace env = []"
    by (rule co_reach_example)
  have "List.find (\<lambda>j. co env ! j = None) [nat (nco env)..<cap env] = Some 0" using e by (simp add: upt_conv_Cons)
  with co_new_takes [OF e(1), of Return] e show ?thesis by auto
qed

text \<open>
  C16. \<open>co_wait\<close> runs all coroutines to their ends, in turn. For coroutines that do not create
  others it returns, every entry of the array is empty afterwards, and the visible steps are
  those of the coroutines taken round by round: in each round every unfinished coroutine goes on, in
  the order of the entries, up to its next \<open>co_swap\<close>.
\<close>

theorem co_wait_round_robin:
  assumes "co_reach env" and "\<forall>i < cap env. \<forall>p. todo (co env ! i) = Some p \<longrightarrow> no_spawn p"
  shows "\<exists>env'. co_wait env = Inr env' \<and> cap env' = cap env \<and> co env' = replicate (cap env) None \<and> nco env' = 0 \<and>
    trace env' = trace env @ concat (concat (transpose
      (map (\<lambda>i. case todo (co env ! i) of None \<Rightarrow> [] | Some p \<Rightarrow> segs (int i) p) [0..<cap env])))"
proof -
  have "plain env" using assms(2) by (simp add: plain_def)
  from co_wait_agenda [OF co_reach_ok [OF assms(1)] this] obtain env' where e: "co_wait env = Inr env'" "env_ok (-1) env'"
    "cap env' = cap env" "co env' = replicate (cap env) None" "trace env' = trace env @ concat (concat (transpose (agenda env)))"
    by blast
  have "nco env' = 0" using env_okD(8) [OF e(2)] e(4) by (simp add: slot_live_def sum_list_replicate)
  with e show ?thesis by (auto simp: agenda_def slot_segs_def)
qed

theorem co_wait_round_robin_witness:
  "\<exists>env env' :: nat co_env. co_new (Do (\<lambda>i. 7) (Swap [] (Do (\<lambda>i. 8) Return))) env = Inr (0, env') \<and>
     (\<exists>env''. co_wait env' = Inr env'' \<and> trace env'' = [7, 8])"
proof -
  obtain env :: "nat co_env" where e: "co_reach env" "cap env = 15" "co env = replicate 15 None" "nco env = 0" "trace env = []"
    by (rule co_reach_example)
  let ?p = "Do (\<lambda>i. 7) (Swap [] (Do (\<lambda>i. 8) Return)) :: nat co_prog"
  have place: "new_place env = Inr 0" using e by (simp add: new_place_def upt_conv_Cons)
  let ?env = "placed ?p 0 env"
  have n: "co_new ?p env = Inr (0, ?env)" using co_new_place [OF co_reach_ok [OF e(1)], of ?p] place by simp
  have r: "co_reach ?env" by (rule co_reach.created [OF e(1) _ n]) simp
  have "replicate 15 (None :: nat coroutine option) = None # replicate 14 None" by (simp flip: replicate_Suc)
  then have c: "cap ?env = 15" "co ?env = Some (fresh ?p) # replicate 14 None" "trace ?env = []"
    using e by (simp_all add: placed_def)
  have t: "todo (co ?env ! i) = (if i = 0 then Some ?p else None)" if "i < 15" for i
    using c(2) that by (cases i) (simp_all add: todo_def)
  have ns: "\<forall>i < cap ?env. \<forall>p. todo (co ?env ! i) = Some p \<longrightarrow> no_spawn p" using t c(1) by simp
  have "\<exists>env''. co_wait ?env = Inr env'' \<and> trace env'' = [7, 8]"
    using co_wait_round_robin [OF r ns] c by (auto simp: upt_rec)
  with n show ?thesis by blast
qed

section \<open>Closing\<close>

lemma close_loop_blocks:
  "length (co env) = cap env \<Longrightarrow> n \<le> cap env \<Longrightarrow>
   blocks (close_loop n env) = blocks env - int (sum_list (map slot_owned (drop (cap env - n) (co env))))"
proof (induction n arbitrary: env)
  case (Suc n)
  let ?i = "cap env - Suc n"
  let ?env = "case co env ! ?i of None \<Rightarrow> env | Some c \<Rightarrow> co_delete ?i c env"
  have i: "?i < length (co env)" "cap env - n = Suc ?i" using Suc.prems by simp_all
  have "drop ?i (co env) = co env ! ?i # drop (cap env - n) (co env)" using Cons_nth_drop_Suc [OF i(1)] i(2) by simp
  moreover have "blocks ?env = blocks env - int (slot_owned (co env ! ?i))" "cap ?env = cap env" "length (co ?env) = length (co env)"
    "drop (cap env - n) (co ?env) = drop (cap env - n) (co env)"
    using i by (auto simp: co_delete_def slot_owned_def split: option.split)
  ultimately show ?case using Suc.IH [of ?env] Suc.prems by (simp add: Let_def)
qed simp

lemma co_close_ok:
  assumes "env_ok (-1) env"
  shows "co_close (Some env) = (None, 0)"
  using close_loop_blocks [OF env_okD(1) [OF assms], of "cap env"] env_okD(9) [OF assms] by (simp add: co_close_def)

text \<open>
  C17. \<open>co_close\<close> returns all memory: whatever coroutines were created, resumed or left suspended, the
  blocks it releases are exactly those the environment owns. Closing without an environment does nothing.
\<close>

theorem co_close_releases:
  "co_close (None :: 'e co_env option) = (None, 0) \<and> (co_reach (env :: 'e co_env) \<longrightarrow> co_close (Some env) = (None, 0))"
  using co_close_ok [OF co_reach_ok, of env] by (simp add: co_close_def)

theorem co_close_releases_witness:
  "\<exists>(env :: nat co_env) c. co env ! 0 = Some c \<and> status c = CO_SUSPEND \<and> frames c = [1, 2, 3] \<and> co_close (Some env) = (None, 0)"
proof -
  obtain env :: "nat co_env" and c where e: "co_reach env" "co env ! 0 = Some c" "status c = CO_SUSPEND" "frames c = [1, 2, 3]"
    by (rule suspended_example)
  from co_close_releases [of env] e show ?thesis by blast
qed

end
