(* ===== verification/CoDemo.thy ===== *)
theory CoDemo
  imports CoSched
begin

text \<open>
  The demonstration program of the coroutine library, \<open>cmake/coroutine/main.c\<close>: ten coroutines
  which print three values each, run by \<open>co_wait\<close>. Every thread of the program has its own
  environment and does the same; one thread is modelled here. A visible step is a line that is printed:
  the identifier of the coroutine and the value. The frames on the stack at each \<open>co_swap\<close> are a parameter.
\<close>

section \<open>The program\<close>

fun foo_loop :: "(nat \<Rightarrow> u8 list) \<Rightarrow> int \<Rightarrow> nat \<Rightarrow> (int \<times> int) co_prog" where
  "foo_loop fr start 0 = Return"
| "foo_loop fr start (Suc n) = Do (\<lambda>i. (i, start + (2 - int n))) (Swap (fr n) (foo_loop fr start n))"

definition foo :: "(nat \<Rightarrow> u8 list) \<Rightarrow> int \<Rightarrow> (int \<times> int) co_prog" where
  "foo fr arg = foo_loop fr arg 3"

fun create_loop :: "(nat \<Rightarrow> u8 list) \<Rightarrow> nat \<Rightarrow> (int \<times> int) co_env \<Rightarrow> (int list \<times> (int \<times> int) co_env) result" where
  "create_loop fr 0 env = Inr ([], env)"
| "create_loop fr (Suc n) env =
     bnd (co_new (foo fr (int (9 - n) * 100)) env) (\<lambda>(i, env).
     bnd (create_loop fr n env) (\<lambda>(ids, env). Inr (i # ids, env)))"

text \<open>The two arrays of \<open>test\<close> are allocated first; without them it returns.\<close>

definition test :: "(nat \<Rightarrow> u8 list) \<Rightarrow> (int \<times> int) co_env \<Rightarrow> (int \<times> int) co_env result" where
  "test fr env =
     (let (ok, a) = amalloc (amem env); env = env\<lparr>amem := a\<rparr>
      in if \<not> ok then Inr env
         else let (ok, a) = amalloc (amem env); env = env\<lparr>amem := a\<rparr>
              in if \<not> ok then Inr env
                 else bnd (create_loop fr 10 env) (\<lambda>(ids, env). co_wait env))"

definition worker :: "(nat \<Rightarrow> u8 list) \<Rightarrow> astate \<Rightarrow> (int \<times> (int \<times> int) list \<times> int) result" where
  "worker fr a =
     bnd (co_open 0 0 a) (\<lambda>(e, a). case e of None \<Rightarrow> Inr (1, [], 0)
       | Some env \<Rightarrow> bnd (test fr env) (\<lambda>env. case co_close (Some env) of (_, left) \<Rightarrow> Inr (0, trace env, left)))"

section \<open>What it prints\<close>

lemma segs_foo: "segs r (foo fr v) = [[(r, v)], [(r, v + 1)], [(r, v + 2)], []]"
  by (simp add: foo_def eval_nat_numeral)

lemma foo_no_spawn: "no_spawn (foo fr v)"
  by (simp add: foo_def eval_nat_numeral)

lemma foo_fits: "\<forall>n. length (fr n) \<le> k \<Longrightarrow> prog_fits k (foo fr v)"
  by (simp add: foo_def eval_nat_numeral)

text \<open>Created one after the other in a fresh environment, coroutines get consecutive entries.\<close>

lemma co_new_next:
  assumes "env_ok (-1) env" and "co env = map (\<lambda>p. Some (fresh p)) ps @ replicate (Suc n) None" and "cap env = length ps + Suc n"
    and "prog_fits (stack_size env) p"
  shows "co_new p env = Inr (int (length ps), placed p (length ps) env)"
    and "co (placed p (length ps) env) = map (\<lambda>p. Some (fresh p)) (ps @ [p]) @ replicate n None"
    and "cap (placed p (length ps) env) = cap env" and "env_ok (-1) (placed p (length ps) env)"
proof -
  have "sum_list (map slot_live (co env)) = length ps"
    unfolding assms(2) by (induction ps) (simp_all add: sum_list_replicate)
  then have n: "nco env = int (length ps)" using env_okD(8) [OF assms(1)] by simp
  have "List.find (\<lambda>j. co env ! j = None) [length ps..<cap env] = Some (length ps)"
  proof -
    have "[length ps..<cap env] = length ps # [Suc (length ps)..<cap env]" using assms(3) by (simp add: upt_conv_Cons del: upt_Suc)
    moreover have "co env ! length ps = None" using assms(2) by (simp add: nth_append)
    ultimately show ?thesis by simp
  qed
  then have place: "new_place env = Inr (length ps)" using n assms(3) by (simp add: new_place_def)
  then show "co_new p env = Inr (int (length ps), placed p (length ps) env)"
    using co_new_place [OF assms(1), of p] by simp
  show "env_ok (-1) (placed p (length ps) env)" by (rule env_ok_placed [OF assms(1,4) place])
  show "co (placed p (length ps) env) = map (\<lambda>p. Some (fresh p)) (ps @ [p]) @ replicate n None"
    and "cap (placed p (length ps) env) = cap env"
    using assms(2,3) by (simp_all add: placed_def Let_def list_update_append)
qed

lemma create_loop_ok:
  assumes "env_ok (-1) env" and "\<forall>k. length (fr k) \<le> stack_size env"
    and "co env = map (\<lambda>p. Some (fresh p)) ps @ replicate (n + m) None" and "cap env = length ps + (n + m)" and "n \<le> 10"
  shows "\<exists>ids env'. create_loop fr n env = Inr (ids, env') \<and> env_ok (-1) env' \<and> cap env' = cap env \<and> trace env' = trace env \<and>
    co env' = map (\<lambda>p. Some (fresh p)) (ps @ map (\<lambda>i. foo fr (int i * 100)) [10 - n..<10]) @ replicate m None"
  using assms
proof (induction n arbitrary: env ps)
  case (Suc n)
  let ?p = "foo fr (int (9 - n) * 100)"
  have e: "co env = map (\<lambda>p. Some (fresh p)) ps @ replicate (Suc (n + m)) None" "cap env = length ps + Suc (n + m)"
    using Suc.prems(3,4) by simp_all
  have f: "prog_fits (stack_size env) ?p" using foo_fits Suc.prems(2) by blast
  note c = co_new_next [OF Suc.prems(1) e f]
  let ?env = "placed ?p (length ps) env"
  have l: "\<forall>k. length (fr k) \<le> stack_size ?env" "cap ?env = length (ps @ [?p]) + (n + m)" "n \<le> 10"
    using c(3) e(2) Suc.prems(2,5) by simp_all
  from Suc.IH [OF c(4) l(1) c(2) l(2,3)] obtain ids env' where r: "create_loop fr n ?env = Inr (ids, env')" "env_ok (-1) env'"
    "cap env' = cap ?env" "trace env' = trace ?env"
    "co env' = map (\<lambda>p. Some (fresh p)) ((ps @ [?p]) @ map (\<lambda>i. foo fr (int i * 100)) [10 - n..<10]) @ replicate m None" by blast
  have u: "[10 - Suc n..<10] = (9 - n) # [10 - n..<10]" 
  proof -
    have "10 - n = Suc (9 - n)" "9 - n < 10" using Suc.prems(5) by simp_all
    then show ?thesis by (simp add: upt_conv_Cons del: upt_Suc)
  qed
  show ?case using c(1,3) r unfolding u by simp
qed auto

lemma stack_default: "unat (ALIGN STACK_SIZE 8) = 1048576"
  by (simp add: ALIGN_def STACK_SIZE_def)

text \<open>
  The demonstration program prints its thirty lines in three rounds: in round \<open>r\<close> every coroutine
  \<open>i\<close> of the ten prints the value \<open>100 * i + r\<close> under its identifier \<open>i\<close>, in the order of the
  identifiers. It ends with result 0 and with all memory of the library released.
\<close>

theorem worker_prints:
  assumes "granted a" and "\<forall>k. length (fr k) \<le> 1048576"
  shows "worker fr a = Inr (0, concat (map (\<lambda>r. map (\<lambda>i. (int i, int i * 100 + int r)) [0..<10]) [0..<3]), 0)"
proof -
  obtain env :: "(int \<times> int) co_env" and a' where o: "co_open 0 0 a = Inr (Some env, a')" "env_ok (-1) env" "trace env = []"
    "co env = replicate (cap env) None" "cap env = 15" "stack_size env = unat (ALIGN (if (0 :: u64) = 0 then STACK_SIZE else 0) 8)"
    by (rule co_open_ok [OF assms(1), of 0 0]) blast
  then have sz: "stack_size env = 1048576" using stack_default by simp
  define env1 where "env1 = env\<lparr>amem := amem env\<lparr>acount := Suc (Suc (acount (amem env)))\<rparr>\<rparr>"
  have g: "granted (amem env)" using env_okD(4) [OF o(2)] .
  have ok1: "env_ok (-1) env1" using o(2) by (simp add: env_ok_def env1_def)
  have t1: "test fr env = bnd (create_loop fr 10 env1) (\<lambda>(ids, env). co_wait env)"
    using g by (simp add: test_def amalloc_granted env1_def)
  from create_loop_ok [OF ok1, of fr "[]" 10 5] o(3-5) sz assms(2) obtain ids env2 where
    c: "create_loop fr 10 env1 = Inr (ids, env2)" "env_ok (-1) env2" "cap env2 = 15" "trace env2 = []"
      "co env2 = map (\<lambda>i. Some (fresh (foo fr (int i * 100)))) [0..<10] @ replicate 5 None"
    by (auto simp: env1_def comp_def)
  have todo: "todo (co env2 ! i) = (if i < 10 then Some (foo fr (int i * 100)) else None)" if "i < 15" for i
    using that c(5) by (simp add: nth_append)
  have pl: "plain env2" using todo c(3) foo_no_spawn by (simp add: plain_def)
  have ag: "agenda env2 = map (\<lambda>i. if i < 10 then [[(int i, int i * 100)], [(int i, int i * 100 + 1)], [(int i, int i * 100 + 2)], []] else []) [0..<15]"
    unfolding agenda_def c(3) by (rule map_cong) (simp_all add: todo slot_segs_def segs_foo)
  from co_wait_agenda [OF c(2) pl] obtain env3 where w: "co_wait env2 = Inr env3" "env_ok (-1) env3"
    "trace env3 = concat (concat (transpose (agenda env2)))" using c(4) by auto
  have "trace env3 = concat (map (\<lambda>r. map (\<lambda>i. (int i, int i * 100 + int r)) [0..<10]) [0..<3])"
    unfolding w(3) ag by (simp add: upt_rec numeral_eq_Suc)
  moreover have "co_close (Some env3) = (None, 0)" by (rule co_close_ok [OF w(2)])
  ultimately show ?thesis using o(1) t1 c(1) w(1) by (simp add: worker_def)
qed

theorem worker_prints_witness:
  "worker (\<lambda>k. []) \<lparr>acount = 0, arefuse = (\<lambda>_. False)\<rparr> =
     Inr (0, concat (map (\<lambda>r. map (\<lambda>i. (int i, int i * 100 + int r)) [0..<10]) [0..<3]), 0)"
  by (rule worker_prints) (simp_all add: granted_def)

section \<open>A creation that fails\<close>

text \<open>Three coroutines in an environment of capacity three; the first ends and its entry is cleared.\<close>

definition overrun_env :: "nat co_env result" where
  "overrun_env =
     bnd (co_open 2 8 \<lparr>acount = 0, arefuse = (\<lambda>_. False)\<rparr>) (\<lambda>(e, _). case e of None \<Rightarrow> Inl NullDeref | Some env \<Rightarrow>
     bnd (co_new Return env) (\<lambda>(_, env). bnd (co_new (Swap [] Return) env) (\<lambda>(_, env). bnd (co_new (Swap [] Return) env) (\<lambda>(_, env).
     bnd (co_resume 0 env) (\<lambda>(_, env). bnd (co_resume 0 env) (\<lambda>(_, env). Inr env))))))"

text \<open>
  A free entry is not found. After three coroutines were created in an environment of capacity
  three and the first has ended and been cleared away, entry 0 is free and two coroutines are
  left; creating another one reads behind the array all the same.
\<close>

theorem co_new_overruns:
  "\<exists>env. overrun_env = Inr env \<and> co env ! 0 = None \<and> nco env = 2 \<and> cap env = 3 \<and> co_new Return env = Inl OutOfBounds"
proof -
  have "case overrun_env of Inl e \<Rightarrow> False | Inr env \<Rightarrow> Option.is_none (co env ! 0) \<and> nco env = 2 \<and> cap env = 3 \<and>
      (case co_new Return env of Inl e \<Rightarrow> e = OutOfBounds | Inr _ \<Rightarrow> False)"
    unfolding overrun_env_def by code_simp
  then show ?thesis by (auto split: sum.splits simp: Option.is_none_def)
qed

end
