(* ===== verification/C11Threads.thy ===== *)
theory C11Threads
  imports CPrelude
begin

text \<open>
  The threads of C11 over those of POSIX, \<open>cmake/coroutine/inc/c11_threads.h\<close>. A call of POSIX that only reports success or an error is
  its result, an argument; the exit values of threads are modelled as POSIX describes them, and its mutexes are a parameter.
\<close>

section \<open>Result codes\<close>

definition thrd_success :: int where "thrd_success = 0"
definition thrd_timedout :: int where "thrd_timedout = 1"
definition thrd_busy :: int where "thrd_busy = 2"
definition thrd_error :: int where "thrd_error = 3"

lemmas thrd_codes = thrd_success_def thrd_timedout_def thrd_busy_def thrd_error_def

definition mtx_recursive :: nat where "mtx_recursive = 1"

text \<open>The errors of POSIX that are looked at, with their numbers in MinGW.\<close>

definition EPERM :: int where "EPERM = 1"
definition EINTR :: int where "EINTR = 4"
definition EBUSY :: int where "EBUSY = 16"
definition ESRCH :: int where "ESRCH = 3"
definition ETIMEDOUT :: int where "ETIMEDOUT = 138"

lemmas errnos = EPERM_def EINTR_def EBUSY_def ESRCH_def ETIMEDOUT_def

definition succeeded :: "int \<Rightarrow> int" where
  "succeeded ret = (if ret = 0 then thrd_success else thrd_error)"

definition timed :: "int \<Rightarrow> int" where
  "timed ret = (if ret = 0 then thrd_success else if ret = ETIMEDOUT then thrd_timedout else thrd_error)"

definition thrd_detach :: "int \<Rightarrow> int" where "thrd_detach ret = succeeded ret"
definition thrd_sleep :: "int \<Rightarrow> int \<Rightarrow> int" where
  "thrd_sleep ret err = (if ret = 0 then 0 else if err = EINTR then -1 else -2)"
definition cnd_init :: "int \<Rightarrow> int" where "cnd_init ret = succeeded ret"
definition cnd_signal :: "int \<Rightarrow> int" where "cnd_signal ret = succeeded ret"
definition cnd_broadcast :: "int \<Rightarrow> int" where "cnd_broadcast ret = succeeded ret"
definition cnd_wait :: "int \<Rightarrow> int" where "cnd_wait ret = succeeded ret"
definition cnd_timedwait :: "int \<Rightarrow> int" where "cnd_timedwait ret = timed ret"
definition tss_create :: "int \<Rightarrow> int" where "tss_create ret = succeeded ret"
definition tss_set :: "int \<Rightarrow> int" where "tss_set ret = succeeded ret"

section \<open>Threads\<close>

text \<open>
  The threads, by number: running, or ended with a pointer of 64 bits. Joining waits until the thread has ended; a thread that does not exist is
  an error.
\<close>

datatype thread = Running | Ended u64

type_synonym threads = "nat \<Rightarrow> thread option"

definition pthread_create :: "nat option \<Rightarrow> threads \<Rightarrow> int \<times> threads" where
  "pthread_create new ts = (case new of None \<Rightarrow> (11, ts) | Some t \<Rightarrow> (0, ts(t \<mapsto> Running)))"

definition thrd_create :: "nat option \<Rightarrow> threads \<Rightarrow> int \<times> threads" where
  "thrd_create new ts = (case pthread_create new ts of (ret, ts) \<Rightarrow> (if ret = 0 then thrd_success else thrd_error, ts))"

definition pthread_exit :: "nat \<Rightarrow> u64 \<Rightarrow> threads \<Rightarrow> threads" where
  "pthread_exit t v ts = ts(t \<mapsto> Ended v)"

text \<open>The number is widened to a pointer with its sign.\<close>

definition thrd_exit :: "nat \<Rightarrow> u32 \<Rightarrow> threads \<Rightarrow> threads" where
  "thrd_exit t res ts = pthread_exit t (scast res) ts"

text \<open>No result means that the call does not return yet.\<close>

definition pthread_join :: "nat \<Rightarrow> u64 \<Rightarrow> threads \<Rightarrow> (int \<times> u64 \<times> threads) option" where
  "pthread_join t old ts =
     (case ts t of None \<Rightarrow> Some (ESRCH, old, ts) | Some Running \<Rightarrow> None | Some (Ended v) \<Rightarrow> Some (0, v, ts(t := None)))"

definition thrd_join :: "nat \<Rightarrow> u32 option \<Rightarrow> threads \<Rightarrow> (int \<times> u32 option \<times> threads) option" where
  "thrd_join t res ts =
     (case pthread_join t 0 ts of None \<Rightarrow> None
      | Some (ret, thread_result, ts) \<Rightarrow>
          Some (if ret = 0 then thrd_success else thrd_error, (case res of None \<Rightarrow> None | Some _ \<Rightarrow> Some (ucast thread_result)), ts))"

lemma ucast_scast_u32: "ucast (scast (x :: u32) :: u64) = x"
  by (rule bit_word_eqI) (simp add: bit_ucast_iff bit_signed_iff)

text \<open>
  A thread that ends with \<open>thrd_exit\<close> gives its number, of whatever sign, to the one that joins it, which also waits for it; joining is
  possible once: a second time it reports an error and stores 0.
\<close>

theorem thrd_join_exit:
  "thrd_create (Some t) ts = (thrd_success, ts(t \<mapsto> Running)) \<and> thrd_join t res (ts(t \<mapsto> Running)) = None \<and>
    thrd_join t (Some old) (thrd_exit t v (ts(t \<mapsto> Running))) = Some (thrd_success, Some v, ts(t := None)) \<and>
    thrd_join t (Some old) (ts(t := None)) = Some (thrd_error, Some 0, ts(t := None))"
  by (simp add: thrd_create_def pthread_create_def thrd_join_def pthread_join_def thrd_exit_def pthread_exit_def ucast_scast_u32 thrd_codes errnos)

section \<open>Mutexes\<close>

text \<open>
  The mutexes of POSIX are a parameter: the calls the wrappers make, on a state of type \<open>'m\<close>, each with its result code. A call
  of \<open>pthread_mutex_lock\<close> without a result has not returned. Threads are numbers.
\<close>

record 'm posix_mutex =
  pthread_mutex_init :: "bool \<Rightarrow> int \<times> 'm"
  pthread_mutex_lock :: "nat \<Rightarrow> 'm \<Rightarrow> (int \<times> 'm) option"
  pthread_mutex_trylock :: "nat \<Rightarrow> 'm \<Rightarrow> int \<times> 'm"
  pthread_mutex_timedlock :: "nat \<Rightarrow> 'm \<Rightarrow> int \<times> 'm"
  pthread_mutex_unlock :: "nat \<Rightarrow> 'm \<Rightarrow> int \<times> 'm"

definition mtx_init :: "'m posix_mutex \<Rightarrow> nat \<Rightarrow> int \<times> 'm" where
  "mtx_init P type = (case pthread_mutex_init P (and type mtx_recursive \<noteq> 0) of (ret, m) \<Rightarrow> (succeeded ret, m))"

definition mtx_lock :: "'m posix_mutex \<Rightarrow> nat \<Rightarrow> 'm \<Rightarrow> (int \<times> 'm) option" where
  "mtx_lock P t m = map_option (\<lambda>(ret, m). (succeeded ret, m)) (pthread_mutex_lock P t m)"

definition mtx_timedlock :: "'m posix_mutex \<Rightarrow> nat \<Rightarrow> 'm \<Rightarrow> int \<times> 'm" where
  "mtx_timedlock P t m = (case pthread_mutex_timedlock P t m of (ret, m) \<Rightarrow> (timed ret, m))"

definition mtx_trylock :: "'m posix_mutex \<Rightarrow> nat \<Rightarrow> 'm \<Rightarrow> int \<times> 'm" where
  "mtx_trylock P t m = (case pthread_mutex_trylock P t m of (ret, m) \<Rightarrow> (if ret = 0 then thrd_success else thrd_busy, m))"

definition mtx_unlock :: "'m posix_mutex \<Rightarrow> nat \<Rightarrow> 'm \<Rightarrow> int \<times> 'm" where
  "mtx_unlock P t m = (case pthread_mutex_unlock P t m of (ret, m) \<Rightarrow> (succeeded ret, m))"

text \<open>
  What POSIX documents of a mutex: its kind, the thread that holds it and how often. A lock that succeeds was
  free, or recursive and held by the caller; a call that fails leaves the mutex as it was. Unlocking is described
  only for the thread that holds the mutex: by any other it is undefined for a mutex of the default kind.
\<close>

record mutex =
  recursive :: bool
  holder :: "nat option"
  depth :: nat

definition locked_by :: "nat \<Rightarrow> mutex \<Rightarrow> mutex" where
  "locked_by t m = m\<lparr>holder := Some t, depth := Suc (depth m)\<rparr>"

definition unlocked :: "mutex \<Rightarrow> mutex" where
  "unlocked m = m\<lparr>holder := (if depth m = 1 then None else holder m), depth := depth m - 1\<rparr>"

definition lock_law :: "('m \<Rightarrow> mutex) \<Rightarrow> nat \<Rightarrow> 'm \<Rightarrow> int \<times> 'm \<Rightarrow> bool" where
  "lock_law v t m x \<longleftrightarrow>
     (if fst x = 0
      then (holder (v m) = None \<or> holder (v m) = Some t \<and> recursive (v m)) \<and> v (snd x) = locked_by t (v m)
      else v (snd x) = v m)"

definition posix_laws :: "'m posix_mutex \<Rightarrow> ('m \<Rightarrow> mutex) \<Rightarrow> bool" where
  "posix_laws P v \<longleftrightarrow>
     (\<forall>k m. pthread_mutex_init P k = (0, m) \<longrightarrow> v m = \<lparr>recursive = k, holder = None, depth = 0\<rparr>) \<and>
     (\<forall>t m x. pthread_mutex_lock P t m = Some x \<longrightarrow> lock_law v t m x) \<and>
     (\<forall>t m. lock_law v t m (pthread_mutex_trylock P t m) \<and> lock_law v t m (pthread_mutex_timedlock P t m)) \<and>
     (\<forall>t m r m'. pthread_mutex_unlock P t m = (r, m') \<and> holder (v m) = Some t \<longrightarrow> v m' = (if r = 0 then unlocked (v m) else v m))"

text \<open>
  Calls by several threads in some order; the log has the calls with their results, and a call that waits is not in it. A thread is
  inside as often as its successful locks exceed its successful unlocks, which is all a caller knows from the
  results; it unlocks only when it is inside.
\<close>

datatype mtx_call = Lock | TryLock | TimedLock | Unlock

fun mtx_step :: "'m posix_mutex \<Rightarrow> nat \<Rightarrow> mtx_call \<Rightarrow> 'm \<Rightarrow> (int \<times> 'm) option" where
  "mtx_step P t Lock m = mtx_lock P t m"
| "mtx_step P t TryLock m = Some (mtx_trylock P t m)"
| "mtx_step P t TimedLock m = Some (mtx_timedlock P t m)"
| "mtx_step P t Unlock m = Some (mtx_unlock P t m)"

definition inside :: "nat \<Rightarrow> (nat \<times> mtx_call \<times> int) list \<Rightarrow> int" where
  "inside t log = int (length (filter (\<lambda>(u, c, r). u = t \<and> c \<noteq> Unlock \<and> r = thrd_success) log)) -
     int (length (filter (\<lambda>(u, c, r). u = t \<and> c = Unlock \<and> r = thrd_success) log))"

inductive mtx_run :: "'m posix_mutex \<Rightarrow> nat \<Rightarrow> (nat \<times> mtx_call \<times> int) list \<Rightarrow> 'm \<Rightarrow> bool" for P type where
  init: "mtx_init P type = (thrd_success, m) \<Longrightarrow> mtx_run P type [] m"
| call: "mtx_run P type log m \<Longrightarrow> mtx_step P t c m = Some (r, m') \<Longrightarrow> c = Unlock \<longrightarrow> 0 < inside t log \<Longrightarrow>
    mtx_run P type (log @ [(t, c, r)]) m'"

lemma inside_snoc:
  "inside t (log @ [(u, c, r)]) = inside t log + (if u = t \<and> r = thrd_success then if c = Unlock then -1 else 1 else 0)"
  by (simp add: inside_def)

lemma posix_lawsD:
  assumes "posix_laws P v"
  shows "pthread_mutex_init P k = (0, m) \<Longrightarrow> v m = \<lparr>recursive = k, holder = None, depth = 0\<rparr>"
    and "pthread_mutex_lock P t m = Some x \<Longrightarrow> lock_law v t m x"
    and "lock_law v t m (pthread_mutex_trylock P t m)"
    and "lock_law v t m (pthread_mutex_timedlock P t m)"
    and "pthread_mutex_unlock P t m = (r, m') \<Longrightarrow> holder (v m) = Some t \<Longrightarrow> v m' = (if r = 0 then unlocked (v m) else v m)"
proof -
  note laws = assms [unfolded posix_laws_def]
  show "pthread_mutex_init P k = (0, m) \<Longrightarrow> v m = \<lparr>recursive = k, holder = None, depth = 0\<rparr>" using laws by blast
  show "pthread_mutex_lock P t m = Some x \<Longrightarrow> lock_law v t m x" using laws by blast
  show "lock_law v t m (pthread_mutex_trylock P t m)" "lock_law v t m (pthread_mutex_timedlock P t m)" using laws by blast+
  show "pthread_mutex_unlock P t m = (r, m') \<Longrightarrow> holder (v m) = Some t \<Longrightarrow> v m' = (if r = 0 then unlocked (v m) else v m)" using laws by blast
qed

lemma mtx_step_lock:
  assumes "posix_laws P v" and "mtx_step P t c m = Some (r, m')" and "c \<noteq> Unlock"
  shows "if r = thrd_success then (holder (v m) = None \<or> holder (v m) = Some t \<and> recursive (v m)) \<and> v m' = locked_by t (v m)
    else v m' = v m"
proof -
  note laws = posix_lawsD [OF assms(1)]
  have "\<exists>ret. (r = thrd_success \<longleftrightarrow> ret = 0) \<and> lock_law v t m (ret, m')"
  proof (cases c)
    case Lock
    then obtain ret where "pthread_mutex_lock P t m = Some (ret, m')" "r = succeeded ret" using assms(2) by (auto simp: mtx_lock_def)
    then show ?thesis using laws(2) by (intro exI [of _ ret]) (simp add: succeeded_def thrd_codes)
  next
    case TryLock
    obtain ret m1 where "pthread_mutex_trylock P t m = (ret, m1)" by fastforce
    then show ?thesis using assms(2) TryLock laws(3) [of t m] by (intro exI [of _ ret]) (simp add: mtx_trylock_def thrd_codes split: if_splits)
  next
    case TimedLock
    obtain ret m1 where "pthread_mutex_timedlock P t m = (ret, m1)" by fastforce
    then show ?thesis using assms(2) TimedLock laws(4) [of t m] by (intro exI [of _ ret]) (simp add: mtx_timedlock_def timed_def thrd_codes split: if_splits)
  qed (use assms(3) in simp)
  then show ?thesis by (auto simp: lock_law_def)
qed

lemma mtx_step_unlock:
  assumes "posix_laws P v" and "mtx_step P t Unlock m = Some (r, m')" and "holder (v m) = Some t"
  shows "v m' = (if r = thrd_success then unlocked (v m) else v m)"
proof -
  obtain ret m1 where u: "pthread_mutex_unlock P t m = (ret, m1)" by fastforce
  then show ?thesis using posix_lawsD(5) [OF assms(1) u assms(3)] assms(2) by (simp add: mtx_unlock_def succeeded_def thrd_codes split: if_splits)
qed

text \<open>
  A caller can go by the results of the wrappers, given what POSIX documents of its mutexes: whatever order several threads call in, if each
  unlocks only when its results say that it is inside, a thread is inside exactly as often as it holds the
  mutex. So two threads are never inside together, and with a mutex that was not initialised as recursive a
  thread is inside at most once.
\<close>

theorem mtx_excludes:
  assumes "posix_laws P v" and "mtx_run P type log m"
  shows "inside t log = (if holder (v m) = Some t then int (depth (v m)) else 0) \<and> (holder (v m) = None \<longleftrightarrow> depth (v m) = 0) \<and>
    recursive (v m) = odd type \<and> (\<not> odd type \<longrightarrow> depth (v m) \<le> 1)"
  using assms(2)
proof (induction arbitrary: t rule: mtx_run.induct)
  case (init m)
  then have "pthread_mutex_init P (odd type) = (0, m)"
    by (simp add: mtx_init_def mtx_recursive_def and_one_eq odd_iff_mod_2_eq_one succeeded_def thrd_codes split: prod.splits if_splits)
  then have "v m = \<lparr>recursive = odd type, holder = None, depth = 0\<rparr>" by (rule posix_lawsD(1) [OF assms(1)])
  then show ?case by (simp add: inside_def)
next
  case (call log m u c r m')
  show ?case
  proof (cases "c = Unlock")
    case True
    then have h: "holder (v m) = Some u" using call.IH [of u] call.hyps(3) by (auto split: if_splits)
    then have "v m' = (if r = thrd_success then unlocked (v m) else v m)" using mtx_step_unlock [OF assms(1)] call.hyps(2) True by blast
    then show ?thesis using call.IH [of t] h True by (auto simp: inside_snoc unlocked_def)
  next
    case False
    from mtx_step_lock [OF assms(1) call.hyps(2) this] show ?thesis
      using call.IH [of t] False by (auto simp: inside_snoc locked_by_def split: if_splits)
  qed
qed

text \<open>A mutex that obeys the laws, and two threads that use it.\<close>

definition plain_lock :: "int \<Rightarrow> nat \<Rightarrow> mutex \<Rightarrow> int \<times> mutex" where
  "plain_lock err t m = (if holder m = None \<or> holder m = Some t \<and> recursive m then (0, locked_by t m) else (err, m))"

definition plain_mutex :: "mutex posix_mutex" where
  "plain_mutex = \<lparr>pthread_mutex_init = (\<lambda>k. (0, \<lparr>recursive = k, holder = None, depth = 0\<rparr>)),
     pthread_mutex_lock = (\<lambda>t m. if fst (plain_lock 1 t m) = 0 then Some (plain_lock 1 t m) else None),
     pthread_mutex_trylock = plain_lock 16, pthread_mutex_timedlock = plain_lock ETIMEDOUT,
     pthread_mutex_unlock = (\<lambda>t m. (0, unlocked m))\<rparr>"

lemma plain_mutex_laws: "posix_laws plain_mutex id"
  by (auto simp: posix_laws_def plain_mutex_def lock_law_def plain_lock_def errnos)

theorem mtx_excludes_witness:
  "\<exists>m. mtx_run plain_mutex 1 [(7, Lock, 0), (7, TryLock, 0), (8, TryLock, 2), (7, Unlock, 0)] m \<and> holder m = Some 7 \<and> depth m = 1 \<and>
    inside 7 [(7, Lock, 0), (7, TryLock, 0), (8, TryLock, 2), (7, Unlock, 0)] = 1"
proof -
  let ?m = "\<lparr>recursive = True, holder = Some 7, depth = 1\<rparr>"
  note defs = mtx_init_def mtx_lock_def mtx_trylock_def mtx_unlock_def plain_mutex_def plain_lock_def locked_by_def unlocked_def succeeded_def
    thrd_codes errnos mtx_recursive_def inside_def
  have "mtx_run plain_mutex 1 [] (?m\<lparr>holder := None, depth := 0\<rparr>)" by (rule mtx_run.init) (simp add: defs)
  from mtx_run.call [OF this, of 7 Lock 0 ?m] have "mtx_run plain_mutex 1 [(7, Lock, 0)] ?m" by (simp add: defs)
  from mtx_run.call [OF this, of 7 TryLock 0 "?m\<lparr>depth := 2\<rparr>"]
  have "mtx_run plain_mutex 1 [(7, Lock, 0), (7, TryLock, 0)] (?m\<lparr>depth := 2\<rparr>)" by (simp add: defs)
  from mtx_run.call [OF this, of 8 TryLock 2 "?m\<lparr>depth := 2\<rparr>"]
  have "mtx_run plain_mutex 1 [(7, Lock, 0), (7, TryLock, 0), (8, TryLock, 2)] (?m\<lparr>depth := 2\<rparr>)" by (simp add: defs)
  from mtx_run.call [OF this, of 7 Unlock 0 ?m]
  have r: "mtx_run plain_mutex 1 [(7, Lock, 0), (7, TryLock, 0), (8, TryLock, 2), (7, Unlock, 0)] ?m" by (simp add: defs)
  from mtx_excludes [OF plain_mutex_laws r, of 7] r show ?thesis by auto
qed

end
