(* ===== verification/CoThreads.thy ===== *)
theory CoThreads
  imports CoDemo C11Threads
begin

text \<open>
  \<open>main\<close> of \<open>cmake/coroutine/main.c\<close>: ten threads which each run \<open>worker\<close> of \<open>CoDemo\<close> in an environment of their own, and are joined. The result of creating a
  thread is not looked at.
\<close>

section \<open>The program\<close>

text \<open>
  The numbers the system gives to new threads are a function, none where creating one fails; such an element of the array of numbers is
  never written.
\<close>

fun create_threads :: "(nat \<Rightarrow> nat option) \<Rightarrow> nat \<Rightarrow> nat \<Rightarrow> threads \<Rightarrow> nat option list \<times> threads" where
  "create_threads new i 0 ts = ([], ts)"
| "create_threads new i (Suc n) ts =
     (case thrd_create (new i) ts of (_, ts) \<Rightarrow>
      case create_threads new (Suc i) n ts of (ids, ts) \<Rightarrow> (new i # ids, ts))"

text \<open>
  The threads end, each with the number its function returned; the function is called through a pointer to one that returns a pointer, of which
  only the lower half is the number.
\<close>

definition end_threads :: "(nat \<Rightarrow> u64) \<Rightarrow> threads \<Rightarrow> threads" where
  "end_threads ret ts t = (case ts t of Some Running \<Rightarrow> Some (Ended (ret t)) | x \<Rightarrow> x)"

text \<open>The loop that joins; it waits as long as a thread runs, which is the result none.\<close>

fun join_threads :: "nat option list \<Rightarrow> threads \<Rightarrow> (u32 list \<times> threads) option result" where
  "join_threads [] ts = Inr (Some ([], ts))"
| "join_threads (None # ids) ts = Inl Uninit"
| "join_threads (Some t # ids) ts =
     (case thrd_join t (Some 0) ts of None \<Rightarrow> Inr None
      | Some (_, res, ts) \<Rightarrow> bnd (join_threads ids ts) (\<lambda>r. Inr (case r of None \<Rightarrow> None | Some (rs, ts) \<Rightarrow> Some (the res # rs, ts))))"

definition threads_main :: "(nat \<Rightarrow> nat option) \<Rightarrow> (nat \<Rightarrow> u64) \<Rightarrow> threads \<Rightarrow> (int \<times> u32 list \<times> threads) option result" where
  "threads_main new ret ts =
     (case create_threads new 0 10 ts of (ids, ts) \<Rightarrow>
      bnd (join_threads ids (end_threads ret ts)) (\<lambda>r. Inr (case r of None \<Rightarrow> None | Some (rs, ts) \<Rightarrow> Some (0, rs, ts))))"

section \<open>Joining\<close>

lemma create_threads_result:
  "create_threads new i n ts = (map new [i..<i + n], \<lambda>t. if Some t \<in> new ` {i..<i + n} then Some Running else ts t)"
proof (induction n arbitrary: i ts)
  case (Suc n)
  have "[i..<i + Suc n] = i # [Suc i..<Suc i + n]" by (simp add: upt_conv_Cons)
  moreover have "{i..<i + Suc n} = insert i {Suc i..<Suc i + n}" by auto
  ultimately show ?case
    by (auto simp: Suc.IH thrd_create_def pthread_create_def fun_eq_iff simp del: upt_Suc split: option.split)
qed simp

lemma join_threads_result:
  assumes "distinct ids" and "\<forall>t \<in> set ids. ts t = Some (Ended (ret t))"
  shows "join_threads (map Some ids) ts = Inr (Some (map (\<lambda>t. ucast (ret t)) ids, \<lambda>t. if t \<in> set ids then None else ts t))"
  using assms
proof (induction ids arbitrary: ts)
  case (Cons t ids)
  have "join_threads (map Some ids) (ts(t := None)) = Inr (Some (map (\<lambda>t. ucast (ret t)) ids, \<lambda>u. if u \<in> set ids then None else (ts(t := None)) u))"
    using Cons.prems by (intro Cons.IH) auto
  then show ?case using Cons.prems by (simp add: thrd_join_def pthread_join_def fun_eq_iff)
qed simp

lemma join_threads_uninit: "None \<in> set ids \<Longrightarrow> join_threads ids ts \<noteq> Inr (Some r)"
proof (induction ids arbitrary: ts r)
  case (Cons x ids)
  then show ?case by (cases x) (auto simp: bnd_eq_Inr split: option.splits prod.splits)
qed simp

section \<open>The program as a whole\<close>

text \<open>
  C18. If all ten threads can be created, the program joins them all and returns 0: none of them is left, the numbers it gets are those the
  threads returned, which are all 0, and each thread has printed its thirty lines in three rounds and released its
  environment. If a thread cannot be created, the program does not return properly: it joins a thread whose number was never
  stored. Memory is available, and the frames fit the stacks.
\<close>

theorem threads_joined:
  assumes "inj_on new {0..<10}" and "\<forall>t. granted (mem t)" and "\<forall>t k. length (fr t k) \<le> 1048576"
    and "\<forall>t r out left. worker (fr t) (mem t) = Inr (r, out, left) \<longrightarrow> ucast (ret t) = (word_of_int r :: u32)"
  shows "if \<forall>i < 10. new i \<noteq> None
    then (\<exists>ts'. threads_main new ret ts = Inr (Some (0, replicate 10 0, ts')) \<and> (\<forall>i < 10. ts' (the (new i)) = None)) \<and>
      (\<forall>t. worker (fr t) (mem t) = Inr (0, concat (map (\<lambda>r. map (\<lambda>i. (int i, int i * 100 + int r)) [0..<10]) [0..<3]), 0))
    else \<forall>r. threads_main new ret ts \<noteq> Inr (Some r)"
proof -
  have w: "worker (fr t) (mem t) = Inr (0, concat (map (\<lambda>r. map (\<lambda>i. (int i, int i * 100 + int r)) [0..<10]) [0..<3]), 0)" for t
    using worker_prints [of "mem t" "fr t"] assms(2,3) by blast
  have z: "ucast (ret t) = (0 :: u32)" for t using assms(4) [rule_format, OF w] by simp
  show ?thesis
  proof (cases "\<forall>i < 10. new i \<noteq> None")
    case True
    let ?ids = "map (the \<circ> new) [0..<10]" and ?ts = "\<lambda>t. if Some t \<in> new ` {0..<10} then Some Running else ts t"
    have m: "map new [0..<10] = map Some ?ids" using True by auto
    have "inj_on the (new ` {0..<10})" using True by (intro inj_onI option.expand) auto
    from comp_inj_on [OF assms(1) this] have "inj_on (the \<circ> new) {0..<10}" .
    then have d: "distinct ?ids" by (simp add: distinct_map)
    have "\<forall>t \<in> set ?ids. end_threads ret ?ts t = Some (Ended (ret t))" using True by (auto simp: end_threads_def image_iff)
    from join_threads_result [OF d this] have j: "join_threads (map Some ?ids) (end_threads ret ?ts) =
      Inr (Some (map (\<lambda>t. ucast (ret t)) ?ids, \<lambda>t. if t \<in> set ?ids then None else end_threads ret ?ts t))" .
    have "threads_main new ret ts = Inr (Some (0, replicate 10 0, \<lambda>t. if t \<in> set ?ids then None else end_threads ret ?ts t))"
      using j by (simp add: threads_main_def create_threads_result m z map_replicate_const)
    moreover have "the (new i) \<in> set ?ids" if "i < 10" for i using that by auto
    ultimately show ?thesis unfolding if_P [OF True] using w by (intro conjI exI [of _ "\<lambda>t. if t \<in> set ?ids then None else end_threads ret ?ts t"] allI impI) (simp_all only: if_True)
  next
    case False
    then obtain i where "i < 10" "new i = None" by blast
    then have "None \<in> set (map new [0..<10])" by (force simp: image_iff)
    then have "join_threads (map new [0..<10]) t \<noteq> Inr (Some r)" for t r by (rule join_threads_uninit)
    then show ?thesis unfolding if_not_P [OF False] by (auto simp: threads_main_def create_threads_result bnd_eq_Inr split: option.splits)
  qed
qed

theorem threads_joined_witness:
  "\<exists>ts'. threads_main (\<lambda>i. Some (i + 1)) (\<lambda>_. 0) Map.empty = Inr (Some (0, replicate 10 0, ts')) \<and> ts' 1 = None"
proof -
  let ?a = "\<lparr>acount = 0, arefuse = (\<lambda>_. False)\<rparr>"
  have "worker (\<lambda>_. []) ?a = Inr (r, out, left) \<longrightarrow> ucast (0 :: u64) = (word_of_int r :: u32)" for r out left
    using worker_prints [of ?a "\<lambda>_. []"] by (simp add: granted_def)
  then have "\<forall>t r out left. worker (\<lambda>_. []) ?a = Inr (r, out, left) \<longrightarrow> ucast (0 :: u64) = (word_of_int r :: u32)" by blast
  moreover have "inj_on (\<lambda>i. Some (i + 1 :: nat)) {0..<10}" "granted ?a" by (simp_all add: inj_on_def granted_def)
  ultimately obtain ts' where "threads_main (\<lambda>i. Some (i + 1)) (\<lambda>_. 0) Map.empty = Inr (Some (0, replicate 10 0, ts'))" "\<forall>i < 10. ts' (i + 1) = None"
    using threads_joined [of "\<lambda>i. Some (i + 1)" "\<lambda>_. ?a" "\<lambda>_ _. []" "\<lambda>_. 0" Map.empty] by auto
  then show ?thesis by (intro exI [of _ ts']) (simp add: spec [of _ 0])
qed

end
