(* ===== verification/CTry.thy ===== *)
theory CTry
  imports CPrelude
begin

text \<open>
  Exceptions by macros, \<open>cmake/c_try_catch/ctry/except.h\<close> and \<open>except.c\<close>, and the program
  \<open>cmake/c_try_catch/main.c\<close>. A statement is a print, a \<open>THROW\<close>, an instruction that faults (a bad access, a division by zero), a
  sequence or a \<open>TRY\<close> block. What \<open>setjmp\<close> stores is the number of its activation; a jump ends the
  execution up to the block with that activation, and is an error if the buffer was never set.
\<close>

section \<open>Statements and state\<close>

definition SIGFPE :: int where "SIGFPE = 8"

definition SIGSEGV :: int where "SIGSEGV = 11"

datatype stmt =
    Skip
  | Print string
  | THROW int
  | Segv
  | Div0
  | Seq stmt stmt
  | TRY stmt clause
and clause =
    CATCH int stmt
  | CATCH_ELSE int stmt stmt
  | EXCEPT stmt

record jump_buffer =
  buf :: "nat option"
  result_of :: int

record tstate =
  bufs :: "jump_buffer list"
  depth :: u32
  marks :: nat
  handlers :: bool
  out :: "string list"

definition start :: tstate where
  "start = \<lparr>bufs = replicate 256 \<lparr>buf = None, result_of = 0\<rparr>, depth = 0, marks = 0, handlers = False, out = []\<rparr>"

definition init_try_catch :: "tstate \<Rightarrow> tstate" where
  "init_try_catch st = st\<lparr>handlers := True\<rparr>"

section \<open>Execution\<close>

datatype outcome = Done | Jumped nat

text \<open>\<open>THROW\<close> and the signal handler \<open>sig\<close>: note the value in the innermost buffer and jump there.\<close>

definition jump :: "int \<Rightarrow> tstate \<Rightarrow> (outcome \<times> tstate) result" where
  "jump x st =
     (let d = depth st - 1
      in if unat d < length (bufs st)
         then let b = bufs st ! unat d
              in case buf b of None \<Rightarrow> Inl BadStack
                 | Some m \<Rightarrow> Inr (Jumped m, st\<lparr>depth := d, bufs := (bufs st)[unat d := b\<lparr>result_of := x\<rparr>]\<rparr>)
         else Inl OutOfBounds)"

definition sig :: "int \<Rightarrow> tstate \<Rightarrow> (outcome \<times> tstate) result" where
  "sig s st = (if s = SIGSEGV \<or> s = SIGFPE then jump s st else Inr (Done, st))"

definition setjmp :: "tstate \<Rightarrow> (nat \<times> tstate) result" where
  "setjmp st =
     (if unat (depth st) < length (bufs st)
      then Inr (marks st, st\<lparr>bufs := (bufs st)[unat (depth st) := (bufs st ! unat (depth st))\<lparr>buf := Some (marks st)\<rparr>],
                  depth := depth st + 1, marks := Suc (marks st)\<rparr>)
      else Inl OutOfBounds)"

definition thrown :: "tstate \<Rightarrow> int result" where
  "thrown st = (if unat (depth st) < length (bufs st) then Inr (result_of (bufs st ! unat (depth st))) else Inl OutOfBounds)"

primrec exec :: "stmt \<Rightarrow> tstate \<Rightarrow> (outcome \<times> tstate) result"
  and handle :: "clause \<Rightarrow> int \<Rightarrow> tstate \<Rightarrow> (outcome \<times> tstate) result" where
  "exec Skip st = Inr (Done, st)"
| "exec (Print s) st = Inr (Done, st\<lparr>out := out st @ [s]\<rparr>)"
| "exec (THROW x) st = jump x st"
| "exec Segv st = (if handlers st then sig SIGSEGV st else Inl Killed)"
| "exec Div0 st = (if handlers st then sig SIGFPE st else Inl Killed)"
| "exec (Seq a b) st =
     bnd (exec a st) (\<lambda>(r, st). case r of Done \<Rightarrow> exec b st | Jumped m \<Rightarrow> Inr (Jumped m, st))"
| "exec (TRY a c) st =
     bnd (setjmp st) (\<lambda>(m, st).
     bnd (exec a st) (\<lambda>(r, st).
     case r of Done \<Rightarrow> Inr (Done, st\<lparr>depth := depth st - 1\<rparr>)
     | Jumped m' \<Rightarrow> if m' = m then bnd (thrown st) (\<lambda>x. handle c x st) else Inr (Jumped m', st)))"
| "handle (CATCH x h) r st = (if r = x then exec h st else Inr (Done, st))"
| "handle (CATCH_ELSE x h e) r st = (if r = x then exec h st else exec e st)"
| "handle (EXCEPT h) r st = exec h st"

section \<open>Exceptions as such\<close>

text \<open>
  What the macros are meant to do: the lines printed and the exception that leaves the statement. An
  exception no clause of the innermost block names is dropped there.
\<close>

primrec meaning :: "stmt \<Rightarrow> string list \<times> int option"
  and caught :: "clause \<Rightarrow> int \<Rightarrow> string list \<times> int option" where
  "meaning Skip = ([], None)"
| "meaning (Print s) = ([s], None)"
| "meaning (THROW x) = ([], Some x)"
| "meaning Segv = ([], Some SIGSEGV)"
| "meaning Div0 = ([], Some SIGFPE)"
| "meaning (Seq a b) =
     (case meaning a of (o1, None) \<Rightarrow> (case meaning b of (o2, e) \<Rightarrow> (o1 @ o2, e)) | (o1, Some x) \<Rightarrow> (o1, Some x))"
| "meaning (TRY a c) =
     (case meaning a of (o1, None) \<Rightarrow> (o1, None) | (o1, Some x) \<Rightarrow> (case caught c x of (o2, e) \<Rightarrow> (o1 @ o2, e)))"
| "caught (CATCH x h) r = (if r = x then meaning h else ([], None))"
| "caught (CATCH_ELSE x h e) r = (if r = x then meaning h else meaning e)"
| "caught (EXCEPT h) r = meaning h"

text \<open>How deep the blocks of a statement are nested.\<close>

primrec nesting :: "stmt \<Rightarrow> nat" and clause_nesting :: "clause \<Rightarrow> nat" where
  "nesting Skip = 0"
| "nesting (Print s) = 0"
| "nesting (THROW x) = 0"
| "nesting Segv = 0"
| "nesting Div0 = 0"
| "nesting (Seq a b) = max (nesting a) (nesting b)"
| "nesting (TRY a c) = max (Suc (nesting a)) (clause_nesting c)"
| "clause_nesting (CATCH x h) = nesting h"
| "clause_nesting (CATCH_ELSE x h e) = max (nesting h) (nesting e)"
| "clause_nesting (EXCEPT h) = nesting h"

section \<open>Refinement\<close>

text \<open>
  Two states that agree on the buffers below the current depth. \<open>ended\<close> relates the execution of a
  statement to its meaning: without an exception the depth is as before; with one, control is at
  the buffer below, which holds the value, or outside the array if there was none.
\<close>

definition kept :: "nat \<Rightarrow> tstate \<Rightarrow> tstate \<Rightarrow> bool" where
  "kept d st st' \<longleftrightarrow> length (bufs st') = 256 \<and> handlers st' = handlers st \<and> marks st \<le> marks st' \<and>
     (\<forall>i < d. buf (bufs st' ! i) = buf (bufs st ! i))"

definition state_ok :: "tstate \<Rightarrow> bool" where
  "state_ok st \<longleftrightarrow> length (bufs st) = 256 \<and> handlers st \<and> unat (depth st) \<le> 256 \<and>
     (\<forall>i < unat (depth st). \<exists>m < marks st. buf (bufs st ! i) = Some m)"

definition ended :: "string list \<times> int option \<Rightarrow> tstate \<Rightarrow> (outcome \<times> tstate) result \<Rightarrow> bool" where
  "ended mn st r \<longleftrightarrow> (case mn of
       (o1, None) \<Rightarrow> \<exists>st'. r = Inr (Done, st') \<and> out st' = out st @ o1 \<and> depth st' = depth st \<and> kept (unat (depth st)) st st'
     | (o1, Some x) \<Rightarrow>
         if depth st = 0 then r = Inl OutOfBounds
         else \<exists>st' m. r = Inr (Jumped m, st') \<and> buf (bufs st ! (unat (depth st) - 1)) = Some m \<and> out st' = out st @ o1 \<and>
                depth st' = depth st - 1 \<and> result_of (bufs st' ! (unat (depth st) - 1)) = x \<and> kept (unat (depth st)) st st')"

lemma unat_pred: "depth st \<noteq> 0 \<Longrightarrow> unat (depth st - 1) = unat (depth st) - 1"
  by (simp add: unat_minus_one)

lemma unat_zero_pred: "unat (-1 :: u32) = 4294967295"
  by (simp add: unsigned_minus_1_eq_mask mask_eq_exp_minus_1)

lemma state_ok_kept:
  assumes "state_ok st" and "kept (unat (depth st)) st st'" and "unat (depth st') \<le> unat (depth st)"
  shows "state_ok st'"
  using assms unfolding state_ok_def kept_def by (smt (verit) le_trans less_le_trans)

lemma kept_trans: "kept d st st1 \<Longrightarrow> kept d' st1 st2 \<Longrightarrow> d' \<le> d \<Longrightarrow> kept d' st st2"
  unfolding kept_def by auto

lemma jump_ended:
  assumes "state_ok st"
  shows "ended ([], Some x) st (jump x st)"
proof (cases "depth st = 0")
  case True
  then show ?thesis using assms by (simp add: ended_def jump_def Let_def state_ok_def unat_zero_pred)
next
  case False
  then have d: "0 < unat (depth st)" by (simp add: unat_gt_0)
  let ?d = "unat (depth st) - 1"
  from assms d obtain m where m: "buf (bufs st ! ?d) = Some m" unfolding state_ok_def by (meson diff_less zero_less_one)
  have l: "?d < 256" "length (bufs st) = 256" using assms d by (auto simp: state_ok_def)
  then have "jump x st = Inr (Jumped m, st\<lparr>depth := depth st - 1, bufs := (bufs st)[?d := (bufs st ! ?d)\<lparr>result_of := x\<rparr>]\<rparr>)"
    using m by (simp add: jump_def Let_def unat_pred [OF False])
  then show ?thesis using False m l by (auto simp: ended_def kept_def nth_list_update)
qed

lemma ended_seq:
  assumes "ended (o1, None) st (Inr (Done, st'))" and "ended (o2, e) st' r"
  shows "ended (o1 @ o2, e) st r"
proof -
  have st': "out st' = out st @ o1" "depth st' = depth st" "kept (unat (depth st)) st st'" using assms(1) by (auto simp: ended_def)
  have k: "kept (unat (depth st)) st st2" if "kept (unat (depth st)) st' st2" for st2 using kept_trans [OF st'(3) that] by simp
  show ?thesis
  proof (cases "e = None \<or> depth st = 0")
    case True
    then show ?thesis using assms(2) st'(1,2) k by (auto simp: ended_def split: option.splits)
  next
    case False
    then have "unat (depth st) - 1 < unat (depth st)" using unat_gt_0 [of "depth st"] by simp
    then have "buf (bufs st' ! (unat (depth st) - 1)) = buf (bufs st ! (unat (depth st) - 1))" using st'(3) by (simp add: kept_def)
    then show ?thesis using False assms(2) st'(1,2) k by (auto simp: ended_def)
  qed
qed

lemma ended_refl: "state_ok st \<Longrightarrow> ended ([], None) st (Inr (Done, st))"
  by (simp add: ended_def kept_def state_ok_def)

lemma ended_print: "state_ok st \<Longrightarrow> ended ([s], None) st (Inr (Done, st\<lparr>out := out st @ [s]\<rparr>))"
  by (simp add: ended_def kept_def state_ok_def)

lemma state_ok_handlers: "state_ok st \<Longrightarrow> handlers st"
  by (simp add: state_ok_def)

lemma ended_ok:
  "state_ok st \<Longrightarrow> ended (o1, None) st (Inr (Done, st')) \<Longrightarrow> state_ok st' \<and> depth st' = depth st"
  by (auto simp: ended_def elim: state_ok_kept)

lemma setjmp_ok:
  assumes "state_ok st" and "unat (depth st) < 256"
  obtains st1 where "setjmp st = Inr (marks st, st1)" and "state_ok st1" and "unat (depth st1) = Suc (unat (depth st))"
    and "depth st1 = depth st + 1" and "out st1 = out st" and "kept (unat (depth st)) st st1"
    and "buf (bufs st1 ! unat (depth st)) = Some (marks st)" and "depth st1 \<noteq> 0"
proof -
  let ?d = "unat (depth st)"
  define st1 where "st1 = st\<lparr>bufs := (bufs st)[?d := (bufs st ! ?d)\<lparr>buf := Some (marks st)\<rparr>], depth := depth st + 1, marks := Suc (marks st)\<rparr>"
  have "unat (depth st + 1) = (?d + 1) mod 4294967296" by (simp add: unat_word_ariths)
  also have "\<dots> = Suc ?d" using assms(2) by simp
  finally have d: "unat (depth st + 1) = Suc ?d" "depth st + 1 \<noteq> 0" by (auto simp: unat_eq_zero)
  have l: "length (bufs st) = 256" "handlers st" "\<forall>i < ?d. \<exists>m < marks st. buf (bufs st ! i) = Some m"
    using assms(1) by (auto simp: state_ok_def)
  have "setjmp st = Inr (marks st, st1)" using assms(2) l(1) by (simp add: setjmp_def st1_def)
  moreover have "state_ok st1" using l assms(2) d(1)
    by (auto simp: state_ok_def st1_def nth_list_update less_Suc_eq)
  ultimately show thesis by (rule that) (use l d assms(2) in \<open>auto simp: st1_def kept_def nth_list_update\<close>)
qed

lemma exec_ended:
  "state_ok st \<Longrightarrow> unat (depth st) + nesting s \<le> 256 \<Longrightarrow> ended (meaning s) st (exec s st)"
  and handle_ended:
  "state_ok st \<Longrightarrow> unat (depth st) + clause_nesting c \<le> 256 \<Longrightarrow> ended (caught c x) st (handle c x st)"
proof (induction s and c arbitrary: st and st x)
  case (Seq a b)
  have a: "ended (meaning a) st (exec a st)" using Seq.IH(1) [OF Seq.prems(1)] Seq.prems(2) by simp
  show ?case
  proof (cases "meaning a")
    case (Pair o1 e)
    show ?thesis
    proof (cases e)
      case None
      with a Pair obtain st' where st': "exec a st = Inr (Done, st')" by (auto simp: ended_def)
      have e1: "ended (o1, None) st (Inr (Done, st'))" using a Pair None st' by simp
      note ok = ended_ok [OF Seq.prems(1) e1]
      have "ended (meaning b) st' (exec b st')" using Seq.IH(2) [of st'] ok Seq.prems(2) by simp
      with ended_seq [OF e1] show ?thesis using Pair None st' by (cases "meaning b") simp
    next
      case (Some x)
      have "ended (o1, Some x) st (exec a st)" using a Pair Some by simp
      then show ?thesis using Pair Some by (auto simp: ended_def split: if_splits)
    qed
  qed
next
  case (TRY a c)
  have d: "unat (depth st) < 256" using TRY.prems(2) by simp
  obtain st1 where s: "setjmp st = Inr (marks st, st1)" "state_ok st1" "unat (depth st1) = Suc (unat (depth st))"
    "depth st1 = depth st + 1" "out st1 = out st" "kept (unat (depth st)) st st1"
    "buf (bufs st1 ! unat (depth st)) = Some (marks st)" "depth st1 \<noteq> 0" by (rule setjmp_ok [OF TRY.prems(1) d])
  have a: "ended (meaning a) st1 (exec a st1)" using TRY.IH(1) [OF s(2)] s(3) TRY.prems(2) by simp
  show ?case
  proof (cases "meaning a")
    case (Pair o1 e)
    show ?thesis
    proof (cases e)
      case None
      with a Pair obtain st2 where st2: "exec a st1 = Inr (Done, st2)" "out st2 = out st1 @ o1" "depth st2 = depth st1"
        "kept (unat (depth st1)) st1 st2" by (auto simp: ended_def)
      have "kept (unat (depth st)) st st2" using kept_trans [OF s(6), of "unat (depth st)" st2] st2(4) s(3) by (auto simp: kept_def)
      then show ?thesis using st2 s None Pair by (auto simp: ended_def kept_def)
    next
      case (Some x)
      with a Pair s(3,8) obtain st2 m where st2: "exec a st1 = Inr (Jumped m, st2)" "buf (bufs st1 ! unat (depth st)) = Some m"
        "out st2 = out st1 @ o1" "depth st2 = depth st1 - 1" "result_of (bufs st2 ! unat (depth st)) = x"
        "kept (unat (depth st1)) st1 st2" by (auto simp: ended_def)
      have m: "m = marks st" "depth st2 = depth st" using st2(2,4) s(4,7) by auto
      have k: "kept (unat (depth st)) st st2" using kept_trans [OF s(6), of "unat (depth st)" st2] st2(6) s(3) by (auto simp: kept_def)
      have ok2: "state_ok st2" using state_ok_kept [OF TRY.prems(1) k] m(2) by simp
      have "thrown st2 = Inr x" using st2(5) m(2) d ok2 by (simp add: thrown_def state_ok_def)
      then have run: "exec (TRY a c) st = handle c x st2" using s(1) st2(1) m by simp
      have "ended (caught c x) st2 (handle c x st2)" using TRY.IH(2) [OF ok2] m(2) TRY.prems(2) by simp
      moreover have "ended (o1, None) st (Inr (Done, st2))" using k m(2) st2(3) s(5) by (simp add: ended_def)
      ultimately show ?thesis using ended_seq [of o1 st st2] run Pair Some by (cases "caught c x") simp
    qed
  qed
next
  case (CATCH x h)
  then show ?case using ended_refl [OF CATCH.prems(1)] by simp
qed (simp_all add: jump_ended ended_refl ended_print sig_def state_ok_handlers)

section \<open>Whole programs\<close>

text \<open>
  C26. The macros implement exceptions: a program whose blocks are nested at most 256 deep, started
  with the signal handlers installed, prints exactly the lines its meaning as a program with
  exceptions prescribes and leaves the depth at 0. If an exception leaves the outermost
  block, the code accesses the array of buffers at index \<open>2 ^ 32 - 1\<close>.
\<close>

theorem macros_implement_exceptions:
  assumes "nesting s \<le> 256"
  shows "case meaning s of
      (ls, None) \<Rightarrow> \<exists>st. exec s (init_try_catch start) = Inr (Done, st) \<and> out st = ls \<and> depth st = 0
    | (ls, Some x) \<Rightarrow> exec s (init_try_catch start) = Inl OutOfBounds"
proof -
  have "state_ok (init_try_catch start)" "depth (init_try_catch start) = 0" "out (init_try_catch start) = []"
    by (simp_all add: state_ok_def init_try_catch_def start_def)
  with exec_ended [of "init_try_catch start" s] assms show ?thesis
    by (auto simp: ended_def split: prod.splits option.splits)
qed

theorem macros_implement_exceptions_witness:
  "\<exists>st. exec (Seq (TRY (Seq (Print ''a'') (THROW 3)) (CATCH 4 (Print ''b''))) (Print ''c'')) (init_try_catch start) = Inr (Done, st) \<and>
     out st = [''a'', ''c''] \<and> depth st = 0"
  using macros_implement_exceptions [of "Seq (TRY (Seq (Print ''a'') (THROW 3)) (CATCH 4 (Print ''b''))) (Print ''c'')"] by simp

text \<open>A tower of nested blocks.\<close>

primrec tower :: "nat \<Rightarrow> stmt" where
  "tower 0 = Skip"
| "tower (Suc n) = TRY (tower n) (EXCEPT Skip)"

lemma tower_overrun:
  "state_ok st \<Longrightarrow> 256 < unat (depth st) + n \<Longrightarrow> exec (tower n) st = Inl OutOfBounds"
proof (induction n arbitrary: st)
  case (Suc n)
  show ?case
  proof (cases "unat (depth st) < 256")
    case True
    obtain st1 where s: "setjmp st = Inr (marks st, st1)" "state_ok st1" "unat (depth st1) = Suc (unat (depth st))"
      by (rule setjmp_ok [OF Suc.prems(1) True])
    with Suc.IH [OF s(2)] Suc.prems(2) show ?thesis by simp
  next
    case False
    then show ?thesis using Suc.prems(1) by (simp add: setjmp_def state_ok_def)
  qed
qed (simp add: state_ok_def)

text \<open>
  C27. There is no check against too many nested blocks: the 257th writes behind the array of
  buffers, even if nothing is ever thrown; without the signal handlers a fault ends the process.
\<close>

theorem nesting_overruns:
  "(256 < n \<longrightarrow> exec (tower n) (init_try_catch start) = Inl OutOfBounds) \<and>
   (n \<le> 256 \<longrightarrow> (\<exists>st. exec (tower n) (init_try_catch start) = Inr (Done, st) \<and> depth st = 0)) \<and>
   exec (TRY Segv c) start = Inl Killed"
proof -
  have ok: "state_ok (init_try_catch start)" "depth (init_try_catch start) = 0"
    by (simp_all add: state_ok_def init_try_catch_def start_def)
  have "nesting (tower n) = n" "meaning (tower n) = ([], None)" by (induction n) simp_all
  with exec_ended [OF ok(1), of "tower n"] ok(2) have "n \<le> 256 \<Longrightarrow> \<exists>st. exec (tower n) (init_try_catch start) = Inr (Done, st) \<and> depth st = 0"
    by (auto simp: ended_def)
  moreover have "exec (TRY Segv c) start = Inl Killed" by (simp add: setjmp_def start_def)
  ultimately show ?thesis using tower_overrun [OF ok(1), of n] ok(2) by simp
qed

theorem nesting_overruns_witness: "exec (tower 257) (init_try_catch start) = Inl OutOfBounds"
  using nesting_overruns [of 257 "EXCEPT Skip"] by simp

section \<open>The demonstration program\<close>

definition test_stmt :: stmt where
  "test_stmt =
     TRY (Seq (TRY Segv (CATCH SIGSEGV (Print ''test SIGSEGV exception''))) Div0)
       (CATCH SIGFPE (Print ''test SIGFPE exception''))"

definition main_stmt :: stmt where
  "main_stmt =
     Seq (TRY (Seq (TRY (Seq (TRY Segv (CATCH SIGSEGV (Print ''main SIGSEGV exception''))) Div0)
                      (CATCH SIGFPE (Print ''main SIGFPE exception'')))
               (Seq test_stmt Segv))
            (CATCH_ELSE SIGSEGV (Print ''main SIGSEGV exception'') (Print ''main other exception'')))
     (Seq (TRY (THROW 1) (CATCH 1 (Print ''except 1'')))
     (Seq (TRY (THROW 2) (CATCH 2 (Print ''except 2'')))
     (Seq (TRY (THROW 3) (EXCEPT (Print ''except other'')))
     (Print ''ok''))))"

definition c_main :: "(outcome \<times> tstate) result" where
  "c_main = exec main_stmt (init_try_catch start)"

text \<open>
  The demonstration program catches each of its faults and exceptions in the intended block: it
  runs to its end, with every block left, and prints these nine lines.
\<close>

theorem c_main_prints:
  "\<exists>st. c_main = Inr (Done, st) \<and> depth st = 0 \<and>
     out st = [''main SIGSEGV exception'', ''main SIGFPE exception'', ''test SIGSEGV exception'', ''test SIGFPE exception'',
       ''main SIGSEGV exception'', ''except 1'', ''except 2'', ''except other'', ''ok'']"
proof -
  have "state_ok (init_try_catch start)" "depth (init_try_catch start) = 0" "out (init_try_catch start) = []"
    by (simp_all add: state_ok_def init_try_catch_def start_def)
  with exec_ended [of "init_try_catch start" main_stmt] show ?thesis
    by (auto simp: ended_def c_main_def main_stmt_def test_stmt_def SIGSEGV_def SIGFPE_def)
qed

end
