(* ===== verification/SwissMap.thy ===== *)
theory SwissMap
  imports CPrelude
begin

text \<open>
  The hash table \<open>CSwissMap\<close>, \<open>cmake/swissmap/swissmap.h\<close>. Every slot has a control byte: 7 bits of the
  hash of its key, or a mark (empty, deleted, sentinel at the end). The bytes are read in groups of
  16, and the first 15 are repeated behind the sentinel so that a group may start anywhere.
  The hash function and the addresses of the allocated arrays, which enter the hash, are
  parameters. A comparison mask is the list of the positions of its set bits: \<open>countr_zero\<close> is the
  head and clearing the lowest bit is the tail.
\<close>

section \<open>State\<close>

definition kWidth :: nat where
  "kWidth = 16"

definition kEmpty :: int where
  "kEmpty = -128"

definition kDeleted :: int where
  "kDeleted = -2"

definition kSentinel :: int where
  "kSentinel = -1"

text \<open>A slot is raw memory until its key and its value are constructed there.\<close>

record ('k, 'v) swissmap =
  m_ctrl :: "int list"
  m_slot :: "('k option \<times> 'v option) list"
  m_cap :: nat
  m_num :: nat
  m_growthInfo :: nat
  m_salt :: u64
  m_addr :: u64
  m_allocs :: nat

section \<open>Helpers\<close>

definition IsValidCapacity :: "nat \<Rightarrow> bool" where
  "IsValidCapacity n \<longleftrightarrow> (n + 1) AND n = 0 \<and> 0 < n"

definition nextCap :: "('k, 'v) swissmap \<Rightarrow> nat result" where
  "nextCap m = cassert (IsValidCapacity (m_cap m * 2 + 1)) (Inr (m_cap m * 2 + 1))"

definition getSlotIndex :: "nat \<Rightarrow> nat \<Rightarrow> ('k, 'v) swissmap \<Rightarrow> nat result" where
  "getSlotIndex index ctz m =
     cassert (m_cap m = 0 \<or> IsValidCapacity (m_cap m)) (Inr ((index + ctz) AND m_cap m))"

definition H1 :: "u64 \<Rightarrow> ('k, 'v) swissmap \<Rightarrow> u64" where
  "H1 hash m = drop_bit 7 hash XOR drop_bit 12 (m_addr m)"

definition H2 :: "u64 \<Rightarrow> int" where
  "H2 hash = uint (hash AND 0x7F)"

definition ctrl_at :: "nat \<Rightarrow> ('k, 'v) swissmap \<Rightarrow> int result" where
  "ctrl_at i m = (if i < length (m_ctrl m) then Inr (m_ctrl m ! i) else Inl OutOfBounds)"

definition setCtrl :: "nat \<Rightarrow> int \<Rightarrow> ('k, 'v) swissmap \<Rightarrow> ('k, 'v) swissmap result" where
  "setCtrl index h m =
     (let j = index + m_cap m + 1
      in if index < length (m_ctrl m) \<and> (index < kWidth - 1 \<longrightarrow> j < length (m_ctrl m))
         then Inr (m\<lparr>m_ctrl := (let c = (m_ctrl m)[index := h] in if index < kWidth - 1 then c[j := h] else c)\<rparr>)
         else Inl OutOfBounds)"

text \<open>Reading 16 control bytes at once, and comparing them.\<close>

definition load16 :: "nat \<Rightarrow> ('k, 'v) swissmap \<Rightarrow> int list result" where
  "load16 i m = (if i + kWidth \<le> length (m_ctrl m) then Inr (take kWidth (drop i (m_ctrl m))) else Inl OutOfBounds)"

definition mask_eq :: "int \<Rightarrow> int list \<Rightarrow> nat list" where
  "mask_eq h g = filter (\<lambda>i. g ! i = h) [0..<length g]"

definition mask_less :: "int \<Rightarrow> int list \<Rightarrow> nat list" where
  "mask_less h g = filter (\<lambda>i. g ! i < h) [0..<length g]"

definition swiss_init :: "(nat \<Rightarrow> u64) \<Rightarrow> nat \<Rightarrow> ('k, 'v) swissmap \<Rightarrow> ('k, 'v) swissmap" where
  "swiss_init addr n m =
     m\<lparr>m_ctrl := (replicate (n + kWidth) kEmpty)[n := kSentinel], m_slot := replicate n (None, None), m_cap := n,
       m_growthInfo := ((n - n div 8) + 2 ^ 64 - m_num m) mod 2 ^ 64, m_addr := addr (m_allocs m), m_allocs := Suc (m_allocs m)\<rparr>"

definition CSwissMap :: "(nat \<Rightarrow> u64) \<Rightarrow> u64 \<Rightarrow> ('k, 'v) swissmap" where
  "CSwissMap addr salt =
     swiss_init addr 0 \<lparr>m_ctrl = [], m_slot = [], m_cap = 0, m_num = 0, m_growthInfo = 0, m_salt = salt, m_addr = 0, m_allocs = 0\<rparr>"

section \<open>Searching\<close>

fun match_loop :: "'k \<Rightarrow> int \<Rightarrow> nat \<Rightarrow> nat list \<Rightarrow> ('k, 'v) swissmap \<Rightarrow> nat option result" where
  "match_loop key h2 index [] m = Inr None"
| "match_loop key h2 index (ctz # bits) m =
     bnd (getSlotIndex index ctz m) (\<lambda>i.
     bnd (ctrl_at i m) (\<lambda>c. cassert (c = h2)
       (if i < length (m_slot m)
        then case fst (m_slot m ! i) of
               None \<Rightarrow> Inl UseAfterFree
             | Some k \<Rightarrow> if k = key then Inr (Some i) else match_loop key h2 index bits m
        else Inl OutOfBounds)))"

text \<open>
  The loop over the groups, with a bound on their number. \<open>findIndex\<close> uses the number of different
  groups: if the search ends at all it ends within it (\<open>find_loop_present\<close>, \<open>find_loop_absent\<close>), and
  without an empty byte it never does (\<open>find_loop_forever\<close>).
\<close>

fun find_loop :: "nat \<Rightarrow> 'k \<Rightarrow> int \<Rightarrow> nat \<Rightarrow> ('k, 'v) swissmap \<Rightarrow> (bool \<times> nat) result" where
  "find_loop 0 key h2 index m = Inl OutOfFuel"
| "find_loop (Suc n) key h2 index m =
     bnd (load16 index m) (\<lambda>g.
     bnd (match_loop key h2 index (mask_eq h2 g) m) (\<lambda>r.
     case r of Some i \<Rightarrow> Inr (True, i)
     | None \<Rightarrow>
         (case mask_eq kEmpty g of
            ctz # _ \<Rightarrow> bnd (getSlotIndex index ctz m) (\<lambda>i. Inr (False, i))
          | [] \<Rightarrow> find_loop n key h2 ((index + kWidth) AND m_cap m) m)))"

definition findIndex :: "('k \<Rightarrow> u64) \<Rightarrow> 'k \<Rightarrow> ('k, 'v) swissmap \<Rightarrow> (bool \<times> nat \<times> int) result" where
  "findIndex hash key m =
     (let k = hash key XOR m_salt m; h2 = H2 k; index = unat (H1 k m) AND m_cap m
      in bnd (find_loop (Suc (m_cap m div kWidth)) key h2 index m) (\<lambda>(found, i). Inr (found, i, h2)))"

section \<open>Operations\<close>

text \<open>Constructing the value in a slot.\<close>

definition put_value :: "nat \<Rightarrow> 'v \<Rightarrow> ('k, 'v) swissmap \<Rightarrow> ('k, 'v) swissmap result" where
  "put_value i v m =
     (if i < length (m_slot m) then Inr (m\<lparr>m_slot := (m_slot m)[i := (fst (m_slot m ! i), Some v)]\<rparr>) else Inl OutOfBounds)"

text \<open>Storing a new key at a position found free; \<open>None\<close> if the table must grow first.\<close>

definition place :: "'k \<Rightarrow> int \<Rightarrow> nat \<Rightarrow> ('k, 'v) swissmap \<Rightarrow> (nat \<times> ('k, 'v) swissmap) option result" where
  "place key h2 index m =
     bnd (load16 index m) (\<lambda>g.
     case mask_less kSentinel g of
       [] \<Rightarrow> Inr None
     | ctz # _ \<Rightarrow>
         if 0 < m_growthInfo m
         then bnd (getSlotIndex index ctz m) (\<lambda>i.
              bnd (ctrl_at i m) (\<lambda>c. cassert (c = kEmpty \<or> c = kDeleted)
                (bnd (setCtrl i h2 m) (\<lambda>m.
                 if i < length (m_slot m)
                 then Inr (Some (i, m\<lparr>m_slot := (m_slot m)[i := (Some key, snd (m_slot m ! i))], m_num := (m_num m + 1) mod 2 ^ 64,
                                    m_growthInfo := m_growthInfo m - 1\<rparr>))
                 else Inl OutOfBounds))))
         else Inr None)"

text \<open>
  \<open>find\<close> and \<open>rehash\<close> call each other; the number bounds the nesting. Three is enough: \<open>insert_new\<close> shows
  that one growth always suffices. The result of \<open>find\<close> is the slot whose value is meant. \<open>rehash\<close> walks over the
  bytes and slots of the old array, which is released afterwards; the outcome of \<open>init\<close> with the
  count reset is its start. Its counter, the argument \<open>i\<close>, is an \<open>int\<close>, whose last value cannot be increased. The sizes \<open>init\<close> computes
  do not wrap around for capacities below \<open>2 ^ 32\<close>, and larger ones are not reached without that error, if a slot
  has less than \<open>2 ^ 31\<close> bytes.
\<close>

fun swiss_find :: "('k \<Rightarrow> u64) \<Rightarrow> (nat \<Rightarrow> u64) \<Rightarrow> nat \<Rightarrow> 'k \<Rightarrow> bool \<Rightarrow> ('k, 'v) swissmap \<Rightarrow> (nat option \<times> ('k, 'v) swissmap) result"
  and rehash :: "('k \<Rightarrow> u64) \<Rightarrow> (nat \<Rightarrow> u64) \<Rightarrow> nat \<Rightarrow> nat \<Rightarrow> (int \<times> 'k option \<times> 'v option) list \<Rightarrow> ('k, 'v) swissmap \<Rightarrow> ('k, 'v) swissmap result" where
  "swiss_find hash addr 0 key isAdd m = Inl OutOfFuel"
| "swiss_find hash addr (Suc n) key isAdd m =
     bnd (findIndex hash key m) (\<lambda>(found, index, h2).
     if found then Inr (Some index, m)
     else if \<not> isAdd then Inr (None, m)
     else bnd (place key h2 index m) (\<lambda>r.
          case r of Some (i, m) \<Rightarrow> Inr (Some i, m)
          | None \<Rightarrow>
              bnd (nextCap m) (\<lambda>c.
              bnd (rehash hash addr n 0 (zip (take (m_cap m) (m_ctrl m)) (m_slot m)) ((swiss_init addr c m)\<lparr>m_num := 0\<rparr>)) (\<lambda>m.
              swiss_find hash addr n key isAdd m))))"
| "rehash hash addr n i [] m = Inr m"
| "rehash hash addr n i ((c, s) # old) m =
     bnd (if 0 \<le> c
          then case s of
                 (Some k, Some v) \<Rightarrow>
                   bnd (swiss_find hash addr n k True m) (\<lambda>(x, m).
                   case x of None \<Rightarrow> Inl NullDeref | Some x \<Rightarrow> put_value x v m)
               | _ \<Rightarrow> Inl UseAfterFree
          else Inr m) (\<lambda>m.
     if i = 2 ^ 31 - 1 then Inl Overflow else rehash hash addr n (Suc i) old m)"

definition swiss_insert :: "('k \<Rightarrow> u64) \<Rightarrow> (nat \<Rightarrow> u64) \<Rightarrow> 'k \<Rightarrow> 'v \<Rightarrow> ('k, 'v) swissmap \<Rightarrow> ('k, 'v) swissmap result" where
  "swiss_insert hash addr key v m =
     bnd (swiss_find hash addr 3 key True m) (\<lambda>(x, m). case x of None \<Rightarrow> Inl NullDeref | Some i \<Rightarrow> put_value i v m)"

text \<open>\<open>operator[]\<close>: the value at the pointer, or the null pointer.\<close>

definition swiss_lookup :: "('k \<Rightarrow> u64) \<Rightarrow> (nat \<Rightarrow> u64) \<Rightarrow> 'k \<Rightarrow> ('k, 'v) swissmap \<Rightarrow> 'v option result" where
  "swiss_lookup hash addr key m =
     bnd (swiss_find hash addr 3 key False m) (\<lambda>(x, _). case x of None \<Rightarrow> Inr None
       | Some i \<Rightarrow> if i < length (m_slot m) then (case snd (m_slot m ! i) of None \<Rightarrow> Inl UseAfterFree | Some v \<Rightarrow> Inr (Some v))
                   else Inl OutOfBounds)"

definition destorySlot :: "nat \<Rightarrow> ('k, 'v) swissmap \<Rightarrow> ('k, 'v) swissmap result" where
  "destorySlot i m = (if i < length (m_slot m) then Inr (m\<lparr>m_slot := (m_slot m)[i := (None, None)]\<rparr>) else Inl OutOfBounds)"

definition erase :: "('k \<Rightarrow> u64) \<Rightarrow> 'k \<Rightarrow> ('k, 'v) swissmap \<Rightarrow> (bool \<times> ('k, 'v) swissmap) result" where
  "erase hash key m =
     bnd (findIndex hash key m) (\<lambda>(found, index, h2).
     if found
     then bnd (setCtrl index kDeleted m) (\<lambda>m. bnd (destorySlot index m) (\<lambda>m.
          Inr (True, m\<lparr>m_num := (m_num m + 2 ^ 64 - 1) mod 2 ^ 64, m_growthInfo := (m_growthInfo m + 1) mod 2 ^ 64\<rparr>)))
     else Inr (False, m))"

text \<open>The visits of \<open>foreach\<close>: \<open>func\<close> returns whether to stop and the value it leaves.\<close>

fun foreach_loop :: "('k \<Rightarrow> 'v \<Rightarrow> 's \<Rightarrow> bool \<times> 'v \<times> 's) \<Rightarrow> nat \<Rightarrow> nat \<Rightarrow> 's \<Rightarrow> ('k, 'v) swissmap \<Rightarrow> ('s \<times> ('k, 'v) swissmap) result" where
  "foreach_loop func i 0 st m = Inr (st, m)"
| "foreach_loop func i (Suc n) st m =
     bnd (ctrl_at i m) (\<lambda>c.
     if 0 \<le> c
     then if i < length (m_slot m)
          then case m_slot m ! i of
                 (Some k, Some v) \<Rightarrow>
                   (case func k v st of (stop, v, st) \<Rightarrow>
                    bnd (put_value i v m) (\<lambda>m. if stop then Inr (st, m) else foreach_loop func (Suc i) n st m))
               | _ \<Rightarrow> Inl UseAfterFree
          else Inl OutOfBounds
     else foreach_loop func (Suc i) n st m)"

definition foreach :: "('k \<Rightarrow> 'v \<Rightarrow> 's \<Rightarrow> bool \<times> 'v \<times> 's) \<Rightarrow> 's \<Rightarrow> ('k, 'v) swissmap \<Rightarrow> ('s \<times> ('k, 'v) swissmap) result" where
  "foreach func st m = foreach_loop func 0 (m_cap m) st m"

end
