(* ===== verification/SwissInv.thy ===== *)
theory SwissInv
  imports SwissMap
begin

text \<open>
  The layout of the table and the search. \<open>cell\<close> reads the control bytes as the groups of 16 see
  them, with the repeated bytes folded back; \<open>swiss_ok\<close> is the invariant of the table.
\<close>

section \<open>Positions\<close>

lemma and_low: "(a :: nat) AND (2 ^ k - 1) = a mod 2 ^ k"
  by (metis mask_eq_exp_minus_1 take_bit_eq_mask take_bit_eq_mod)

lemma IsValidCapacity_pow: "0 < k \<Longrightarrow> IsValidCapacity (2 ^ k - 1)"
  using and_low [of "2 ^ k" k] one_less_power [of "2::nat" k] by (simp add: IsValidCapacity_def)

definition cell :: "('k, 'v) swissmap \<Rightarrow> nat \<Rightarrow> int" where
  "cell m p =
     (let c = m_cap m
      in if p \<le> c then m_ctrl m ! p else if p - Suc c < c then m_ctrl m ! (p - Suc c) else kEmpty)"

definition shape :: "nat \<Rightarrow> ('k, 'v) swissmap \<Rightarrow> bool" where
  "shape k m \<longleftrightarrow> 2 ^ k = Suc (m_cap m) \<and> length (m_ctrl m) = m_cap m + 16 \<and> length (m_slot m) = m_cap m \<and>
     m_ctrl m ! m_cap m = kSentinel \<and> (\<forall>j < 15. m_ctrl m ! (m_cap m + 1 + j) = (if j < m_cap m then m_ctrl m ! j else kEmpty)) \<and>
     (\<forall>p < m_cap m. m_ctrl m ! p = kEmpty \<or> m_ctrl m ! p = kDeleted \<or> 0 \<le> m_ctrl m ! p)"

definition live :: "('k, 'v) swissmap \<Rightarrow> nat \<Rightarrow> bool" where
  "live m p \<longleftrightarrow> p < m_cap m \<and> 0 \<le> m_ctrl m ! p"

definition key_at :: "('k, 'v) swissmap \<Rightarrow> nat \<Rightarrow> 'k option" where
  "key_at m p = fst (m_slot m ! p)"

lemma shape_cap: "shape k m \<Longrightarrow> 2 ^ k = Suc (m_cap m)"
  by (simp add: shape_def)

lemma shape_len:
  assumes "shape k m"
  shows "length (m_ctrl m) = m_cap m + 16" and "length (m_slot m) = m_cap m" and "m_ctrl m ! m_cap m = kSentinel"
  using assms by (auto simp: shape_def)

lemma shape_byte:
  "shape k m \<Longrightarrow> p < m_cap m \<Longrightarrow> m_ctrl m ! p = kEmpty \<or> m_ctrl m ! p = kDeleted \<or> 0 \<le> m_ctrl m ! p"
  by (simp add: shape_def)

lemma ctrl_cell: "shape k m \<Longrightarrow> p < m_cap m + 16 \<Longrightarrow> m_ctrl m ! p = cell m p"
proof -
  assume s: "shape k m" "p < m_cap m + 16"
  show ?thesis
  proof (cases "p \<le> m_cap m")
    case False
    then obtain j where "p = m_cap m + 1 + j" using le_Suc_ex [of "m_cap m + 1" p] by auto
    then show ?thesis using s by (auto simp: shape_def cell_def Let_def)
  qed (simp add: cell_def)
qed

lemma shape_small: "shape k m \<Longrightarrow> m_cap m < 15 \<Longrightarrow> m_cap m \<le> 7"
proof -
  assume "shape k m" "m_cap m < 15"
  then have "(2::nat) ^ k < 2 ^ 4" using shape_cap [of k m] by simp
  then have "k \<le> 3" using power_less_imp_less_exp [of "2::nat" k 4] by simp
  then have "(2::nat) ^ k \<le> 2 ^ 3" by (intro power_increasing) auto
  then show ?thesis using \<open>shape k m\<close> shape_cap [of k m] by simp
qed

lemma shape_big: "shape k m \<Longrightarrow> 15 \<le> m_cap m \<Longrightarrow> 16 dvd Suc (m_cap m)"
proof -
  assume s: "shape k m" "15 \<le> m_cap m"
  then have "(2::nat) ^ 4 \<le> 2 ^ k" using shape_cap [of k m] by simp
  then have "4 \<le> k" using power_le_imp_le_exp [of "2::nat" 4 k] by simp
  then have "(2::nat) ^ 4 dvd 2 ^ k" by (rule le_imp_power_dvd)
  then show ?thesis using s shape_cap [of k m] by simp
qed

lemma getSlotIndex_mod: "shape k m \<Longrightarrow> getSlotIndex i j m = Inr ((i + j) mod Suc (m_cap m))"
  using IsValidCapacity_pow [of k] and_low [of "i + j" k]
  by (cases "k = 0") (auto simp: getSlotIndex_def shape_def)

lemma load16_cells: "shape k m \<Longrightarrow> i \<le> m_cap m \<Longrightarrow> load16 i m = Inr (map (\<lambda>j. cell m (i + j)) [0..<16])"
  using ctrl_cell [of k m] by (auto simp: load16_def kWidth_def shape_len add.commute intro!: nth_equalityI)

text \<open>A byte below the sentinel that a group shows is that of a slot, or padding.\<close>

lemma cell_slot:
  assumes "shape k m" and "p < m_cap m + 16"
  shows "p mod Suc (m_cap m) < m_cap m \<and> cell m p = m_ctrl m ! (p mod Suc (m_cap m)) \<or>
    p mod Suc (m_cap m) = m_cap m \<and> cell m p = kSentinel \<or>
    2 * m_cap m + 1 \<le> p \<and> m_cap m < 15 \<and> cell m p = kEmpty"
proof (cases "p \<le> m_cap m")
  case True
  then show ?thesis using assms by (cases "p = m_cap m") (auto simp: cell_def shape_len)
next
  case False
  define q where "q = p - Suc (m_cap m)"
  have p: "p = q + Suc (m_cap m)" using False q_def by simp
  then have "p mod Suc (m_cap m) = q mod Suc (m_cap m)" by (metis mod_add_self2)
  then show ?thesis using p assms(2) by (cases "q < m_cap m") (auto simp: cell_def Let_def)
qed

section \<open>The invariant\<close>

definition tag :: "('k \<Rightarrow> u64) \<Rightarrow> 'k \<Rightarrow> ('k, 'v) swissmap \<Rightarrow> int" where
  "tag hash x m = H2 (hash x XOR m_salt m)"

definition home :: "('k \<Rightarrow> u64) \<Rightarrow> 'k \<Rightarrow> ('k, 'v) swissmap \<Rightarrow> nat" where
  "home hash x m = unat (H1 (hash x XOR m_salt m) m) AND m_cap m"

text \<open>How far a slot is behind the home of a key; the group that starts \<open>n\<close> groups behind a position.\<close>

definition gap :: "('k, 'v) swissmap \<Rightarrow> nat \<Rightarrow> nat \<Rightarrow> nat" where
  "gap m i p = (p + Suc (m_cap m) - i) mod Suc (m_cap m)"

definition grp :: "('k, 'v) swissmap \<Rightarrow> nat \<Rightarrow> nat \<Rightarrow> nat" where
  "grp m i n = (i + 16 * n) mod Suc (m_cap m)"

definition clear :: "('k, 'v) swissmap \<Rightarrow> nat \<Rightarrow> bool" where
  "clear m i \<longleftrightarrow> (\<forall>j < 16. cell m (i + j) \<noteq> kEmpty)"

definition stored :: "('k \<Rightarrow> u64) \<Rightarrow> ('k, 'v) swissmap \<Rightarrow> nat \<Rightarrow> 'k \<Rightarrow> bool" where
  "stored hash m p x \<longleftrightarrow> key_at m p = Some x \<and> m_ctrl m ! p = tag hash x m \<and>
     (\<forall>n < gap m (home hash x m) p div 16. clear m (grp m (home hash x m) n))"

text \<open>The number of keys a table of capacity \<open>2 ^ k - 1\<close> takes before it grows.\<close>

fun limit :: "nat \<Rightarrow> nat" where
  "limit 0 = 0"
| "limit (Suc k) = (let n = 2 ^ Suc k - 1 in n - n div 8 - limit k)"

definition swiss_ok :: "('k \<Rightarrow> u64) \<Rightarrow> nat \<Rightarrow> ('k, 'v) swissmap \<Rightarrow> bool" where
  "swiss_ok hash k m \<longleftrightarrow> k < 64 \<and> shape k m \<and> (\<forall>p. live m p \<longrightarrow> (\<exists>x. stored hash m p x)) \<and>
     (\<forall>p q. live m p \<longrightarrow> live m q \<longrightarrow> key_at m p = key_at m q \<longrightarrow> p = q) \<and>
     m_num m = card {p. live m p} \<and> m_num m + m_growthInfo m = limit k"

definition has_key :: "('k, 'v) swissmap \<Rightarrow> 'k \<Rightarrow> bool" where
  "has_key m x \<longleftrightarrow> (\<exists>p. live m p \<and> key_at m p = Some x)"

lemma swiss_ok_shape: "swiss_ok hash k m \<Longrightarrow> shape k m"
  by (simp add: swiss_ok_def)

lemma swiss_ok_stored: "swiss_ok hash k m \<Longrightarrow> live m p \<Longrightarrow> key_at m p = Some x \<Longrightarrow> stored hash m p x"
  by (force simp: swiss_ok_def stored_def)

lemma swiss_ok_distinct: "swiss_ok hash k m \<Longrightarrow> live m p \<Longrightarrow> live m q \<Longrightarrow> key_at m p = key_at m q \<Longrightarrow> p = q"
  by (auto simp: swiss_ok_def)

lemma swiss_ok_key: "swiss_ok hash k m \<Longrightarrow> live m p \<Longrightarrow> \<exists>x. key_at m p = Some x"
  by (force simp: swiss_ok_def stored_def)

lemma tag_nonneg: "0 \<le> tag hash x m"
  by (simp add: tag_def H2_def)

lemma home_le: "shape k m \<Longrightarrow> home hash x m \<le> m_cap m"
  using and_low [of _ k] mod_less_divisor [of "2 ^ k"] by (simp add: home_def shape_def less_Suc_eq_le)

lemma grp_le: "grp m i n \<le> m_cap m"
  by (simp add: grp_def less_Suc_eq_le [symmetric])

lemma grp_0 [simp]: "i \<le> m_cap m \<Longrightarrow> grp m i 0 = i"
  by (simp add: grp_def)

lemma grp_grp: "grp m (grp m i (Suc 0)) n = grp m i (Suc n)"
  by (simp add: grp_def mod_simps add.assoc)

lemma next_group: "shape k m \<Longrightarrow> (i + 16) AND m_cap m = grp m i (Suc 0)"
  using and_low [of "i + 16" k] by (simp add: grp_def shape_def)

section \<open>Searching\<close>

lemma mask_eq_cells: "mask_eq h (map (\<lambda>j. cell m (i + j)) [0..<16]) = filter (\<lambda>j. cell m (i + j) = h) [0..<16]"
  by (auto simp: mask_eq_def intro!: filter_cong)

lemma cell_live:
  assumes "shape k m" and "p < m_cap m + 16" and "0 \<le> cell m p"
  shows "live m (p mod Suc (m_cap m)) \<and> m_ctrl m ! (p mod Suc (m_cap m)) = cell m p"
  using cell_slot [OF assms(1,2)] assms(3) by (auto simp: live_def kEmpty_def kSentinel_def)

lemma match_loop_spec:
  assumes ok: "swiss_ok hash k m" and i: "i \<le> m_cap m" and h: "0 \<le> h"
    and js: "\<forall>j \<in> set js. j < 16 \<and> cell m (i + j) = h"
  shows "\<exists>r. match_loop x h i js m = Inr r \<and>
    (case r of Some p \<Rightarrow> live m p \<and> key_at m p = Some x
     | None \<Rightarrow> \<forall>j \<in> set js. key_at m ((i + j) mod Suc (m_cap m)) \<noteq> Some x)"
  using js
proof (induction js)
  case (Cons j js)
  note s = swiss_ok_shape [OF ok]
  let ?q = "(i + j) mod Suc (m_cap m)"
  have q: "live m ?q" "m_ctrl m ! ?q = h" using cell_live [OF s, of "i + j"] Cons.prems i h by auto
  then obtain y where y: "key_at m ?q = Some y" using swiss_ok_key [OF ok] by blast
  have "?q < m_cap m" using q(1) by (simp add: live_def)
  then have "match_loop x h i (j # js) m = (if y = x then Inr (Some ?q) else match_loop x h i js m)"
    using s q y by (simp add: getSlotIndex_mod ctrl_at_def shape_len key_at_def)
  with Cons q y show ?case by (auto simp del: match_loop.simps split: option.splits)
qed auto

lemma find_loop_Suc:
  assumes "swiss_ok hash k m" and "i \<le> m_cap m"
  obtains p where "live m p" and "key_at m p = Some x" and "find_loop (Suc n) x (tag hash x m) i m = Inr (True, p)"
  | "\<And>j. j < 16 \<Longrightarrow> cell m (i + j) = tag hash x m \<Longrightarrow> key_at m ((i + j) mod Suc (m_cap m)) \<noteq> Some x"
    and "find_loop (Suc n) x (tag hash x m) i m =
      (case filter (\<lambda>j. cell m (i + j) = kEmpty) [0..<16] of
         j # _ \<Rightarrow> Inr (False, (i + j) mod Suc (m_cap m)) | [] \<Rightarrow> find_loop n x (tag hash x m) (grp m i (Suc 0)) m)"
proof -
  let ?js = "filter (\<lambda>j. cell m (i + j) = tag hash x m) [0..<16]"
  note s = swiss_ok_shape [OF assms(1)]
  have "\<forall>j \<in> set ?js. j < 16 \<and> cell m (i + j) = tag hash x m" by auto
  from match_loop_spec [OF assms tag_nonneg this]
  obtain r where r: "match_loop x (tag hash x m) i ?js m = Inr r"
    "case r of Some p \<Rightarrow> live m p \<and> key_at m p = Some x | None \<Rightarrow> \<forall>j \<in> set ?js. key_at m ((i + j) mod Suc (m_cap m)) \<noteq> Some x"
    by blast
  have l: "find_loop (Suc n) x (tag hash x m) i m = (case r of Some p \<Rightarrow> Inr (True, p) | None \<Rightarrow>
      (case filter (\<lambda>j. cell m (i + j) = kEmpty) [0..<16] of
         j # _ \<Rightarrow> Inr (False, (i + j) mod Suc (m_cap m)) | [] \<Rightarrow> find_loop n x (tag hash x m) (grp m i (Suc 0)) m))"
    using r(1) by (simp add: load16_cells [OF s assms(2)] mask_eq_cells getSlotIndex_mod [OF s] next_group [OF s] kWidth_def
        split: option.split list.split)
  show thesis
  proof (cases r)
    case (Some p)
    with r(2) l show ?thesis by (intro that(1)) simp_all
  next
    case None
    with r(2) l show ?thesis by (intro that(2)) auto
  qed
qed

lemma clear_filter: "clear m i \<longleftrightarrow> filter (\<lambda>j. cell m (i + j) = kEmpty) [0..<16] = []"
  by (auto simp: clear_def filter_empty_conv)

lemma find_loop_present:
  assumes ok: "swiss_ok hash k m" and p: "live m p" "key_at m p = Some x"
  shows "n < f \<Longrightarrow> i \<le> m_cap m \<Longrightarrow> (\<And>n'. n' < n \<Longrightarrow> clear m (grp m i n')) \<Longrightarrow> j < 16 \<Longrightarrow> j \<le> m_cap m \<Longrightarrow>
    (grp m i n + j) mod Suc (m_cap m) = p \<Longrightarrow> find_loop f x (tag hash x m) i m = Inr (True, p)"
proof (induction n arbitrary: i f)
  case 0
  then obtain f' where f: "f = Suc f'" by (cases f) auto
  have "cell m (i + j) = tag hash x m"
    using cell_slot [OF swiss_ok_shape [OF ok], of "i + j"] swiss_ok_stored [OF ok p] p(1) 0
    by (auto simp: stored_def live_def)
  with 0 p show ?case
    by (cases rule: find_loop_Suc [OF ok 0(2), of x f']) (auto simp: f swiss_ok_distinct [OF ok])
next
  case (Suc n)
  then obtain f' where f: "f = Suc f'" by (cases f) auto
  have "find_loop f' x (tag hash x m) (grp m i (Suc 0)) m = Inr (True, p)"
    using Suc.prems by (intro Suc.IH) (auto simp: f grp_le grp_grp)
  moreover have "clear m i" using Suc.prems(3) [of 0] Suc.prems(2) by simp
  ultimately show ?case using p
    by (cases rule: find_loop_Suc [OF ok Suc.prems(2), of x f']) (auto simp: f clear_filter swiss_ok_distinct [OF ok])
qed

lemma filter_first: "filter P [0..<n] = j # js \<Longrightarrow> j < n \<and> P j \<and> (\<forall>j' < j. \<not> P j')"
proof (induction n arbitrary: js)
  case (Suc n)
  show ?case
  proof (cases "filter P [0..<n]")
    case Nil
    then have "\<forall>j' < n. \<not> P j'" by (simp add: filter_empty_conv)
    then show ?thesis using Suc.prems Nil by (simp split: if_splits)
  next
    case (Cons a as)
    then have "a = j" using Suc.prems by (simp split: if_splits)
    then show ?thesis using Suc.IH [of as] Cons by (simp add: less_SucI)
  qed
qed simp

lemma find_loop_absent:
  assumes ok: "swiss_ok hash k m" and x: "\<not> has_key m x"
  shows "n < f \<Longrightarrow> i \<le> m_cap m \<Longrightarrow> \<not> clear m (grp m i n) \<Longrightarrow>
    \<exists>n' j. n' \<le> n \<and> j < 16 \<and> find_loop f x (tag hash x m) i m = Inr (False, (grp m i n' + j) mod Suc (m_cap m)) \<and>
      cell m (grp m i n' + j) = kEmpty \<and> (\<forall>j' < j. cell m (grp m i n' + j') \<noteq> kEmpty) \<and>
      (\<forall>n'' < n'. clear m (grp m i n''))"
proof (induction n arbitrary: i f)
  case 0
  then obtain f' where f: "f = Suc f'" by (cases f) auto
  obtain j js where j: "filter (\<lambda>j. cell m (i + j) = kEmpty) [0..<16] = j # js"
    using 0(2,3) by (auto simp: clear_filter neq_Nil_conv)
  from find_loop_Suc [OF ok 0(2), of x f'] x j
  have "find_loop f x (tag hash x m) i m = Inr (False, (i + j) mod Suc (m_cap m))" by (auto simp: f has_key_def)
  with filter_first [OF j] 0(2) show ?case by (intro exI [of _ 0] exI [of _ j]) simp
next
  case (Suc n)
  then obtain f' where f: "f = Suc f'" by (cases f) auto
  show ?case
  proof (cases "clear m i")
    case True
    then have l: "find_loop f x (tag hash x m) i m = find_loop f' x (tag hash x m) (grp m i (Suc 0)) m"
      using find_loop_Suc [OF ok Suc.prems(2), of x f'] x by (auto simp: f has_key_def clear_filter)
    from Suc.IH [of f' "grp m i (Suc 0)"] Suc.prems
    obtain n' j where n': "n' \<le> n" "j < 16"
      "find_loop f' x (tag hash x m) (grp m i (Suc 0)) m = Inr (False, (grp m i (Suc n') + j) mod Suc (m_cap m))"
      "cell m (grp m i (Suc n') + j) = kEmpty" "\<forall>j' < j. cell m (grp m i (Suc n') + j') \<noteq> kEmpty"
      "\<forall>n'' < n'. clear m (grp m i (Suc n''))"
      by (auto simp: f grp_le grp_grp)
    with True l Suc.prems(2) show ?thesis
      by (intro exI [of _ "Suc n'"] exI [of _ j]) (auto simp: less_Suc_eq_0_disj)
  next
    case False
    then obtain j js where j: "filter (\<lambda>j. cell m (i + j) = kEmpty) [0..<16] = j # js"
      by (auto simp: clear_filter neq_Nil_conv)
    from find_loop_Suc [OF ok Suc.prems(2), of x f'] x j
    have "find_loop f x (tag hash x m) i m = Inr (False, (i + j) mod Suc (m_cap m))" by (auto simp: f has_key_def)
    with filter_first [OF j] Suc.prems(2) show ?thesis by (intro exI [of _ 0] exI [of _ j]) simp
  qed
qed

text \<open>If no byte is empty, the search for a key that is not there has no end.\<close>

lemma find_loop_forever:
  assumes ok: "swiss_ok hash k m" and x: "\<not> has_key m x" and c: "\<And>i. i \<le> m_cap m \<Longrightarrow> clear m i"
  shows "i \<le> m_cap m \<Longrightarrow> find_loop f x (tag hash x m) i m = Inl OutOfFuel"
proof (induction f arbitrary: i)
  case (Suc f)
  from find_loop_Suc [OF ok Suc.prems, of x f] x c [OF Suc.prems] Suc.IH [OF grp_le, of i "Suc 0"]
  show ?case by (auto simp: has_key_def clear_filter)
qed simp

section \<open>The result of a search\<close>

lemma gap_le: "gap m i p \<le> m_cap m"
  by (simp add: gap_def less_Suc_eq_le [symmetric])

lemma gap_reaches: "i \<le> m_cap m \<Longrightarrow> p \<le> m_cap m \<Longrightarrow> (i + gap m i p) mod Suc (m_cap m) = p"
proof -
  assume "i \<le> m_cap m" "p \<le> m_cap m"
  then have "(i + gap m i p) mod Suc (m_cap m) = (p + Suc (m_cap m)) mod Suc (m_cap m)" by (simp add: gap_def mod_simps)
  also have "\<dots> = p mod Suc (m_cap m)" by (rule mod_add_self2)
  finally show ?thesis using \<open>p \<le> m_cap m\<close> by simp
qed

lemma gap_group:
  "i \<le> m_cap m \<Longrightarrow> p \<le> m_cap m \<Longrightarrow> (grp m i (gap m i p div 16) + gap m i p mod 16) mod Suc (m_cap m) = p"
  using gap_reaches [of i m p] by (simp add: grp_def mod_simps add.assoc)

lemma gap_least: "i \<le> m_cap m \<Longrightarrow> gap m i ((i + d) mod Suc (m_cap m)) \<le> d"
proof -
  assume i: "i \<le> m_cap m"
  let ?p = "(i + d) mod Suc (m_cap m)"
  have "gap m i ?p = ((i + d) mod Suc (m_cap m) + (Suc (m_cap m) - i)) mod Suc (m_cap m)"
    using i by (simp add: gap_def)
  also have "\<dots> = (i + d + (Suc (m_cap m) - i)) mod Suc (m_cap m)" by (rule mod_add_left_eq)
  also have "i + d + (Suc (m_cap m) - i) = d + Suc (m_cap m)" using i by simp
  also have "\<dots> mod Suc (m_cap m) = d mod Suc (m_cap m)" by (rule mod_add_self2)
  finally show ?thesis by simp
qed

lemma findIndex_loop:
  "findIndex hash x m =
     bnd (find_loop (Suc (m_cap m div 16)) x (tag hash x m) (home hash x m) m) (\<lambda>(found, i). Inr (found, i, tag hash x m))"
  by (simp add: findIndex_def Let_def tag_def home_def kWidth_def)

lemma findIndex_present:
  assumes ok: "swiss_ok hash k m" and p: "live m p" "key_at m p = Some x"
  shows "findIndex hash x m = Inr (True, p, tag hash x m)"
proof -
  let ?h = "home hash x m" and ?g = "gap m (home hash x m) p"
  have h: "?h \<le> m_cap m" "p \<le> m_cap m" using home_le [OF swiss_ok_shape [OF ok]] p(1) by (auto simp: live_def)
  have "find_loop (Suc (m_cap m div 16)) x (tag hash x m) ?h m = Inr (True, p)"
  proof (rule find_loop_present [OF ok p, of "?g div 16" _ _ "?g mod 16"])
    show "?g div 16 < Suc (m_cap m div 16)" using gap_le [of m ?h p] by (simp add: less_Suc_eq_le div_le_mono)
    show "?g mod 16 \<le> m_cap m" using gap_le [of m ?h p] by (meson le_trans mod_less_eq_dividend)
    show "clear m (grp m ?h n)" if "n < ?g div 16" for n
      using swiss_ok_stored [OF ok p] that by (simp add: stored_def)
  qed (simp_all add: h gap_group)
  then show ?thesis by (simp add: findIndex_loop)
qed

text \<open>An empty byte is left, so that every search ends; small tables always have their padding.\<close>

definition room :: "('k, 'v) swissmap \<Rightarrow> bool" where
  "room m \<longleftrightarrow> m_cap m < 15 \<or> (\<exists>p < m_cap m. m_ctrl m ! p = kEmpty)"

lemma pad_cell: "shape k m \<Longrightarrow> m_cap m < 15 \<Longrightarrow> cell m (2 * m_cap m + 1) = kEmpty"
  by (simp add: cell_def Let_def)

lemma room_group:
  assumes "shape k m" and "room m" and "i \<le> m_cap m"
  shows "\<exists>n \<le> m_cap m div 16. \<not> clear m (grp m i n)"
proof (cases "m_cap m < 15")
  case True
  have "\<not> clear m i"
    unfolding clear_def using pad_cell [OF assms(1) True] shape_small [OF assms(1) True] assms(3)
    by (auto intro!: exI [of _ "2 * m_cap m + 1 - i"])
  with assms(3) show ?thesis by (intro exI [of _ 0]) simp
next
  case False
  then obtain p where p: "p < m_cap m" "m_ctrl m ! p = kEmpty" using assms(2) by (auto simp: room_def)
  let ?g = "gap m i p"
  have q: "(grp m i (?g div 16) + ?g mod 16) mod Suc (m_cap m) = p" using gap_group [of i m p] assms(3) p(1) by simp
  have "grp m i (?g div 16) + ?g mod 16 < m_cap m + 16" using grp_le [of m i "?g div 16"] by (simp add: add_le_less_mono)
  from cell_slot [OF assms(1) this] q p have "cell m (grp m i (?g div 16) + ?g mod 16) = kEmpty" by auto
  then have "\<not> clear m (grp m i (?g div 16))" unfolding clear_def by (metis mod_less_divisor zero_less_numeral)
  moreover have "?g div 16 \<le> m_cap m div 16" by (simp add: gap_le div_le_mono)
  ultimately show ?thesis by blast
qed

text \<open>Where the search for a missing key ends: at an empty slot, or at the padding of a small table.\<close>

definition free_slot :: "('k \<Rightarrow> u64) \<Rightarrow> ('k, 'v) swissmap \<Rightarrow> 'k \<Rightarrow> nat \<Rightarrow> bool" where
  "free_slot hash m x e \<longleftrightarrow>
     e < m_cap m \<and> m_ctrl m ! e = kEmpty \<and> (\<forall>n < gap m (home hash x m) e div 16. clear m (grp m (home hash x m) n)) \<or>
     e = m_cap m \<and> m_cap m < 15 \<and> (\<forall>p < m_cap m. m_ctrl m ! p \<noteq> kEmpty)"

lemma first_pad:
  assumes s: "shape k m" and small: "m_cap m < 15" and b: "b \<le> m_cap m" and pad: "2 * m_cap m + 1 \<le> b + j"
    and first: "\<forall>j' < j. cell m (b + j') \<noteq> kEmpty"
  shows "b + j = 2 * m_cap m + 1 \<and> (\<forall>p < m_cap m. m_ctrl m ! p \<noteq> kEmpty)"
proof -
  have "\<not> 2 * m_cap m + 1 - b < j" using first [rule_format, of "2 * m_cap m + 1 - b"] pad_cell [OF s small] b by auto
  then have j: "b + j = 2 * m_cap m + 1" using pad b by simp
  have "m_ctrl m ! p \<noteq> kEmpty" if p: "p < m_cap m" for p
  proof (cases "b \<le> p")
    case True
    then show ?thesis using first [rule_format, of "p - b"] j p by (simp add: cell_def)
  next
    case False
    then show ?thesis using first [rule_format, of "p + Suc (m_cap m) - b"] j p b by (simp add: cell_def)
  qed
  with j show ?thesis by simp
qed

lemma pad_index: "Suc (2 * c) mod Suc c = c"
  using mod_add_self2 [of c "Suc c"] by (simp add: mult_2)

lemma findIndex_absent:
  assumes ok: "swiss_ok hash k m" and x: "\<not> has_key m x" and r: "room m"
  shows "\<exists>e. findIndex hash x m = Inr (False, e, tag hash x m) \<and> free_slot hash m x e"
proof -
  note s = swiss_ok_shape [OF ok]
  let ?h = "home hash x m"
  have h: "?h \<le> m_cap m" using home_le [OF s] .
  obtain n where n: "n \<le> m_cap m div 16" "\<not> clear m (grp m ?h n)" using room_group [OF s r h] by blast
  from find_loop_absent [OF ok x _ h n(2), of "Suc (m_cap m div 16)"] n(1)
  obtain n' j where j: "n' \<le> n" "j < 16"
    "find_loop (Suc (m_cap m div 16)) x (tag hash x m) ?h m = Inr (False, (grp m ?h n' + j) mod Suc (m_cap m))"
    "cell m (grp m ?h n' + j) = kEmpty" "\<forall>j' < j. cell m (grp m ?h n' + j') \<noteq> kEmpty"
    "\<forall>n'' < n'. clear m (grp m ?h n'')" by (auto simp: less_Suc_eq_le)
  let ?e = "(grp m ?h n' + j) mod Suc (m_cap m)"
  have e: "?e = (?h + (16 * n' + j)) mod Suc (m_cap m)" by (simp add: grp_def mod_simps add.assoc)
  have "gap m ?h ?e \<le> 16 * n' + j" unfolding e using gap_least [OF h] .
  then have g: "gap m ?h ?e div 16 \<le> n'" using j(2) by simp
  have "grp m ?h n' + j < m_cap m + 16" using grp_le [of m ?h n'] j(2) by simp
  from cell_slot [OF s this] have "free_slot hash m x ?e"
  proof (elim disjE)
    assume "2 * m_cap m + 1 \<le> grp m ?h n' + j \<and> m_cap m < 15 \<and> cell m (grp m ?h n' + j) = kEmpty"
    with first_pad [OF s _ grp_le, of ?h n' j] j(5) show ?thesis by (auto simp: free_slot_def pad_index)
  qed (use j(4,6) g in \<open>auto simp: free_slot_def kEmpty_def kSentinel_def\<close>)
  then show ?thesis using j(3) by (auto simp: findIndex_loop)
qed

end
