(* ===== verification/SwissOps.thy ===== *)
theory SwissOps
  imports SwissInv
begin

text \<open>
  The operations of the table keep its invariant and act as a finite map, as long as an empty
  control byte is left.
\<close>

section \<open>How many keys a table takes\<close>

declare limit.simps(2) [simp del]

lemma limit_1: "limit (Suc 0) = 1" and limit_2: "limit (Suc (Suc 0)) = 2" and limit_3: "limit (Suc (Suc (Suc 0))) = 5"
  by (simp_all add: limit.simps(2))

lemma limit_Suc: "2 \<le> k \<Longrightarrow> limit (Suc k) = 7 * 2 ^ (k - 2) - limit k"
proof -
  assume "2 \<le> k"
  then obtain j where k: "k = j + 2" using le_Suc_ex [of 2 k] by (auto simp: add.commute)
  have "(8 * 2 ^ j - 1) div 8 = (2 ^ j - 1 :: nat)" by (cases "2 ^ j :: nat") auto
  then show ?thesis by (simp add: k limit.simps(2) Let_def)
qed

lemma limit_step:
  "0 < p \<Longrightarrow> 12 * (l :: nat) \<le> 28 * p + 4 \<Longrightarrow> 28 * p \<le> 12 * l + 4 \<Longrightarrow> 12 * (7 * p - l) \<le> 56 * p + 4 \<and> 56 * p \<le> 12 * (7 * p - l) + 4"
  unfolding diff_mult_distrib2 by linarith

lemma limit_bounds: "3 \<le> k \<Longrightarrow> 12 * limit k \<le> 7 * 2 ^ k + 4 \<and> 7 * 2 ^ k \<le> 12 * limit k + 4"
proof (induction k rule: dec_induct)
  case base
  show ?case by (simp add: numeral_3_eq_3 limit_3)
next
  case (step k)
  then obtain j where k: "k = j + 2" using le_Suc_ex [of 2 k] by (auto simp: add.commute)
  then show ?case using step limit_Suc [of k] limit_step [of "2 ^ j" "limit k"] by simp
qed

lemma small_cases: "(k :: nat) < 3 \<Longrightarrow> k = 0 \<or> k = 1 \<or> k = 2"
  by auto

lemma limit_less: "limit k < limit (Suc k)"
proof (cases "3 \<le> k")
  case True
  then have "(2::nat) ^ 3 \<le> 2 ^ k" by (intro power_increasing) auto
  then show ?thesis using limit_bounds [of k] limit_bounds [of "Suc k"] True unfolding power_Suc by auto
next
  case False
  then show ?thesis using small_cases [of k] by (auto simp: numeral_2_eq_2 limit_1 limit_2 limit_3)
qed

lemma limit_le: "limit k \<le> 2 ^ k - 1"
proof (cases "3 \<le> k")
  case True
  then have "(2::nat) ^ 3 \<le> 2 ^ k" by (intro power_increasing) auto
  then show ?thesis using limit_bounds [OF True] by linarith
next
  case False
  then show ?thesis using small_cases [of k] by (auto simp: numeral_2_eq_2 limit_1 limit_2 limit_3)
qed

lemma sixth_slack: "12 * (l :: nat) \<le> 7 * p + 4 \<Longrightarrow> 16 \<le> p \<Longrightarrow> l + 6 \<le> p - 1"
proof (rule ccontr)
  assume a: "12 * l \<le> 7 * p + 4" "16 \<le> p" "\<not> l + 6 \<le> p - 1"
  then have "p \<le> l + 6" by simp
  with a(1) have "l \<le> 9" by linarith
  with a show False by simp
qed

lemma limit_free: "4 \<le> k \<Longrightarrow> limit k + 6 \<le> 2 ^ k - 1"
proof -
  assume k: "4 \<le> k"
  then have "(2::nat) ^ 4 \<le> 2 ^ k" by (intro power_increasing) auto
  then show ?thesis using limit_bounds [of k] k by (intro sixth_slack) auto
qed

lemma limit_mono: "j \<le> k \<Longrightarrow> limit j \<le> limit k"
  by (rule lift_Suc_mono_le [of limit]) (simp_all add: limit_less less_imp_le)

lemma limit_large: "limit k < 2 ^ 30 \<Longrightarrow> k < 31"
  using limit_bounds [of 31] limit_mono [of 31 k] by (cases "31 \<le> k") auto

section \<open>Changing a control byte\<close>

lemma same_frame:
  assumes "m_cap m' = m_cap m" and "m_salt m' = m_salt m" and "m_addr m' = m_addr m"
  shows "home hash x m' = home hash x m" and "tag hash x m' = tag hash x m" and "gap m' i p = gap m i p" and "grp m' i n = grp m i n"
  using assms by (simp_all add: home_def tag_def gap_def grp_def H1_def)

lemma same_cells:
  assumes "m_cap m' = m_cap m" and "m_ctrl m' = m_ctrl m"
  shows "clear m' i \<longleftrightarrow> clear m i" and "live m' p \<longleftrightarrow> live m p"
  unfolding clear_def cell_def live_def assms by simp_all

lemma setCtrl_shape:
  assumes s: "shape k m" and e: "e < m_cap m" and c: "c = kDeleted \<or> 0 \<le> c"
  obtains ctl where "setCtrl e c m = Inr (m\<lparr>m_ctrl := ctl\<rparr>)" and "shape k (m\<lparr>m_ctrl := ctl\<rparr>)"
    and "\<And>p. p < m_cap m \<Longrightarrow> ctl ! p = (if p = e then c else m_ctrl m ! p)"
    and "\<And>i. clear m i \<Longrightarrow> clear (m\<lparr>m_ctrl := ctl\<rparr>) i"
proof -
  define ctl where "ctl = (let c' = (m_ctrl m)[e := c] in if e < 15 then c'[e + m_cap m + 1 := c] else c')"
  let ?m = "m\<lparr>m_ctrl := ctl\<rparr>"
  have len: "length ctl = m_cap m + 16" by (simp add: ctl_def Let_def shape_len [OF s])
  have low: "ctl ! p = (if p = e then c else m_ctrl m ! p)" if "p \<le> m_cap m" for p
    using that e by (simp add: ctl_def Let_def shape_len [OF s] nth_list_update)
  have "ctl ! (m_cap m + 1 + j) = (if j < m_cap m then ctl ! j else kEmpty)" if "j < 15" for j
  proof -
    have "ctl ! (m_cap m + 1 + j) = (if j = e then c else m_ctrl m ! (m_cap m + 1 + j))"
      using that e by (auto simp: ctl_def Let_def shape_len [OF s] nth_list_update)
    then show ?thesis using s that e low [of j] by (auto simp: shape_def)
  qed
  then have sh: "shape k ?m"
    using s e low len c shape_byte [OF s] by (simp add: shape_def)
  have "cell ?m p = c \<or> cell ?m p = cell m p" for p
    using low by (auto simp: cell_def Let_def)
  moreover have "c \<noteq> kEmpty" using c by (auto simp: kEmpty_def kDeleted_def)
  ultimately have "clear ?m i" if "clear m i" for i
    using that unfolding clear_def by metis
  moreover have "setCtrl e c m = Inr ?m" using e by (simp add: setCtrl_def Let_def ctl_def kWidth_def shape_len [OF s])
  ultimately show thesis using sh low by (intro that) auto
qed

lemma live_finite: "finite {p. live m p}"
  by (rule finite_subset [of _ "{..<m_cap m}"]) (auto simp: live_def)

lemma num_less: "swiss_ok hash k m \<Longrightarrow> m_num m \<le> m_cap m \<and> m_cap m < 2 ^ 64"
proof -
  assume ok: "swiss_ok hash k m"
  have "(2::nat) ^ k \<le> 2 ^ 63" using ok by (intro power_increasing) (auto simp: swiss_ok_def)
  then have "m_cap m < 2 ^ 64" using shape_cap [OF swiss_ok_shape [OF ok]] by simp
  moreover have "m_num m \<le> m_cap m" using ok limit_le [of k] shape_cap [OF swiss_ok_shape [OF ok]] by (simp add: swiss_ok_def)
  ultimately show ?thesis by simp
qed

text \<open>Storing a key in a slot that was empty or deleted.\<close>

lemma put_key_ok:
  assumes ok: "swiss_ok hash k m" and e: "e < m_cap m" "\<not> live m e" and x: "\<not> has_key m x" and g: "0 < m_growthInfo m"
    and near: "\<forall>n < gap m (home hash x m) e div 16. clear m (grp m (home hash x m) n)"
  obtains ctl where "setCtrl e (tag hash x m) m = Inr (m\<lparr>m_ctrl := ctl\<rparr>)"
    and "\<And>p. p < m_cap m \<Longrightarrow> ctl ! p = (if p = e then tag hash x m else m_ctrl m ! p)"
    and "\<And>v. swiss_ok hash k (m\<lparr>m_ctrl := ctl, m_slot := (m_slot m)[e := (Some x, v)], m_num := m_num m + 1,
      m_growthInfo := m_growthInfo m - 1\<rparr>)"
proof -
  note s = swiss_ok_shape [OF ok]
  obtain ctl where c: "setCtrl e (tag hash x m) m = Inr (m\<lparr>m_ctrl := ctl\<rparr>)" "shape k (m\<lparr>m_ctrl := ctl\<rparr>)"
    "\<And>p. p < m_cap m \<Longrightarrow> ctl ! p = (if p = e then tag hash x m else m_ctrl m ! p)"
    "\<And>i. clear m i \<Longrightarrow> clear (m\<lparr>m_ctrl := ctl\<rparr>) i"
    by (rule setCtrl_shape [OF s e(1), of "tag hash x m"]) (auto simp: tag_nonneg)
  have "swiss_ok hash k (m\<lparr>m_ctrl := ctl, m_slot := (m_slot m)[e := (Some x, v)], m_num := m_num m + 1,
      m_growthInfo := m_growthInfo m - 1\<rparr>)" (is "swiss_ok hash k ?m") for v
  proof -
    have fr: "home hash y ?m = home hash y m" "tag hash y ?m = tag hash y m" "gap ?m i p = gap m i p" "grp ?m i n = grp m i n" for y i p n
      by (rule same_frame; simp)+
    have cl: "clear ?m i" if "clear m i" for i using c(4) [OF that] same_cells(1) [of ?m "m\<lparr>m_ctrl := ctl\<rparr>" i] by simp
    have lv: "live ?m p \<longleftrightarrow> p = e \<or> live m p" for p using c(3) [of p] e(1) by (auto simp: live_def tag_nonneg)
    have ky: "key_at ?m p = (if p = e then Some x else key_at m p)" for p
      using e(1) shape_len(2) [OF s] by (simp add: key_at_def nth_list_update)
    have "stored hash ?m e x" unfolding stored_def fr using near cl c(3) [OF e(1)] ky by simp
    moreover have "stored hash ?m p y" if "live m p" "stored hash m p y" for p y
      using that cl c(3) [of p] ky e(2) unfolding stored_def fr by (auto simp: live_def)
    ultimately have "\<forall>p. live ?m p \<longrightarrow> (\<exists>y. stored hash ?m p y)" using ok unfolding lv swiss_ok_def by blast
    moreover have "p = q" if "live ?m p" "live ?m q" "key_at ?m p = key_at ?m q" for p q
      using that x swiss_ok_distinct [OF ok, of p q] unfolding lv ky has_key_def by (auto split: if_splits)
    moreover have "{p. live ?m p} = Set.insert e {p. live m p}" unfolding lv by auto
    then have "card {p. live ?m p} = m_num m + 1" using e(2) live_finite [of m] ok by (simp add: swiss_ok_def)
    moreover have "shape k ?m" using c(2) by (simp add: shape_def)
    ultimately show ?thesis using ok g by (auto simp: swiss_ok_def)
  qed
  with c(1,3) show thesis by (rule that)
qed

section \<open>The table as a map\<close>

text \<open>The pairs in the slots with a valid control byte; \<open>rehash\<close> walks over the same list.\<close>

definition entries :: "(int \<times> 'k option \<times> 'v option) list \<Rightarrow> ('k option \<times> 'v option) list" where
  "entries old = map snd (filter (\<lambda>(c, s). 0 \<le> c) old)"

definition swiss_map :: "('k, 'v) swissmap \<Rightarrow> 'k \<Rightarrow> 'v option" where
  "swiss_map m x = (case map_of (entries (zip (take (m_cap m) (m_ctrl m)) (m_slot m))) (Some x) of None \<Rightarrow> None | Some v \<Rightarrow> v)"

definition filled :: "('k, 'v) swissmap \<Rightarrow> bool" where
  "filled m \<longleftrightarrow> (\<forall>p. live m p \<longrightarrow> snd (m_slot m ! p) \<noteq> None)"

lemma set_entries:
  "shape k m \<Longrightarrow> set (entries (zip (take (m_cap m) (m_ctrl m)) (m_slot m))) = {m_slot m ! p |p. live m p}"
proof -
  assume s: "shape k m"
  have "set (zip (take (m_cap m) (m_ctrl m)) (m_slot m)) = {(m_ctrl m ! p, m_slot m ! p) |p. p < m_cap m}"
    unfolding set_zip by (rule Collect_cong, rule ex_cong1) (auto simp: shape_len [OF s])
  then show ?thesis by (force simp: entries_def live_def)
qed

lemma swiss_map_live:
  assumes ok: "swiss_ok hash k m" and p: "live m p" "m_slot m ! p = (Some x, v)"
  shows "swiss_map m x = v"
proof -
  let ?es = "entries (zip (take (m_cap m) (m_ctrl m)) (m_slot m))"
  note es = set_entries [OF swiss_ok_shape [OF ok]]
  have "w = v" if "(Some x, w) \<in> set ?es" for w
  proof -
    from that es obtain q where q: "live m q" "m_slot m ! q = (Some x, w)" by force
    then have "q = p" using swiss_ok_distinct [OF ok q(1) p(1)] p(2) by (simp add: key_at_def)
    then show ?thesis using q(2) p(2) by simp
  qed
  moreover have "(Some x, v) \<in> set ?es" using es p by force
  then obtain w where "map_of ?es (Some x) = Some w" by (metis weak_map_of_SomeI)
  ultimately show ?thesis using map_of_SomeD [of ?es "Some x"] by (auto simp: swiss_map_def)
qed

lemma swiss_map_absent:
  assumes "shape k m" and "\<not> has_key m x"
  shows "swiss_map m x = None"
proof -
  have "Some x \<notin> fst ` set (entries (zip (take (m_cap m) (m_ctrl m)) (m_slot m)))"
    using assms(2) unfolding set_entries [OF assms(1)] has_key_def key_at_def by force
  then show ?thesis by (simp add: swiss_map_def map_of_eq_None_iff [THEN iffD2])
qed

lemma has_key_map: "swiss_ok hash k m \<Longrightarrow> filled m \<Longrightarrow> has_key m x \<longleftrightarrow> swiss_map m x \<noteq> None"
proof -
  assume ok: "swiss_ok hash k m" and f: "filled m"
  show ?thesis
  proof (cases "has_key m x")
    case True
    then obtain p where "live m p" "key_at m p = Some x" by (auto simp: has_key_def)
    then show ?thesis using True f swiss_map_live [OF ok, of p x "snd (m_slot m ! p)"]
      by (auto simp: filled_def key_at_def prod_eq_iff)
  qed (simp add: swiss_map_absent [OF swiss_ok_shape [OF ok]])
qed

text \<open>Changing one slot changes the map at one key.\<close>

lemma swiss_map_put:
  assumes ok: "swiss_ok hash k m" "swiss_ok hash k' m'" and e: "m_slot m' ! e = (Some x, v)"
    and lv: "\<And>p. live m' p \<longleftrightarrow> p = e \<or> live m p" and rest: "\<And>p. p \<noteq> e \<Longrightarrow> m_slot m' ! p = m_slot m ! p"
    and old: "live m e \<Longrightarrow> key_at m e = Some x"
  shows "swiss_map m' = (swiss_map m)(x := v)"
proof
  fix y
  consider "y = x" | (key) p where "y \<noteq> x" "live m p" "key_at m p = Some y" | (none) "y \<noteq> x" "\<not> has_key m y"
    by (auto simp: has_key_def)
  then show "swiss_map m' y = ((swiss_map m)(x := v)) y"
  proof cases
    case 1
    then show ?thesis using swiss_map_live [OF ok(2), of e x v] e lv by simp
  next
    case key
    then have "p \<noteq> e" using old by auto
    then show ?thesis
      using key swiss_map_live [OF ok(1), of p y "snd (m_slot m ! p)"] swiss_map_live [OF ok(2), of p y "snd (m_slot m ! p)"] lv rest
      by (simp add: key_at_def prod_eq_iff)
  next
    case none
    have "key_at m' p \<noteq> Some y" if "live m' p" for p
      using that none e lv rest [of p] by (cases "p = e") (auto simp: has_key_def key_at_def)
    then have "\<not> has_key m' y" by (auto simp: has_key_def)
    then show ?thesis using none swiss_map_absent swiss_ok_shape ok by (metis fun_upd_other)
  qed
qed

lemma put_value_ok:
  assumes ok: "swiss_ok hash k m" and i: "live m i" "key_at m i = Some x"
  obtains m' where "put_value i v m = Inr m'" and "swiss_ok hash k m'" and "swiss_map m' = (swiss_map m)(x \<mapsto> v)"
    and "\<And>p. live m' p \<longleftrightarrow> live m p" and "m_ctrl m' = m_ctrl m" and "m_num m' = m_num m" and "m_growthInfo m' = m_growthInfo m"
    and "\<And>p. m_slot m' ! p = (if p = i then (Some x, Some v) else m_slot m ! p)" and "m_cap m' = m_cap m"
proof -
  let ?m = "m\<lparr>m_slot := (m_slot m)[i := (fst (m_slot m ! i), Some v)]\<rparr>"
  note s = swiss_ok_shape [OF ok]
  have il: "i < length (m_slot m)" using i(1) by (simp add: live_def shape_len [OF s])
  have fr: "home hash y ?m = home hash y m" "tag hash y ?m = tag hash y m" "gap ?m j p = gap m j p" "grp ?m j n = grp m j n" for y j p n
    by (rule same_frame; simp)+
  have cl: "clear ?m j \<longleftrightarrow> clear m j" and lv: "live ?m p \<longleftrightarrow> live m p" for p j by (rule same_cells; simp)+
  have ky: "key_at ?m p = key_at m p" for p using il by (simp add: key_at_def nth_list_update)
  have "shape k ?m" using s by (simp add: shape_def)
  then have ok': "swiss_ok hash k ?m" using ok unfolding swiss_ok_def stored_def fr cl ky lv by simp
  have sl: "m_slot ?m ! p = (if p = i then (Some x, Some v) else m_slot m ! p)" for p
    using i(2) il by (simp add: key_at_def nth_list_update)
  have "swiss_map ?m = (swiss_map m)(x \<mapsto> v)"
    using sl i lv by (intro swiss_map_put [OF ok ok', of i]) auto
  moreover have "put_value i v m = Inr ?m" using il by (simp add: put_value_def)
  ultimately show thesis using ok' lv sl by (intro that [of ?m]) auto
qed

section \<open>Storing a new key\<close>

definition empties :: "('k, 'v) swissmap \<Rightarrow> nat" where
  "empties m = card {p. p < m_cap m \<and> m_ctrl m ! p = kEmpty}"

definition clean :: "('k, 'v) swissmap \<Rightarrow> bool" where
  "clean m \<longleftrightarrow> (\<forall>p < m_cap m. m_ctrl m ! p \<noteq> kDeleted)"

lemma mask_less_cells: "mask_less h (map (\<lambda>j. cell m (i + j)) [0..<16]) = filter (\<lambda>j. cell m (i + j) < h) [0..<16]"
  by (auto simp: mask_less_def intro!: filter_cong)

lemma free_exists:
  assumes ok: "swiss_ok hash k m" and g: "0 < m_growthInfo m"
  obtains p where "p < m_cap m" and "\<not> live m p"
proof -
  have "m_num m < m_cap m" using ok g limit_le [of k] shape_cap [OF swiss_ok_shape [OF ok]] by (simp add: swiss_ok_def)
  moreover have "{p. live m p} = {..<m_cap m}" if "\<And>p. p < m_cap m \<Longrightarrow> live m p" using that by (auto simp: live_def)
  ultimately show thesis using that ok by (metis card_lessThan less_irrefl swiss_ok_def)
qed

text \<open>
  The slot taken for a missing key: the empty one the search ended at, or the first deleted one of a small
  table without empty slots.
\<close>

lemma taken_slot:
  assumes ok: "swiss_ok hash k m" and e: "free_slot hash m x e" and g: "0 < m_growthInfo m"
  obtains j js where "filter (\<lambda>j. cell m (e + j) < kSentinel) [0..<16] = j # js" and "(e + j) mod Suc (m_cap m) < m_cap m"
    and "\<not> live m ((e + j) mod Suc (m_cap m))" and "15 \<le> m_cap m \<longrightarrow> m_ctrl m ! ((e + j) mod Suc (m_cap m)) = kEmpty"
    and "\<forall>n < gap m (home hash x m) ((e + j) mod Suc (m_cap m)) div 16. clear m (grp m (home hash x m) n)"
proof (cases "e < m_cap m")
  case True
  then have "m_ctrl m ! e = kEmpty" "\<forall>n < gap m (home hash x m) e div 16. clear m (grp m (home hash x m) n)" using e by (auto simp: free_slot_def)
  moreover then have "cell m e < kSentinel" using True by (simp add: cell_def kEmpty_def kSentinel_def)
  then have "filter (\<lambda>j. cell m (e + j) < kSentinel) [0..<16] = 0 # filter (\<lambda>j. cell m (e + j) < kSentinel) [1..<16]"
    by (simp add: upt_conv_Cons)
  ultimately show thesis using True by (intro that [of 0]) (auto simp: live_def kEmpty_def)
next
  case False
  then have e': "e = m_cap m" "m_cap m < 15" "\<forall>p < m_cap m. m_ctrl m ! p \<noteq> kEmpty" using e by (auto simp: free_slot_def)
  note s = swiss_ok_shape [OF ok]
  have c: "cell m (e + Suc p) = m_ctrl m ! p" if "p < m_cap m" for p using that e'(1) by (simp add: cell_def Let_def)
  obtain p where p: "p < m_cap m" "\<not> live m p" by (rule free_exists [OF ok g])
  have small: "cell m (e + Suc p) < kSentinel" "Suc p < 16"
    using c [OF p(1)] shape_byte [OF s p(1)] p e'(2) by (auto simp: live_def kEmpty_def kDeleted_def kSentinel_def)
  then have "Suc p \<in> set (filter (\<lambda>j. cell m (e + j) < kSentinel) [0..<16])" by simp
  then obtain j js where j: "filter (\<lambda>j. cell m (e + j) < kSentinel) [0..<16] = j # js" by (metis list.set_cases)
  have j': "j < 16" "cell m (e + j) < kSentinel" "j \<le> Suc p" using filter_first [OF j] small(1) not_le by blast+
  have "cell m (e + 0) = kSentinel" using e'(1) by (simp add: cell_def shape_len [OF s])
  then obtain q where q: "j = Suc q" using j'(2) by (cases j) auto
  have q': "q < m_cap m" using q j'(3) p(1) by simp
  have "(e + j) mod Suc (m_cap m) = (q + Suc (m_cap m)) mod Suc (m_cap m)" using q e'(1) by (simp add: add.commute)
  also have "\<dots> = q" using q' mod_add_self2 [of q "Suc (m_cap m)"] by simp
  finally have i: "(e + j) mod Suc (m_cap m) = q" .
  have "\<not> live m q" using c [OF q'] j'(2) q by (simp add: live_def kSentinel_def)
  moreover have "gap m (home hash x m) q div 16 = 0" using gap_le [of m "home hash x m" q] e'(2) by simp
  ultimately show thesis using q' e'(2) i j by (intro that [of j js]) auto
qed

definition added :: "('k \<Rightarrow> u64) \<Rightarrow> nat \<Rightarrow> 'k \<Rightarrow> 'v \<Rightarrow> ('k, 'v) swissmap \<Rightarrow> ('k, 'v) swissmap \<Rightarrow> bool" where
  "added hash k x v m m' \<longleftrightarrow> swiss_ok hash k m' \<and> swiss_map m' = (swiss_map m)(x \<mapsto> v) \<and> (filled m \<longrightarrow> filled m') \<and>
     m_num m' = m_num m + 1 \<and> m_growthInfo m' = m_growthInfo m - 1 \<and> m_cap m' = m_cap m \<and> (clean m \<longrightarrow> clean m') \<and>
     (15 \<le> m_cap m \<longrightarrow> empties m = Suc (empties m')) \<and> (\<forall>y. has_key m' y \<longleftrightarrow> y = x \<or> has_key m y)"

lemma place_ok:
  assumes ok: "swiss_ok hash k m" and x: "\<not> has_key m x" and e: "free_slot hash m x e" and g: "0 < m_growthInfo m"
  shows "\<exists>i m1 m'. place x (tag hash x m) e m = Inr (Some (i, m1)) \<and> put_value i v m1 = Inr m' \<and> added hash k x v m m'"
proof -
  note s = swiss_ok_shape [OF ok]
  obtain j js where j: "filter (\<lambda>j. cell m (e + j) < kSentinel) [0..<16] = j # js" "(e + j) mod Suc (m_cap m) < m_cap m"
    "\<not> live m ((e + j) mod Suc (m_cap m))" "15 \<le> m_cap m \<longrightarrow> m_ctrl m ! ((e + j) mod Suc (m_cap m)) = kEmpty"
    "\<forall>n < gap m (home hash x m) ((e + j) mod Suc (m_cap m)) div 16. clear m (grp m (home hash x m) n)"
    by (rule taken_slot [OF ok e g])
  define i where "i = (e + j) mod Suc (m_cap m)"
  note i = j(2-5) [folded i_def]
  obtain ctl where ctl: "setCtrl i (tag hash x m) m = Inr (m\<lparr>m_ctrl := ctl\<rparr>)"
    "\<And>p. p < m_cap m \<Longrightarrow> ctl ! p = (if p = i then tag hash x m else m_ctrl m ! p)"
    "\<And>v. swiss_ok hash k (m\<lparr>m_ctrl := ctl, m_slot := (m_slot m)[i := (Some x, v)], m_num := m_num m + 1, m_growthInfo := m_growthInfo m - 1\<rparr>)"
    using put_key_ok [OF ok i(1,2) x g i(4)] by blast
  define m1 where "m1 = m\<lparr>m_ctrl := ctl, m_slot := (m_slot m)[i := (Some x, snd (m_slot m ! i))], m_num := m_num m + 1,
    m_growthInfo := m_growthInfo m - 1\<rparr>"
  have ok1: "swiss_ok hash k m1" unfolding m1_def by (rule ctl(3))
  have byte: "m_ctrl m ! i = kEmpty \<or> m_ctrl m ! i = kDeleted" using shape_byte [OF s i(1)] i(1,2) by (auto simp: live_def)
  have "(m_num m + 1) mod 2 ^ 64 = m_num m + 1" using num_less [OF ok1] by (simp add: m1_def)
  moreover have "e \<le> m_cap m" using e by (auto simp: free_slot_def)
  ultimately have pl: "place x (tag hash x m) e m = Inr (Some (i, m1))"
    using j(1) g byte ctl(1) i(1)
    by (simp add: place_def load16_cells [OF s] mask_less_cells getSlotIndex_mod [OF s] ctrl_at_def shape_len [OF s] m1_def flip: i_def)
  have lv: "live m1 p \<longleftrightarrow> p = i \<or> live m p" for p using ctl(2) [of p] i(1) by (auto simp: live_def m1_def tag_nonneg)
  have sl: "m_slot m1 ! p = (if p = i then (Some x, snd (m_slot m ! i)) else m_slot m ! p)" for p
    using i(1) by (simp add: m1_def nth_list_update shape_len [OF s])
  obtain m' where m': "put_value i v m1 = Inr m'" "swiss_ok hash k m'" "swiss_map m' = (swiss_map m1)(x \<mapsto> v)" "\<And>p. live m' p \<longleftrightarrow> live m1 p"
    "m_ctrl m' = m_ctrl m1" "m_num m' = m_num m1" "m_growthInfo m' = m_growthInfo m1"
    "\<And>p. m_slot m' ! p = (if p = i then (Some x, Some v) else m_slot m1 ! p)" "m_cap m' = m_cap m1"
    using put_value_ok [OF ok1, of i x v thesis] lv sl by (simp add: key_at_def)
  have "swiss_map m' = (swiss_map m)(x \<mapsto> v)"
    using m'(4,8) lv sl i(2) by (intro swiss_map_put [OF ok m'(2), of i]) auto
  moreover have "filled m'" if "filled m" using that m'(4,8) lv sl by (auto simp: filled_def)
  moreover have "clean m'" if "clean m" using that ctl(2) m'(5,9) tag_nonneg [of hash x m] by (auto simp: clean_def m1_def kDeleted_def)
  moreover have "empties m = Suc (empties m')" if "15 \<le> m_cap m"
  proof -
    have "m_ctrl m' ! p = kEmpty \<longleftrightarrow> m_ctrl m ! p = kEmpty \<and> p \<noteq> i" if "p < m_cap m" for p
      using ctl(2) [OF that] m'(5) tag_nonneg [of hash x m] by (auto simp: m1_def kEmpty_def)
    then have "{p. p < m_cap m' \<and> m_ctrl m' ! p = kEmpty} = {p. p < m_cap m \<and> m_ctrl m ! p = kEmpty} - {i}"
      using m'(9) by (auto simp: m1_def)
    moreover have "i \<in> {p. p < m_cap m \<and> m_ctrl m ! p = kEmpty}" using i(1,3) that by simp
    ultimately show ?thesis unfolding empties_def by (metis card.remove finite_Collect_conjI finite_Collect_less_nat)
  qed
  moreover have "has_key m' y \<longleftrightarrow> y = x \<or> has_key m y" for y
    using m'(4,8) lv sl i(2) unfolding has_key_def key_at_def by (metis fst_conv option.inject)
  ultimately show ?thesis using pl m'(1,2,6,7,9) unfolding added_def by (auto simp: m1_def)
qed

lemma find_new:
  assumes "swiss_ok hash k m" and "\<not> has_key m x" and "room m" and "0 < m_growthInfo m"
  shows "\<exists>i m1 m'. swiss_find hash addr (Suc n) x True m = Inr (Some i, m1) \<and> put_value i v m1 = Inr m' \<and> added hash k x v m m'"
proof -
  obtain e where e: "findIndex hash x m = Inr (False, e, tag hash x m)" "free_slot hash m x e"
    using findIndex_absent [OF assms(1-3)] by blast
  obtain i m1 m' where "place x (tag hash x m) e m = Inr (Some (i, m1))" "put_value i v m1 = Inr m'" "added hash k x v m m'"
    using place_ok [OF assms(1,2) e(2) assms(4)] by blast
  then show ?thesis using e(1) by simp
qed

lemma find_old:
  "swiss_ok hash k m \<Longrightarrow> live m p \<Longrightarrow> key_at m p = Some x \<Longrightarrow> swiss_find hash addr (Suc n) x b m = Inr (Some p, m)"
  by (simp add: findIndex_present)

lemma find_none:
  "swiss_ok hash k m \<Longrightarrow> \<not> has_key m x \<Longrightarrow> room m \<Longrightarrow> swiss_find hash addr (Suc n) x False m = Inr (None, m)"
  using findIndex_absent by fastforce

lemma find_grow:
  assumes ok: "swiss_ok hash k m" and "\<not> has_key m x" and "room m" and "m_growthInfo m = 0"
  shows "swiss_find hash addr (Suc n) x True m =
    bnd (rehash hash addr n 0 (zip (take (m_cap m) (m_ctrl m)) (m_slot m)) ((swiss_init addr (2 * m_cap m + 1) m)\<lparr>m_num := 0\<rparr>))
      (\<lambda>m. swiss_find hash addr n x True m)"
proof -
  note s = swiss_ok_shape [OF ok]
  obtain e where e: "findIndex hash x m = Inr (False, e, tag hash x m)" "free_slot hash m x e"
    using findIndex_absent [OF assms(1-3)] by blast
  then have "e \<le> m_cap m" by (auto simp: free_slot_def)
  then have "place x (tag hash x m) e m = Inr None" using assms(4) by (simp add: place_def load16_cells [OF s] split: list.split)
  moreover have "nextCap m = Inr (2 * m_cap m + 1)"
    using IsValidCapacity_pow [of "Suc k"] shape_cap [OF s] by (simp add: nextCap_def mult.commute)
  ultimately show ?thesis using e(1) by simp
qed

section \<open>Growing\<close>

lemma empties_clean:
  assumes ok: "swiss_ok hash k m" and "clean m"
  shows "empties m + m_num m = m_cap m"
proof -
  have "{..<m_cap m} = {p. p < m_cap m \<and> m_ctrl m ! p = kEmpty} \<union> {p. live m p}"
    using shape_byte [OF swiss_ok_shape [OF ok]] assms(2) by (auto simp: live_def clean_def)
  moreover have "{p. p < m_cap m \<and> m_ctrl m ! p = kEmpty} \<inter> {p. live m p} = {}" by (auto simp: live_def kEmpty_def)
  ultimately show ?thesis using ok card_Un_disjoint [OF _ live_finite [of m], of "{p. p < m_cap m \<and> m_ctrl m ! p = kEmpty}"]
    by (simp add: empties_def swiss_ok_def) (metis card_lessThan)
qed

lemma clean_room:
  assumes "swiss_ok hash k m" and "clean m" and "0 < m_growthInfo m"
  shows "room m"
proof -
  obtain p where "p < m_cap m" "\<not> live m p" by (rule free_exists [OF assms(1,3)])
  then show ?thesis using shape_byte [OF swiss_ok_shape [OF assms(1)], of p] assms(2) by (auto simp: room_def live_def clean_def)
qed

lemma init_ok:
  assumes k: "k < 64" and c: "2 ^ k = Suc c" and l: "m_num m \<le> c - c div 8" "c - c div 8 - m_num m = limit k"
  shows "swiss_ok hash k ((swiss_init addr c m)\<lparr>m_num := 0\<rparr>) \<and> clean ((swiss_init addr c m)\<lparr>m_num := 0\<rparr>) \<and>
    m_growthInfo ((swiss_init addr c m)\<lparr>m_num := 0\<rparr>) = limit k \<and> (\<forall>p. \<not> live ((swiss_init addr c m)\<lparr>m_num := 0\<rparr>) p)"
    (is "swiss_ok hash k ?m \<and> _")
proof -
  have "(2::nat) ^ k \<le> 2 ^ 63" using k by (intro power_increasing) auto
  then have "c < 2 ^ 64" using c by simp
  then have "c - c div 8 + 2 ^ 64 - m_num m = limit k + 2 ^ 64" "limit k < 2 ^ 64" using l by linarith+
  then have g: "m_growthInfo ?m = limit k" by (simp add: swiss_init_def)
  have ctl: "m_ctrl ?m = (replicate (c + 16) kEmpty)[c := kSentinel]" "m_cap ?m = c" "length (m_slot ?m) = c" "m_num ?m = 0"
    by (simp_all add: swiss_init_def kWidth_def)
  have b: "m_ctrl ?m ! p = (if p = c then kSentinel else kEmpty)" if "p < c + 16" for p using that by (simp add: ctl nth_list_update)
  then have dead: "\<not> live ?m p" for p by (simp add: live_def ctl(2) kEmpty_def)
  have "shape k ?m" using b c ctl unfolding shape_def by auto
  then show ?thesis using g dead k b ctl(2,4) by (auto simp: swiss_ok_def clean_def kEmpty_def kDeleted_def)
qed

lemma entries_Cons: "entries ((c, s) # old) = (if 0 \<le> c then s # entries old else entries old)"
  by (simp add: entries_def)

lemma rehash_ok:
  "swiss_ok hash k m \<Longrightarrow> clean m \<Longrightarrow> filled m \<Longrightarrow> length (entries old) \<le> m_growthInfo m \<Longrightarrow>
   (\<And>s. s \<in> set (entries old) \<Longrightarrow> \<exists>y v. s = (Some y, Some v) \<and> \<not> has_key m y) \<Longrightarrow> distinct (map fst (entries old)) \<Longrightarrow> i + length old < 2 ^ 31 \<Longrightarrow>
   \<exists>m'. rehash hash addr (Suc n) i old m = Inr m' \<and> swiss_ok hash k m' \<and> clean m' \<and> filled m' \<and>
     m_growthInfo m' + length (entries old) = m_growthInfo m \<and>
     (\<forall>x. swiss_map m' x = (case map_of (entries old) (Some x) of None \<Rightarrow> swiss_map m x | Some v \<Rightarrow> v))"
proof (induction old arbitrary: m i)
  case Nil
  then show ?case by (simp add: entries_def)
next
  case (Cons a old)
  obtain c s where a: "a = (c, s)" by (cases a)
  show ?case
  proof (cases "0 \<le> c")
    case True
    then have es: "entries (a # old) = s # entries old" by (simp add: a entries_Cons)
    obtain y v where s: "s = (Some y, Some v)" "\<not> has_key m y" using Cons.prems(5) [of s] es by auto
    have g: "0 < m_growthInfo m" using Cons.prems(4) es by simp
    obtain j m1 m2 where m2: "swiss_find hash addr (Suc n) y True m = Inr (Some j, m1)" "put_value j v m1 = Inr m2" "added hash k y v m m2"
      using find_new [OF Cons.prems(1) s(2) clean_room [OF Cons.prems(1,2) g] g] by blast
    have y: "Some y \<notin> fst ` set (entries old)" using Cons.prems(6) es s(1) by simp
    have "\<exists>z w. t = (Some z, Some w) \<and> \<not> has_key m2 z" if t: "t \<in> set (entries old)" for t
    proof -
      obtain z w where z: "t = (Some z, Some w)" "\<not> has_key m z" using Cons.prems(5) [of t] es t by auto
      moreover have "z \<noteq> y" using y t z(1) by force
      ultimately show ?thesis using m2(3) by (auto simp: added_def)
    qed
    moreover have "swiss_ok hash k m2" "clean m2" "filled m2" "length (entries old) \<le> m_growthInfo m2" "distinct (map fst (entries old))"
      using m2(3) Cons.prems(2-4,6) es by (auto simp: added_def)
    ultimately obtain m' where m': "rehash hash addr (Suc n) (Suc i) old m2 = Inr m'" "swiss_ok hash k m'" "clean m'" "filled m'"
      "m_growthInfo m' + length (entries old) = m_growthInfo m2"
      "\<forall>x. swiss_map m' x = (case map_of (entries old) (Some x) of None \<Rightarrow> swiss_map m2 x | Some v \<Rightarrow> v)"
      using Cons.IH [of m2 "Suc i"] Cons.prems(7) by auto
    have "rehash hash addr (Suc n) i (a # old) m = Inr m'" using True s(1) m2(1,2) m'(1) Cons.prems(7) by (simp add: a del: swiss_find.simps)
    moreover have "swiss_map m2 = (swiss_map m)(y \<mapsto> v)" using m2(3) by (simp add: added_def)
    then have "swiss_map m' x = (case map_of (entries (a # old)) (Some x) of None \<Rightarrow> swiss_map m x | Some v \<Rightarrow> v)" for x
      using m'(6) y map_of_eq_None_iff [of "entries old" "Some y"] by (auto simp: es s(1) split: option.split)
    ultimately show ?thesis using m'(2-5) m2(3) g es by (auto simp: added_def)
  next
    case False
    then show ?thesis using Cons.IH [of m "Suc i"] Cons.prems by (simp add: a entries_Cons)
  qed
qed

lemma entries_distinct:
  assumes ok: "swiss_ok hash k m"
  defines "es \<equiv> entries (zip (take (m_cap m) (m_ctrl m)) (m_slot m))"
  shows "distinct (map fst es)" and "length es = m_num m"
proof -
  let ?old = "zip (take (m_cap m) (m_ctrl m)) (m_slot m)"
  note s = swiss_ok_shape [OF ok]
  have "length ?old = m_cap m" by (simp add: shape_len [OF s])
  moreover have "?old ! p = (m_ctrl m ! p, m_slot m ! p)" if "p < m_cap m" for p using that by (simp add: shape_len [OF s])
  ultimately have "?old = map (\<lambda>p. (m_ctrl m ! p, m_slot m ! p)) [0..<m_cap m]" by (intro nth_equalityI) auto
  moreover have "filter (live m) [0..<m_cap m] = filter (\<lambda>p. 0 \<le> m_ctrl m ! p) [0..<m_cap m]"
    by (rule filter_cong) (auto simp: live_def)
  ultimately have keys: "map fst es = map (key_at m) (filter (live m) [0..<m_cap m])"
    by (simp add: es_def entries_def filter_map comp_def key_at_def [abs_def])
  have inj: "inj_on (key_at m) {p. live m p}" using swiss_ok_distinct [OF ok] by (auto simp: inj_on_def)
  then show d: "distinct (map fst es)" unfolding keys by (auto simp: distinct_map intro: inj_on_subset)
  have "length es = card (set (map fst es))" using distinct_card [OF d] by simp
  also have "set (map fst es) = key_at m ` {p. live m p}" using set_entries [OF s] by (auto simp: es_def key_at_def)
  also have "card \<dots> = m_num m" using card_image [OF inj] ok by (simp add: swiss_ok_def)
  finally show "length es = m_num m" .
qed

lemma grown:
  assumes ok: "swiss_ok hash k m" and f: "filled m" and g: "m_growthInfo m = 0" and k: "k < 31"
  shows "\<exists>m'. rehash hash addr (Suc n) 0 (zip (take (m_cap m) (m_ctrl m)) (m_slot m)) ((swiss_init addr (2 * m_cap m + 1) m)\<lparr>m_num := 0\<rparr>) = Inr m' \<and>
    swiss_ok hash (Suc k) m' \<and> clean m' \<and> filled m' \<and> 0 < m_growthInfo m' \<and> m_num m' = m_num m \<and> swiss_map m' = swiss_map m"
proof -
  let ?old = "zip (take (m_cap m) (m_ctrl m)) (m_slot m)"
  let ?m = "(swiss_init addr (2 * m_cap m + 1) m)\<lparr>m_num := 0\<rparr>"
  note s = swiss_ok_shape [OF ok]
  have num: "m_num m = limit k" using ok g by (simp add: swiss_ok_def)
  have c: "2 ^ Suc k = Suc (2 * m_cap m + 1)" using shape_cap [OF s] by simp
  then have "limit (Suc k) = 2 * m_cap m + 1 - (2 * m_cap m + 1) div 8 - limit k" using limit.simps(2) [of k] by (simp add: Let_def)
  with limit_less [of k] num have "m_num m \<le> 2 * m_cap m + 1 - (2 * m_cap m + 1) div 8"
    "2 * m_cap m + 1 - (2 * m_cap m + 1) div 8 - m_num m = limit (Suc k)" by linarith+
  from init_ok [OF _ c this, of hash addr] k have i: "swiss_ok hash (Suc k) ?m" "clean ?m" "m_growthInfo ?m = limit (Suc k)" "\<And>p. \<not> live ?m p"
    by auto
  note es = entries_distinct [OF ok]
  have "(2 :: nat) ^ k < 2 ^ 31" using k by (intro power_strict_increasing) auto
  then have small: "0 + length ?old < 2 ^ 31" using shape_cap [OF s] shape_len [OF s] by simp
  have "\<exists>y v. t = (Some y, Some v) \<and> \<not> has_key ?m y" if "t \<in> set (entries ?old)" for t
  proof -
    from that set_entries [OF s] obtain p where p: "t = m_slot m ! p" "live m p" by auto
    then show ?thesis using swiss_ok_key [OF ok p(2)] f i(4) by (auto simp: has_key_def filled_def key_at_def prod_eq_iff)
  qed
  moreover have "filled ?m" using i(4) by (simp add: filled_def)
  ultimately obtain m' where m': "rehash hash addr (Suc n) 0 ?old ?m = Inr m'" "swiss_ok hash (Suc k) m'" "clean m'" "filled m'"
    "m_growthInfo m' + length (entries ?old) = m_growthInfo ?m"
    "\<forall>x. swiss_map m' x = (case map_of (entries ?old) (Some x) of None \<Rightarrow> swiss_map ?m x | Some v \<Rightarrow> v)"
    using rehash_ok [OF i(1,2), of ?old 0 addr n] limit_less [of k] i(3) es num small by auto
  have "swiss_map ?m x = None" for x using swiss_map_absent [OF swiss_ok_shape [OF i(1)]] i(4) by (simp add: has_key_def)
  then have "swiss_map m' x = swiss_map m x" for x unfolding swiss_map_def [of m x] using m'(6) by (simp split: option.split)
  then have "swiss_map m' = swiss_map m" ..
  moreover have "m_num m' = m_num m" using m'(2,5) i(3) es(2) by (simp add: swiss_ok_def)
  moreover have "0 < m_growthInfo m'" using m'(5) i(3) es(2) num limit_less [of k] by simp
  ultimately show ?thesis using m'(1-4) by blast
qed

text \<open>Inserting a key that is there, and one that is not.\<close>

lemma insert_old:
  assumes ok: "swiss_ok hash k m" and f: "filled m" and x: "has_key m x"
  shows "\<exists>m'. swiss_insert hash addr x v m = Inr m' \<and> swiss_ok hash k m' \<and> filled m' \<and> swiss_map m' = (swiss_map m)(x \<mapsto> v) \<and>
    m_num m' = m_num m \<and> m_growthInfo m' = m_growthInfo m \<and> m_cap m' = m_cap m \<and> empties m' = empties m"
proof -
  from x obtain p where p: "live m p" "key_at m p = Some x" by (auto simp: has_key_def)
  obtain m' where m': "put_value p v m = Inr m'" "swiss_ok hash k m'" "swiss_map m' = (swiss_map m)(x \<mapsto> v)" "\<And>q. live m' q \<longleftrightarrow> live m q"
    "m_ctrl m' = m_ctrl m" "m_num m' = m_num m" "m_growthInfo m' = m_growthInfo m"
    "\<And>q. m_slot m' ! q = (if q = p then (Some x, Some v) else m_slot m ! q)" "m_cap m' = m_cap m"
    by (rule put_value_ok [OF ok p, of v]) simp
  have "filled m'" using f m'(4,8) by (simp add: filled_def)
  moreover have "empties m' = empties m" using m'(5,9) by (simp add: empties_def)
  ultimately show ?thesis using find_old [OF ok p, of addr 2 True] m' by (simp add: swiss_insert_def numeral_3_eq_3)
qed

lemma insert_new:
  assumes ok: "swiss_ok hash k m" and f: "filled m" and r: "room m" and x: "\<not> has_key m x" and k: "m_growthInfo m = 0 \<Longrightarrow> k < 31"
  shows "\<exists>m'. swiss_insert hash addr x v m = Inr m' \<and> filled m' \<and> swiss_map m' = (swiss_map m)(x \<mapsto> v) \<and> m_num m' = m_num m + 1 \<and>
    swiss_ok hash (if m_growthInfo m = 0 then Suc k else k) m' \<and> (clean m \<or> m_growthInfo m = 0 \<longrightarrow> clean m') \<and>
    (0 < m_growthInfo m \<longrightarrow> m_cap m' = m_cap m \<and> (15 \<le> m_cap m \<longrightarrow> empties m = Suc (empties m')))"
proof (cases "m_growthInfo m = 0")
  case False
  then obtain j m1 m' where "swiss_find hash addr (Suc 2) x True m = Inr (Some j, m1)" "put_value j v m1 = Inr m'" "added hash k x v m m'"
    using find_new [OF ok x r] by blast
  then show ?thesis using False f by (auto simp: swiss_insert_def added_def numeral_3_eq_3 simp del: swiss_find.simps)
next
  case True
  from grown [OF ok f True k [OF True], of addr 1]
  obtain m1 where m1: "rehash hash addr 2 0 (zip (take (m_cap m) (m_ctrl m)) (m_slot m)) ((swiss_init addr (2 * m_cap m + 1) m)\<lparr>m_num := 0\<rparr>) = Inr m1"
    "swiss_ok hash (Suc k) m1" "clean m1" "filled m1" "0 < m_growthInfo m1" "m_num m1 = m_num m" "swiss_map m1 = swiss_map m"
    by (auto simp: numeral_2_eq_2)
  have "\<not> has_key m1 x" using has_key_map [OF ok f] has_key_map [OF m1(2,4)] m1(7) x by simp
  from find_new [OF m1(2) this clean_room [OF m1(2,3,5)] m1(5), of addr 1]
  obtain j m2 m' where m': "swiss_find hash addr (Suc 1) x True m1 = Inr (Some j, m2)" "put_value j v m2 = Inr m'" "added hash (Suc k) x v m1 m'"
    by blast
  have "swiss_find hash addr 3 x True m = Inr (Some j, m2)"
    using find_grow [OF ok x r True, of addr 2] m1(1) m'(1) by (simp add: numeral_3_eq_3 numeral_2_eq_2)
  then show ?thesis using True m1 m' by (simp add: swiss_insert_def added_def)
qed

section \<open>Erasing a key\<close>

lemma erase_present:
  assumes ok: "swiss_ok hash k m" and p: "live m p" "key_at m p = Some x"
  obtains m' where "erase hash x m = Inr (True, m')" and "swiss_ok hash k m'" and "swiss_map m' = (swiss_map m)(x := None)"
    and "filled m \<Longrightarrow> filled m'" and "m_num m' = m_num m - 1" and "m_growthInfo m' = m_growthInfo m + 1" and "m_cap m' = m_cap m"
    and "empties m' = empties m"
proof -
  note s = swiss_ok_shape [OF ok]
  have pc: "p < m_cap m" using p(1) by (simp add: live_def)
  obtain ctl where c: "setCtrl p kDeleted m = Inr (m\<lparr>m_ctrl := ctl\<rparr>)" "shape k (m\<lparr>m_ctrl := ctl\<rparr>)"
    "\<And>q. q < m_cap m \<Longrightarrow> ctl ! q = (if q = p then kDeleted else m_ctrl m ! q)"
    "\<And>i. clear m i \<Longrightarrow> clear (m\<lparr>m_ctrl := ctl\<rparr>) i" by (rule setCtrl_shape [OF s pc, of kDeleted]) auto
  let ?m = "m\<lparr>m_ctrl := ctl, m_slot := (m_slot m)[p := (None, None)], m_num := m_num m - 1, m_growthInfo := m_growthInfo m + 1\<rparr>"
  have pos: "0 < m_num m" using ok p(1) live_finite [of m] by (auto simp: swiss_ok_def card_gt_0_iff)
  then have "(m_num m + 2 ^ 64 - 1) mod 2 ^ 64 = ((m_num m - 1) + 2 ^ 64) mod 2 ^ 64" by (intro arg_cong [where f = "\<lambda>n. n mod 2 ^ 64"]) simp
  moreover have "m_num m - 1 < 2 ^ 64" "m_growthInfo m + 1 < 2 ^ 64"
    using num_less [OF ok] ok pos limit_le [of k] shape_cap [OF s] by (auto simp: swiss_ok_def)
  ultimately have "(m_num m + 2 ^ 64 - 1) mod 2 ^ 64 = m_num m - 1" "(m_growthInfo m + 1) mod 2 ^ 64 = m_growthInfo m + 1" by simp_all
  then have run: "erase hash x m = Inr (True, ?m)"
    by (simp add: erase_def findIndex_present [OF ok p] c(1) destorySlot_def shape_len [OF s] pc)
  have fr: "home hash y ?m = home hash y m" "tag hash y ?m = tag hash y m" "gap ?m j q = gap m j q" "grp ?m j n = grp m j n" for y j q n
    by (rule same_frame; simp)+
  have cl: "clear ?m i" if "clear m i" for i using c(4) [OF that] same_cells(1) [of ?m "m\<lparr>m_ctrl := ctl\<rparr>" i] by simp
  have lv: "live ?m q \<longleftrightarrow> q \<noteq> p \<and> live m q" for q using c(3) [of q] by (auto simp: live_def kDeleted_def split: if_splits)
  have sl: "m_slot ?m ! q = (if q = p then (None, None) else m_slot m ! q)" for q
    using pc shape_len(2) [OF s] by (simp add: nth_list_update)
  have ky: "key_at ?m q = key_at m q" if "q \<noteq> p" for q using that sl by (simp add: key_at_def)
  have "stored hash ?m q y" if "q \<noteq> p" "live m q" "stored hash m q y" for q y
    using that cl c(3) [of q] ky [OF that(1)] unfolding stored_def fr by (auto simp: live_def)
  then have "\<forall>q. live ?m q \<longrightarrow> (\<exists>y. stored hash ?m q y)" using ok unfolding lv swiss_ok_def by blast
  moreover have "q = r" if "live ?m q" "live ?m r" "key_at ?m q = key_at ?m r" for q r
    using that swiss_ok_distinct [OF ok, of q r] ky unfolding lv by auto
  moreover have "{q. live ?m q} = {q. live m q} - {p}" unfolding lv by auto
  then have "card {q. live ?m q} = m_num m - 1" using p(1) ok by (simp add: swiss_ok_def)
  moreover have "shape k ?m" using c(2) by (simp add: shape_def)
  ultimately have ok': "swiss_ok hash k ?m" using ok pos by (auto simp: swiss_ok_def)
  have "swiss_map ?m y = ((swiss_map m)(x := None)) y" for y
  proof (cases "\<exists>q. live ?m q \<and> key_at ?m q = Some y")
    case True
    then obtain q where q: "q \<noteq> p" "live m q" "live ?m q" "m_slot m ! q = (Some y, snd (m_slot m ! q))" "m_slot ?m ! q = m_slot m ! q"
      using lv ky sl by (auto simp: key_at_def prod_eq_iff)
    then have "key_at m q = Some y" by (metis fst_conv key_at_def)
    then have "y \<noteq> x" using swiss_ok_distinct [OF ok p(1) q(2)] p(2) q(1) by auto
    then show ?thesis using swiss_map_live [OF ok q(2,4)] swiss_map_live [OF ok' q(3)] q(4,5) by (metis fun_upd_other)
  next
    case False
    then have "\<not> has_key ?m y" by (simp add: has_key_def)
    then have "swiss_map ?m y = None" by (rule swiss_map_absent [OF swiss_ok_shape [OF ok']])
    moreover have "key_at m q \<noteq> Some y" if "y \<noteq> x" "live m q" for q using that False p(2) lv ky by (cases "q = p") auto
    then have "swiss_map m y = None" if "y \<noteq> x" using that by (intro swiss_map_absent [OF s]) (auto simp: has_key_def)
    ultimately show ?thesis by simp
  qed
  moreover have "filled ?m" if "filled m" using that lv sl by (auto simp: filled_def)
  moreover have "ctl ! q = kEmpty \<longleftrightarrow> m_ctrl m ! q = kEmpty" if "q < m_cap m" for q
    using c(3) [OF that] p(1) by (auto simp: live_def kEmpty_def kDeleted_def)
  then have "empties ?m = empties m" by (simp add: empties_def cong: conj_cong)
  ultimately show thesis using run ok' by (intro that [of ?m]) auto
qed

end
