(* ===== verification/SwissSpec.thy ===== *)
theory SwissSpec
  imports SwissOps
begin

text \<open>
  The table against its specification: a history of insertions and erasures, run on the table and
  on a finite map. The locale states what a table with limited credit promises; the
  Swiss table is an instance of it with at most five erasures.
\<close>

section \<open>Histories\<close>

datatype ('k, 'v) op = Insert 'k 'v | Erase 'k

fun inserts :: "('k, 'v) op list \<Rightarrow> nat" where
  "inserts [] = 0"
| "inserts (Insert k v # ops) = Suc (inserts ops)"
| "inserts (Erase k # ops) = inserts ops"

fun erasures :: "('k, 'v) op list \<Rightarrow> nat" where
  "erasures [] = 0"
| "erasures (Insert k v # ops) = erasures ops"
| "erasures (Erase k # ops) = Suc (erasures ops)"

text \<open>A history on a map, with the answers of the erasures.\<close>

fun map_history :: "('k, 'v) op list \<Rightarrow> ('k \<rightharpoonup> 'v) \<Rightarrow> bool list \<times> ('k \<rightharpoonup> 'v)" where
  "map_history [] f = ([], f)"
| "map_history (Insert k v # ops) f = map_history ops (f(k \<mapsto> v))"
| "map_history (Erase k # ops) f = (case map_history ops (f(k := None)) of (bs, g) \<Rightarrow> ((f k \<noteq> None) # bs, g))"

fun history :: "('k \<Rightarrow> 'v \<Rightarrow> 't \<Rightarrow> 't result) \<Rightarrow> ('k \<Rightarrow> 't \<Rightarrow> (bool \<times> 't) result) \<Rightarrow> ('k, 'v) op list \<Rightarrow> 't \<Rightarrow> (bool list \<times> 't) result" where
  "history ins del [] t = Inr ([], t)"
| "history ins del (Insert k v # ops) t = bnd (ins k v t) (history ins del ops)"
| "history ins del (Erase k # ops) t =
     bnd (del k t) (\<lambda>(b, t). bnd (history ins del ops t) (\<lambda>(bs, t). Inr (b # bs, t)))"

locale credit_table =
  fixes ins :: "'k \<Rightarrow> 'v \<Rightarrow> 't \<Rightarrow> 't result" and del :: "'k \<Rightarrow> 't \<Rightarrow> (bool \<times> 't) result"
    and get :: "'k \<Rightarrow> 't \<Rightarrow> 'v option result" and abs_map :: "'t \<Rightarrow> 'k \<rightharpoonup> 'v" and credit :: "nat \<Rightarrow> nat \<Rightarrow> 't \<Rightarrow> bool"
  assumes ins_ok: "credit (Suc i) n t \<Longrightarrow> \<exists>t'. ins k v t = Inr t' \<and> credit i n t' \<and> abs_map t' = (abs_map t)(k \<mapsto> v)"
    and del_ok: "credit i (Suc n) t \<Longrightarrow>
      \<exists>t'. del k t = Inr (abs_map t k \<noteq> None, t') \<and> credit i n t' \<and> abs_map t' = (abs_map t)(k := None)"
    and get_ok: "credit i n t \<Longrightarrow> get k t = Inr (abs_map t k)"
begin

lemma history_refines:
  "credit (inserts ops + i) (erasures ops + n) t \<Longrightarrow>
   \<exists>t'. history ins del ops t = Inr (fst (map_history ops (abs_map t)), t') \<and> credit i n t' \<and>
     abs_map t' = snd (map_history ops (abs_map t))"
proof (induction ops arbitrary: t)
  case (Cons a ops)
  show ?case
  proof (cases a)
    case (Insert k v)
    with ins_ok [of "inserts ops + i" "erasures ops + n" t k v] Cons.prems
    obtain t' where "ins k v t = Inr t'" "credit (inserts ops + i) (erasures ops + n) t'" "abs_map t' = (abs_map t)(k \<mapsto> v)" by auto
    with Cons.IH [of t'] show ?thesis by (simp add: Insert fun_upd_def)
  next
    case (Erase k)
    with del_ok [of "inserts ops + i" "erasures ops + n" t k] Cons.prems
    obtain t' where "del k t = Inr (abs_map t k \<noteq> None, t')" "credit (inserts ops + i) (erasures ops + n) t'"
      "abs_map t' = (abs_map t)(k := None)" by auto
    with Cons.IH [of t'] show ?thesis by (auto simp: Erase fun_upd_def split: prod.split)
  qed
qed simp

lemma history_lookup:
  assumes "credit (inserts ops) (erasures ops) t"
  shows "\<exists>t'. history ins del ops t = Inr (fst (map_history ops (abs_map t)), t') \<and>
    (\<forall>k. get k t' = Inr (snd (map_history ops (abs_map t)) k))"
  using history_refines [of ops 0 0 t] assms get_ok by fastforce

end

section \<open>The table\<close>

definition swiss_credit :: "('k \<Rightarrow> u64) \<Rightarrow> nat \<Rightarrow> nat \<Rightarrow> ('k, 'v) swissmap \<Rightarrow> bool" where
  "swiss_credit hash i n m \<longleftrightarrow> (\<exists>k. swiss_ok hash k m) \<and> filled m \<and> m_num m + i < 2 ^ 30 \<and> n \<le> 5 \<and>
     (15 \<le> m_cap m \<longrightarrow> n + m_growthInfo m < empties m)"

lemma credit_room: "swiss_credit hash i n m \<Longrightarrow> room m"
proof -
  assume "swiss_credit hash i n m"
  then have "15 \<le> m_cap m \<Longrightarrow> empties m \<noteq> 0" by (auto simp: swiss_credit_def)
  then show ?thesis unfolding room_def empties_def by (cases "15 \<le> m_cap m") (auto simp: card_eq_0_iff)
qed

lemma lookup_ok: "swiss_credit hash i n m \<Longrightarrow> swiss_lookup hash addr x m = Inr (swiss_map m x)"
proof -
  assume c: "swiss_credit hash i n m"
  then obtain k where ok: "swiss_ok hash k m" and f: "filled m" by (auto simp: swiss_credit_def)
  show ?thesis
  proof (cases "has_key m x")
    case True
    then obtain p where p: "live m p" "key_at m p = Some x" by (auto simp: has_key_def)
    have "p < length (m_slot m)" using p(1) by (simp add: live_def shape_len [OF swiss_ok_shape [OF ok]])
    moreover have "swiss_map m x = snd (m_slot m ! p)" using p by (intro swiss_map_live [OF ok p(1)]) (simp add: key_at_def prod_eq_iff)
    moreover obtain v where "snd (m_slot m ! p) = Some v" using f p(1) by (auto simp: filled_def)
    ultimately show ?thesis using find_old [OF ok p, of addr 2 False] by (simp add: swiss_lookup_def numeral_3_eq_3)
  next
    case False
    then show ?thesis using find_none [OF ok False credit_room [OF c], of addr 2] swiss_map_absent [OF swiss_ok_shape [OF ok] False]
      by (simp add: swiss_lookup_def numeral_3_eq_3)
  qed
qed

lemma clean_credit:
  assumes ok: "swiss_ok hash k m" and "filled m" and "clean m" and "m_num m + i < 2 ^ 30" and "n \<le> 5"
  shows "swiss_credit hash i n m"
proof -
  have "n + m_growthInfo m < empties m" if c: "15 \<le> m_cap m"
  proof -
    have "(2::nat) ^ 4 \<le> 2 ^ k" using c shape_cap [OF swiss_ok_shape [OF ok]] by simp
    then have "4 \<le> k" using power_le_imp_le_exp [of "2::nat" 4 k] by simp
    then show ?thesis using limit_free [of k] empties_clean [OF ok assms(3)] ok assms(5) shape_cap [OF swiss_ok_shape [OF ok]]
      by (simp add: swiss_ok_def)
  qed
  then show ?thesis using assms by (auto simp: swiss_credit_def)
qed

lemma insert_ok:
  assumes c: "swiss_credit hash (Suc i) n m"
  shows "\<exists>m'. swiss_insert hash addr x v m = Inr m' \<and> swiss_credit hash i n m' \<and> swiss_map m' = (swiss_map m)(x \<mapsto> v)"
proof -
  from c obtain k where ok: "swiss_ok hash k m" and f: "filled m" and b: "m_num m + Suc i < 2 ^ 30" "n \<le> 5"
    "15 \<le> m_cap m \<longrightarrow> n + m_growthInfo m < empties m" by (auto simp: swiss_credit_def)
  show ?thesis
  proof (cases "has_key m x")
    case True
    from insert_old [OF ok f this, of addr v] b show ?thesis by (fastforce simp: swiss_credit_def)
  next
    case False
    have "k < 31" if "m_growthInfo m = 0" using ok that b(1) by (intro limit_large) (simp add: swiss_ok_def)
    from insert_new [OF ok f credit_room [OF c] False this, of addr v]
    obtain m' where m': "swiss_insert hash addr x v m = Inr m'" "filled m'" "swiss_map m' = (swiss_map m)(x \<mapsto> v)" "m_num m' = m_num m + 1"
      "swiss_ok hash (if m_growthInfo m = 0 then Suc k else k) m'" "m_growthInfo m = 0 \<longrightarrow> clean m'"
      "0 < m_growthInfo m \<longrightarrow> m_cap m' = m_cap m \<and> (15 \<le> m_cap m \<longrightarrow> empties m = Suc (empties m'))" by auto
    have "swiss_credit hash i n m'"
    proof (cases "m_growthInfo m = 0")
      case True
      then show ?thesis using m' b by (intro clean_credit) auto
    next
      case False
      then have "m_growthInfo m = Suc (m_growthInfo m')" using ok m'(4,5) by (simp add: swiss_ok_def)
      then show ?thesis using False m' b by (auto simp: swiss_credit_def)
    qed
    with m'(1,3) show ?thesis by blast
  qed
qed

lemma erase_ok:
  assumes c: "swiss_credit hash i (Suc n) m"
  shows "\<exists>m'. erase hash x m = Inr (swiss_map m x \<noteq> None, m') \<and> swiss_credit hash i n m' \<and> swiss_map m' = (swiss_map m)(x := None)"
proof -
  from c obtain k where ok: "swiss_ok hash k m" and f: "filled m" and b: "m_num m + i < 2 ^ 30" "Suc n \<le> 5"
    "15 \<le> m_cap m \<longrightarrow> Suc n + m_growthInfo m < empties m" by (auto simp: swiss_credit_def)
  show ?thesis
  proof (cases "has_key m x")
    case True
    then obtain p where p: "live m p" "key_at m p = Some x" by (auto simp: has_key_def)
    obtain m' where m': "erase hash x m = Inr (True, m')" "swiss_ok hash k m'" "swiss_map m' = (swiss_map m)(x := None)"
      "filled m \<Longrightarrow> filled m'" "m_num m' = m_num m - 1" "m_growthInfo m' = m_growthInfo m + 1" "m_cap m' = m_cap m" "empties m' = empties m"
      by (rule erase_present [OF ok p]) simp
    moreover have "swiss_credit hash i n m'" using m' b f by (auto simp: swiss_credit_def)
    ultimately show ?thesis using True has_key_map [OF ok f] by auto
  next
    case False
    obtain e where "findIndex hash x m = Inr (False, e, tag hash x m)" using findIndex_absent [OF ok False credit_room [OF c]] by blast
    moreover have "swiss_map m x = None" by (rule swiss_map_absent [OF swiss_ok_shape [OF ok] False])
    moreover have "swiss_credit hash i n m" using c by (auto simp: swiss_credit_def)
    ultimately show ?thesis by (auto simp: erase_def)
  qed
qed

interpretation swiss: credit_table "swiss_insert hash addr" "erase hash" "swiss_lookup hash addr" swiss_map "swiss_credit hash" for hash addr
  by unfold_locales (rule insert_ok erase_ok lookup_ok; assumption)+

lemma new_table_ok:
  assumes "m = CSwissMap addr salt"
  shows "swiss_ok hash 0 m" and "clean m" and "\<And>p. \<not> live m p"
proof -
  have "m = (swiss_init addr 0 \<lparr>m_ctrl = [], m_slot = [], m_cap = 0, m_num = 0, m_growthInfo = 0, m_salt = salt, m_addr = 0, m_allocs = 0\<rparr>)\<lparr>m_num := 0\<rparr>"
    (is "m = (swiss_init addr 0 ?z)\<lparr>m_num := 0\<rparr>") by (simp add: assms CSwissMap_def swiss_init_def)
  then show "swiss_ok hash 0 m" "clean m" "\<And>p. \<not> live m p" using init_ok [of 0 0 ?z hash addr] by simp_all
qed

lemma new_table_filled: "filled (CSwissMap addr salt)" and new_table_num: "m_num (CSwissMap addr salt) = 0"
  and new_table_key: "\<not> has_key (CSwissMap addr salt) x"
  by (simp_all add: filled_def has_key_def new_table_ok(3) [OF refl]) (simp add: CSwissMap_def swiss_init_def)

lemma new_table: "i < 2 ^ 30 \<Longrightarrow> n \<le> 5 \<Longrightarrow> swiss_credit hash i n (CSwissMap addr salt)"
  by (rule clean_credit [OF new_table_ok(1) [OF refl] new_table_filled new_table_ok(2) [OF refl]]) (simp_all add: new_table_num)

lemma new_table_map: "swiss_map (CSwissMap addr salt) = Map.empty"
  by (rule ext, rule swiss_map_absent [OF swiss_ok_shape [OF new_table_ok(1) [OF refl]]]) (rule new_table_key)

text \<open>
  C19. The table refines a finite map: after any history with fewer than \<open>2 ^ 30\<close> insertions and at most five
  erasures, whatever the hash function, the salt and the addresses of the arrays, every
  erasure has answered whether the key was there and every search returns the value last
  inserted. In particular every search ended, no assertion failed and no access was out of bounds.
\<close>

theorem swiss_refines_map:
  assumes "inserts ops < 2 ^ 30" and "erasures ops \<le> 5"
  shows "\<exists>m. history (swiss_insert hash addr) (erase hash) ops (CSwissMap addr salt) = Inr (fst (map_history ops Map.empty), m) \<and>
    (\<forall>x. swiss_lookup hash addr x m = Inr (snd (map_history ops Map.empty) x))"
  by (rule swiss.history_lookup [OF new_table [OF assms], unfolded new_table_map])

theorem swiss_refines_map_witness:
  "\<exists>m. history (swiss_insert (\<lambda>k :: nat. 5) (\<lambda>_. 0)) (erase (\<lambda>k. 5)) [Insert 1 ''a'', Insert 2 ''b'', Erase 1, Erase 3, Insert 2 ''c'']
      (CSwissMap (\<lambda>_. 0) 9) = Inr ([True, False], m) \<and>
    (\<forall>x. swiss_lookup (\<lambda>k. 5) (\<lambda>_. 0) x m = Inr (if x = 2 then Some ''c'' else None))"
proof -
  have "map_history [Insert 1 ''a'', Insert 2 ''b'', Erase 1, Erase 3, Insert 2 ''c''] Map.empty = ([True, False], [2 :: nat \<mapsto> ''c''])"
    by (auto simp: fun_eq_iff)
  with swiss_refines_map [of "[Insert 1 ''a'', Insert 2 ''b'', Erase 1, Erase 3, Insert 2 ''c'']" "\<lambda>k :: nat. 5" "\<lambda>_. 0" 9] show ?thesis
    by (simp add: if_distrib)
qed

section \<open>Too many erasures\<close>

text \<open>The capacity is the least that fits the number of keys.\<close>

definition tight :: "nat \<Rightarrow> nat \<Rightarrow> bool" where
  "tight k n \<longleftrightarrow> n \<le> limit k \<and> (k = 0 \<or> limit (k - 1) < n)"

lemma tight_Suc: "tight k n \<Longrightarrow> tight (if n = limit k then Suc k else k) (Suc n)"
  using limit_less [of k] by (auto simp: tight_def)

lemma tight_6: "tight k 6 \<Longrightarrow> k = 4"
proof -
  assume t: "tight k 6"
  have l: "limit 3 = 5" "limit 4 = 9" using limit_3 limit_Suc [of 3] by (simp_all add: numeral_3_eq_3 eval_nat_numeral)
  have "\<not> k \<le> 3" using t limit_mono [of k 3] l by (auto simp: tight_def)
  moreover have "\<not> 4 \<le> k - 1" using t limit_mono [of 4 "k - 1"] l by (auto simp: tight_def)
  ultimately show ?thesis by simp
qed

lemma history_append:
  "history ins del (xs @ ys) t = bnd (history ins del xs t) (\<lambda>(bs, t). bnd (history ins del ys t) (\<lambda>(cs, t). Inr (bs @ cs, t)))"
proof (induction xs arbitrary: t)
  case Nil
  show ?case by (cases "history ins del ys t") auto
next
  case (Cons a xs)
  have "bnd (ins k v t) (history ins del (xs @ ys)) =
    bnd (bnd (ins k v t) (history ins del xs)) (\<lambda>(bs, t). bnd (history ins del ys t) (\<lambda>(cs, t). Inr (bs @ cs, t)))" for k v
    by (cases "ins k v t") (simp_all add: Cons.IH)
  moreover have "bnd (history ins del (xs @ ys) s) (\<lambda>(bs, t). Inr (b # bs, t)) =
    bnd (bnd (history ins del xs s) (\<lambda>(bs, t). Inr (b # bs, t))) (\<lambda>(bs, t). bnd (history ins del ys t) (\<lambda>(cs, t). Inr (bs @ cs, t)))" for b s
    by (auto simp: Cons.IH bnd_def split: sum.splits)
  ultimately show ?case by (cases a) (auto simp: bnd_def split: sum.splits)
qed

lemma fill_clean:
  "swiss_ok hash k m \<Longrightarrow> filled m \<Longrightarrow> clean m \<Longrightarrow> tight k (m_num m) \<Longrightarrow> m_num m + length xs < 2 ^ 30 \<Longrightarrow> distinct xs \<Longrightarrow>
   (\<And>x. x \<in> set xs \<Longrightarrow> \<not> has_key m x) \<Longrightarrow>
   \<exists>k' m'. history (swiss_insert hash addr) (erase hash) (map (\<lambda>x. Insert x v) xs) m = Inr ([], m') \<and> swiss_ok hash k' m' \<and> filled m' \<and> clean m' \<and>
     tight k' (m_num m') \<and> m_num m' = m_num m + length xs \<and> (\<forall>x. has_key m' x \<longleftrightarrow> x \<in> set xs \<or> has_key m x)"
proof (induction xs arbitrary: k m)
  case (Cons x xs)
  have g: "m_growthInfo m = 0 \<longleftrightarrow> m_num m = limit k" using Cons.prems(1) by (auto simp: swiss_ok_def)
  have "k < 31" if "m_growthInfo m = 0" using g that Cons.prems(5) by (intro limit_large) simp
  moreover have "room m" using credit_room [OF clean_credit [OF Cons.prems(1-3), of 0 0]] Cons.prems(5) by simp
  ultimately obtain m' where m': "swiss_insert hash addr x v m = Inr m'" "filled m'" "swiss_map m' = (swiss_map m)(x \<mapsto> v)" "m_num m' = m_num m + 1"
    "swiss_ok hash (if m_growthInfo m = 0 then Suc k else k) m'" "clean m'"
    using insert_new [OF Cons.prems(1,2) _ Cons.prems(7), of x addr v] Cons.prems(3) by auto
  have key: "has_key m' y \<longleftrightarrow> y = x \<or> has_key m y" for y
    using has_key_map [OF m'(5,2)] has_key_map [OF Cons.prems(1,2)] m'(3) by auto
  have "tight (if m_growthInfo m = 0 then Suc k else k) (m_num m')" using tight_Suc [OF Cons.prems(4)] g m'(4) by simp
  moreover have "m_num m' + length xs < 2 ^ 30" "distinct xs" "\<And>y. y \<in> set xs \<Longrightarrow> \<not> has_key m' y"
    using Cons.prems(5-7) m'(4) key by auto
  ultimately obtain k' m2 where "history (swiss_insert hash addr) (erase hash) (map (\<lambda>x. Insert x v) xs) m' = Inr ([], m2)"
    "swiss_ok hash k' m2" "filled m2" "clean m2" "tight k' (m_num m2)" "m_num m2 = m_num m' + length xs"
    "\<forall>y. has_key m2 y \<longleftrightarrow> y \<in> set xs \<or> has_key m' y" using Cons.IH [OF m'(5,2,6)] by blast
  then show ?case using m'(1,4) key by (intro exI [of _ k'] exI [of _ m2]) auto
qed auto

lemma drop_keys:
  "swiss_ok hash k m \<Longrightarrow> filled m \<Longrightarrow> distinct xs \<Longrightarrow> (\<And>x. x \<in> set xs \<Longrightarrow> has_key m x) \<Longrightarrow>
   \<exists>m'. history (swiss_insert hash addr) (erase hash) (map Erase xs) m = Inr (replicate (length xs) True, m') \<and> swiss_ok hash k m' \<and> filled m' \<and>
     m_num m' = m_num m - length xs \<and> empties m' = empties m \<and> m_cap m' = m_cap m \<and> (\<forall>x. has_key m' x \<longleftrightarrow> x \<notin> set xs \<and> has_key m x)"
proof (induction xs arbitrary: m)
  case (Cons x xs)
  from Cons.prems(4) [of x] obtain p where p: "live m p" "key_at m p = Some x" by (auto simp: has_key_def)
  obtain m' where m': "erase hash x m = Inr (True, m')" "swiss_ok hash k m'" "swiss_map m' = (swiss_map m)(x := None)"
    "filled m \<Longrightarrow> filled m'" "m_num m' = m_num m - 1" "m_growthInfo m' = m_growthInfo m + 1" "m_cap m' = m_cap m" "empties m' = empties m"
    by (rule erase_present [OF Cons.prems(1) p]) simp
  have key: "has_key m' y \<longleftrightarrow> y \<noteq> x \<and> has_key m y" for y
    using has_key_map [OF m'(2) m'(4) [OF Cons.prems(2)]] has_key_map [OF Cons.prems(1,2)] m'(3) by auto
  have "\<exists>m2. history (swiss_insert hash addr) (erase hash) (map Erase xs) m' = Inr (replicate (length xs) True, m2) \<and> swiss_ok hash k m2 \<and> filled m2 \<and>
     m_num m2 = m_num m' - length xs \<and> empties m2 = empties m' \<and> m_cap m2 = m_cap m' \<and> (\<forall>x. has_key m2 x \<longleftrightarrow> x \<notin> set xs \<and> has_key m' x)"
    by (rule Cons.IH [OF m'(2) m'(4) [OF Cons.prems(2)]]) (use Cons.prems(3,4) key in auto)
  then show ?case using m'(1,5,7,8) key by auto
qed auto

lemma fill_rest:
  "swiss_ok hash k m \<Longrightarrow> filled m \<Longrightarrow> 15 \<le> m_cap m \<Longrightarrow> length ys \<le> m_growthInfo m \<Longrightarrow> length ys \<le> empties m \<Longrightarrow> distinct ys \<Longrightarrow>
   (\<And>y. y \<in> set ys \<Longrightarrow> \<not> has_key m y) \<Longrightarrow>
   \<exists>m'. history (swiss_insert hash addr) (erase hash) (map (\<lambda>x. Insert x v) ys) m = Inr ([], m') \<and> swiss_ok hash k m' \<and>
     m_cap m' = m_cap m \<and> empties m' = empties m - length ys \<and> (\<forall>x. has_key m' x \<longleftrightarrow> x \<in> set ys \<or> has_key m x)"
proof (induction ys arbitrary: m)
  case (Cons y ys)
  have "empties m \<noteq> 0" using Cons.prems(5) by auto
  then have r: "room m" by (auto simp: room_def empties_def card_eq_0_iff)
  obtain m' where m': "swiss_insert hash addr y v m = Inr m'" "filled m'" "swiss_map m' = (swiss_map m)(y \<mapsto> v)" "m_num m' = m_num m + 1"
    "swiss_ok hash k m'" "m_cap m' = m_cap m" "empties m = Suc (empties m')"
    using insert_new [OF Cons.prems(1,2) r Cons.prems(7), of y addr v] Cons.prems(3,4) by auto
  have key: "has_key m' z \<longleftrightarrow> z = y \<or> has_key m z" for z
    using has_key_map [OF m'(5,2)] has_key_map [OF Cons.prems(1,2)] m'(3) by auto
  have "m_growthInfo m = Suc (m_growthInfo m')" using Cons.prems(1) m'(4,5) by (simp add: swiss_ok_def)
  then have "\<exists>m2. history (swiss_insert hash addr) (erase hash) (map (\<lambda>x. Insert x v) ys) m' = Inr ([], m2) \<and> swiss_ok hash k m2 \<and>
     m_cap m2 = m_cap m' \<and> empties m2 = empties m' - length ys \<and> (\<forall>x. has_key m2 x \<longleftrightarrow> x \<in> set ys \<or> has_key m' x)"
    using Cons.prems m'(6,7) key by (intro Cons.IH [OF m'(5,2)]) auto
  then show ?case using m'(1,6,7) key by auto
qed auto

lemma no_empties_clear:
  assumes s: "shape k m" and c: "15 \<le> m_cap m" and e: "empties m = 0" and i: "i \<le> m_cap m"
  shows "clear m i"
proof -
  have "finite {p. p < m_cap m \<and> m_ctrl m ! p = kEmpty}" by simp
  then have "\<And>p. p < m_cap m \<Longrightarrow> m_ctrl m ! p \<noteq> kEmpty" using e by (auto simp: empties_def card_eq_0_iff)
  moreover have "i + j < m_cap m + 16" if "j < 16" for j using that i by simp
  moreover have "kSentinel \<noteq> kEmpty" by (simp add: kEmpty_def kSentinel_def)
  ultimately show ?thesis using cell_slot [OF s] c unfolding clear_def by (metis not_le)
qed

text \<open>
  C21. Six erasures are too many: after six different keys were inserted and erased again and nine
  different ones inserted, each of these operations succeeding, no control byte is empty, and the loop of \<open>findIndex\<close> for
  a key that is not in the table goes on for ever, for every hash function, salt and addresses.
\<close>

theorem swiss_search_forever:
  assumes "distinct xs" and "length xs = 6" and "distinct ys" and "length ys = 9" and "z \<notin> set ys"
  shows "\<exists>m. history (swiss_insert hash addr) (erase hash)
      (map (\<lambda>x. Insert x v) xs @ map Erase xs @ map (\<lambda>y. Insert y v) ys) (CSwissMap addr salt) = Inr (replicate 6 True, m) \<and>
    (\<forall>f. find_loop f z (H2 (hash z XOR m_salt m)) (unat (H1 (hash z XOR m_salt m) m) AND m_cap m) m = Inl OutOfFuel)"
proof -
  obtain k m1 where m1: "history (swiss_insert hash addr) (erase hash) (map (\<lambda>x. Insert x v) xs) (CSwissMap addr salt) = Inr ([], m1)"
    "swiss_ok hash k m1" "filled m1" "clean m1" "tight k (m_num m1)" "m_num m1 = 6" "\<forall>x. has_key m1 x \<longleftrightarrow> x \<in> set xs"
    using fill_clean [OF new_table_ok(1) [OF refl] new_table_filled new_table_ok(2) [OF refl], of addr salt xs hash addr v] assms(1,2)
    by (auto simp: tight_def new_table_num new_table_key)
  then have k: "k = 4" using tight_6 by simp
  then have c: "m_cap m1 = 15" using shape_cap [OF swiss_ok_shape [OF m1(2)]] by simp
  have e: "empties m1 = 9" using empties_clean [OF m1(2,4)] c m1(6) by simp
  obtain m2 where m2: "history (swiss_insert hash addr) (erase hash) (map Erase xs) m1 = Inr (replicate 6 True, m2)"
    "swiss_ok hash k m2" "filled m2" "m_num m2 = 0" "empties m2 = 9" "m_cap m2 = 15" "\<forall>x. \<not> has_key m2 x"
    using drop_keys [OF m1(2,3) assms(1), of addr] m1(6,7) assms(2) c e by auto
  have "m_growthInfo m2 = 9" using m2(2,4) k limit_Suc [of 3] limit_3 by (simp add: swiss_ok_def numeral_3_eq_3 eval_nat_numeral)
  then obtain m where m: "history (swiss_insert hash addr) (erase hash) (map (\<lambda>x. Insert x v) ys) m2 = Inr ([], m)"
    "swiss_ok hash k m" "m_cap m = 15" "empties m = 0" "\<forall>x. has_key m x \<longleftrightarrow> x \<in> set ys"
    using fill_rest [OF m2(2,3), of ys addr v] assms(3,4) m2(5-7) by auto
  have "find_loop f z (tag hash z m) (home hash z m) m = Inl OutOfFuel" for f
    using find_loop_forever [OF m(2) _ no_empties_clear [OF swiss_ok_shape [OF m(2)]] home_le [OF swiss_ok_shape [OF m(2)]]] m(3-5) assms(5)
    by simp
  then show ?thesis using m1(1) m2(1) m(1) by (auto simp: history_append tag_def home_def)
qed

theorem swiss_search_forever_witness:
  "\<exists>m. history (swiss_insert (\<lambda>k :: nat. 5) (\<lambda>_. 0)) (erase (\<lambda>k. 5))
      (map (\<lambda>x. Insert x ''v'') [0..<6] @ map Erase [0..<6] @ map (\<lambda>y. Insert y ''v'') [0..<9]) (CSwissMap (\<lambda>_. 0) 9) = Inr (replicate 6 True, m) \<and>
    (\<forall>f. find_loop f 100 (H2 (5 XOR m_salt m)) (unat (H1 (5 XOR m_salt m) m) AND m_cap m) m = Inl OutOfFuel)"
  using swiss_search_forever [of "[0..<6]" "[0..<9]" "100 :: nat" "\<lambda>k. 5" "\<lambda>_. 0" "''v''" 9] by simp

section \<open>Visiting all entries\<close>

definition pairs :: "('k, 'v) swissmap \<Rightarrow> nat \<Rightarrow> ('k \<times> 'v) list" where
  "pairs m i = map (\<lambda>p. (the (fst (m_slot m ! p)), the (snd (m_slot m ! p)))) (filter (live m) [i..<m_cap m])"

text \<open>The visits up to the first for which the function asks to stop.\<close>

fun until :: "('a \<Rightarrow> bool) \<Rightarrow> 'a list \<Rightarrow> 'a list" where
  "until stop [] = []"
| "until stop (x # xs) = (if stop x then [x] else x # until stop xs)"

lemma live_slot:
  assumes "swiss_ok hash k m" and "filled m" and "live m p"
  obtains x v where "m_slot m ! p = (Some x, Some v)"
  using swiss_ok_key [OF assms(1,3)] assms(2,3) by (cases "m_slot m ! p") (auto simp: filled_def key_at_def)

lemma foreach_loop_visits:
  assumes ok: "swiss_ok hash k m" and f: "filled m"
  shows "i + n = m_cap m \<Longrightarrow>
    foreach_loop (\<lambda>x v st. (stop (x, v), v, st @ [(x, v)])) i n st m = Inr (st @ until stop (pairs m i), m)"
proof (induction n arbitrary: i st)
  case (Suc n)
  note s = shape_len [OF swiss_ok_shape [OF ok]]
  have i: "i < m_cap m" "[i..<m_cap m] = i # [Suc i..<m_cap m]" using Suc.prems by (simp_all add: upt_conv_Cons)
  show ?case
  proof (cases "live m i")
    case True
    obtain x v where xv: "m_slot m ! i = (Some x, Some v)" by (rule live_slot [OF ok f True])
    then have "(m_slot m)[i := (fst (m_slot m ! i), Some v)] = m_slot m" by (metis fst_conv list_update_id)
    then have "put_value i v m = Inr m" using i(1) by (simp add: put_value_def s)
    moreover have "pairs m i = (x, v) # pairs m (Suc i)" using i(2) True xv by (simp add: pairs_def)
    ultimately show ?thesis using Suc.IH [of "Suc i"] Suc.prems True xv i(1) by (simp add: ctrl_at_def s live_def)
  next
    case False
    then have "pairs m i = pairs m (Suc i)" using i(2) by (simp add: pairs_def)
    then show ?thesis using Suc.IH [of "Suc i"] Suc.prems False i(1) by (simp add: ctrl_at_def s live_def)
  qed
qed (simp add: pairs_def)

lemma pairs_map:
  assumes ok: "swiss_ok hash k m" and f: "filled m"
  shows "distinct (map fst (pairs m 0))" and "map_of (pairs m 0) = swiss_map m"
proof -
  have keys: "key_at m p = Some (the (fst (m_slot m ! p)))" if "live m p" for p
    using swiss_ok_key [OF ok that] by (auto simp: key_at_def)
  have "inj_on (\<lambda>p. the (fst (m_slot m ! p))) {p. live m p}"
    using swiss_ok_distinct [OF ok] keys by (auto simp: inj_on_def)
  then show d: "distinct (map fst (pairs m 0))" by (auto simp: pairs_def distinct_map comp_def intro: inj_on_subset)
  have set: "(x, v) \<in> set (pairs m 0) \<longleftrightarrow> (\<exists>p. live m p \<and> m_slot m ! p = (Some x, Some v))" for x v
  proof
    assume "(x, v) \<in> set (pairs m 0)"
    then obtain p where p: "live m p" "x = the (fst (m_slot m ! p))" "v = the (snd (m_slot m ! p))" by (auto simp: pairs_def)
    obtain y w where "m_slot m ! p = (Some y, Some w)" by (rule live_slot [OF ok f p(1)])
    then show "\<exists>p. live m p \<and> m_slot m ! p = (Some x, Some v)" using p by auto
  qed (force simp: pairs_def live_def)
  show "map_of (pairs m 0) = swiss_map m"
  proof
    fix x
    show "map_of (pairs m 0) x = swiss_map m x"
    proof (cases "swiss_map m x")
      case None
      then have "\<nexists>p. live m p \<and> key_at m p = Some x" using has_key_map [OF ok f, of x] by (auto simp: has_key_def)
      then have "x \<notin> fst ` set (pairs m 0)" using set by (force simp: key_at_def)
      then show ?thesis using None by (simp add: map_of_eq_None_iff)
    next
      case (Some v)
      then have "has_key m x" using has_key_map [OF ok f, of x] by simp
      then obtain p where p: "live m p" "key_at m p = Some x" by (auto simp: has_key_def)
      obtain y w where w: "m_slot m ! p = (Some y, Some w)" by (rule live_slot [OF ok f p(1)])
      then have "y = x" "w = v" using p Some swiss_map_live [OF ok p(1), of x "Some w"] by (auto simp: key_at_def)
      then have "(x, v) \<in> set (pairs m 0)" using set p(1) w by blast
      then show ?thesis using Some map_of_is_SomeI [OF d] by simp
    qed
  qed
qed

text \<open>
  C22. After a history with fewer than \<open>2 ^ 30\<close> insertions and at most five erasures \<open>foreach\<close> visits every entry of the table exactly once, with its value, up to the first for
  which the function returns true, and leaves the table as it is if the function does.
\<close>

theorem foreach_visits:
  assumes "inserts ops < 2 ^ 30" and "erasures ops \<le> 5"
  shows "\<exists>m ps. history (swiss_insert hash addr) (erase hash) ops (CSwissMap addr salt) = Inr (fst (map_history ops Map.empty), m) \<and>
    distinct (map fst ps) \<and> map_of ps = snd (map_history ops Map.empty) \<and>
    foreach (\<lambda>x v st. (stop (x, v), v, st @ [(x, v)])) [] m = Inr (until stop ps, m)"
proof -
  obtain m where m: "history (swiss_insert hash addr) (erase hash) ops (CSwissMap addr salt) = Inr (fst (map_history ops Map.empty), m)"
    "swiss_credit hash 0 0 m" "swiss_map m = snd (map_history ops Map.empty)"
    using swiss.history_refines [where i = 0 and n = 0 and ops = ops and hash = hash and addr = addr, unfolded add_0_right, OF new_table [OF assms]]
    by (auto simp: new_table_map)
  then obtain k where ok: "swiss_ok hash k m" "filled m" by (auto simp: swiss_credit_def)
  show ?thesis using m(1,3) pairs_map [OF ok] foreach_loop_visits [OF ok, of 0 "m_cap m" stop "[]"]
    by (intro exI [of _ m] exI [of _ "pairs m 0"]) (simp add: foreach_def)
qed

theorem foreach_visits_witness:
  "\<exists>m ps. history (swiss_insert (\<lambda>k :: nat. 5) (\<lambda>_. 0)) (erase (\<lambda>k. 5)) [Insert 1 ''a'', Insert 2 ''b'', Erase 1] (CSwissMap (\<lambda>_. 0) 9) = Inr ([True], m) \<and>
    distinct (map fst ps) \<and> map_of ps = [2 \<mapsto> ''b''] \<and> foreach (\<lambda>x v st. (False, v, st @ [(x, v)])) [] m = Inr (until (\<lambda>_. False) ps, m)"
proof -
  have "map_history [Insert 1 ''a'', Insert 2 ''b'', Erase 1] Map.empty = ([True], [2 :: nat \<mapsto> ''b''])" by (auto simp: fun_eq_iff)
  with foreach_visits [of "[Insert 1 ''a'', Insert 2 ''b'', Erase 1]" "\<lambda>k :: nat. 5" "\<lambda>_. 0" 9 "\<lambda>_. False"] show ?thesis by simp
qed

section \<open>Searches end\<close>

lemma find_loop_more: "find_loop f x h i m = Inr r \<Longrightarrow> f \<le> f' \<Longrightarrow> find_loop f' x h i m = Inr r"
proof (induction f arbitrary: f' i)
  case (Suc f)
  then obtain g where f': "f' = Suc g" "f \<le> g" by (cases f') auto
  show ?case using Suc.prems(1) Suc.IH [OF _ f'(2)] unfolding f'(1)
    by (auto simp: bnd_eq_Inr split: option.splits list.splits)
qed simp

lemma search_ends:
  assumes c: "swiss_credit hash i n m"
  shows "\<exists>found j. (found \<longleftrightarrow> swiss_map m z \<noteq> None) \<and>
    (\<forall>f > m_cap m div 16. find_loop f z (tag hash z m) (home hash z m) m = Inr (found, j))"
proof -
  from c obtain k where ok: "swiss_ok hash k m" "filled m" by (auto simp: swiss_credit_def)
  have "\<exists>j. findIndex hash z m = Inr (swiss_map m z \<noteq> None, j, tag hash z m)"
  proof (cases "has_key m z")
    case True
    then obtain p where "live m p" "key_at m p = Some z" by (auto simp: has_key_def)
    then show ?thesis using findIndex_present [OF ok(1)] True has_key_map [OF ok] by auto
  next
    case False
    then show ?thesis using findIndex_absent [OF ok(1) False credit_room [OF c]] has_key_map [OF ok, of z] by auto
  qed
  then obtain j where j: "findIndex hash z m = Inr (swiss_map m z \<noteq> None, j, tag hash z m)" by blast
  obtain r where r: "find_loop (Suc (m_cap m div 16)) z (tag hash z m) (home hash z m) m = r" by blast
  have "r = Inr (swiss_map m z \<noteq> None, j)" using j unfolding findIndex_loop r by (cases r) (auto split: prod.splits)
  then have "find_loop (Suc (m_cap m div 16)) z (tag hash z m) (home hash z m) m = Inr (swiss_map m z \<noteq> None, j)" unfolding r .
  note more = find_loop_more [OF this Suc_leI]
  have "\<forall>f > m_cap m div 16. find_loop f z (tag hash z m) (home hash z m) m = Inr (swiss_map m z \<noteq> None, j)"
    by (intro allI impI) (rule more)
  then show ?thesis by (intro exI conjI) (rule refl)
qed

text \<open>
  C20. The bound on the loop of \<open>findIndex\<close> loses nothing: after a history with fewer than \<open>2 ^ 30\<close> insertions and at most five erasures the loop ends for every key, after
  at most \<open>m_cap / 16 + 1\<close> groups, and a larger bound gives the same result.
\<close>

theorem swiss_search_ends:
  assumes "inserts ops < 2 ^ 30" and "erasures ops \<le> 5"
  shows "\<exists>m. history (swiss_insert hash addr) (erase hash) ops (CSwissMap addr salt) = Inr (fst (map_history ops Map.empty), m) \<and>
    (\<forall>z. \<exists>found i. (found \<longleftrightarrow> snd (map_history ops Map.empty) z \<noteq> None) \<and> (\<forall>f > m_cap m div 16.
      find_loop f z (H2 (hash z XOR m_salt m)) (unat (H1 (hash z XOR m_salt m) m) AND m_cap m) m = Inr (found, i)))"
proof -
  obtain m where m: "history (swiss_insert hash addr) (erase hash) ops (CSwissMap addr salt) = Inr (fst (map_history ops Map.empty), m)"
    "swiss_credit hash 0 0 m" "swiss_map m = snd (map_history ops Map.empty)"
    using swiss.history_refines [where i = 0 and n = 0 and ops = ops and hash = hash and addr = addr, unfolded add_0_right, OF new_table [OF assms]]
    by (auto simp: new_table_map)
  show ?thesis using m(1,3) search_ends [OF m(2)] by (intro exI [of _ m]) (simp add: tag_def home_def)
qed

theorem swiss_search_ends_witness:
  "\<exists>m i. history (swiss_insert (\<lambda>k :: nat. 5) (\<lambda>_. 0)) (erase (\<lambda>k. 5)) [Insert 1 ''a'', Erase 1] (CSwissMap (\<lambda>_. 0) 9) = Inr ([True], m) \<and>
    (\<forall>f > m_cap m div 16. find_loop f 1 (H2 (5 XOR m_salt m)) (unat (H1 (5 XOR m_salt m) m) AND m_cap m) m = Inr (False, i))"
proof -
  have h: "map_history [Insert 1 ''a'', Erase 1] Map.empty = ([True], Map.empty :: nat \<rightharpoonup> string)" by (auto simp: fun_eq_iff)
  have i: "inserts [Insert 1 ''a'', Erase (1 :: nat)] < 2 ^ 30" "erasures [Insert 1 ''a'', Erase (1 :: nat)] \<le> 5" by simp_all
  obtain m where m: "history (swiss_insert (\<lambda>k :: nat. 5) (\<lambda>_. 0)) (erase (\<lambda>k. 5)) [Insert 1 ''a'', Erase 1] (CSwissMap (\<lambda>_. 0) 9) = Inr ([True], m)"
    "\<And>z. \<exists>found j. (found \<longleftrightarrow> (Map.empty :: nat \<rightharpoonup> string) z \<noteq> None) \<and>
      (\<forall>f > m_cap m div 16. find_loop f z (H2 (5 XOR m_salt m)) (unat (H1 (5 XOR m_salt m) m) AND m_cap m) m = Inr (found, j))"
    using swiss_search_ends [OF i, of "\<lambda>k. 5" "\<lambda>_. 0" 9] unfolding h fst_conv snd_conv by blast
  from m(2) [of 1] obtain found j where "found \<longleftrightarrow> (Map.empty :: nat \<rightharpoonup> string) 1 \<noteq> None" and j: "\<forall>f > m_cap m div 16.
    find_loop f 1 (H2 (5 XOR m_salt m)) (unat (H1 (5 XOR m_salt m) m) AND m_cap m) m = Inr (found, j)" by (elim exE conjE) (rule that)
  then have "found = False" by simp
  from j [unfolded this] m(1) show ?thesis by (intro exI [of _ m] exI [of _ j] conjI)
qed

end
