(* ===== verification/CPrint.thy ===== *)
theory CPrint
  imports CPrelude
begin

text \<open>Numbers as \<open>printf\<close> and \<open>sprintf\<close> write them.\<close>

section \<open>Decimal numbers\<close>

text \<open>The text of a number as \<^verbatim>\<open>%d\<close> prints it.\<close>

fun decimal :: "nat \<Rightarrow> string" where
  "decimal n = (if n < 10 then [] else decimal (n div 10)) @ [char_of (48 + n mod 10)]"

declare decimal.simps [simp del]

lemma length_decimal: "n < 10 ^ k \<Longrightarrow> 0 < k \<Longrightarrow> length (decimal n) \<le> k"
proof (induction k arbitrary: n)
  case (Suc k)
  show ?case
  proof (cases "n < 10")
    case False
    then have "n div 10 < 10 ^ k" "0 < k" using Suc.prems by (auto simp: less_mult_imp_div_less mult.commute intro: Nat.gr0I)
    then show ?thesis using Suc.IH [of "n div 10"] False decimal.simps [of n] by simp
  qed (use decimal.simps [of n] in simp)
qed simp

lemma decimal_plain: "CHR 0x00 \<notin> set (decimal n)"
proof (induction n rule: less_induct)
  case (less n)
  have "char_of (48 + n mod 10) \<noteq> CHR 0x00"
  proof
    assume "char_of (48 + n mod 10) = CHR 0x00"
    then have "of_char (char_of (48 + n mod 10) :: char) = (0 :: nat)" by simp
    then show False by (simp add: of_char_of)
  qed
  then show ?case using less.IH [of "n div 10"] decimal.simps [of n] by (auto split: if_splits)
qed

end
