(* ===== verification/SwissMain.thy ===== *)
theory SwissMain
  imports SwissSpec CPrint
begin

text \<open>
  The program \<open>cmake/swissmap/main.cc\<close>: it fills a table with ten thousand numbers and their texts, prints all entries, and erases
  all keys. Taking the time is left out.
\<close>

section \<open>The program\<close>

text \<open>The text is written into an array of 32 characters.\<close>

definition str_text :: "nat \<Rightarrow> string" where
  "str_text i = ''str'' @ decimal i"

definition sprintf_str :: "nat \<Rightarrow> string result" where
  "sprintf_str i = (if length (str_text i) < 32 then Inr (str_text i) else Inl OutOfBounds)"

fun fill_loop :: "(int \<Rightarrow> u64) \<Rightarrow> (nat \<Rightarrow> u64) \<Rightarrow> nat \<Rightarrow> nat \<Rightarrow> (int, string) swissmap \<Rightarrow> (int, string) swissmap result" where
  "fill_loop hash addr i 0 m = Inr m"
| "fill_loop hash addr i (Suc n) m =
     bnd (sprintf_str i) (\<lambda>buf. bnd (swiss_insert hash addr (int i) buf m) (fill_loop hash addr (Suc i) n))"

fun erase_loop :: "(int \<Rightarrow> u64) \<Rightarrow> nat \<Rightarrow> nat \<Rightarrow> (int, string) swissmap \<Rightarrow> (int, string) swissmap result" where
  "erase_loop hash i 0 m = Inr m"
| "erase_loop hash i (Suc n) m = bnd (erase hash (int i) m) (\<lambda>(_, m). erase_loop hash (Suc i) n m)"

definition num :: nat where
  "num = 10000"

text \<open>The entries printed, and the table at the end.\<close>

definition swiss_main :: "(int \<Rightarrow> u64) \<Rightarrow> (nat \<Rightarrow> u64) \<Rightarrow> u64 \<Rightarrow> ((int \<times> string) list \<times> (int, string) swissmap) result" where
  "swiss_main hash addr salt =
     bnd (fill_loop hash addr 1 num (CSwissMap addr salt)) (\<lambda>m.
     bnd (foreach (\<lambda>k v printed. (False, v, printed @ [(k, v)])) [] m) (\<lambda>(printed, m).
     bnd (erase_loop hash 1 num m) (\<lambda>m. Inr (printed, m))))"

section \<open>The loops as histories\<close>

lemma sprintf_str_fits: "i < 10 ^ 10 \<Longrightarrow> sprintf_str i = Inr (str_text i)"
  using length_decimal [of i 10] by (simp add: sprintf_str_def str_text_def)

lemma fill_loop_history:
  "i + n \<le> 10 ^ 10 \<Longrightarrow>
    fill_loop hash addr i n m = bnd (history (swiss_insert hash addr) (erase hash) (map (\<lambda>i. Insert (int i) (str_text i)) [i..<i + n]) m) (\<lambda>(_, m). Inr m)"
proof (induction n arbitrary: i m)
  case (Suc n)
  have "[i..<i + Suc n] = i # [Suc i..<Suc i + n]" by (simp add: upt_conv_Cons)
  then show ?case using Suc.prems Suc.IH [of "Suc i"] sprintf_str_fits [of i]
    by (cases "swiss_insert hash addr (int i) (str_text i) m") (simp_all del: upt_Suc)
qed simp

lemma erase_loop_history:
  "erase_loop hash i n m = bnd (history (swiss_insert hash addr) (erase hash) (map Erase (map int [i..<i + n])) m) (\<lambda>(_, m). Inr m)"
proof (induction n arbitrary: i m)
  case (Suc n)
  have "[i..<i + Suc n] = i # [Suc i..<Suc i + n]" by (simp add: upt_conv_Cons)
  then show ?case using Suc.IH [of "Suc i"]
    by (auto simp: bnd_def split: sum.split simp del: upt_Suc)
qed simp

lemma insert_history: "inserts (map (\<lambda>i. Insert (f i) (g i)) xs) = length xs" "erasures (map (\<lambda>i. Insert (f i) (g i)) xs) = 0"
  by (induction xs) simp_all

lemma insert_history_map:
  "map_history (map (\<lambda>i. Insert (int i) (g i)) xs) h = ([], \<lambda>k. if k \<in> int ` set xs then Some (g (nat k)) else h k)"
  by (induction xs arbitrary: h) (auto simp: fun_eq_iff)

section \<open>The result\<close>

text \<open>
  C23. The program prints every number from 1 to 10000 with its text, each exactly once, and ends with a table without keys, whatever the hash function, the salt and
  the addresses: although it erases far more keys than a table allows for, each of them is there when it is searched. The texts fit the array.
\<close>

theorem swiss_main_prints:
  "\<exists>printed m. swiss_main hash addr salt = Inr (printed, m) \<and> distinct (map fst printed) \<and>
    set printed = {(int i, ''str'' @ decimal i) |i. 1 \<le> i \<and> i \<le> 10000} \<and> (\<forall>x. swiss_map m x = None)"
proof -
  let ?xs = "[1..<1 + num]" and ?ops = "map (\<lambda>i. Insert (int i) (str_text i)) [1..<1 + num]"
  obtain m where m: "history (swiss_insert hash addr) (erase hash) ?ops (CSwissMap addr salt) = Inr ([], m)" "swiss_credit hash 0 5 m"
    "swiss_map m = (\<lambda>k. if k \<in> int ` set ?xs then Some (str_text (nat k)) else None)"
    using swiss.history_refines [of hash ?ops 0 5 "CSwissMap addr salt" addr] new_table [of num 5 hash addr salt]
    by (auto simp: insert_history insert_history_map new_table_map num_def simp del: upt_Suc)
  then obtain k where ok: "swiss_ok hash k m" "filled m" by (auto simp: swiss_credit_def)
  have fill: "fill_loop hash addr 1 num (CSwissMap addr salt) = Inr m" using m(1) fill_loop_history [of 1 num] by (simp add: num_def del: upt_Suc)
  have "until (\<lambda>_. False) ps = ps" for ps :: "(int \<times> string) list" by (induction ps) simp_all
  then have visit: "foreach (\<lambda>k v printed. (False, v, printed @ [(k, v)])) [] m = Inr (pairs m 0, m)"
    using foreach_loop_visits [OF ok, of 0 "m_cap m" "\<lambda>_. False" "[]"] by (simp add: foreach_def)
  have "has_key m x" if "x \<in> set (map int ?xs)" for x using has_key_map [OF ok, of x] m(3) that by (simp del: upt_Suc)
  moreover have "distinct (map int ?xs)" by (simp add: distinct_map)
  ultimately obtain m' where d: "history (swiss_insert hash addr) (erase hash) (map Erase (map int ?xs)) m = Inr (replicate (length (map int ?xs)) True, m')"
    "swiss_ok hash k m'" "filled m'" "\<forall>x. has_key m' x \<longleftrightarrow> x \<notin> set (map int ?xs) \<and> has_key m x"
    using drop_keys [OF ok, of "map int ?xs" addr] by blast
  have "\<not> has_key m' x" for x using d(4) has_key_map [OF ok, of x] m(3) by (auto simp del: upt_Suc split: if_splits)
  then have none: "swiss_map m' x = None" for x using has_key_map [OF d(2,3), of x] by auto
  have "erase_loop hash 1 num m = Inr m'" using d(1) erase_loop_history [of hash 1 num m addr] by (simp del: upt_Suc)
  then have "swiss_main hash addr salt = Inr (pairs m 0, m')" using fill visit by (simp add: swiss_main_def)
  moreover have "set (pairs m 0) = {(int i, ''str'' @ decimal i) |i. 1 \<le> i \<and> i \<le> 10000}"
  proof -
    have "(x, v) \<in> set (pairs m 0) \<longleftrightarrow> swiss_map m x = Some v" for x v
      using pairs_map [OF ok] by (metis map_of_eq_Some_iff)
    then show ?thesis unfolding m(3) by (auto simp: num_def str_text_def simp del: upt_Suc split: if_splits)
  qed
  ultimately show ?thesis using pairs_map(1) [OF ok] none by blast
qed

end
