(* ===== verification/Account.thy ===== *)
theory Account
  imports CPrelude
begin

text \<open>
  The account of a process that owns objects of the system or of a library and prints: an object is owned from the call that
  hands it out to the call that takes it back, and an object that is not owned must not be used or given back. The programs of
  \<open>xmake/grpc-c\<close>, \<open>cmake/io_uring\<close>, \<open>cmake/iocp\<close> and \<open>mupdf\<close> keep one.
\<close>

section \<open>Owned objects\<close>

datatype printed = PStr string | PInt int

text \<open>
  The objects owned, the lines written to the standard output and the error output (the format and
  its arguments), whether a batch was started that has not completed, and the objects
  given back while it had not.
\<close>

record 'r owner =
  held :: "'r list"
  out :: "(string \<times> printed list) list"
  errs :: "(string \<times> printed list) list"
  busy :: bool
  early :: "'r list"

text \<open>A process that owns nothing and has printed nothing.\<close>

definition no_account :: "'r owner" where
  "no_account = \<lparr>held = [], out = [], errs = [], busy = False, early = []\<rparr>"

definition acquire :: "'r \<Rightarrow> ('r, 'a) owner_scheme \<Rightarrow> ('r, 'a) owner_scheme" where
  "acquire r s = s\<lparr>held := r # held s\<rparr>"

definition release :: "'r \<Rightarrow> ('r, 'a) owner_scheme \<Rightarrow> ('r, 'a) owner_scheme result" where
  "release r s =
     (if r \<in> set (held s)
      then Inr (s\<lparr>held := remove1 r (held s), early := (if busy s then early s @ [r] else early s)\<rparr>)
      else Inl BadFree)"

fun release_all :: "'r list \<Rightarrow> ('r, 'a) owner_scheme \<Rightarrow> ('r, 'a) owner_scheme result" where
  "release_all [] s = Inr s"
| "release_all (r # rs) s = bnd (release r s) (release_all rs)"

definition needs :: "'r list \<Rightarrow> ('r, 'a) owner_scheme \<Rightarrow> 'b result \<Rightarrow> 'b result" where
  "needs rs s k = (if set rs \<subseteq> set (held s) then k else Inl UseAfterFree)"

definition say :: "string \<Rightarrow> printed list \<Rightarrow> ('r, 'a) owner_scheme \<Rightarrow> ('r, 'a) owner_scheme" where
  "say f xs s = s\<lparr>out := out s @ [(f, xs)]\<rparr>"

definition complain :: "string \<Rightarrow> printed list \<Rightarrow> ('r, 'a) owner_scheme \<Rightarrow> ('r, 'a) owner_scheme" where
  "complain f xs s = s\<lparr>errs := errs s @ [(f, xs)]\<rparr>"

section \<open>Lemmas\<close>

lemma owner_fields [simp]:
  "held (acquire r s) = r # held s" "out (acquire r s) = out s" "errs (acquire r s) = errs s" "busy (acquire r s) = busy s" "early (acquire r s) = early s"
  "held (say f xs s) = held s" "out (say f xs s) = out s @ [(f, xs)]" "errs (say f xs s) = errs s" "busy (say f xs s) = busy s" "early (say f xs s) = early s"
  "held (complain f xs s) = held s" "out (complain f xs s) = out s" "errs (complain f xs s) = errs s @ [(f, xs)]" "busy (complain f xs s) = busy s"
  "early (complain f xs s) = early s"
  by (simp_all add: acquire_def say_def complain_def)

lemma needs_held [simp]: "set rs \<subseteq> set (held s) \<Longrightarrow> needs rs s k = k"
  by (simp add: needs_def)

lemma release_held:
  "r \<in> set (held s) \<Longrightarrow>
    release r s = Inr (s\<lparr>held := remove1 r (held s), early := early s @ (if busy s then [r] else [])\<rparr>)"
  by (simp add: release_def)

text \<open>Everything owned is given back when the list names each object once, in any order.\<close>

lemma release_all_held:
  "distinct (held s) \<Longrightarrow> distinct rs \<Longrightarrow> set rs \<subseteq> set (held s) \<Longrightarrow>
    release_all rs s = Inr (s\<lparr>held := filter (\<lambda>r. r \<notin> set rs) (held s), early := early s @ (if busy s then rs else [])\<rparr>)"
proof (induction rs arbitrary: s)
  case (Cons r rs)
  let ?s = "s\<lparr>held := remove1 r (held s), early := early s @ (if busy s then [r] else [])\<rparr>"
  have "set rs \<subseteq> set (held ?s)" using Cons.prems by auto
  then have "release_all rs ?s = Inr (?s\<lparr>held := filter (\<lambda>r. r \<notin> set rs) (held ?s), early := early ?s @ (if busy ?s then rs else [])\<rparr>)"
    using Cons.prems by (intro Cons.IH) auto
  moreover have "filter (\<lambda>x. x \<notin> set rs) (remove1 r (held s)) = filter (\<lambda>x. x \<notin> set (r # rs)) (held s)"
    using Cons.prems by (simp add: distinct_remove1_removeAll removeAll_filter_not_eq filter_filter conj_commute) (rule filter_cong; auto)
  ultimately show ?case using Cons.prems by (simp add: release_held)
qed simp

end
