(* ===== verification/IocpBase.thy ===== *)
theory IocpBase
  imports CPrelude
begin

text \<open>
  Servers over a completion port, \<open>cmake/iocp/server.c\<close> and \<open>cmake/iocp/server_ex.c\<close>: what both files
  define alike. The state is that of the process and of the system calls it uses: the allocated contexts, the open
  sockets, the operations in progress, the packets waiting at the port. A call of \<open>WSARecv\<close> or \<open>WSASend\<close> is accepted, at once or pending,
  or fails; that choice is an argument. An accepted operation completes later with some bytes, or with
  none when the connection is gone, and puts a packet into the queue of the port.
\<close>

section \<open>State\<close>

datatype IoKind = IoREAD | IoWRITE

text \<open>The event handle of an \<open>OVERLAPPED\<close>; memory from \<open>malloc\<close> has none yet.\<close>

datatype event = EvUninit | EvNull | EvOpen nat

record IoData =
  hEvent :: event
  buf :: "u8 list option"
  len :: nat
  nBytes :: nat
  opCode :: IoKind
  cliSock :: nat

record port =
  ctxs :: "nat \<Rightarrow> IoData option"
  next_ctx :: nat
  socks :: "nat set"
  next_sock :: nat
  events :: "nat set"
  next_event :: nat
  ops :: "nat list"
  packets :: "(nat \<times> nat option) list"
  workers :: nat
  sent :: "(nat \<times> u8 list) list"

definition get_ctx :: "nat \<Rightarrow> 'a port_scheme \<Rightarrow> IoData result" where
  "get_ctx c s = (case ctxs s c of None \<Rightarrow> Inl UseAfterFree | Some d \<Rightarrow> Inr d)"

definition set_ctx :: "nat \<Rightarrow> IoData \<Rightarrow> 'a port_scheme \<Rightarrow> 'a port_scheme" where
  "set_ctx c d s = s\<lparr>ctxs := (ctxs s)(c \<mapsto> d)\<rparr>"

definition closesocket :: "nat \<Rightarrow> 'a port_scheme \<Rightarrow> 'a port_scheme" where
  "closesocket k s = s\<lparr>socks := socks s - {k}\<rparr>"

section \<open>System calls\<close>

text \<open>Starting to receive fails without a buffer; starting to send hands over the whole buffer.\<close>

definition WSARecv :: "nat \<Rightarrow> bool \<Rightarrow> 'a port_scheme \<Rightarrow> (bool \<times> 'a port_scheme) result" where
  "WSARecv c accepted s =
     bnd (get_ctx c s) (\<lambda>d.
     if accepted \<and> buf d \<noteq> None then Inr (True, s\<lparr>ops := c # ops s\<rparr>) else Inr (False, s))"

definition WSASend :: "nat \<Rightarrow> bool \<Rightarrow> 'a port_scheme \<Rightarrow> (bool \<times> 'a port_scheme) result" where
  "WSASend c accepted s =
     bnd (get_ctx c s) (\<lambda>d.
     case buf d of None \<Rightarrow> Inr (False, s)
     | Some b \<Rightarrow> if accepted then Inr (True, s\<lparr>ops := c # ops s, sent := sent s @ [(cliSock d, take (len d) b)]\<rparr>) else Inr (False, s))"

text \<open>The end of an operation: bytes received are in the buffer, and a packet is at the port.\<close>

definition complete :: "nat \<Rightarrow> u8 list \<Rightarrow> 'a port_scheme \<Rightarrow> 'a port_scheme result" where
  "complete c bs s =
     bnd (get_ctx c s) (\<lambda>d.
     case buf d of None \<Rightarrow> Inl NullDeref
     | Some b \<Rightarrow>
         let d = (if opCode d = IoREAD then d\<lparr>buf := Some (bs @ drop (length bs) b)\<rparr> else d)
         in Inr ((set_ctx c d s)\<lparr>ops := remove1 c (ops s), packets := packets s @ [(length bs, Some c)]\<rparr>))"

section \<open>Handlers\<close>

text \<open>
  Both files have the same text for these functions and differ in \<open>CloseConn\<close>, which is a
  parameter here.
\<close>

definition post_read :: "(nat \<Rightarrow> 'a port_scheme \<Rightarrow> 'a port_scheme result) \<Rightarrow> nat \<Rightarrow> bool \<Rightarrow> 'a port_scheme \<Rightarrow> (bool \<times> 'a port_scheme) result" where
  "post_read close c accepted s =
     bnd (get_ctx c s) (\<lambda>d.
     bnd (WSARecv c accepted (set_ctx c (d\<lparr>hEvent := EvNull, opCode := IoREAD\<rparr>) s)) (\<lambda>(ok, s).
     if ok then Inr (True, s) else bnd (close c s) (\<lambda>s. Inr (False, s))))"

text \<open>The buffer is printed as a string first, which needs a zero byte in it.\<close>

definition post_write :: "(nat \<Rightarrow> 'a port_scheme \<Rightarrow> 'a port_scheme result) \<Rightarrow> nat \<Rightarrow> bool \<Rightarrow> 'a port_scheme \<Rightarrow> (bool \<times> 'a port_scheme) result" where
  "post_write close c accepted s =
     bnd (get_ctx c s) (\<lambda>d.
     case buf d of None \<Rightarrow> Inl NullDeref
     | Some b \<Rightarrow>
         if 0 \<notin> set b then Inl OutOfBounds
         else bnd (WSASend c accepted (set_ctx c (d\<lparr>hEvent := EvNull, opCode := IoWRITE\<rparr>) s)) (\<lambda>(ok, s).
              if ok then Inr (True, s) else bnd (close c s) (\<lambda>s. Inr (False, s))))"

text \<open>Writing the zero byte behind the bytes received.\<close>

definition terminate :: "nat \<Rightarrow> nat \<Rightarrow> 'a port_scheme \<Rightarrow> 'a port_scheme result" where
  "terminate c n s =
     bnd (get_ctx c s) (\<lambda>d.
     case buf d of None \<Rightarrow> Inl NullDeref
     | Some b \<Rightarrow> if n < length b then Inr (set_ctx c (d\<lparr>buf := Some (b[n := 0])\<rparr>) s) else Inl OutOfBounds)"

definition worker_round :: "(nat \<Rightarrow> 'a port_scheme \<Rightarrow> 'a port_scheme result) \<Rightarrow> nat \<times> nat option \<Rightarrow> bool \<Rightarrow> 'a port_scheme \<Rightarrow> 'a port_scheme result" where
  "worker_round close p accepted s =
     (case p of (dwIoSize, ctx) \<Rightarrow>
      if dwIoSize = 0
      then (case ctx of None \<Rightarrow> Inr (s\<lparr>workers := workers s - 1\<rparr>) | Some c \<Rightarrow> close c s)
      else (case ctx of None \<Rightarrow> Inl NullDeref
            | Some c \<Rightarrow>
                bnd (get_ctx c s) (\<lambda>d.
                case opCode d of
                  IoREAD \<Rightarrow> bnd (terminate c dwIoSize s) (\<lambda>s. bnd (post_write close c accepted s) (\<lambda>(_, s). Inr s))
                | IoWRITE \<Rightarrow> bnd (post_read close c accepted s) (\<lambda>(_, s). Inr s))))"

section \<open>Ownership\<close>

text \<open>
  Every allocated context has exactly one owner: an operation in progress, a packet at the port,
  or one of the threads, listed in \<open>own\<close>. A context that is not held by a thread has no event and,
  if \<open>st\<close> asks for that, an open socket.
\<close>

definition owner_list :: "nat list \<Rightarrow> 'a port_scheme \<Rightarrow> nat list" where
  "owner_list own s = own @ ops s @ List.map_filter snd (packets s)"

definition ctx_ok :: "bool \<Rightarrow> nat list \<Rightarrow> 'a port_scheme \<Rightarrow> nat \<Rightarrow> IoData \<Rightarrow> bool" where
  "ctx_ok st own s c d \<longleftrightarrow> len d = 1024 \<and> (\<exists>b. buf d = Some b \<and> length b = 1024) \<and> c < next_ctx s \<and> cliSock d < next_sock s \<and>
     hEvent d \<noteq> EvUninit \<and> (c \<notin> set own \<longrightarrow> hEvent d = EvNull \<and> (st \<longrightarrow> cliSock d \<in> socks s))"

definition sock :: "'a port_scheme \<Rightarrow> nat \<Rightarrow> nat" where
  "sock s c = cliSock (the (ctxs s c))"

definition owners_ok :: "nat list \<Rightarrow> 'a port_scheme \<Rightarrow> bool" where
  "owners_ok own s \<longleftrightarrow> distinct (owner_list own s) \<and> set (owner_list own s) = dom (ctxs s)"

definition socks_ok :: "'a port_scheme \<Rightarrow> bool" where
  "socks_ok s \<longleftrightarrow> inj_on (sock s) (dom (ctxs s)) \<and> socks s \<subseteq> sock s ` dom (ctxs s)"

definition packets_ok :: "'a port_scheme \<Rightarrow> bool" where
  "packets_ok s \<longleftrightarrow> (\<forall>p \<in> set (packets s). fst p \<le> 1024 \<and> (snd p = None \<longrightarrow> fst p = 0))"

definition port_ok :: "bool \<Rightarrow> nat list \<Rightarrow> 'a port_scheme \<Rightarrow> bool" where
  "port_ok st own s \<longleftrightarrow> owners_ok own s \<and> (\<forall>c d. ctxs s c = Some d \<longrightarrow> ctx_ok st own s c d) \<and> socks_ok s \<and> packets_ok s"

definition released :: "nat \<Rightarrow> IoData \<Rightarrow> 'a port_scheme \<Rightarrow> 'a port_scheme \<Rightarrow> bool" where
  "released c d s s' \<longleftrightarrow> ctxs s' = (ctxs s)(c := None) \<and> socks s' = socks s - {cliSock d} \<and> ops s' = ops s \<and>
     packets s' = packets s \<and> workers s' = workers s \<and> sent s' = sent s \<and> next_ctx s' = next_ctx s \<and> next_sock s' = next_sock s"

lemma map_filter_snd [simp]:
  "List.map_filter snd [] = []" "List.map_filter snd ((n, None) # q) = List.map_filter snd q"
  "List.map_filter snd ((n, Some c) # q) = c # List.map_filter snd q"
  by (simp_all add: List.map_filter_simps)

lemma map_filter_snd_append [simp]: "List.map_filter snd (p @ q) = List.map_filter snd p @ List.map_filter snd q"
  by (simp add: List.map_filter_def)

lemma port_ok_ctx: "port_ok st own s \<Longrightarrow> ctxs s c = Some d \<Longrightarrow> ctx_ok st own s c d"
  by (simp add: port_ok_def)

lemma same_socks:
  assumes "ctxs s' = ctxs s" and "socks s' = socks s"
  shows "socks_ok s' \<longleftrightarrow> socks_ok s"
  using assms by (simp add: socks_ok_def sock_def [abs_def])

lemma same_port:
  assumes "ctxs s' = ctxs s" and "socks s' = socks s" and "ops s' = ops s" and "packets s' = packets s" and "next_ctx s' = next_ctx s" and "next_sock s' = next_sock s"
  shows "port_ok st own s' \<longleftrightarrow> port_ok st own s"
  using assms same_socks [OF assms(1,2)] by (simp add: port_ok_def owners_ok_def owner_list_def ctx_ok_def packets_ok_def)

lemma take_packet:
  assumes ok: "port_ok st own s" and p: "packets s = (n, Some c) # q"
  shows "port_ok st (c # own) (s\<lparr>packets := q\<rparr>)"
proof -
  have "owners_ok (c # own) (s\<lparr>packets := q\<rparr>)" using ok p by (auto simp: port_ok_def owners_ok_def owner_list_def)
  moreover have "ctx_ok st (c # own) (s\<lparr>packets := q\<rparr>) c' d" if "ctxs s c' = Some d" for c' d
    using port_ok_ctx [OF ok that] by (auto simp: ctx_ok_def)
  moreover have "packets_ok (s\<lparr>packets := q\<rparr>)" using ok p by (simp add: port_ok_def packets_ok_def)
  ultimately show ?thesis using ok same_socks [of "s\<lparr>packets := q\<rparr>" s] by (simp add: port_ok_def)
qed

lemma drop_packet:
  assumes ok: "port_ok st own s" and p: "packets s = (n, None) # q"
  shows "port_ok st own (s\<lparr>packets := q, workers := k\<rparr>)"
  using ok p same_socks [of "s\<lparr>packets := q, workers := k\<rparr>" s]
  by (simp add: port_ok_def owners_ok_def ctx_ok_def owner_list_def packets_ok_def)

lemma hand_over:
  assumes ok: "port_ok st (c # own) s" and d: "ctxs s c = Some d" "hEvent d = EvNull" "st \<Longrightarrow> cliSock d \<in> socks s"
  shows "port_ok st own (s\<lparr>ops := c # ops s\<rparr>)"
proof -
  have "owners_ok own (s\<lparr>ops := c # ops s\<rparr>)" using ok by (auto simp: port_ok_def owners_ok_def owner_list_def)
  moreover have "ctx_ok st own (s\<lparr>ops := c # ops s\<rparr>) c' d'" if "ctxs s c' = Some d'" for c' d'
    using port_ok_ctx [OF ok that] d that by (auto simp: ctx_ok_def)
  ultimately show ?thesis using ok same_socks [of "s\<lparr>ops := c # ops s\<rparr>" s] by (simp add: port_ok_def packets_ok_def)
qed

lemma port_ok_sent [simp]: "port_ok st own (s\<lparr>sent := x\<rparr>) \<longleftrightarrow> port_ok st own s"
  using same_socks [of "s\<lparr>sent := x\<rparr>" s] by (simp add: port_ok_def owners_ok_def ctx_ok_def owner_list_def packets_ok_def)

lemma release_ok:
  assumes ok: "port_ok st (c # own) s" and d: "ctxs s c = Some d" and r: "released c d s s'"
  shows "port_ok st own s'"
proof -
  have o: "owner_list own s' = owner_list own s" "owner_list (c # own) s = c # owner_list own s" using r by (simp_all add: owner_list_def released_def)
  have dom: "dom (ctxs s') = dom (ctxs s) - {c}" using r by (simp add: released_def)
  have own: "owners_ok own s'" using ok unfolding port_ok_def owners_ok_def o dom by auto
  have inj: "inj_on (sock s) (dom (ctxs s))" "socks s \<subseteq> sock s ` dom (ctxs s)" using ok by (simp_all add: port_ok_def socks_ok_def)
  have sock: "sock s' c' = sock s c'" if "c' \<noteq> c" for c' using r that by (simp add: released_def sock_def)
  have "sock s' ` dom (ctxs s') = sock s ` (dom (ctxs s) - {c})" unfolding dom by (rule image_cong) (simp_all add: sock)
  also have "\<dots> = sock s ` dom (ctxs s) - {sock s c}" using inj(1) d by (auto simp: inj_on_def)
  finally have sub: "socks s' \<subseteq> sock s' ` dom (ctxs s')" using r d inj(2) by (auto simp: released_def sock_def)
  have inj': "inj_on (sock s') (dom (ctxs s'))"
    using inj_on_subset [OF inj(1), of "dom (ctxs s')"] unfolding dom by (auto simp: inj_on_def sock)
  have "ctx_ok st own s' c' d'" if "ctxs s' c' = Some d'" for c' d'
  proof -
    have c': "c' \<noteq> c" "ctxs s c' = Some d'" using that r by (auto simp: released_def split: if_splits)
    then have "sock s c' \<noteq> sock s c" using inj(1) d by (auto simp: inj_on_def)
    then have "cliSock d' \<noteq> cliSock d" using c' d by (simp add: sock_def)
    then show ?thesis using port_ok_ctx [OF ok c'(2)] c'(1) r by (auto simp: ctx_ok_def released_def)
  qed
  then show ?thesis using ok r own sub inj' by (simp add: port_ok_def socks_ok_def packets_ok_def) (simp add: released_def)
qed

lemma set_ctx_ok:
  assumes ok: "port_ok st own s" and d: "ctxs s c = Some d" and e: "cliSock d' = cliSock d" "len d' = len d" "buf d' = Some b" "length b = 1024"
    "hEvent d' = EvNull \<or> hEvent d' = hEvent d"
  shows "port_ok st own (set_ctx c d' s)"
proof -
  have dom: "dom (ctxs (set_ctx c d' s)) = dom (ctxs s)" using d by (auto simp: set_ctx_def)
  have "sock (set_ctx c d' s) = sock s" using d e(1) by (auto simp: sock_def set_ctx_def fun_eq_iff)
  then have "socks_ok (set_ctx c d' s)" using ok dom by (simp add: port_ok_def socks_ok_def) (simp add: set_ctx_def)
  moreover have "ctx_ok st own (set_ctx c d' s) c d'" using port_ok_ctx [OF ok d] e by (auto simp: ctx_ok_def set_ctx_def)
  then have "ctx_ok st own (set_ctx c d' s) c' x" if "ctxs (set_ctx c d' s) c' = Some x" for c' x
    using port_ok_ctx [OF ok, of c' x] that by (cases "c' = c") (auto simp: ctx_ok_def set_ctx_def)
  moreover have "owners_ok own (set_ctx c d' s)" using ok dom by (simp add: port_ok_def owners_ok_def) (simp add: set_ctx_def owner_list_def)
  ultimately show ?thesis using ok by (simp add: port_ok_def packets_ok_def) (simp add: set_ctx_def)
qed

lemma complete_ok:
  assumes ok: "port_ok st own s" and c: "c \<in> set (ops s)" and bs: "length bs \<le> 1024"
  shows "\<exists>s'. complete c bs s = Inr s' \<and> port_ok st own s' \<and> workers s' = workers s"
proof -
  have "c \<in> dom (ctxs s)" using ok c by (auto simp: port_ok_def owners_ok_def owner_list_def)
  then obtain d where d: "ctxs s c = Some d" by auto
  then obtain b where b: "buf d = Some b" "length b = 1024" using port_ok_ctx [OF ok] by (auto simp: ctx_ok_def)
  define d' where "d' = (if opCode d = IoREAD then d\<lparr>buf := Some (bs @ drop (length bs) b)\<rparr> else d)"
  have s1: "port_ok st own (set_ctx c d' s)"
    by (rule set_ctx_ok [OF ok d, of d' "if opCode d = IoREAD then bs @ drop (length bs) b else b"]) (use b bs in \<open>auto simp: d'_def\<close>)
  let ?s = "(set_ctx c d' s)\<lparr>ops := remove1 c (ops s), packets := packets s @ [(length bs, Some c)]\<rparr>"
  have "distinct (owner_list own s)" using ok by (simp add: port_ok_def owners_ok_def)
  then have "set (owner_list own ?s) = set (owner_list own (set_ctx c d' s))" "distinct (owner_list own ?s)"
    using c by (auto simp: owner_list_def set_ctx_def)
  then have "owners_ok own ?s" using s1 by (simp add: port_ok_def owners_ok_def)
  moreover have "ctx_ok st own ?s c' x" if "ctxs (set_ctx c d' s) c' = Some x" for c' x
    using port_ok_ctx [OF s1 that] by (simp add: ctx_ok_def)
  moreover have "packets_ok ?s" using s1 bs by (auto simp: port_ok_def packets_ok_def set_ctx_def)
  ultimately have "port_ok st own ?s" using s1 same_socks [of ?s "set_ctx c d' s"] by (simp add: port_ok_def)
  moreover have "complete c bs s = Inr ?s" using d b by (simp add: complete_def get_ctx_def d'_def Let_def)
  ultimately show ?thesis by (auto simp: set_ctx_def)
qed

text \<open>A new context, held by the thread that allocated it.\<close>

lemma new_ctx_ok:
  assumes ok: "port_ok st [] s" and d: "len d = 1024" "buf d = Some b" "length b = 1024" "hEvent d \<noteq> EvUninit" "cliSock d = next_sock s"
    and s': "s' = (set_ctx (next_ctx s) d (s\<lparr>socks := socks s \<union> {next_sock s}, next_sock := Suc (next_sock s)\<rparr>))\<lparr>next_ctx := Suc (next_ctx s)\<rparr>"
  shows "port_ok st [next_ctx s] s'"
proof -
  let ?c = "next_ctx s"
  have new: "c < ?c" "cliSock x < next_sock s" if "ctxs s c = Some x" for c x using port_ok_ctx [OF ok that] by (auto simp: ctx_ok_def)
  then have fresh: "ctxs s ?c = None" by (metis less_irrefl not_None_eq)
  have dom: "dom (ctxs s') = Set.insert ?c (dom (ctxs s))" by (simp add: s' set_ctx_def)
  have "owner_list [?c] s' = ?c # owner_list [] s" by (simp add: owner_list_def s' set_ctx_def)
  then have own: "owners_ok [?c] s'" using ok fresh unfolding port_ok_def owners_ok_def dom by auto
  have sk: "sock s' c = (if c = ?c then next_sock s else sock s c)" for c using d(5) by (simp add: sock_def s' set_ctx_def)
  have lt: "sock s c < next_sock s" if "c \<in> dom (ctxs s)" for c using that new(2) by (auto simp: sock_def)
  have same: "sock s' c = sock s c" if "c \<in> dom (ctxs s)" for c using that sk fresh by auto
  then have im: "sock s' ` dom (ctxs s) = sock s ` dom (ctxs s)" by (rule image_cong [OF refl])
  have "inj_on (sock s') (dom (ctxs s))" using ok same by (auto simp: port_ok_def socks_ok_def inj_on_def)
  moreover have "sock s' ?c \<notin> sock s' ` dom (ctxs s)" unfolding im using lt by (force simp: sk)
  ultimately have "inj_on (sock s') (dom (ctxs s'))" unfolding dom by (auto simp: inj_on_insert)
  moreover have "socks s' = Set.insert (next_sock s) (socks s)" "sock s' ?c = next_sock s" using sk by (simp_all add: s' set_ctx_def)
  ultimately have "socks_ok s'" using ok unfolding port_ok_def socks_ok_def dom image_insert im by auto
  moreover have "ctx_ok st [?c] s' c x" if "ctxs s' c = Some x" for c x
  proof (cases "c = ?c")
    case True
    then show ?thesis using that d by (simp add: ctx_ok_def s' set_ctx_def)
  next
    case False
    then have "ctxs s c = Some x" using that by (simp add: s' set_ctx_def)
    from port_ok_ctx [OF ok this] show ?thesis by (auto simp: ctx_ok_def s' set_ctx_def)
  qed
  ultimately show ?thesis using ok own by (simp add: port_ok_def packets_ok_def) (simp add: s' set_ctx_def)
qed

lemma port_ok_next:
  assumes "port_ok st own s" and "next_ctx s \<le> i" and "next_sock s \<le> j"
  shows "port_ok st own (s\<lparr>next_ctx := i, next_sock := j\<rparr>)"
  using assms same_socks [of "s\<lparr>next_ctx := i, next_sock := j\<rparr>" s]
  by (fastforce simp: port_ok_def owners_ok_def owner_list_def ctx_ok_def packets_ok_def)

lemma fresh_names:
  assumes "port_ok st own s"
  shows "ctxs s (next_ctx s) = None" and "next_sock s \<notin> socks s"
proof -
  have "c < next_ctx s \<and> sock s c < next_sock s" if "c \<in> dom (ctxs s)" for c
    using that port_ok_ctx [OF assms] by (force simp: ctx_ok_def sock_def)
  then show "ctxs s (next_ctx s) = None" "next_sock s \<notin> socks s" using assms by (fastforce simp: port_ok_def socks_ok_def)+
qed

text \<open>Packets without a context end the workers.\<close>

definition exits :: "(nat \<times> nat option) list \<Rightarrow> nat" where
  "exits ps = length (filter (\<lambda>p. p = (0, None)) ps)"

lemma exits_simps [simp]: "exits [] = 0" "exits (p # ps) = (if p = (0, None) then 1 else 0) + exits ps" "exits (ps @ qs) = exits ps + exits qs"
  "exits (replicate k (0, None)) = k"
  by (simp_all add: exits_def)

lemma port_ok_exits:
  assumes "port_ok st own s"
  shows "port_ok st own (s\<lparr>packets := packets s @ replicate k (0, None)\<rparr>)"
proof -
  have "List.map_filter snd (replicate k (0 :: nat, None)) = ([] :: nat list)" by (induction k) simp_all
  then show ?thesis using assms same_socks [of "s\<lparr>packets := packets s @ replicate k (0, None)\<rparr>" s]
    by (auto simp: port_ok_def owners_ok_def owner_list_def ctx_ok_def packets_ok_def)
qed

section \<open>The handlers keep the ownership\<close>

text \<open>The outcome of a round of a worker: it fails only if a message fills the whole buffer.\<close>

definition full_read :: "nat \<times> nat option \<Rightarrow> 'a port_scheme \<Rightarrow> bool" where
  "full_read p s \<longleftrightarrow> (\<exists>c d. p = (1024, Some c) \<and> ctxs s c = Some d \<and> opCode d = IoREAD)"

lemma terminate_ok:
  assumes ok: "port_ok st own s" and d: "ctxs s c = Some d" and b: "buf d = Some b" and n: "n < 1024"
  shows "terminate c n s = Inr (set_ctx c (d\<lparr>buf := Some (b[n := 0])\<rparr>) s) \<and> port_ok st own (set_ctx c (d\<lparr>buf := Some (b[n := 0])\<rparr>) s)"
proof -
  have l: "length b = 1024" using port_ok_ctx [OF ok d] b by (auto simp: ctx_ok_def)
  have "port_ok st own (set_ctx c (d\<lparr>buf := Some (b[n := 0])\<rparr>) s)" by (rule set_ctx_ok [OF ok d, of _ "b[n := 0]"]) (use l in auto)
  then show ?thesis using d b n l by (simp add: terminate_def get_ctx_def)
qed

lemma worker_packet:
  assumes ok: "port_ok st own s" and p: "packets s = (n, Some c) # q" and "c \<notin> set own"
  shows "\<exists>d b. ctxs s c = Some d \<and> (st \<longrightarrow> cliSock d \<in> socks s) \<and> buf d = Some b \<and> length b = 1024 \<and> n \<le> 1024"
proof -
  have "c \<in> dom (ctxs s)" using ok p by (auto simp: port_ok_def owners_ok_def owner_list_def)
  then obtain d where d: "ctxs s c = Some d" by auto
  with port_ok_ctx [OF ok d] assms(3) ok p show ?thesis by (auto simp: ctx_ok_def port_ok_def packets_ok_def)
qed

locale closing =
  fixes close :: "nat \<Rightarrow> 'a port_scheme \<Rightarrow> 'a port_scheme result"
  assumes close_frees: "ctxs s c = Some d \<Longrightarrow> hEvent d \<noteq> EvUninit \<Longrightarrow> \<exists>s'. close c s = Inr s' \<and> released c d s s'"
begin

lemma close_ok:
  assumes "port_ok st (c # own) s" and "ctxs s c = Some d"
  shows "\<exists>s'. close c s = Inr s' \<and> released c d s s' \<and> port_ok st own s'"
  using close_frees [OF assms(2)] port_ok_ctx [OF assms] release_ok [OF assms] by (auto simp: ctx_ok_def)

lemma post_read_ok:
  assumes ok: "port_ok st (c # own) s" and d: "ctxs s c = Some d" and k: "st \<Longrightarrow> cliSock d \<in> socks s"
  shows "\<exists>s'. post_read close c accepted s = Inr (accepted, s') \<and> port_ok st own s' \<and> workers s' = workers s \<and> packets s' = packets s \<and> sent s' = sent s"
proof -
  let ?d = "d\<lparr>hEvent := EvNull, opCode := IoREAD\<rparr>"
  obtain b where b: "buf d = Some b" "length b = 1024" using port_ok_ctx [OF ok d] by (auto simp: ctx_ok_def)
  have s1: "port_ok st (c # own) (set_ctx c ?d s)" by (rule set_ctx_ok [OF ok d, of ?d b]) (use b in auto)
  have d1: "ctxs (set_ctx c ?d s) c = Some ?d" by (simp add: set_ctx_def)
  show ?thesis
  proof (cases accepted)
    case True
    then show ?thesis using hand_over [OF s1 d1] k b d by (auto simp: post_read_def WSARecv_def get_ctx_def set_ctx_def)
  next
    case False
    then show ?thesis using close_ok [OF s1 d1] d by (auto simp: post_read_def WSARecv_def get_ctx_def d1 released_def set_ctx_def)
  qed
qed

lemma post_write_ok:
  assumes ok: "port_ok st (c # own) s" and d: "ctxs s c = Some d" and k: "st \<Longrightarrow> cliSock d \<in> socks s" and b: "buf d = Some b" "0 \<in> set b"
  shows "\<exists>s'. post_write close c accepted s = Inr (accepted, s') \<and> port_ok st own s' \<and> workers s' = workers s \<and> packets s' = packets s \<and>
    sent s' = sent s @ (if accepted then [(cliSock d, b)] else [])"
proof -
  let ?d = "d\<lparr>hEvent := EvNull, opCode := IoWRITE\<rparr>"
  have l: "length b = 1024" "len d = 1024" using port_ok_ctx [OF ok d] b by (auto simp: ctx_ok_def)
  have s1: "port_ok st (c # own) (set_ctx c ?d s)" by (rule set_ctx_ok [OF ok d, of ?d b]) (use b l in auto)
  have d1: "ctxs (set_ctx c ?d s) c = Some ?d" by (simp add: set_ctx_def)
  show ?thesis
  proof (cases accepted)
    case True
    have "port_ok st own ((set_ctx c ?d s)\<lparr>ops := c # ops s\<rparr>)" using hand_over [OF s1 d1] k by (simp add: set_ctx_def)
    then have "port_ok st own ((set_ctx c ?d s)\<lparr>ops := c # ops s, sent := sent s @ [(cliSock d, b)]\<rparr>)" by simp
    moreover have "post_write close c accepted s = Inr (True, (set_ctx c ?d s)\<lparr>ops := c # ops s, sent := sent s @ [(cliSock d, b)]\<rparr>)"
      using True b l d by (simp add: post_write_def WSASend_def get_ctx_def set_ctx_def)
    ultimately show ?thesis using True by (auto simp: set_ctx_def)
  next
    case False
    then show ?thesis using close_ok [OF s1 d1] d b by (auto simp: post_write_def WSASend_def get_ctx_def d1 released_def set_ctx_def)
  qed
qed

lemma worker_ok:
  assumes ok: "port_ok st own s" and p: "packets s = p # q"
  shows "(if full_read p s then worker_round close p accepted (s\<lparr>packets := q\<rparr>) = Inl OutOfBounds
     else \<exists>s'. worker_round close p accepted (s\<lparr>packets := q\<rparr>) = Inr s' \<and> port_ok st own s' \<and> packets s' = q \<and>
       workers s' = workers s - (if p = (0, None) then 1 else 0))"
proof -
  obtain n x where nx: "p = (n, x)" by (cases p)
  show ?thesis
  proof (cases x)
    case None
    then have "n = 0" using ok p nx by (auto simp: port_ok_def packets_ok_def)
    then show ?thesis using None nx drop_packet [OF ok, of n q "workers s - 1"] p by (auto simp: full_read_def worker_round_def)
  next
    case (Some c)
    then have p': "packets s = (n, Some c) # q" using p nx by simp
    have "c \<notin> set own" using ok p' by (auto simp: port_ok_def owners_ok_def owner_list_def)
    then obtain d b where d: "ctxs s c = Some d" "st \<Longrightarrow> cliSock d \<in> socks s" "buf d = Some b" "length b = 1024" "n \<le> 1024"
      using worker_packet [OF ok p'] by blast
    let ?s = "s\<lparr>packets := q\<rparr>"
    have ok1: "port_ok st (c # own) ?s" by (rule take_packet [OF ok p'])
    have d1: "ctxs ?s c = Some d" using d(1) by simp
    consider (gone) "n = 0" | (echoed) "n \<noteq> 0" "opCode d = IoWRITE" | (got) "n \<noteq> 0" "opCode d = IoREAD" "n < 1024" | (full) "opCode d = IoREAD" "n = 1024"
      using d(5) by (cases "opCode d") (auto simp: le_less)
    then show ?thesis
    proof cases
      case gone
      then show ?thesis using close_ok [OF ok1 d1] nx Some by (auto simp: full_read_def worker_round_def released_def)
    next
      case echoed
      then show ?thesis using post_read_ok [OF ok1 d1, of accepted] d(1,2) nx Some
        by (auto simp: full_read_def worker_round_def get_ctx_def)
    next
      case got
      let ?d = "d\<lparr>buf := Some (b[n := 0])\<rparr>"
      note t = terminate_ok [OF ok1 d1 d(3) got(3)]
      have "0 \<in> set (b[n := 0])" using got(3) d(4) by (simp add: set_update_memI)
      with post_write_ok [of st c own "set_ctx c ?d ?s" ?d "b[n := 0]" accepted] t
      obtain s' where "post_write close c accepted (set_ctx c ?d ?s) = Inr (accepted, s')" "port_ok st own s'" "workers s' = workers s" "packets s' = q"
        using d(2) by (auto simp: set_ctx_def)
      then show ?thesis using got t d(1) nx Some by (auto simp: full_read_def worker_round_def get_ctx_def)
    next
      case full
      then show ?thesis using nx Some d by (auto simp: full_read_def worker_round_def get_ctx_def terminate_def)
    qed
  qed
qed

text \<open>What is sent back: the whole buffer of 1024 bytes, whatever the length of the message.\<close>

lemma worker_echo:
  assumes ok: "port_ok st own s" and p: "packets s = (n, Some c) # q" and d: "ctxs s c = Some d" "opCode d = IoREAD" "buf d = Some b" and n: "0 < n" "n < 1024"
  shows "\<exists>s'. worker_round close (n, Some c) True (s\<lparr>packets := q\<rparr>) = Inr s' \<and> sent s' = sent s @ [(cliSock d, b[n := 0])]"
proof -
  have c: "c \<notin> set own" using ok p by (auto simp: port_ok_def owners_ok_def owner_list_def)
  let ?s = "s\<lparr>packets := q\<rparr>" and ?d = "d\<lparr>buf := Some (b[n := 0])\<rparr>"
  have ok1: "port_ok st (c # own) ?s" by (rule take_packet [OF ok p])
  have l: "st \<Longrightarrow> cliSock d \<in> socks s" "length b = 1024" using port_ok_ctx [OF ok d(1)] c d(3) by (auto simp: ctx_ok_def)
  note t = terminate_ok [OF ok1 _ d(3) n(2)]
  have "0 \<in> set (b[n := 0])" using n l by (simp add: set_update_memI)
  with post_write_ok [of st c own "set_ctx c ?d ?s" ?d "b[n := 0]" True] t d(1)
  obtain s' where "post_write close c True (set_ctx c ?d ?s) = Inr (True, s')" "sent s' = sent s @ [(cliSock d, b[n := 0])]"
    using l(1) by (auto simp: set_ctx_def)
  then show ?thesis using t d(1,2) n(1) by (auto simp: worker_round_def get_ctx_def)
qed

end

section \<open>What the handlers do not change\<close>

text \<open>
  A part of the state that neither \<open>CloseConn\<close> nor the system calls touch is left alone by all
  handlers.
\<close>

locale closing_view = closing close for close :: "nat \<Rightarrow> 'a port_scheme \<Rightarrow> 'a port_scheme result" +
  fixes view :: "'a port_scheme \<Rightarrow> 'b"
  assumes close_view: "close c s = Inr s' \<Longrightarrow> view s' = view s"
    and ctxs_view: "view (s\<lparr>ctxs := x\<rparr>) = view s" and ops_view: "view (s\<lparr>ops := y\<rparr>) = view s"
    and sent_view: "view (s\<lparr>sent := z\<rparr>) = view s" and workers_view: "view (s\<lparr>workers := w\<rparr>) = view s"
begin

lemma call_view:
  "view (set_ctx c d s) = view s"
  "WSARecv c a s = Inr (ok, s') \<Longrightarrow> view s' = view s"
  "WSASend c a s = Inr (ok, s') \<Longrightarrow> view s' = view s"
  "terminate c m s = Inr s' \<Longrightarrow> view s' = view s"
  by (auto simp: set_ctx_def WSARecv_def WSASend_def terminate_def bnd_eq_Inr ctxs_view ops_view sent_view split: if_splits option.splits)

lemma closed_view: "(if ok1 then Inr (True, t) else bnd (close c t) (\<lambda>s. Inr (False, s))) = Inr (ok, t') \<Longrightarrow> view t' = view t"
  using close_view by (auto simp: bnd_eq_Inr split: if_splits)

lemma post_read_view: "post_read close c a s = Inr (ok, s') \<Longrightarrow> view s' = view s"
proof -
  assume "post_read close c a s = Inr (ok, s')"
  then obtain d ok1 s1 where "WSARecv c a (set_ctx c d s) = Inr (ok1, s1)"
    "(if ok1 then Inr (True, s1) else bnd (close c s1) (\<lambda>s. Inr (False, s))) = Inr (ok, s')"
    unfolding post_read_def bnd_eq_Inr by auto
  then show ?thesis using closed_view call_view(1,2) by metis
qed

lemma post_write_view: "post_write close c a s = Inr (ok, s') \<Longrightarrow> view s' = view s"
proof -
  assume "post_write close c a s = Inr (ok, s')"
  then obtain d ok1 s1 where "WSASend c a (set_ctx c d s) = Inr (ok1, s1)"
    "(if ok1 then Inr (True, s1) else bnd (close c s1) (\<lambda>s. Inr (False, s))) = Inr (ok, s')"
    unfolding post_write_def bnd_eq_Inr by (auto simp: bnd_eq_Inr split: option.splits if_splits)
  then show ?thesis using closed_view call_view(1,3) by metis
qed

lemma worker_view:
  assumes "worker_round close p a s = Inr s'"
  shows "view s' = view s"
proof (cases "fst p = 0")
  case True
  then show ?thesis using assms close_view by (auto simp: worker_round_def workers_view split: option.splits prod.splits)
next
  case False
  then obtain c d where c: "snd p = Some c" "get_ctx c s = Inr d" using assms by (auto simp: worker_round_def bnd_eq_Inr split: option.splits prod.splits)
  show ?thesis
  proof (cases "opCode d")
    case IoREAD
    then obtain s1 ok where "terminate c (fst p) s = Inr s1" "post_write close c a s1 = Inr (ok, s')"
      using assms False c by (cases p) (auto simp: worker_round_def bnd_eq_Inr)
    then show ?thesis using post_write_view call_view(4) by metis
  next
    case IoWRITE
    then obtain ok where "post_read close c a s = Inr (ok, s')" using assms False c by (cases p) (auto simp: worker_round_def bnd_eq_Inr)
    then show ?thesis by (rule post_read_view)
  qed
qed

end

end
