(* ===== verification/Iocp.thy ===== *)
theory Iocp
  imports IocpBase
begin

text \<open>
  The server \<open>cmake/iocp/server.c\<close>: the main thread accepts connections without blocking until a signal
  sets \<open>IsExit\<close>; the workers echo. The steps of the threads and of the system interleave in any order.
\<close>

section \<open>Operations\<close>

record iocp = port +
  IsExit :: bool
  loop_left :: bool

definition CloseConn :: "nat \<Rightarrow> 'a port_scheme \<Rightarrow> 'a port_scheme result" where
  "CloseConn c s = bnd (get_ctx c s) (\<lambda>d. Inr ((closesocket (cliSock d) s)\<lparr>ctxs := (ctxs s)(c := None)\<rparr>))"

definition PostRead :: "nat \<Rightarrow> bool \<Rightarrow> iocp \<Rightarrow> (bool \<times> iocp) result" where
  "PostRead = post_read CloseConn"

definition PostWrite :: "nat \<Rightarrow> bool \<Rightarrow> iocp \<Rightarrow> (bool \<times> iocp) result" where
  "PostWrite = post_write CloseConn"

text \<open>One round of the loop of a worker, with the packet it takes.\<close>

definition WorkerThread :: "nat \<times> nat option \<Rightarrow> bool \<Rightarrow> iocp \<Rightarrow> iocp result" where
  "WorkerThread = worker_round CloseConn"

definition OnSignal :: "iocp \<Rightarrow> iocp" where
  "OnSignal s = s\<lparr>IsExit := True\<rparr>"

text \<open>
  What the calls for a new connection return: whether it could be bound to the port, the memory for the
  context, the memory for the buffer with whatever is in it, and whether \<open>WSARecv\<close> accepts.
\<close>

record accept_env =
  bind_ok :: bool
  ctx_mem :: bool
  buf_mem :: "u8 list option"
  recv_ok :: bool

text \<open>One round of the loop in \<open>NetWork\<close> in which \<open>accept\<close> returns a connection.\<close>

definition accept_round :: "accept_env \<Rightarrow> iocp \<Rightarrow> iocp result" where
  "accept_round e s =
     (let k = next_sock s; s = s\<lparr>socks := socks s \<union> {k}, next_sock := Suc k\<rparr>
      in if \<not> bind_ok e then Inr (closesocket k s)
         else if \<not> ctx_mem e then Inr (closesocket k s)
         else let c = next_ctx s;
                  d = \<lparr>hEvent = EvNull, buf = buf_mem e, len = 1024, nBytes = 0, opCode = IoREAD, cliSock = k\<rparr>
              in bnd (PostRead c (recv_ok e) ((set_ctx c d s)\<lparr>next_ctx := Suc c\<rparr>)) (\<lambda>(_, s). Inr s))"

text \<open>
  After the loop \<open>NetWork\<close> posts a packet and closes the listening socket, which is not part of this state. The model ends
  with the call of \<open>WSACleanup\<close> that follows: it closes the sockets that are still open, and then \<open>main\<close> returns, which ends the workers.
\<close>

definition leave :: "iocp \<Rightarrow> iocp" where
  "leave s = s\<lparr>packets := packets s @ [(0, None)], loop_left := True\<rparr>"

definition start_server :: "nat \<Rightarrow> iocp" where
  "start_server threadCount =
     \<lparr>ctxs = Map.empty, next_ctx = 0, socks = {}, next_sock = 0, events = {}, next_event = 0, ops = [], packets = [],
      workers = threadCount, sent = [], IsExit = False, loop_left = False\<rparr>"

text \<open>The states the threads and the system can reach; \<open>malloc (1024)\<close> returns 1024 bytes.\<close>

inductive server_reach :: "nat \<Rightarrow> iocp \<Rightarrow> bool" for n where
  start: "server_reach n (start_server n)"
| accept: "server_reach n s \<Longrightarrow> \<not> IsExit s \<Longrightarrow> \<not> loop_left s \<Longrightarrow> (\<And>b. buf_mem e = Some b \<Longrightarrow> length b = 1024) \<Longrightarrow>
    accept_round e s = Inr s' \<Longrightarrow> server_reach n s'"
| complete: "server_reach n s \<Longrightarrow> c \<in> set (ops s) \<Longrightarrow> length bs \<le> 1024 \<Longrightarrow> complete c bs s = Inr s' \<Longrightarrow> server_reach n s'"
| work: "server_reach n s \<Longrightarrow> packets s = p # q \<Longrightarrow> 0 < workers s \<Longrightarrow> WorkerThread p accepted (s\<lparr>packets := q\<rparr>) = Inr s' \<Longrightarrow> server_reach n s'"
| signal: "server_reach n s \<Longrightarrow> server_reach n (OnSignal s)"
| leave: "server_reach n s \<Longrightarrow> IsExit s \<Longrightarrow> \<not> loop_left s \<Longrightarrow> server_reach n (leave s)"

section \<open>Ownership\<close>

interpretation srv: closing "CloseConn :: nat \<Rightarrow> iocp \<Rightarrow> iocp result"
  by unfold_locales (simp add: CloseConn_def get_ctx_def closesocket_def released_def)

lemma accept_ok:
  assumes ok: "port_ok True [] s" and b: "\<And>b. buf_mem e = Some b \<Longrightarrow> length b = 1024"
  shows "\<exists>s'. accept_round e s = Inr s' \<and> port_ok True [] s' \<and> workers s' = workers s \<and> packets s' = packets s"
proof -
  let ?k = "next_sock s" and ?c = "next_ctx s"
  note fr = fresh_names [OF ok]
  consider (closed) "\<not> bind_ok e \<or> \<not> ctx_mem e" | (nobuf) "bind_ok e" "ctx_mem e" "buf_mem e = None"
    | (conn) b where "bind_ok e" "ctx_mem e" "buf_mem e = Some b" by auto
  then show ?thesis
  proof cases
    case closed
    have "accept_round e s = Inr (s\<lparr>next_ctx := next_ctx s, next_sock := Suc ?k\<rparr>)" using closed fr by (auto simp: accept_round_def Let_def closesocket_def)
    then show ?thesis using port_ok_next [OF ok, of "next_ctx s" "Suc ?k"] by auto
  next
    case nobuf
    have "accept_round e s = Inr (s\<lparr>next_ctx := Suc ?c, next_sock := Suc ?k\<rparr>)" using nobuf fr
      by (auto simp: accept_round_def Let_def PostRead_def post_read_def WSARecv_def get_ctx_def set_ctx_def CloseConn_def closesocket_def fun_upd_idem)
    then show ?thesis using port_ok_next [OF ok, of "Suc ?c" "Suc ?k"] by auto
  next
    case conn
    let ?d = "\<lparr>hEvent = EvNull, buf = Some b, len = 1024, nBytes = 0, opCode = IoREAD, cliSock = ?k\<rparr>"
    define s1 where "s1 = (set_ctx ?c ?d (s\<lparr>socks := socks s \<union> {?k}, next_sock := Suc ?k\<rparr>))\<lparr>next_ctx := Suc ?c\<rparr>"
    have ok1: "port_ok True [?c] s1" by (rule new_ctx_ok [OF ok, of ?d b]) (use assms(2) conn in \<open>auto simp: s1_def\<close>)
    have "ctxs s1 ?c = Some ?d" "cliSock ?d \<in> socks s1" by (simp_all add: s1_def set_ctx_def)
    from srv.post_read_ok [OF ok1 this, of "recv_ok e"]
    obtain s' where "PostRead ?c (recv_ok e) s1 = Inr (recv_ok e, s')" "port_ok True [] s'" "workers s' = workers s1" "packets s' = packets s1"
      by (auto simp: PostRead_def)
    then show ?thesis using conn by (auto simp: accept_round_def Let_def s1_def set_ctx_def)
  qed
qed

lemma port_ok_flags:
  "port_ok True own (s\<lparr>IsExit := x\<rparr>) \<longleftrightarrow> port_ok True own s" "port_ok True own (s\<lparr>packets := packets s @ [(0, None)], loop_left := y\<rparr>) \<longleftrightarrow> port_ok True own s"
  using same_socks [of "s\<lparr>IsExit := x\<rparr>" s] same_socks [of "s\<lparr>packets := packets s @ [(0, None)], loop_left := y\<rparr>" s]
  by (auto simp: port_ok_def owners_ok_def ctx_ok_def owner_list_def packets_ok_def)

lemma reach_port_ok: "server_reach n s \<Longrightarrow> port_ok True [] s"
proof (induction rule: server_reach.induct)
  case start
  show ?case by (simp add: port_ok_def owners_ok_def owner_list_def socks_ok_def packets_ok_def start_server_def)
next
  case (accept s e s')
  then show ?case using accept_ok [of s e] by auto
next
  case (complete s c bs s')
  then show ?case using complete_ok [of True "[]" s c bs] by auto
next
  case (work s p q accepted s')
  then show ?case using srv.worker_ok [of True "[]" s p q accepted] by (auto simp: WorkerThread_def split: if_splits)
qed (simp_all add: OnSignal_def leave_def port_ok_flags)

section \<open>Properties of the server\<close>

text \<open>A state with one connection from which bytes have arrived.\<close>

definition demo_state :: "u8 list \<Rightarrow> iocp" where
  "demo_state bs =
     (start_server 2)\<lparr>ctxs := [0 \<mapsto> \<lparr>hEvent = EvNull, buf = Some (bs @ drop (length bs) (replicate 1024 7)), len = 1024, nBytes = 0, opCode = IoREAD, cliSock = 0\<rparr>],
       next_ctx := 1, socks := {0}, next_sock := 1, packets := [(length bs, Some 0)]\<rparr>"

lemma demo_reach: "length bs \<le> 1024 \<Longrightarrow> server_reach 2 (demo_state bs)"
proof -
  assume bs: "length bs \<le> 1024"
  let ?e = "\<lparr>bind_ok = True, ctx_mem = True, buf_mem = Some (replicate 1024 7), recv_ok = True\<rparr>"
  let ?s = "(start_server 2)\<lparr>ctxs := [0 \<mapsto> \<lparr>hEvent = EvNull, buf = Some (replicate 1024 7), len = 1024, nBytes = 0, opCode = IoREAD, cliSock = 0\<rparr>],
    next_ctx := 1, socks := {0}, next_sock := 1, ops := [0]\<rparr>"
  have "server_reach 2 ?s"
    by (rule server_reach.accept [OF server_reach.start, where e = ?e])
      (simp_all add: start_server_def accept_round_def Let_def PostRead_def post_read_def WSARecv_def get_ctx_def set_ctx_def)
  then show ?thesis
    by (rule server_reach.complete [where c = 0 and bs = bs]) (simp_all add: bs complete_def get_ctx_def set_ctx_def demo_state_def start_server_def)
qed

text \<open>
  C24. In every state that the main thread, the workers and the system can reach together, every
  allocated context has exactly one owner, an operation in progress or a packet at the
  port, and the open sockets are exactly those of the allocated contexts. So no context is
  used after it was freed or handled by two workers, and no connection is lost.
\<close>

theorem server_ownership:
  assumes "server_reach n s"
  shows "distinct (ops s @ List.map_filter snd (packets s)) \<and> set (ops s @ List.map_filter snd (packets s)) = dom (ctxs s) \<and>
    socks s = {cliSock d |c d. ctxs s c = Some d} \<and> (\<forall>c d. ctxs s c = Some d \<longrightarrow> (\<exists>b. buf d = Some b \<and> length b = 1024))"
proof -
  have ok: "port_ok True [] s" by (rule reach_port_ok [OF assms])
  have "cliSock d \<in> socks s" "\<exists>b. buf d = Some b \<and> length b = 1024" if "ctxs s c = Some d" for c d
    using port_ok_ctx [OF ok that] by (auto simp: ctx_ok_def)
  moreover have "\<exists>c d. k = cliSock d \<and> ctxs s c = Some d" if "k \<in> socks s" for k
    using ok that by (force simp: port_ok_def socks_ok_def sock_def)
  ultimately show ?thesis using ok by (auto simp: port_ok_def owners_ok_def owner_list_def)
qed

theorem server_ownership_witness: "dom (ctxs (demo_state [65])) = {0} \<and> socks (demo_state [65]) = {0} \<and> distinct (List.map_filter snd (packets (demo_state [65])))"
  using server_ownership [OF demo_reach [of "[65]"]] by (simp add: demo_state_def start_server_def)

text \<open>
  A round of a worker, whatever the packet, whatever the system calls return, succeeds, with one
  exception: a message that fills the buffer makes it write behind the buffer.
\<close>

theorem worker_fails_iff_full:
  assumes "server_reach n s" and "packets s = p # q"
  shows "WorkerThread p accepted (s\<lparr>packets := q\<rparr>) = Inl e \<longleftrightarrow>
    e = OutOfBounds \<and> (\<exists>c d. p = (1024, Some c) \<and> ctxs s c = Some d \<and> opCode d = IoREAD)"
  using srv.worker_ok [OF reach_port_ok [OF assms(1)] assms(2), of accepted]
  by (auto simp: WorkerThread_def full_read_def split: if_splits)

theorem worker_fails_iff_full_witness:
  "WorkerThread (1024, Some 0) True ((demo_state (replicate 1024 65))\<lparr>packets := []\<rparr>) = Inl OutOfBounds"
  using worker_fails_iff_full [OF demo_reach [of "replicate 1024 65"], of "(1024, Some 0)" "[]" True OutOfBounds]
  by (simp add: demo_state_def start_server_def)

text \<open>
  The answer to a message of fewer than 1024 bytes is always 1024 bytes: the message, a zero
  byte, and what the buffer held before.
\<close>

theorem echo_sends_buffer:
  assumes "server_reach n s" and "packets s = (k, Some c) # q" and "ctxs s c = Some d" and "opCode d = IoREAD" and "buf d = Some b"
    and "0 < k" and "k < 1024"
  shows "\<exists>s'. WorkerThread (k, Some c) True (s\<lparr>packets := q\<rparr>) = Inr s' \<and>
    sent s' = sent s @ [(cliSock d, take k b @ 0 # drop (Suc k) b)] \<and> length (take k b @ 0 # drop (Suc k) b) = 1024"
proof -
  have "length b = 1024" using port_ok_ctx [OF reach_port_ok [OF assms(1)] assms(3)] assms(5) by (auto simp: ctx_ok_def)
  moreover then have "b[k := 0] = take k b @ 0 # drop (Suc k) b" using assms(7) by (simp add: upd_conv_take_nth_drop)
  ultimately show ?thesis using srv.worker_echo [OF reach_port_ok [OF assms(1)] assms(2-7)] assms(7) by (auto simp: WorkerThread_def)
qed

theorem echo_sends_buffer_witness:
  "\<exists>s'. WorkerThread (1, Some 0) True ((demo_state [65])\<lparr>packets := []\<rparr>) = Inr s' \<and> sent s' = [(0, 65 # 0 # replicate 1022 7)]"
proof -
  have b: "[65] @ drop (length [65]) (replicate 1024 (7 :: u8)) = 65 # replicate 1023 7" by (simp flip: replicate_Suc add: drop_replicate)
  have r: "replicate 1023 (7 :: u8) = 7 # replicate 1022 7" by (simp flip: replicate_Suc)
  show ?thesis
    using echo_sends_buffer [OF demo_reach [of "[65]"], of 1 0 "[]" _ "65 # replicate 1023 7"] b r by (simp add: demo_state_def start_server_def)
qed

interpretation srv_loop: closing_view "CloseConn :: nat \<Rightarrow> iocp \<Rightarrow> iocp result" loop_left
  by unfold_locales (auto simp: CloseConn_def closesocket_def bnd_eq_Inr)

lemma accept_more: "accept_round e s = Inr s' \<Longrightarrow> loop_left s' = loop_left s"
  by (auto simp: accept_round_def Let_def closesocket_def PostRead_def bnd_eq_Inr set_ctx_def dest!: srv_loop.post_read_view split: if_splits)

lemma complete_more: "complete c bs s = Inr s' \<Longrightarrow> loop_left s' = loop_left s \<and> exits (packets s') = exits (packets s) \<and> workers s' = workers s"
  by (auto simp: complete_def Let_def set_ctx_def bnd_eq_Inr split: option.splits)

lemma reach_exits:
  "server_reach n s \<Longrightarrow> if loop_left s then workers s + 1 = n + exits (packets s) \<and> exits (packets s) \<le> 1 \<or> n = 0
     else workers s = n \<and> exits (packets s) = 0"
proof (induction rule: server_reach.induct)
  case start
  show ?case by (simp add: start_server_def)
next
  case (accept s e s')
  have "workers s' = workers s \<and> packets s' = packets s"
    using accept_ok [OF reach_port_ok [OF accept.hyps(1)], of e] accept.hyps(4,5) by auto
  then show ?case using accept_more [OF accept.hyps(5)] accept.IH accept.hyps(3) by simp
next
  case (complete s c bs s')
  then show ?case using complete_more by fastforce
next
  case (work s p q accepted s')
  have "loop_left s' = loop_left s" using srv_loop.worker_view work.hyps(4) by (fastforce simp: WorkerThread_def)
  moreover have "packets s' = q \<and> workers s' = workers s - (if p = (0, None) then 1 else 0)"
    using srv.worker_ok [OF reach_port_ok [OF work.hyps(1)] work.hyps(2), of accepted] work.hyps(4) by (auto simp: WorkerThread_def split: if_splits)
  ultimately show ?case using work.IH work.hyps(2,3) by (auto split: if_splits)
qed (simp_all add: OnSignal_def leave_def split: if_splits)

text \<open>
  Leaving the loop posts one packet without a context, which ends one worker: with \<open>n\<close> workers, at least \<open>n - 1\<close> never end, however
  often the program is signalled, before the process ends.
\<close>

theorem only_one_worker_exits:
  assumes "server_reach n s"
  shows "n - 1 \<le> workers s"
  using reach_exits [OF assms] by (auto split: if_splits)

theorem only_one_worker_exits_witness: "server_reach 2 (demo_state [65]) \<and> 1 \<le> workers (demo_state [65])"
  using only_one_worker_exits [OF demo_reach [of "[65]"]] demo_reach [of "[65]"] by simp

end
