(* ===== verification/IocpEx.thy ===== *)
theory IocpEx
  imports IocpBase
begin

text \<open>
  The server \<open>cmake/iocp/server_ex.c\<close>, which accepts with \<open>AcceptEx\<close> into a prepared context and waits
  for an event; a signal closes the socket that is being accepted. A round of the main loop is split where it waits, so that
  workers and the signal handler run in between. While \<open>AcceptEx\<close> is in progress the system uses the context the main thread waits
  for, which the flag \<open>pending\<close> records: releasing the context then is an error. Closing a socket that is not open returns an error
  that the code ignores; sockets get new numbers. The model ends before \<open>WSACleanup\<close>, after which \<open>main\<close> returns.
\<close>

section \<open>Operations\<close>

record server_ex = port +
  threadCount :: nat
  curAcceptSock :: "nat option"
  accepting :: "nat option"
  pending :: bool
  left_loop :: bool

definition CloseConn_ex :: "nat \<Rightarrow> server_ex \<Rightarrow> server_ex result" where
  "CloseConn_ex c s =
     bnd (get_ctx c s) (\<lambda>d.
     bnd (case hEvent d of EvUninit \<Rightarrow> Inl Uninit | EvNull \<Rightarrow> Inr s | EvOpen e \<Rightarrow> Inr (s\<lparr>events := events s - {e}\<rparr>)) (\<lambda>s.
     Inr ((closesocket (cliSock d) s)\<lparr>ctxs := (ctxs s)(c := None), curAcceptSock := None\<rparr>)))"

definition PostRead_ex :: "nat \<Rightarrow> bool \<Rightarrow> server_ex \<Rightarrow> (bool \<times> server_ex) result" where
  "PostRead_ex = post_read CloseConn_ex"

definition PostWrite_ex :: "nat \<Rightarrow> bool \<Rightarrow> server_ex \<Rightarrow> (bool \<times> server_ex) result" where
  "PostWrite_ex = post_write CloseConn_ex"

text \<open>One round of the loop of a worker; it also notes the number of bytes in the context.\<close>

definition WorkerThread_ex :: "nat \<times> nat option \<Rightarrow> bool \<Rightarrow> server_ex \<Rightarrow> server_ex result" where
  "WorkerThread_ex p accepted s =
     (case p of (dwIoSize, Some c) \<Rightarrow>
        if dwIoSize = 0 then worker_round CloseConn_ex p accepted s
        else bnd (get_ctx c s) (\<lambda>d. worker_round CloseConn_ex p accepted (set_ctx c (d\<lparr>nBytes := dwIoSize\<rparr>) s))
      | _ \<Rightarrow> worker_round CloseConn_ex p accepted s)"

definition OnSignal_ex :: "server_ex \<Rightarrow> server_ex" where
  "OnSignal_ex s = (case curAcceptSock s of None \<Rightarrow> s | Some k \<Rightarrow> closesocket k s)"

text \<open>Leaving the loop of \<open>NetWork\<close>: one packet for every thread.\<close>

definition leave_ex :: "server_ex \<Rightarrow> server_ex" where
  "leave_ex s = s\<lparr>packets := packets s @ replicate (threadCount s) (0, None), left_loop := True\<rparr>"

text \<open>
  What the calls of the first half of a round return: memory for the context, the socket, memory for the buffer, the
  event, and whether \<open>AcceptEx\<close> is started. A socket that cannot be created is a number that is not open: the code goes on with
  it, and \<open>AcceptEx\<close> refuses it.
\<close>

record begin_env =
  data_mem :: bool
  sock_ok :: bool
  wsabuf_mem :: "u8 list option"
  event_ok :: bool
  acceptex_ok :: bool

definition accept_begin :: "begin_env \<Rightarrow> server_ex \<Rightarrow> server_ex result" where
  "accept_begin e s =
     (if \<not> data_mem e then Inr (leave_ex s)
      else let k = next_sock s; c = next_ctx s;
               d = \<lparr>hEvent = EvUninit, buf = wsabuf_mem e, len = 1024, nBytes = 0, opCode = IoREAD, cliSock = k\<rparr>;
               s = set_ctx c d (s\<lparr>socks := (if sock_ok e then socks s \<union> {k} else socks s), next_sock := Suc k,
                 curAcceptSock := (if sock_ok e then Some k else None), next_ctx := Suc c\<rparr>)
           in if wsabuf_mem e = None then bnd (CloseConn_ex c s) (\<lambda>s. Inr (leave_ex s))
              else if \<not> event_ok e then bnd (CloseConn_ex c (set_ctx c (d\<lparr>hEvent := EvNull\<rparr>) s)) (\<lambda>s. Inr (leave_ex s))
              else let v = next_event s;
                       s = (set_ctx c (d\<lparr>hEvent := EvOpen v\<rparr>) s)\<lparr>events := events s \<union> {v}, next_event := Suc v\<rparr>
                   in if \<not> (acceptex_ok e \<and> sock_ok e) then bnd (CloseConn_ex c s) (\<lambda>s. Inr (leave_ex s))
                      else Inr (s\<lparr>accepting := Some c, pending := True\<rparr>))"

text \<open>The system has done its part of \<open>AcceptEx\<close>.\<close>

definition accept_done :: "server_ex \<Rightarrow> server_ex" where
  "accept_done s = s\<lparr>pending := False\<rparr>"

text \<open>
  How the wait ends: it fails, or the result is an error, or a connection came with its first bytes, which lie
  in the first 960 bytes of the buffer, with two addresses behind them; then it may be bound to the port or not, and \<open>WSASend\<close> accepts or not.
\<close>

datatype accept_end_env = WaitFailed | Aborted | Arrived "u8 list" "u8 list" bool bool

text \<open>The context and its buffer are freed: the system must not be using them.\<close>

definition close_awaited :: "nat \<Rightarrow> server_ex \<Rightarrow> server_ex result" where
  "close_awaited c s = (if pending s then Inl UseAfterFree else CloseConn_ex c s)"

definition accept_end :: "accept_end_env \<Rightarrow> server_ex \<Rightarrow> server_ex result" where
  "accept_end e s =
     (case accepting s of None \<Rightarrow> Inr s
      | Some c \<Rightarrow>
          let s = s\<lparr>accepting := None\<rparr>
          in case e of
               WaitFailed \<Rightarrow> bnd (close_awaited c s) (\<lambda>s. Inr (leave_ex s))
             | Aborted \<Rightarrow> bnd (close_awaited c s) (\<lambda>s. Inr (leave_ex s))
             | Arrived bs addrs bound accepted \<Rightarrow>
                 bnd (get_ctx c s) (\<lambda>d.
                 case buf d of None \<Rightarrow> Inl NullDeref
                 | Some b \<Rightarrow>
                     let s = set_ctx c (d\<lparr>buf := Some (bs @ drop (length bs) (take 960 b) @ addrs), nBytes := length bs\<rparr>) s
                     in if bs = [] then close_awaited c s
                        else if \<not> bound then close_awaited c s
                        else bnd (terminate c (length bs) s) (\<lambda>s. bnd (PostWrite_ex c accepted s) (\<lambda>(_, s). Inr s))))"

definition start_server_ex :: "nat \<Rightarrow> server_ex" where
  "start_server_ex n =
     \<lparr>ctxs = Map.empty, next_ctx = 0, socks = {}, next_sock = 0, events = {}, next_event = 0, ops = [], packets = [],
      workers = n, sent = [], threadCount = n, curAcceptSock = None, accepting = None, pending = False, left_loop = False\<rparr>"

text \<open>
  The wait may fail at any time. \<open>WSAGetOverlappedResult\<close> waits for the end of \<open>AcceptEx\<close> and can only return earlier, with an
  error, when the socket was closed meanwhile; a connection has arrived once \<open>AcceptEx\<close> has ended on an open socket.
\<close>

definition end_possible :: "accept_end_env \<Rightarrow> server_ex \<Rightarrow> bool" where
  "end_possible e s \<longleftrightarrow> (\<exists>c d. accepting s = Some c \<and> ctxs s c = Some d \<and>
     (case e of
        WaitFailed \<Rightarrow> True
      | Aborted \<Rightarrow> pending s \<longrightarrow> cliSock d \<notin> socks s
      | Arrived bs addrs bound a \<Rightarrow> \<not> pending s \<and> cliSock d \<in> socks s \<and> length bs \<le> 960 \<and> length addrs = 64))"

inductive server_ex_reach :: "nat \<Rightarrow> server_ex \<Rightarrow> bool" for n where
  start: "server_ex_reach n (start_server_ex n)"
| prepare: "server_ex_reach n s \<Longrightarrow> accepting s = None \<Longrightarrow> \<not> left_loop s \<Longrightarrow> (\<And>b. wsabuf_mem e = Some b \<Longrightarrow> length b = 1024) \<Longrightarrow>
    accept_begin e s = Inr s' \<Longrightarrow> server_ex_reach n s'"
| ended: "server_ex_reach n s \<Longrightarrow> server_ex_reach n (accept_done s)"
| finish: "server_ex_reach n s \<Longrightarrow> end_possible e s \<Longrightarrow> accept_end e s = Inr s' \<Longrightarrow> server_ex_reach n s'"
| complete: "server_ex_reach n s \<Longrightarrow> c \<in> set (ops s) \<Longrightarrow> length bs \<le> 1024 \<Longrightarrow> complete c bs s = Inr s' \<Longrightarrow> server_ex_reach n s'"
| work: "server_ex_reach n s \<Longrightarrow> packets s = p # q \<Longrightarrow> 0 < workers s \<Longrightarrow> WorkerThread_ex p accepted (s\<lparr>packets := q\<rparr>) = Inr s' \<Longrightarrow> server_ex_reach n s'"
| signal: "server_ex_reach n s \<Longrightarrow> server_ex_reach n (OnSignal_ex s)"

section \<open>Ownership\<close>

interpretation srv_ex: closing CloseConn_ex
proof
  fix s :: server_ex and c d
  assume "ctxs s c = Some d" "hEvent d \<noteq> EvUninit"
  then show "\<exists>s'. CloseConn_ex c s = Inr s' \<and> released c d s s'"
    by (cases "hEvent d") (auto simp: CloseConn_ex_def get_ctx_def closesocket_def released_def)
qed

abbreviation held :: "server_ex \<Rightarrow> nat list" where
  "held s \<equiv> (case accepting s of None \<Rightarrow> [] | Some c \<Rightarrow> [c])"

lemma port_more [simp]:
  "port_ok st own (s\<lparr>accepting := x\<rparr>) \<longleftrightarrow> port_ok st own s" "port_ok st own (s\<lparr>left_loop := b\<rparr>) \<longleftrightarrow> port_ok st own s"
  "port_ok st own (s\<lparr>events := v, next_event := w\<rparr>) \<longleftrightarrow> port_ok st own s" "port_ok st own (s\<lparr>pending := b\<rparr>) \<longleftrightarrow> port_ok st own s"
  by (rule same_port; simp)+

lemma leave_ok: "port_ok st own s \<Longrightarrow> port_ok st own (leave_ex s)"
  using port_ok_exits [of st own s "threadCount s"] by (simp add: leave_ex_def)

lemma closed_ok: "port_ok False own s \<Longrightarrow> port_ok False own (closesocket k s)"
  by (auto simp: closesocket_def port_ok_def owners_ok_def owner_list_def ctx_ok_def socks_ok_def packets_ok_def sock_def [abs_def])

lemma signal_ok: "port_ok False own s \<Longrightarrow> port_ok False own (OnSignal_ex s)"
  using closed_ok by (auto simp: OnSignal_ex_def split: option.split)

lemma close_fields: "CloseConn_ex c s = Inr s' \<Longrightarrow> accepting s' = accepting s \<and> pending s' = pending s \<and> left_loop s' = left_loop s \<and> threadCount s' = threadCount s \<and> curAcceptSock s' = None"
proof -
  assume r: "CloseConn_ex c s = Inr s'"
  then obtain d where "get_ctx c s = Inr d" by (auto simp: CloseConn_ex_def bnd_eq_Inr)
  with r show ?thesis by (cases "hEvent d") (auto simp: CloseConn_ex_def closesocket_def)
qed

interpretation srv_main: closing_view CloseConn_ex "\<lambda>s. (accepting s, pending s, left_loop s, threadCount s)"
  by unfold_locales (auto dest: close_fields)

lemma close_leave:
  assumes "port_ok False [c] s" and "ctxs s c = Some d"
  shows "\<exists>s'. CloseConn_ex c s = Inr s' \<and> bnd (CloseConn_ex c s) (\<lambda>s. Inr (leave_ex s)) = Inr (leave_ex s') \<and> port_ok False [] (leave_ex s') \<and>
    accepting s' = accepting s \<and> pending s' = pending s \<and> threadCount s' = threadCount s \<and> workers s' = workers s \<and> packets s' = packets s"
  using srv_ex.close_ok [OF assms] close_fields [of c s] leave_ok by (fastforce simp: released_def)

lemma begin_ok:
  assumes ok: "port_ok False [] s" and b: "\<And>b. wsabuf_mem e = Some b \<Longrightarrow> length b = 1024" and a: "accepting s = None" "\<not> pending s" "\<not> left_loop s"
  shows "if data_mem e \<and> wsabuf_mem e = None then accept_begin e s = Inl Uninit
    else \<exists>s'. accept_begin e s = Inr s' \<and> port_ok False (held s') s' \<and> workers s' = workers s \<and> threadCount s' = threadCount s \<and>
      (pending s' \<longrightarrow> accepting s' \<noteq> None) \<and>
      (if left_loop s' then accepting s' = None \<and> packets s' = packets s @ replicate (threadCount s) (0, None) else packets s' = packets s)"
proof (cases "wsabuf_mem e")
  case None
  then show ?thesis using leave_ok [OF ok] a by (auto simp: accept_begin_def Let_def CloseConn_ex_def get_ctx_def set_ctx_def leave_ex_def)
next
  case (Some bf)
  let ?k = "next_sock s" and ?c = "next_ctx s"
  let ?s0 = "s\<lparr>socks := (if sock_ok e then socks s \<union> {?k} else socks s), next_sock := Suc ?k,
    curAcceptSock := (if sock_ok e then Some ?k else None), next_ctx := Suc ?c\<rparr>"
  let ?d = "\<lambda>v. \<lparr>hEvent = v, buf = Some bf, len = 1024, nBytes = 0, opCode = IoREAD, cliSock = ?k\<rparr>"
  define s1 where "s1 v = set_ctx ?c (?d v) ?s0" for v
  have new: "port_ok False [?c] (s1 v)" if "v \<noteq> EvUninit" for v
  proof -
    have "port_ok False [?c] ((set_ctx ?c (?d v) (s\<lparr>socks := socks s \<union> {?k}, next_sock := Suc ?k\<rparr>))\<lparr>next_ctx := Suc ?c\<rparr>)" (is "port_ok _ _ ?t")
      by (rule new_ctx_ok [OF ok, of "?d v" bf]) (use that b [OF Some] in auto)
    then have "port_ok False [?c] (if sock_ok e then ?t else closesocket ?k ?t)" using closed_ok by auto
    then show ?thesis using same_port [of "s1 v" "if sock_ok e then ?t else closesocket ?k ?t"] fresh_names [OF ok]
      by (auto simp: s1_def set_ctx_def closesocket_def)
  qed
  have c: "ctxs (s1 v) ?c = Some (?d v)" for v by (simp add: s1_def set_ctx_def)
  have f: "accepting (s1 v) = None" "\<not> pending (s1 v)" "threadCount (s1 v) = threadCount s" "workers (s1 v) = workers s" "packets (s1 v) = packets s" "left_loop (s1 v) = left_loop s" for v
    using a(1,2) by (simp_all add: s1_def set_ctx_def)
  have left: "accepting (leave_ex s') = accepting s'" "pending (leave_ex s') = pending s'" "threadCount (leave_ex s') = threadCount s'" "workers (leave_ex s') = workers s'"
    "packets (leave_ex s') = packets s' @ replicate (threadCount s') (0, None)" "left_loop (leave_ex s')" for s' by (simp_all add: leave_ex_def)
  consider (nomem) "\<not> data_mem e" | (noevent) "data_mem e" "\<not> event_ok e" | (ev) "data_mem e" "event_ok e" by blast
  then show ?thesis
  proof cases
    case nomem
    then show ?thesis using leave_ok [OF ok] a Some by (simp add: accept_begin_def) (simp add: leave_ex_def)
  next
    case noevent
    then have "accept_begin e s = bnd (CloseConn_ex ?c (s1 EvNull)) (\<lambda>s. Inr (leave_ex s))"
      using Some by (simp add: accept_begin_def Let_def s1_def set_ctx_def)
    with close_leave [OF new c, of EvNull] show ?thesis using Some f left by auto
  next
    case ev
    let ?v = "next_event s"
    let ?s2 = "(s1 (EvOpen ?v))\<lparr>events := events s \<union> {?v}, next_event := Suc ?v\<rparr>"
    have ok2: "port_ok False [?c] ?s2" using new [of "EvOpen ?v"] by simp
    have c2: "ctxs ?s2 ?c = Some (?d (EvOpen ?v))" using c by simp
    have "accept_begin e s = (if acceptex_ok e \<and> sock_ok e then Inr (?s2\<lparr>accepting := Some ?c, pending := True\<rparr>) else bnd (CloseConn_ex ?c ?s2) (\<lambda>s. Inr (leave_ex s)))"
      using ev Some by (simp add: accept_begin_def Let_def s1_def set_ctx_def)
    with close_leave [OF ok2 c2] ok2 show ?thesis using Some f left a(3) by auto
  qed
qed

text \<open>The context of an \<open>AcceptEx\<close> in progress is released only by mistake.\<close>

lemma end_pending: "end_possible e s \<Longrightarrow> pending s \<Longrightarrow> accept_end e s = Inl UseAfterFree"
  by (cases e) (auto simp: accept_end_def close_awaited_def end_possible_def)

lemma close_awaited_now: "\<not> pending s \<Longrightarrow> close_awaited c s = CloseConn_ex c s"
  by (simp add: close_awaited_def)

lemma end_ok:
  assumes ok: "port_ok False [c] s" and a: "accepting s = Some c" "\<not> left_loop s" and p: "end_possible e s" and np: "\<not> pending s"
  shows "\<exists>s'. accept_end e s = Inr s' \<and> port_ok False [] s' \<and> accepting s' = None \<and> \<not> pending s' \<and> workers s' = workers s \<and> threadCount s' = threadCount s \<and>
    left_loop s' = (\<forall>bs addrs bound ac. e \<noteq> Arrived bs addrs bound ac) \<and>
    packets s' = packets s @ (if left_loop s' then replicate (threadCount s) (0, None) else [])"
proof -
  obtain d where d: "ctxs s c = Some d" using p a by (auto simp: end_possible_def)
  let ?s = "s\<lparr>accepting := None\<rparr>"
  have ok0: "port_ok False [c] ?s" using ok by simp
  have d0: "ctxs ?s c = Some d" using d by simp
  consider (failed) "e = WaitFailed \<or> e = Aborted" | (arrived) bs addrs bound ac where "e = Arrived bs addrs bound ac" by (cases e) auto
  then show ?thesis
  proof cases
    case failed
    then have "accept_end e s = bnd (CloseConn_ex c ?s) (\<lambda>s. Inr (leave_ex s))" using a np by (auto simp: accept_end_def close_awaited_now)
    moreover obtain s' where s': "bnd (CloseConn_ex c ?s) (\<lambda>s. Inr (leave_ex s)) = Inr (leave_ex s')" "port_ok False [] (leave_ex s')"
      "accepting s' = None" "\<not> pending s'" "threadCount s' = threadCount s" "workers s' = workers s" "packets s' = packets s" using close_leave [OF ok0 d0] np by auto
    ultimately show ?thesis using failed by (intro exI [of _ "leave_ex s'"]) (auto simp: leave_ex_def)
  next
    case (arrived bs addrs bound ac)
    note Arrived = arrived
    then have l: "length bs \<le> 960" "length addrs = 64" using p by (auto simp: end_possible_def)
    obtain b where b: "buf d = Some b" "length b = 1024" using port_ok_ctx [OF ok d] by (auto simp: ctx_ok_def)
    let ?b = "bs @ drop (length bs) (take 960 b) @ addrs"
    let ?d = "d\<lparr>buf := Some ?b, nBytes := length bs\<rparr>"
    let ?s1 = "set_ctx c ?d ?s"
    have ok1: "port_ok False [c] ?s1" by (rule set_ctx_ok [OF ok0 d0, of ?d ?b]) (use l b in auto)
    have d1: "ctxs ?s1 c = Some ?d" by (simp add: set_ctx_def)
    have f1: "accepting ?s1 = None" "\<not> pending ?s1" "left_loop ?s1 = left_loop s" "threadCount ?s1 = threadCount s" "workers ?s1 = workers s" "packets ?s1 = packets s"
      using np by (simp_all add: set_ctx_def)
    have run: "accept_end e s = (if bs = [] \<or> \<not> bound then CloseConn_ex c ?s1
        else bnd (terminate c (length bs) ?s1) (\<lambda>s. bnd (PostWrite_ex c ac s) (\<lambda>(_, s). Inr s)))"
      using a Arrived d b close_awaited_now [OF f1(2)] by (auto simp: accept_end_def get_ctx_def Let_def)
    show ?thesis
    proof (cases "bs = [] \<or> \<not> bound")
      case True
      obtain s' where "CloseConn_ex c ?s1 = Inr s'" "released c ?d ?s1 s'" "port_ok False [] s'" using srv_ex.close_ok [OF ok1 d1] by blast
      then show ?thesis using run True close_fields [of c ?s1 s'] f1 a Arrived by (auto simp: released_def)
    next
      case False
      let ?s2 = "set_ctx c (?d\<lparr>buf := Some (?b[length bs := 0])\<rparr>) ?s1"
      have t: "terminate c (length bs) ?s1 = Inr ?s2" "port_ok False [c] ?s2"
        using terminate_ok [OF ok1 d1, of ?b "length bs"] l by simp_all
      have "0 \<in> set (?b[length bs := 0])" using l b by (intro set_update_memI) auto
      then obtain s' where s': "post_write CloseConn_ex c ac ?s2 = Inr (ac, s')" "port_ok False [] s'" "workers s' = workers ?s2" "packets s' = packets ?s2"
        using srv_ex.post_write_ok [OF t(2), of "?d\<lparr>buf := Some (?b[length bs := 0])\<rparr>" "?b[length bs := 0]" ac] by (auto simp: set_ctx_def)
      have "accept_end e s = Inr s'" using run False t(1) s'(1) by (simp add: PostWrite_ex_def)
      moreover have "accepting s' = None" "\<not> pending s'" "left_loop s' = left_loop s" "threadCount s' = threadCount s"
        using srv_main.post_write_view [OF s'(1)] np by (simp_all add: set_ctx_def)
      ultimately show ?thesis using s' Arrived a by (auto simp: set_ctx_def)
    qed
  qed
qed

lemma set_ctx_packets: "set_ctx c d (s\<lparr>packets := q\<rparr>) = (set_ctx c d s)\<lparr>packets := q\<rparr>"
  by (cases s) (simp add: set_ctx_def)

lemma worker_ex_ok:
  assumes ok: "port_ok st own s" and p: "packets s = p # q"
  shows "if full_read p s then WorkerThread_ex p a (s\<lparr>packets := q\<rparr>) = Inl OutOfBounds
    else \<exists>s'. WorkerThread_ex p a (s\<lparr>packets := q\<rparr>) = Inr s' \<and> port_ok st own s' \<and> packets s' = q \<and>
      workers s' = workers s - (if p = (0, None) then 1 else 0) \<and> accepting s' = accepting s \<and> pending s' = pending s \<and> left_loop s' = left_loop s \<and> threadCount s' = threadCount s"
proof -
  obtain n x where nx: "p = (n, x)" by (cases p)
  show ?thesis
  proof (cases "n = 0 \<or> x = None")
    case True
    then have "WorkerThread_ex p a (s\<lparr>packets := q\<rparr>) = worker_round CloseConn_ex p a (s\<lparr>packets := q\<rparr>)"
      using nx by (auto simp: WorkerThread_ex_def split: option.split)
    then show ?thesis using srv_ex.worker_ok [OF ok p, of a] srv_main.worker_view [of p a "s\<lparr>packets := q\<rparr>"] by (auto split: if_splits)
  next
    case False
    then obtain c where c: "x = Some c" "n \<noteq> 0" by auto
    have "c \<in> dom (ctxs s)" using ok p nx c by (auto simp: port_ok_def owners_ok_def owner_list_def)
    then obtain d where d: "ctxs s c = Some d" by auto
    obtain b where b: "buf d = Some b" "length b = 1024" using port_ok_ctx [OF ok d] by (auto simp: ctx_ok_def)
    let ?s = "set_ctx c (d\<lparr>nBytes := n\<rparr>) s"
    have ok1: "port_ok st own ?s" by (rule set_ctx_ok [OF ok d, of _ b]) (use b in auto)
    have p1: "packets ?s = p # q" using p by (simp add: set_ctx_def)
    have "full_read p ?s \<longleftrightarrow> full_read p s" using d nx c by (auto simp: full_read_def set_ctx_def)
    moreover have "WorkerThread_ex p a (s\<lparr>packets := q\<rparr>) = worker_round CloseConn_ex p a (?s\<lparr>packets := q\<rparr>)"
      using nx c d by (simp add: WorkerThread_ex_def get_ctx_def set_ctx_packets)
    ultimately show ?thesis using srv_ex.worker_ok [OF ok1 p1, of a] srv_main.worker_view [of p a "?s\<lparr>packets := q\<rparr>"]
      by (auto simp: set_ctx_def split: if_splits)
  qed
qed

text \<open>The invariant of the whole server.\<close>

definition ex_ok :: "nat \<Rightarrow> server_ex \<Rightarrow> bool" where
  "ex_ok n s \<longleftrightarrow> port_ok False (held s) s \<and> threadCount s = n \<and> (left_loop s \<longrightarrow> accepting s = None) \<and> (pending s \<longrightarrow> accepting s \<noteq> None) \<and>
     (if left_loop s then workers s = exits (packets s) else workers s = n \<and> exits (packets s) = 0)"

lemma complete_fields:
  "complete c bs s = Inr s' \<Longrightarrow> accepting s' = accepting s \<and> pending s' = pending s \<and> left_loop s' = left_loop s \<and> threadCount s' = threadCount s \<and> exits (packets s') = exits (packets s)"
  by (auto simp: complete_def Let_def set_ctx_def bnd_eq_Inr split: option.splits)

lemma reach_ex_ok: "server_ex_reach n s \<Longrightarrow> ex_ok n s"
proof (induction rule: server_ex_reach.induct)
  case start
  show ?case by (simp add: ex_ok_def port_ok_def owners_ok_def owner_list_def socks_ok_def packets_ok_def start_server_ex_def)
next
  case (prepare s e s')
  then have "port_ok False [] s" "\<not> pending s" by (auto simp: ex_ok_def)
  from begin_ok [of s e, OF this(1) prepare.hyps(4) prepare.hyps(2) this(2) prepare.hyps(3)] prepare show ?case by (auto simp: ex_ok_def split: if_splits)
next
  case (ended s)
  then show ?case by (simp add: ex_ok_def accept_done_def)
next
  case (finish s e s')
  then obtain c where c: "accepting s = Some c" by (auto simp: end_possible_def)
  then have pl: "port_ok False [c] s" "\<not> left_loop s" using finish.IH by (auto simp: ex_ok_def)
  have np: "\<not> pending s" using end_pending [OF finish.hyps(2)] finish.hyps(3) by auto
  from end_ok [OF pl(1) c pl(2) finish.hyps(2) np] finish c show ?case by (auto simp: ex_ok_def split: if_splits)
next
  case (complete s c bs s')
  then show ?case using complete_ok [of False "held s" s c bs] complete_fields [OF complete.hyps(4)] by (auto simp: ex_ok_def)
next
  case (work s p q a s')
  then have "port_ok False (held s) s" by (simp add: ex_ok_def)
  from worker_ex_ok [OF this work.hyps(2), of a] work show ?case by (auto simp: ex_ok_def split: if_splits)
next
  case (signal s)
  then show ?case using signal_ok [of "held s" s] by (auto simp: ex_ok_def OnSignal_ex_def closesocket_def split: option.split)
qed

section \<open>Properties of the server\<close>

text \<open>A state with one connection gone and the next one awaited.\<close>

lemma ex_demo:
  "\<exists>s d. server_ex_reach 2 s \<and> accepting s = Some 1 \<and> ctxs s 1 = Some d \<and> cliSock d = 1 \<and> hEvent d = EvOpen 1 \<and> 1 \<in> events s \<and>
    curAcceptSock s = Some 1 \<and> socks s = {0, 1} \<and> packets s = [(0, Some 0)] \<and> \<not> left_loop s \<and> pending s"
proof -
  let ?e = "\<lparr>data_mem = True, sock_ok = True, wsabuf_mem = Some (replicate 1024 7), event_ok = True, acceptex_ok = True\<rparr>"
  let ?r = "Arrived [65] (replicate 64 0) True True"
  obtain s1 d1 where s1: "accept_begin ?e (start_server_ex 2) = Inr s1" "accepting s1 = Some 0" "ctxs s1 0 = Some d1" "cliSock d1 = 0"
    "buf d1 = Some (replicate 1024 7)" "len d1 = 1024" "socks s1 = {0}" "events s1 = {0}" "next_ctx s1 = 1" "next_sock s1 = 1" "next_event s1 = 1" "packets s1 = []" "ops s1 = []" "\<not> left_loop s1"
    by (simp add: accept_begin_def Let_def start_server_ex_def set_ctx_def)
  have r1: "server_ex_reach 2 s1" by (rule server_ex_reach.prepare [OF server_ex_reach.start _ _ _ s1(1)]) (simp_all add: start_server_ex_def)
  have zero: "0 \<in> set ((replicate 959 (7 :: u8) @ replicate 64 0)[0 := 0])" by (rule set_update_memI) simp
  have rd: "server_ex_reach 2 (accept_done s1)" by (rule server_ex_reach.ended [OF r1])
  obtain s2 d2 where s2: "accept_end ?r (accept_done s1) = Inr s2" "accepting s2 = None" "\<not> pending s2" "ctxs s2 0 = Some d2" "buf d2 \<noteq> None" "socks s2 = {0}" "events s2 = {0}"
    "next_ctx s2 = 1" "next_sock s2 = 1" "next_event s2 = 1" "packets s2 = []" "ops s2 = [0]" "\<not> left_loop s2"
    using s1 zero by (auto simp: accept_done_def accept_end_def Let_def get_ctx_def set_ctx_def terminate_def PostWrite_ex_def post_write_def WSASend_def)
  have r2: "server_ex_reach 2 s2" by (rule server_ex_reach.finish [OF rd _ s2(1)]) (use s1 in \<open>simp add: end_possible_def accept_done_def\<close>)
  obtain s3 d3 where s3: "accept_begin ?e s2 = Inr s3" "accepting s3 = Some 1" "ctxs s3 1 = Some d3" "cliSock d3 = 1" "hEvent d3 = EvOpen 1"
    "ctxs s3 0 = Some d2" "socks s3 = {0, 1}" "1 \<in> events s3" "curAcceptSock s3 = Some 1" "packets s3 = []" "ops s3 = [0]" "\<not> left_loop s3" "pending s3"
    using s2 by (auto simp: accept_begin_def Let_def set_ctx_def insert_commute)
  have r3: "server_ex_reach 2 s3" by (rule server_ex_reach.prepare [OF r2 _ _ _ s3(1)]) (use s2 in simp_all)
  obtain s4 where s4: "complete 0 [] s3 = Inr s4" "accepting s4 = Some 1" "ctxs s4 1 = Some d3" "socks s4 = {0, 1}" "1 \<in> events s4" "curAcceptSock s4 = Some 1"
    "packets s4 = [(0, Some 0)]" "\<not> left_loop s4" "pending s4"
    using s3 s2(5) by (auto simp: complete_def Let_def get_ctx_def set_ctx_def)
  have "server_ex_reach 2 s4" by (rule server_ex_reach.complete [OF r3 _ _ s4(1)]) (use s3 in simp_all)
  then show ?thesis using s3(4,5) s4 by blast
qed

lemma ex_demo_done:
  "\<exists>s d. server_ex_reach 2 s \<and> accepting s = Some 1 \<and> ctxs s 1 = Some d \<and> cliSock d = 1 \<and> hEvent d = EvOpen 1 \<and> 1 \<in> events s \<and>
    curAcceptSock s = Some 1 \<and> socks s = {0, 1} \<and> packets s = [(0, Some 0)] \<and> \<not> left_loop s \<and> \<not> pending s"
proof -
  obtain s d where s: "server_ex_reach 2 s" "accepting s = Some 1" "ctxs s 1 = Some d" "cliSock d = 1" "hEvent d = EvOpen 1" "1 \<in> events s"
    "curAcceptSock s = Some 1" "socks s = {0, 1}" "packets s = [(0, Some 0)]" "\<not> left_loop s" using ex_demo by blast
  show ?thesis using server_ex_reach.ended [OF s(1)] s(2-) by (intro exI [of _ "accept_done s"] exI [of _ d]) (simp add: accept_done_def)
qed

text \<open>
  C25. In every reachable state each allocated context has exactly one owner that will release it, among them the main thread while it waits for
  a connection; a context used by an \<open>AcceptEx\<close> in progress is the one the main thread waits for; every open socket belongs to a
  context; and once the loop is left there is
  exactly one packet without a context for every worker still running, so that all workers can end. The second
  half of a round of the main loop succeeds exactly if \<open>AcceptEx\<close> is not in progress any more: if the wait fails, or a signal has closed
  the socket, before that, the context is freed while the system still uses it.
\<close>

theorem server_ex_ownership:
  assumes "server_ex_reach n s"
  shows "distinct (held s @ ops s @ List.map_filter snd (packets s)) \<and>
    set (held s @ ops s @ List.map_filter snd (packets s)) = dom (ctxs s) \<and> (pending s \<longrightarrow> accepting s \<noteq> None) \<and>
    socks s \<subseteq> {cliSock d |c d. ctxs s c = Some d} \<and>
    (if left_loop s then workers s = exits (packets s) else workers s = n) \<and>
    (end_possible e s \<longrightarrow> (if pending s then accept_end e s = Inl UseAfterFree else \<exists>s'. accept_end e s = Inr s'))"
proof -
  have ok: "ex_ok n s" by (rule reach_ex_ok [OF assms])
  have "socks_ok s" using ok by (simp add: ex_ok_def port_ok_def)
  then have "\<exists>c d. k = cliSock d \<and> ctxs s c = Some d" if "k \<in> socks s" for k
    using that by (force simp: socks_ok_def sock_def)
  moreover have "if pending s then accept_end e s = Inl UseAfterFree else \<exists>s'. accept_end e s = Inr s'" if p: "end_possible e s"
  proof -
    obtain c where c: "accepting s = Some c" using p by (auto simp: end_possible_def)
    then have "port_ok False [c] s" "\<not> left_loop s" using ok by (auto simp: ex_ok_def)
    with end_ok [OF _ c _ p] end_pending [OF p] show ?thesis by auto
  qed
  ultimately show ?thesis using ok by (auto simp: ex_ok_def port_ok_def owners_ok_def owner_list_def)
qed

theorem server_ex_ownership_witness:
  "\<exists>s. server_ex_reach 2 s \<and> accepting s = Some 1 \<and> dom (ctxs s) = {1} \<union> set (ops s) \<union> {0} \<and> workers s = 2 \<and>
     accept_end WaitFailed s = Inl UseAfterFree \<and> (\<exists>s'. accept_end WaitFailed (accept_done s) = Inr s')"
proof -
  obtain s d where s: "server_ex_reach 2 s" "accepting s = Some 1" "ctxs s 1 = Some d" "packets s = [(0, Some 0)]" "\<not> left_loop s" "pending s"
    using ex_demo by blast
  have p: "end_possible WaitFailed s" "end_possible WaitFailed (accept_done s)" "\<not> pending (accept_done s)"
    using s by (simp_all add: end_possible_def accept_done_def)
  note t = server_ex_ownership [OF s(1), of WaitFailed] and u = server_ex_ownership [OF server_ex_reach.ended [OF s(1)], of WaitFailed]
  have "dom (ctxs s) = {1} \<union> set (ops s) \<union> {0}" "workers s = 2" "accept_end WaitFailed s = Inl UseAfterFree" using t s p(1) by auto
  moreover have "\<exists>s'. accept_end WaitFailed (accept_done s) = Inr s'" using u p(2,3) by simp
  ultimately show ?thesis using s(1,2) by blast
qed

text \<open>
  The first half of a round of the main loop fails exactly if there is no memory for the buffer: \<open>CloseConn\<close> then looks at an
  event handle that was never set. That a socket cannot be created, or the event, or that \<open>AcceptEx\<close> refuses, ends the loop.
\<close>

theorem accept_begin_outcome:
  assumes "server_ex_reach n s" and "\<not> left_loop s" and "accepting s = None" and "\<forall>b. wsabuf_mem e = Some b \<longrightarrow> length b = 1024"
  shows "if data_mem e \<and> wsabuf_mem e = None then accept_begin e s = Inl Uninit else \<exists>s'. accept_begin e s = Inr s'"
proof -
  have "ex_ok n s" by (rule reach_ex_ok [OF assms(1)])
  then have "port_ok False [] s" "\<not> pending s" using assms(3) by (auto simp: ex_ok_def)
  from begin_ok [of s e, OF this(1) _ assms(3) this(2) assms(2)] assms(4) show ?thesis by (auto split: if_splits)
qed

theorem accept_begin_outcome_witness:
  "accept_begin \<lparr>data_mem = True, sock_ok = True, wsabuf_mem = None, event_ok = True, acceptex_ok = True\<rparr> (start_server_ex 2) = Inl Uninit"
proof -
  have "\<not> left_loop (start_server_ex 2)" "accepting (start_server_ex 2) = None" by (simp_all add: start_server_ex_def)
  then show ?thesis
    using accept_begin_outcome [OF server_ex_reach.start, where e = "\<lparr>data_mem = True, sock_ok = True, wsabuf_mem = None, event_ok = True, acceptex_ok = True\<rparr>"]
    by simp
qed

text \<open>
  A signal ends the server while the socket noted in \<open>curAcceptSock\<close> is the one that is being accepted: whatever the
  wait then returns, once \<open>AcceptEx\<close> has ended, the loop is left. But if a worker closes any other connection first, the note is gone and the
  signal has no effect.
\<close>

theorem signal_ends_loop:
  assumes r: "server_ex_reach n s" and c: "accepting s = Some c" "ctxs s c = Some d"
  shows "(curAcceptSock s = Some (cliSock d) \<and> end_possible e (OnSignal_ex s) \<and> \<not> pending s \<longrightarrow> (\<exists>s'. accept_end e (OnSignal_ex s) = Inr s' \<and> left_loop s')) \<and>
    (packets s = (0, Some c') # q \<longrightarrow>
      (\<exists>s'. WorkerThread_ex (0, Some c') a (s\<lparr>packets := q\<rparr>) = Inr s' \<and> accepting s' = Some c \<and> OnSignal_ex s' = s'))"
proof -
  have "\<exists>s'. accept_end e (OnSignal_ex s) = Inr s' \<and> left_loop s'" if cur: "curAcceptSock s = Some (cliSock d)" and p: "end_possible e (OnSignal_ex s)" and np: "\<not> pending s"
  proof -
    have ok: "ex_ok n (OnSignal_ex s)" by (rule reach_ex_ok [OF server_ex_reach.signal [OF r]])
    have c1: "accepting (OnSignal_ex s) = Some c" using c cur by (simp add: OnSignal_ex_def closesocket_def)
    have "cliSock d \<notin> socks (OnSignal_ex s)" "ctxs (OnSignal_ex s) c = Some d" using c cur by (simp_all add: OnSignal_ex_def closesocket_def)
    then have "e \<noteq> Arrived bs addrs bound ac" for bs addrs bound ac using p c1 by (auto simp: end_possible_def)
    moreover have "port_ok False [c] (OnSignal_ex s)" "\<not> left_loop (OnSignal_ex s)" using ok c1 by (auto simp: ex_ok_def)
    moreover have "\<not> pending (OnSignal_ex s)" using np cur by (simp add: OnSignal_ex_def closesocket_def)
    ultimately show ?thesis using end_ok [OF _ c1 _ p] by blast
  qed
  moreover have "\<exists>s'. WorkerThread_ex (0, Some c') a (s\<lparr>packets := q\<rparr>) = Inr s' \<and> accepting s' = Some c \<and> OnSignal_ex s' = s'"
    if p: "packets s = (0, Some c') # q"
  proof -
    have ok: "port_ok False (held s) s" using reach_ex_ok [OF r] by (simp add: ex_ok_def)
    obtain s' where s': "WorkerThread_ex (0, Some c') a (s\<lparr>packets := q\<rparr>) = Inr s'" "accepting s' = accepting s"
      using worker_ex_ok [OF ok p, of a] by (auto simp: full_read_def)
    then have "CloseConn_ex c' (s\<lparr>packets := q\<rparr>) = Inr s'" by (simp add: WorkerThread_ex_def worker_round_def)
    then have "curAcceptSock s' = None" using close_fields by blast
    then show ?thesis using s' c(1) by (auto simp: OnSignal_ex_def)
  qed
  ultimately show ?thesis by blast
qed

theorem signal_ends_loop_witness:
  "\<exists>s. server_ex_reach 2 s \<and> (\<exists>s'. accept_end Aborted (OnSignal_ex s) = Inr s' \<and> left_loop s') \<and>
     (\<exists>s'. WorkerThread_ex (0, Some 0) True (s\<lparr>packets := []\<rparr>) = Inr s' \<and> accepting s' = Some 1 \<and> OnSignal_ex s' = s')"
proof -
  obtain s d where s: "server_ex_reach 2 s" "accepting s = Some 1" "ctxs s 1 = Some d" "cliSock d = 1" "curAcceptSock s = Some 1" "packets s = [(0, Some 0)]" "\<not> pending s"
    using ex_demo_done by blast
  then have "end_possible Aborted (OnSignal_ex s)" by (simp add: end_possible_def OnSignal_ex_def closesocket_def)
  then show ?thesis using signal_ends_loop [OF s(1-3), of Aborted 0 "[]" True] s by auto
qed

text \<open>
  The event of a connection is never closed once the connection is served: serving it clears the handle in its
  context while the event stays open, and then no context refers to an open event any more.
\<close>

theorem served_event_leaks:
  assumes r: "server_ex_reach n s" and c: "accepting s = Some c" "ctxs s c = Some d" "hEvent d = EvOpen v" "v \<in> events s"
    and p: "end_possible (Arrived bs addrs True True) s" and bs: "bs \<noteq> []"
  shows "\<exists>s'. accept_end (Arrived bs addrs True True) s = Inr s' \<and> v \<in> events s' \<and> (\<forall>c d. ctxs s' c = Some d \<longrightarrow> hEvent d = EvNull)"
proof -
  have ok: "ex_ok n s" by (rule reach_ex_ok [OF r])
  then have "port_ok False [c] s" "\<not> left_loop s" using c(1) by (auto simp: ex_ok_def)
  moreover have "\<not> pending s" using p by (auto simp: end_possible_def)
  ultimately obtain s' where s': "accept_end (Arrived bs addrs True True) s = Inr s'" "port_ok False [] s'"
    using end_ok [OF _ c(1) _ p] by blast
  have "v \<in> events s'"
  proof -
    have ev: "events (set_ctx c x t) = events t" for x and t :: server_ex by (simp add: set_ctx_def)
    have "events t' = events t" if "terminate c k t = Inr t'" for k and t t' :: server_ex
      using that by (auto simp: terminate_def bnd_eq_Inr ev split: option.splits if_splits)
    moreover have "events t' = events t" if "post_write CloseConn_ex c True t = Inr (ok, t')" for t t' ok
      using that by (auto simp: post_write_def WSASend_def bnd_eq_Inr ev get_ctx_def set_ctx_def split: option.splits if_splits)
    ultimately have "events s' = events s"
      using s'(1) c(1,2) bs by (fastforce simp: accept_end_def PostWrite_ex_def bnd_eq_Inr Let_def get_ctx_def ev split: option.splits if_splits)
    then show ?thesis using c(4) by simp
  qed
  then show ?thesis using s' port_ok_ctx [OF s'(2)] by (auto simp: ctx_ok_def)
qed

theorem served_event_leaks_witness:
  "\<exists>s s'. server_ex_reach 2 s \<and> accept_end (Arrived [65] (replicate 64 0) True True) s = Inr s' \<and> 1 \<in> events s' \<and> (\<forall>c d. ctxs s' c = Some d \<longrightarrow> hEvent d = EvNull)"
proof -
  obtain s d where s: "server_ex_reach 2 s" "accepting s = Some 1" "ctxs s 1 = Some d" "hEvent d = EvOpen 1" "1 \<in> events s" "cliSock d = 1" "socks s = {0, 1}" "\<not> pending s"
    using ex_demo_done by blast
  then have "end_possible (Arrived [65] (replicate 64 0) True True) s" by (simp add: end_possible_def)
  from served_event_leaks [OF s(1-5) this] s(1) show ?thesis by blast
qed

end
