(* ===== verification/IocpStart.thy ===== *)
theory IocpStart
  imports Account Iocp IocpEx
begin

text \<open>
  The start and the end of the servers \<open>cmake/iocp/server.c\<close> and \<open>cmake/iocp/server_ex.c\<close>: the objects of the system that \<open>NetWork\<close> gets before its
  loop, the paths on which it returns early, and what is given back behind the loop. The loop itself, interleaved with the workers, is in
  \<open>Iocp\<close> and \<open>IocpEx\<close>; here it is an argument, a function from the state in which it is entered to one in which it is left.
\<close>

section \<open>Objects and results of the system calls\<close>

datatype net_object = Winsock | Listener | Port | Thread nat

text \<open>
  The results of the calls, in their order: a call that fails has the error \<open>WSAGetLastError\<close> or \<open>GetLastError\<close> reports then. The value of the listening socket is
  only printed.
\<close>

record start_env =
  startup :: int
  socket_ok :: bool
  listener :: int
  bind_error :: "int option"
  listen_error :: "int option"
  processors :: nat
  port_error :: "int option"
  thread_error :: "nat \<Rightarrow> int option"
  nonblocking_error :: "int option"
  extension_error :: "int option"

section \<open>Starting\<close>

text \<open>The loop that creates the threads; the handle of a thread is closed at once. The result counts the threads that run.\<close>

fun start_workers :: "start_env \<Rightarrow> nat \<Rightarrow> nat \<Rightarrow> net_object owner \<Rightarrow> (nat \<times> net_object owner) result" where
  "start_workers e i 0 s = Inr (0, s)"
| "start_workers e i (Suc n) s =
     (case thread_error e i of
        Some v \<Rightarrow> start_workers e (Suc i) n (say ''CreateThread failed:%lu'' [PInt v] s)
      | None \<Rightarrow> bnd (release (Thread i) (acquire (Thread i) s)) (\<lambda>s.
                bnd (start_workers e (Suc i) n s) (\<lambda>(k, s). Inr (Suc k, s))))"

text \<open>
  Up to the threads both files do the same. No number of workers means that \<open>NetWork\<close> returns. The result of creating the socket is not
  looked at.
\<close>

definition open_port :: "start_env \<Rightarrow> net_object owner \<Rightarrow> (nat option \<times> net_object owner) result" where
  "open_port e s =
     (if startup e \<noteq> 0 then Inr (None, say ''Init Network failed:%d'' [PInt (startup e)] s)
      else let s = acquire Winsock s; s = (if socket_ok e then acquire Listener s else s)
           in case bind_error e of Some v \<Rightarrow> Inr (None, say ''bind failed:%d'' [PInt v] s)
           | None \<Rightarrow> (case listen_error e of Some v \<Rightarrow> Inr (None, say ''listen failed:%d'' [PInt v] s)
           | None \<Rightarrow> (case port_error e of Some v \<Rightarrow> Inr (None, say ''CreateIoCompletionPort failed:%lu'' [PInt v] s)
           | None \<Rightarrow> bnd (start_workers e 0 (processors e) (acquire Port s)) (\<lambda>(k, s). Inr (Some k, s)))))"

definition SetNonblocking :: "start_env \<Rightarrow> net_object owner \<Rightarrow> net_object owner" where
  "SetNonblocking e s =
     (case nonblocking_error e of None \<Rightarrow> s
      | Some v \<Rightarrow> say ''set socket:%lld non blocking failed:%d'' [PInt (listener e), PInt v] s)"

section \<open>The whole function and main\<close>

definition NetWork :: "start_env \<Rightarrow> (iocp \<Rightarrow> iocp) \<Rightarrow> net_object owner \<Rightarrow> (iocp option \<times> net_object owner) result" where
  "NetWork e run s =
     bnd (open_port e s) (\<lambda>(k, s).
     case k of None \<Rightarrow> Inr (None, s)
     | Some k \<Rightarrow>
         let s = SetNonblocking e s; t = run (start_server k)
         in needs [Port] s (bnd (release_all [Listener, Winsock] s) (\<lambda>s. Inr (Some (leave t), s))))"

definition server_main :: "start_env \<Rightarrow> (iocp \<Rightarrow> iocp) \<Rightarrow> net_object owner \<Rightarrow> (int \<times> iocp option \<times> net_object owner) result" where
  "server_main e run s = bnd (NetWork e run s) (\<lambda>(t, s). Inr (0, t, say ''exit'' [] s))"

text \<open>With \<open>AcceptEx\<close>: the address of that function is asked for after the threads were created.\<close>

definition NetWork_ex :: "start_env \<Rightarrow> (server_ex \<Rightarrow> server_ex) \<Rightarrow> net_object owner \<Rightarrow> (server_ex option \<times> net_object owner) result" where
  "NetWork_ex e run s =
     bnd (open_port e s) (\<lambda>(k, s).
     case k of None \<Rightarrow> Inr (None, s)
     | Some k \<Rightarrow>
         let t = (start_server_ex (processors e))\<lparr>workers := k\<rparr>
         in case extension_error e of
              Some v \<Rightarrow> bnd (release_all [Listener, Winsock] (say ''WSAIoctl failed with error: %u'' [PInt v] s)) (\<lambda>s. Inr (Some t, s))
            | None \<Rightarrow> needs [Port] s (bnd (release_all [Listener, Winsock] s) (\<lambda>s. Inr (Some (run t), s))))"

definition server_ex_main :: "start_env \<Rightarrow> (server_ex \<Rightarrow> server_ex) \<Rightarrow> net_object owner \<Rightarrow> (int \<times> server_ex option \<times> net_object owner) result" where
  "server_ex_main e run s = bnd (NetWork_ex e run s) (\<lambda>(t, s). Inr (0, t, say ''exit'' [] s))"

section \<open>What the start leaves\<close>

definition started :: "start_env \<Rightarrow> nat" where
  "started e = length (filter (\<lambda>i. thread_error e i = None) [0..<processors e])"

definition port_opened :: "start_env \<Rightarrow> bool" where
  "port_opened e \<longleftrightarrow> startup e = 0 \<and> bind_error e = None \<and> listen_error e = None \<and> port_error e = None"

text \<open>Binding fails without a socket.\<close>

definition bind_checks :: "start_env \<Rightarrow> bool" where
  "bind_checks e \<longleftrightarrow> socket_ok e \<or> bind_error e \<noteq> None"

lemma start_workers_result:
  "\<not> busy s \<Longrightarrow> \<exists>s'. start_workers e i n s = Inr (length (filter (\<lambda>i. thread_error e i = None) [i..<i + n]), s') \<and>
    owner.held s' = owner.held s \<and> \<not> busy s'"
proof (induction n arbitrary: i s)
  case (Suc n)
  have split: "[i..<i + Suc n] = i # [Suc i..<Suc i + n]" by (simp add: upt_conv_Cons)
  show ?case
  proof (cases "thread_error e i")
    case None
    let ?s = "(acquire (Thread i) s)\<lparr>owner.held := owner.held s\<rparr>"
    have "release (Thread i) (acquire (Thread i) s) = Inr ?s" using Suc.prems by (simp add: release_def acquire_def)
    then show ?thesis using Suc.IH [of ?s "Suc i"] Suc.prems None split by (auto simp: acquire_def)
  next
    case (Some v)
    then show ?thesis using Suc.IH [of "say ''CreateThread failed:%lu'' [PInt v] s" "Suc i"] Suc.prems split by auto
  qed
qed simp

lemma open_port_result:
  assumes "bind_checks e"
  shows "\<exists>s. open_port e no_account = Inr (if port_opened e then Some (started e) else None, s) \<and> \<not> busy s \<and>
    owner.held s = (if startup e \<noteq> 0 then [] else if port_opened e then [Port, Listener, Winsock] else if socket_ok e then [Listener, Winsock] else [Winsock])"
proof (cases "port_opened e")
  case True
  let ?s = "acquire Port (acquire Listener (acquire Winsock no_account))"
  have "\<not> busy ?s" "owner.held ?s = [Port, Listener, Winsock]" by (simp_all add: no_account_def)
  moreover obtain s where "start_workers e 0 (processors e) ?s = Inr (started e, s)" "owner.held s = owner.held ?s" "\<not> busy s"
    using start_workers_result [of ?s e 0 "processors e"] \<open>\<not> busy ?s\<close> by (auto simp: started_def)
  ultimately show ?thesis using True assms by (simp add: open_port_def port_opened_def bind_checks_def)
next
  case False
  then show ?thesis by (auto simp: open_port_def port_opened_def no_account_def Let_def split: option.split)
qed

lemma release_listener:
  assumes "owner.held s = [Port, Listener, Winsock]" and "\<not> busy s"
  shows "\<exists>s'. release_all [Listener, Winsock] s = Inr s' \<and> owner.held s' = [Port]"
  using assms release_all_held [of s "[Listener, Winsock]"] by simp

text \<open>The objects still owned when the program ends.\<close>

definition left_over :: "start_env \<Rightarrow> net_object list" where
  "left_over e = (if startup e \<noteq> 0 then [] else if port_opened e then [Port] else if socket_ok e then [Listener, Winsock] else [Winsock])"

text \<open>
  C37. The server enters its loop, with the threads that could be created, exactly if the library, the
  address, listening and the completion port are available; neither a thread that cannot be created nor a socket that stays blocking prevents
  that. The completion port is never closed; when binding, listening or creating the port
  fails, the listening socket and the network library are not given back either. At the end there are as many workers as were created
  and one packet that ends one of them. Binding fails without a socket, and the loop is left in a reachable state, after the signal.
\<close>

theorem server_start_end:
  assumes "bind_checks e" and "\<forall>n. server_reach n (run (start_server n)) \<and> \<not> loop_left (run (start_server n))"
  shows "\<exists>t s. server_main e run no_account = Inr (0, t, s) \<and> owner.held s = left_over e \<and> (t \<noteq> None \<longleftrightarrow> port_opened e) \<and>
    (\<forall>t'. t = Some t' \<longrightarrow> workers t' = started e \<and> started e \<le> processors e \<and> exits (packets t') = 1)"
proof -
  obtain s where o: "open_port e no_account = Inr (if port_opened e then Some (started e) else None, s)" "\<not> busy s"
    "owner.held s = (if startup e \<noteq> 0 then [] else if port_opened e then [Port, Listener, Winsock] else if socket_ok e then [Listener, Winsock] else [Winsock])"
    using open_port_result [OF assms(1)] by blast
  show ?thesis
  proof (cases "port_opened e")
    case True
    let ?s = "SetNonblocking e s" and ?t = "run (start_server (started e))"
    have h: "owner.held ?s = [Port, Listener, Winsock]" "\<not> busy ?s"
      using o True by (auto simp: SetNonblocking_def port_opened_def split: option.split)
    obtain s' where s': "release_all [Listener, Winsock] ?s = Inr s'" "owner.held s' = [Port]" using release_listener [OF h] by blast
    have "workers ?t = started e" "exits (packets ?t) = 0" using reach_exits [of "started e" ?t] assms(2) by auto
    moreover have "started e \<le> processors e" using length_filter_le [of _ "[0..<processors e]"] by (simp add: started_def)
    ultimately show ?thesis
      using True o(1) h(1) s' by (simp add: server_main_def NetWork_def Let_def leave_def left_over_def port_opened_def del: release_all.simps)
  next
    case False
    then show ?thesis using o by (simp add: server_main_def NetWork_def left_over_def)
  qed
qed

definition demo_start :: start_env where
  "demo_start = \<lparr>startup = 0, socket_ok = True, listener = 5, bind_error = None, listen_error = None, processors = 4, port_error = None,
     thread_error = (\<lambda>i. if i = 2 then Some 8 else None), nonblocking_error = None, extension_error = None\<rparr>"

theorem server_start_end_witness:
  "\<exists>t s. server_main demo_start OnSignal no_account = Inr (0, Some t, s) \<and> owner.held s = [Port] \<and> workers t = 3 \<and> exits (packets t) = 1"
proof -
  have "server_reach n (OnSignal (start_server n)) \<and> \<not> loop_left (OnSignal (start_server n))" for n
    by (auto intro: server_reach.intros) (simp add: OnSignal_def start_server_def)
  then show ?thesis
    using server_start_end [of demo_start OnSignal]
    by (auto simp: demo_start_def bind_checks_def left_over_def port_opened_def started_def upt_rec)
qed

text \<open>
  The server with \<open>AcceptEx\<close> starts alike; when the address of that function cannot be got, the workers that were created stay at the port without a
  packet that would end them. Otherwise, if all threads could be created, the packets are exactly enough to end
  every worker.
\<close>

theorem server_ex_start_end:
  assumes "bind_checks e" and "\<forall>n. server_ex_reach n (run (start_server_ex n)) \<and> left_loop (run (start_server_ex n))"
  shows "\<exists>t s. server_ex_main e run no_account = Inr (0, t, s) \<and> owner.held s = left_over e \<and> (t \<noteq> None \<longleftrightarrow> port_opened e) \<and>
    (\<forall>t'. t = Some t' \<longrightarrow> (if extension_error e \<noteq> None then workers t' = started e \<and> exits (packets t') = 0
      else started e = processors e \<longrightarrow> workers t' = exits (packets t')))"
proof -
  obtain s where o: "open_port e no_account = Inr (if port_opened e then Some (started e) else None, s)" "\<not> busy s"
    "owner.held s = (if startup e \<noteq> 0 then [] else if port_opened e then [Port, Listener, Winsock] else if socket_ok e then [Listener, Winsock] else [Winsock])"
    using open_port_result [OF assms(1)] by blast
  show ?thesis
  proof (cases "port_opened e")
    case True
    let ?s = "case extension_error e of None \<Rightarrow> s | Some v \<Rightarrow> say ''WSAIoctl failed with error: %u'' [PInt v] s"
    have h: "owner.held ?s = [Port, Listener, Winsock]" "\<not> busy ?s" "owner.held s = [Port, Listener, Winsock]"
      using o True by (auto simp: port_opened_def split: option.split)
    obtain s' where s': "release_all [Listener, Winsock] ?s = Inr s'" "owner.held s' = [Port]" using release_listener [OF h(1,2)] by blast
    have full: "(start_server_ex (processors e))\<lparr>workers := processors e\<rparr> = start_server_ex (processors e)" by (simp add: start_server_ex_def)
    have "workers (run (start_server_ex n)) = exits (packets (run (start_server_ex n)))" for n
      using reach_ex_ok [of n "run (start_server_ex n)"] assms(2) by (simp add: ex_ok_def)
    moreover have "exits (packets ((start_server_ex n)\<lparr>workers := k\<rparr>)) = 0" for n k by (simp add: start_server_ex_def)
    ultimately show ?thesis
      using True o(1) h(3) s' full
      by (auto simp: server_ex_main_def NetWork_ex_def Let_def left_over_def port_opened_def split: option.splits simp del: release_all.simps)
  next
    case False
    then show ?thesis using o by (simp add: server_ex_main_def NetWork_ex_def left_over_def)
  qed
qed

theorem server_ex_start_end_witness:
  "\<exists>t s. server_ex_main (demo_start\<lparr>extension_error := Some 9\<rparr>) leave_ex no_account = Inr (0, Some t, s) \<and> owner.held s = [Port] \<and>
    workers t = 3 \<and> exits (packets t) = 0"
proof -
  let ?e = "\<lparr>data_mem = False, sock_ok = True, wsabuf_mem = None, event_ok = True, acceptex_ok = True\<rparr>"
  have "server_ex_reach n (leave_ex (start_server_ex n)) \<and> left_loop (leave_ex (start_server_ex n))" for n
  proof
    show "server_ex_reach n (leave_ex (start_server_ex n))"
      by (rule server_ex_reach.prepare [OF server_ex_reach.start, of _ ?e]) (simp_all add: start_server_ex_def accept_begin_def)
  qed (simp add: leave_ex_def)
  then show ?thesis
    using server_ex_start_end [of "demo_start\<lparr>extension_error := Some 9\<rparr>" leave_ex]
    by (auto simp: demo_start_def bind_checks_def left_over_def port_opened_def started_def upt_rec)
qed

end
