(* ===== verification/IocpClient.thy ===== *)
theory IocpClient
  imports Account CPrint
begin

text \<open>
  The client \<open>cmake/iocp/client.c\<close> of the completion port servers: it sends one numbered line after the other and prints the answers. The peer is a
  function from the number of the round and the line sent to what \<open>recv\<close> returns and stores.
\<close>

section \<open>The program\<close>

datatype client_object = Winsock | Client

definition message :: "nat \<Rightarrow> string" where
  "message idx = ''No:'' @ decimal idx"

definition INT_LAST :: nat where
  "INT_LAST = 2147483647"

text \<open>
  Printing the array as a string, after it was cleared and \<open>recv\<close> stored its bytes: without a null character among the 1024 characters, \<open>printf\<close> reads behind
  the array.
\<close>

definition buffer_text :: "string \<Rightarrow> string result" where
  "buffer_text d =
     (let b = take 1024 (d @ replicate 1024 (CHR 0x00))
      in if CHR 0x00 \<in> set b then Inr (takeWhile (\<lambda>c. c \<noteq> CHR 0x00) b) else Inl OutOfBounds)"

text \<open>At most \<open>n\<close> rounds of the loop; the result says whether the loop was left. The counter is a signed integer.\<close>

fun client_loop :: "nat \<Rightarrow> (nat \<Rightarrow> string \<Rightarrow> int \<times> string) \<Rightarrow> nat \<Rightarrow> client_object owner \<Rightarrow> (bool \<times> client_object owner) result" where
  "client_loop 0 peer idx s = Inr (False, s)"
| "client_loop (Suc n) peer idx s =
     (if INT_LAST \<le> idx then Inl Overflow
      else let idx = Suc idx; (rev, d) = peer idx (message idx)
           in if rev = 0 then client_loop n peer idx (say ''Recv Nothing'' [] s)
              else if rev = -1 then Inr (True, say ''disconnect, exit'' [] s)
              else bnd (buffer_text d) (\<lambda>t. client_loop n peer idx (say ''Recv: %s'' [PStr t] s)))"

text \<open>
  \<open>main\<close>, with the results of \<open>WSAStartup\<close> and \<open>connect\<close>: the value returned, or none if the loop has not been left after \<open>n\<close>
  rounds.
\<close>

definition iocp_client_main :: "int \<Rightarrow> int \<Rightarrow> nat \<Rightarrow> (nat \<Rightarrow> string \<Rightarrow> int \<times> string) \<Rightarrow> client_object owner \<Rightarrow> (int option \<times> client_object owner) result" where
  "iocp_client_main res ret n peer s =
     (if res \<noteq> 0 then Inr (Some 1, say ''Init Network failed:%d'' [PInt res] s)
      else let s = acquire Client (acquire Winsock s)
           in if ret < 0 then Inr (Some 1, say ''connect %s:%d failed'' [PStr ''127.0.0.1'', PInt 6000] s)
              else bnd (client_loop n peer 0 s) (\<lambda>(left, s).
                   if left then bnd (release_all [Client, Winsock] s) (\<lambda>s. Inr (Some 0, s)) else Inr (None, s)))"

section \<open>When it ends\<close>

text \<open>What the peer sends can be printed: fewer than 1024 bytes, or a null character among them.\<close>

definition printable :: "(nat \<Rightarrow> string \<Rightarrow> int \<times> string) \<Rightarrow> bool" where
  "printable peer \<longleftrightarrow> (\<forall>k m. length (snd (peer k m)) < 1024 \<or> CHR 0x00 \<in> set (take 1024 (snd (peer k m))))"

lemma buffer_text_ok: "length d < 1024 \<or> CHR 0x00 \<in> set (take 1024 d) \<Longrightarrow> \<exists>t. buffer_text d = Inr t"
  by (auto simp: buffer_text_def Let_def)

lemma client_loop_ends:
  assumes "printable peer"
  shows "idx + n \<le> INT_LAST \<Longrightarrow> \<exists>s' left. client_loop n peer idx s = Inr (left, s') \<and> held s' = held s \<and> busy s' = busy s \<and>
    (left \<longleftrightarrow> (\<exists>k. idx < k \<and> k \<le> idx + n \<and> fst (peer k (message k)) = -1))"
proof (induction n arbitrary: idx s)
  case (Suc n)
  obtain rev d where p: "peer (Suc idx) (message (Suc idx)) = (rev, d)" by fastforce
  have "length d < 1024 \<or> CHR 0x00 \<in> set (take 1024 d)" using assms p unfolding printable_def by (metis snd_conv)
  then obtain t where t: "buffer_text d = Inr t" using buffer_text_ok by blast
  show ?case
  proof (cases "rev = -1")
    case True
    then show ?thesis using Suc.prems p by (auto simp: Let_def)
  next
    case False
    define s1 where "s1 = (if rev = 0 then say ''Recv Nothing'' [] s else say ''Recv: %s'' [PStr t] s)"
    have step: "client_loop (Suc n) peer idx s = client_loop n peer (Suc idx) s1" using Suc.prems False p t by (simp add: s1_def Let_def)
    have s1: "held s1 = held s" "busy s1 = busy s" by (simp_all add: s1_def)
    obtain s' left where l: "client_loop n peer (Suc idx) s1 = Inr (left, s')" "held s' = held s1" "busy s' = busy s1"
      "left \<longleftrightarrow> (\<exists>k. Suc idx < k \<and> k \<le> Suc idx + n \<and> fst (peer k (message k)) = -1)" using Suc.IH [of "Suc idx" s1] Suc.prems by auto
    have "(\<exists>k. idx < k \<and> k \<le> idx + Suc n \<and> fst (peer k (message k)) = -1) \<longleftrightarrow> left"
      (is "(\<exists>k. ?A k) \<longleftrightarrow> _")
    proof
      assume "\<exists>k. ?A k"
      then obtain k where k: "?A k" ..
      with p False have "k \<noteq> Suc idx" by auto
      with k have "Suc idx < k \<and> k \<le> Suc idx + n \<and> fst (peer k (message k)) = -1" by auto
      then show left unfolding l(4) ..
    next
      assume left
      then obtain k where "Suc idx < k" "k \<le> Suc idx + n" "fst (peer k (message k)) = -1" unfolding l(4) by blast
      then have "?A k" by simp
      then show "\<exists>k. ?A k" ..
    qed
    then show ?thesis using step l(1-3) s1 by auto
  qed
qed auto

text \<open>
  The client ends, giving back its socket and the library, exactly when \<open>recv\<close> reports an error within the rounds looked at. A peer that
  closes the connection in order, for which \<open>recv\<close> returns 0, does not end it: it goes on sending and printing that it got
  nothing. The bytes received can be printed, and the signed counter of rounds does not overflow.
\<close>

theorem client_ends_iff_error:
  assumes "printable peer" and "n \<le> INT_LAST" and "0 \<le> ret"
  shows "\<exists>v s. iocp_client_main 0 ret n peer no_account = Inr (v, s) \<and>
    (if \<exists>k. 0 < k \<and> k \<le> n \<and> fst (peer k (message k)) = -1 then v = Some 0 \<and> held s = [] else v = None \<and> held s = [Client, Winsock])"
proof -
  let ?s = "acquire Client (acquire Winsock no_account)"
  obtain s' left where l: "client_loop n peer 0 ?s = Inr (left, s')" "held s' = [Client, Winsock]" "busy s' = False"
    "left \<longleftrightarrow> (\<exists>k. 0 < k \<and> k \<le> n \<and> fst (peer k (message k)) = -1)"
    using client_loop_ends [OF assms(1), of 0 n ?s] assms(2) by (auto simp: acquire_def no_account_def)
  have "release_all [Client, Winsock] s' = Inr (s'\<lparr>held := []\<rparr>)" using l(2,3) release_all_held [of s' "[Client, Winsock]"] by simp
  then show ?thesis using l assms(3) by (auto simp: iocp_client_main_def Let_def simp del: release_all.simps)
qed

theorem client_ends_iff_error_witness:
  "\<exists>s. iocp_client_main 0 0 1000000 (\<lambda>k m. (0, [])) no_account = Inr (None, s) \<and> held s = [Client, Winsock]"
  using client_ends_iff_error [of "\<lambda>k m. (0, [])" 1000000 0] by (simp add: printable_def INT_LAST_def)

section \<open>Talking to an echo server\<close>

definition echo :: "nat \<Rightarrow> string \<Rightarrow> int \<times> string" where
  "echo k m = (int (length m), m)"

lemma message_text:
  assumes "k \<le> INT_LAST"
  shows "buffer_text (message k) = Inr (message k)" and "message k \<noteq> []"
proof -
  have "k < 10 ^ 10" using assms by (simp add: INT_LAST_def)
  then have "length (message k) \<le> 13" using length_decimal [of k 10] by (simp add: message_def)
  moreover have "CHR 0x00 \<notin> set (message k)" using decimal_plain by (simp add: message_def)
  moreover from calculation have "takeWhile (\<lambda>c. c \<noteq> CHR 0x00) (message k @ replicate (1024 - length (message k)) (CHR 0x00)) = message k"
    by (auto simp: takeWhile_append takeWhile_replicate)
  ultimately show "buffer_text (message k) = Inr (message k)" by (simp add: buffer_text_def Let_def min_def)
qed (simp add: message_def)

text \<open>With a server that sends every line back, the client prints the lines it sent, in order.\<close>

theorem client_prints_echo:
  assumes "idx + n \<le> INT_LAST"
  shows "\<exists>s'. client_loop n echo idx s = Inr (False, s') \<and> out s' = out s @ map (\<lambda>k. (''Recv: %s'', [PStr (message k)])) [Suc idx..<Suc (idx + n)]"
  using assms
proof (induction n arbitrary: idx s)
  case (Suc n)
  have "client_loop (Suc n) echo idx s = client_loop n echo (Suc idx) (say ''Recv: %s'' [PStr (message (Suc idx))] s)"
    using Suc.prems message_text [of "Suc idx"] by (simp add: echo_def Let_def)
  moreover have "[Suc idx..<Suc (idx + Suc n)] = Suc idx # [Suc (Suc idx)..<Suc (Suc idx + n)]" by (simp add: upt_conv_Cons)
  ultimately show ?case using Suc.IH [of "Suc idx" "say ''Recv: %s'' [PStr (message (Suc idx))] s"] Suc.prems by auto
qed simp

end
