(* ===== verification/GrpcBase.thy ===== *)
theory GrpcBase
  imports Account
begin

text \<open>
  What the gRPC programs \<open>xmake/grpc-c/client.c\<close> and \<open>xmake/grpc-c/server.c\<close> share beside the account of owned objects: the values of the
  library's enumerations and the operations of a batch. The library, the code generated from \<open>helloworld.proto\<close> and their answers are
  arguments of the definitions.
\<close>

section \<open>Values of the library\<close>

definition GRPC_CALL_OK :: int where "GRPC_CALL_OK = 0"
definition GRPC_STATUS_OK :: int where "GRPC_STATUS_OK = 0"
definition GRPC_QUEUE_SHUTDOWN :: int where "GRPC_QUEUE_SHUTDOWN = 0"
definition GRPC_QUEUE_TIMEOUT :: int where "GRPC_QUEUE_TIMEOUT = 1"
definition GRPC_OP_COMPLETE :: int where "GRPC_OP_COMPLETE = 2"

lemmas grpc_values = GRPC_CALL_OK_def GRPC_STATUS_OK_def GRPC_QUEUE_SHUTDOWN_def GRPC_QUEUE_TIMEOUT_def GRPC_OP_COMPLETE_def

definition METHOD_NAME :: string where
  "METHOD_NAME = ''/helloworld.Greeter/SayHello''"

text \<open>The operations of a batch, with the message they carry.\<close>

datatype grpc_op =
    SEND_INITIAL_METADATA
  | SEND_MESSAGE "u8 list"
  | SEND_CLOSE_FROM_CLIENT
  | RECV_INITIAL_METADATA
  | RECV_MESSAGE
  | RECV_STATUS_ON_CLIENT
  | SEND_STATUS_FROM_SERVER int

text \<open>Waiting until the queue reports that it is shut down: the events it delivers, or none any more.\<close>

fun drain :: "int list \<Rightarrow> 'a \<Rightarrow> 'a result" where
  "drain [] s = Inl OutOfFuel"
| "drain (t # ts) s = (if t = GRPC_QUEUE_SHUTDOWN then Inr s else drain ts s)"

section \<open>Lemmas\<close>

lemma drain_ends: "GRPC_QUEUE_SHUTDOWN \<in> set ts \<Longrightarrow> drain ts s = Inr s"
  by (induction ts) auto

end
