(* ===== verification/GrpcClient.thy ===== *)
theory GrpcClient
  imports GrpcBase
begin

text \<open>
  The gRPC client, \<open>xmake/grpc-c/client.c\<close>: one function \<open>main\<close> that creates the objects of a call one after the other,
  starts one batch, waits for it and prints the answer, and that gives everything back on each of
  its exits. The definitions follow the numbered sections of the code; each takes up the state
  the section before it leaves, and the last exit comes first. The answers of the library are a record.
\<close>

section \<open>State\<close>

text \<open>The objects the client owns at some time.\<close>

datatype cobject =
    Runtime
  | Cq
  | Creds
  | Channel
  | Method
  | Call
  | Request_buf
  | Request_slice
  | Request_payload
  | Response_payload
  | Status_details
  | Initial_metadata
  | Trailing_metadata
  | Response_slice
  | Reply

text \<open>
  The answers of the library: which objects could be created, the outcome of starting the batch, the
  event the queue delivers, what the batch received, whether the response can be read, and the
  events after the queue was shut down. \<open>cl_pack\<close> and \<open>cl_unpack\<close> are the generated functions.
\<close>

record client_env =
  cl_args :: "string list"
  cl_version :: string
  cl_now :: nat
  cl_cq :: bool
  cl_creds :: bool
  cl_channel :: bool
  cl_call :: bool
  cl_buf :: bool
  cl_payload :: bool
  cl_batch :: int
  cl_event :: int
  cl_success :: bool
  cl_tag :: int
  cl_status :: int
  cl_details :: string
  cl_response :: "u8 list option"
  cl_reader :: bool
  cl_drain :: "int list"
  cl_pack :: "string \<Rightarrow> u8 list"
  cl_unpack :: "u8 list \<Rightarrow> string option option"

text \<open>The method and the deadline of the call, and the operations of the batch.\<close>

record client_state = "cobject owner" +
  called :: "(string \<times> nat) option"
  batch :: "grpc_op list"

definition SERVER_ADDR :: string where
  "SERVER_ADDR = ''127.0.0.1:8090''"

definition bar :: string where
  "bar = ''========================================''"

definition client_name :: "client_env \<Rightarrow> string" where
  "client_name e = (if 1 < length (cl_args e) then cl_args e ! 1 else ''World'')"

section \<open>Exits\<close>

text \<open>An exit with an error: the objects are given back in the order of the code.\<close>

definition give_up :: "cobject list \<Rightarrow> client_state \<Rightarrow> (int \<times> client_state) result" where
  "give_up rs s = bnd (release_all rs s) (\<lambda>s. Inr (1, s))"

definition call_objects :: "cobject list" where
  "call_objects = [Call, Channel, Cq, Runtime]"

definition batch_objects :: "cobject list" where
  "batch_objects = [Status_details, Initial_metadata, Trailing_metadata] @ call_objects"

definition received :: "client_env \<Rightarrow> cobject list" where
  "received e = (if cl_response e = None then [] else [Response_payload])"

section \<open>The sections of main\<close>

definition finish :: "client_env \<Rightarrow> string option \<Rightarrow> client_state \<Rightarrow> (int \<times> client_state) result" where
  "finish e message s =
     (let s = say '''' [] s; s = say bar [] s; s = say ''RPC SUCCESS'' [] s; s = say bar [] s;
          s = say ''Request : %s'' [PStr (client_name e)] s
      in needs [Reply] s (
         let s = say ''Response: %s'' [PStr (case message of None \<Rightarrow> ''(null)'' | Some m \<Rightarrow> m)] s; s = say bar [] s
         in bnd (release_all [Reply, Request_payload, Response_payload, Status_details, Initial_metadata, Trailing_metadata, Call, Channel] s) (\<lambda>s.
            needs [Cq] s (
            bnd (drain (cl_drain e) s) (\<lambda>s.
            bnd (release_all [Cq, Runtime] s) (\<lambda>s.
            Inr (0, say ''Client finished.'' [] s)))))))"

definition decode :: "client_env \<Rightarrow> client_state \<Rightarrow> (int \<times> client_state) result" where
  "decode e s =
     (case cl_response e of
        None \<Rightarrow> give_up (Request_payload # batch_objects) (complain ''Server returned no response message'' [] s)
      | Some bytes \<Rightarrow>
          needs [Response_payload] s (
          if \<not> cl_reader e
          then give_up (Request_payload # Response_payload # batch_objects) (complain ''grpc_byte_buffer_reader_init failed'' [] s)
          else
            let s = acquire Response_slice s;
                s = say ''Response pb size: %zu bytes'' [PInt (int (length bytes))] s;
                reply = cl_unpack e bytes;
                s = (if reply = None then s else acquire Reply s)
            in bnd (release Response_slice s) (\<lambda>s.
               case reply of
                 None \<Rightarrow> give_up (Request_payload # Response_payload # batch_objects) (complain ''helloworld__hello_reply__unpack failed'' [] s)
               | Some message \<Rightarrow> finish e message s)))"

definition check_status :: "client_env \<Rightarrow> client_state \<Rightarrow> (int \<times> client_state) result" where
  "check_status e s =
     (if \<not> cl_success e
      then give_up (Request_payload # received e @ batch_objects) (complain ''RPC batch completed with success=0'' [] s)
      else
        let s = say ''RPC status: %d'' [PInt (cl_status e)] s
        in if cl_status e \<noteq> GRPC_STATUS_OK
           then let s = complain ''RPC failed: %d'' [PInt (cl_status e)] s
                in needs [Status_details] s (
                   let s = (if 0 < length (cl_details e) then complain ''Status details: %.*s'' [PStr (cl_details e)] s else s)
                   in give_up (Request_payload # received e @ batch_objects) s)
           else decode e s)"

text \<open>
  When the event is the completion of the batch, the received message belongs to the client and the batch is no
  longer in progress.
\<close>

definition wait_event :: "client_env \<Rightarrow> client_state \<Rightarrow> (int \<times> client_state) result" where
  "wait_event e s =
     needs [Cq] s (
     let done = (cl_event e = GRPC_OP_COMPLETE);
         s = (if done then (if cl_response e = None then s else acquire Response_payload s)\<lparr>busy := False\<rparr> else s);
         s = say ''CQ event received: type=%d success=%d tag=%p'' [PInt (cl_event e), PInt (if cl_success e then 1 else 0), PInt (if done then 1 else cl_tag e)] s
     in if cl_event e = GRPC_QUEUE_TIMEOUT
        then let s = complain ''grpc_completion_queue_next: TIMEOUT'' [] s
             in needs [Call] s (give_up (Request_payload # batch_objects) s)
        else if cl_event e = GRPC_QUEUE_SHUTDOWN
        then give_up (Request_payload # batch_objects) (complain ''grpc_completion_queue_next: SHUTDOWN'' [] s)
        else if \<not> done
        then give_up (Request_payload # batch_objects) (complain ''Unexpected CQ event type: %d'' [PInt (cl_event e)] s)
        else check_status e s)"

definition start_batch :: "client_env \<Rightarrow> client_state \<Rightarrow> (int \<times> client_state) result" where
  "start_batch e s =
     (let s = acquire Status_details s; s = acquire Initial_metadata s; s = acquire Trailing_metadata s;
          bs = [SEND_INITIAL_METADATA, SEND_MESSAGE (cl_pack e (client_name e)), SEND_CLOSE_FROM_CLIENT,
                RECV_INITIAL_METADATA, RECV_MESSAGE, RECV_STATUS_ON_CLIENT];
          s = say ''Starting RPC batch...'' [] s
      in needs [Call, Request_payload, Initial_metadata, Trailing_metadata, Status_details] s (
         if cl_batch e \<noteq> GRPC_CALL_OK
         then give_up (Request_payload # batch_objects) (complain ''grpc_call_start_batch failed: %d'' [PInt (cl_batch e)] s)
         else wait_event e (say ''Waiting for RPC completion...'' [] (s\<lparr>batch := bs, busy := True\<rparr>))))"

definition make_request :: "client_env \<Rightarrow> client_state \<Rightarrow> (int \<times> client_state) result" where
  "make_request e s =
     (let s = say ''Request protobuf size: %zu bytes'' [PInt (int (length (cl_pack e (client_name e))))] s
      in if \<not> cl_buf e then give_up call_objects (complain ''malloc failed'' [] s)
         else
           let s = acquire Request_buf s; s = acquire Request_slice s
           in bnd (release Request_buf s) (\<lambda>s.
              let s = (if cl_payload e then acquire Request_payload s else s)
              in bnd (release Request_slice s) (\<lambda>s.
                 if \<not> cl_payload e then give_up call_objects (complain ''grpc_raw_byte_buffer_create failed'' [] s)
                 else start_batch e s)))"

definition create_call :: "client_env \<Rightarrow> client_state \<Rightarrow> (int \<times> client_state) result" where
  "create_call e s =
     (let s = acquire Method s; deadline = cl_now e + 10
      in needs [Channel, Cq, Method] s (
         let s = (if cl_call e then acquire Call (s\<lparr>called := Some (METHOD_NAME, deadline)\<rparr>) else s)
         in bnd (release Method s) (\<lambda>s.
            if \<not> cl_call e then give_up [Channel, Cq, Runtime] (complain ''grpc_channel_create_call failed'' [] s)
            else make_request e s)))"

definition create_channel :: "client_env \<Rightarrow> client_state \<Rightarrow> (int \<times> client_state) result" where
  "create_channel e s =
     (if \<not> cl_creds e then give_up [Cq, Runtime] (complain ''grpc_insecure_credentials_create failed'' [] s)
      else
        let s = acquire Creds s
        in needs [Creds] s (
           let s = (if cl_channel e then acquire Channel s else s)
           in bnd (release Creds s) (\<lambda>s.
              if \<not> cl_channel e then give_up [Cq, Runtime] (complain ''grpc_channel_create failed'' [] s)
              else create_call e s)))"

definition client_init :: client_state where
  "client_init = \<lparr>held = [], out = [], errs = [], busy = False, early = [], called = None, batch = []\<rparr>"

definition client_main :: "client_env \<Rightarrow> (int \<times> client_state) result" where
  "client_main e =
     (let s = client_init;
          s = say bar [] s; s = say ''gRPC Client'' [] s; s = say bar [] s;
          s = say ''gRPC Version: %s'' [PStr (cl_version e)] s;
          s = say ''Server:       %s'' [PStr SERVER_ADDR] s;
          s = say ''Method:       %s'' [PStr METHOD_NAME] s;
          s = say ''Name:         %s'' [PStr (client_name e)] s;
          s = say bar [] s;
          s = acquire Runtime s
      in if \<not> cl_cq e then give_up [Runtime] (complain ''grpc_completion_queue_create_for_next failed'' [] s)
         else create_channel e (acquire Cq s))"

section \<open>Every exit gives everything back\<close>

text \<open>
  \<open>ends_clean\<close>: the rest of \<open>main\<close> returns with nothing owned; it returns 0 exactly if \<open>good\<close>, and
  then nothing was written to the error output; \<open>bad\<close> lists what was given back too early.
\<close>

definition ends_clean :: "bool \<Rightarrow> cobject list \<Rightarrow> client_state \<Rightarrow> (int \<times> client_state) result \<Rightarrow> bool" where
  "ends_clean good bad s r \<longleftrightarrow>
     (\<exists>code s'. r = Inr (code, s') \<and> held s' = [] \<and> code = (if good then 0 else 1) \<and> (errs s' = errs s \<longleftrightarrow> good) \<and> early s' = early s @ bad)"

definition reply_ok :: "client_env \<Rightarrow> bool" where
  "reply_ok e \<longleftrightarrow> (\<exists>bytes. cl_response e = Some bytes \<and> cl_reader e \<and> cl_unpack e bytes \<noteq> None)"

definition batch_ok :: "client_env \<Rightarrow> bool" where
  "batch_ok e \<longleftrightarrow> cl_event e = GRPC_OP_COMPLETE \<and> cl_success e \<and> cl_status e = GRPC_STATUS_OK \<and> reply_ok e"

definition started :: "client_env \<Rightarrow> bool" where
  "started e \<longleftrightarrow> cl_cq e \<and> cl_creds e \<and> cl_channel e \<and> cl_call e \<and> cl_buf e \<and> cl_payload e \<and> cl_batch e = GRPC_CALL_OK"

definition too_early :: "client_env \<Rightarrow> cobject list" where
  "too_early e = (if cl_event e = GRPC_OP_COMPLETE then [] else Request_payload # batch_objects)"

lemma give_up_all:
  assumes "distinct (held s)" and "distinct rs" and "set rs \<subseteq> set (held s)" and "length rs = length (held s)"
  shows "give_up rs s = Inr (1, s\<lparr>held := [], early := early s @ (if busy s then rs else [])\<rparr>)"
proof -
  have "set rs = set (held s)" using assms by (simp add: card_subset_eq distinct_card)
  then show ?thesis using assms release_all_held [of s rs] by (simp add: give_up_def)
qed

lemmas object_lists = call_objects_def batch_objects_def received_def

text \<open>A section that passes the state on to the next one ends as that one does.\<close>

lemma ends_clean_from:
  "ends_clean good bad s1 r \<Longrightarrow> errs s1 = errs s \<Longrightarrow> early s1 = early s \<Longrightarrow> ends_clean good bad s r"
  by (simp add: ends_clean_def)

lemma finish_clean:
  assumes "held s = [Reply, Response_payload, Trailing_metadata, Initial_metadata, Status_details, Request_payload, Call, Channel, Cq, Runtime]"
    and "\<not> busy s" and "GRPC_QUEUE_SHUTDOWN \<in> set (cl_drain e)"
  shows "ends_clean True [] s (finish e m s)"
  using assms by (simp add: finish_def Let_def release_held drain_ends ends_clean_def)

lemma decode_clean:
  assumes "held s = received e @ [Trailing_metadata, Initial_metadata, Status_details, Request_payload, Call, Channel, Cq, Runtime]"
    and "\<not> busy s" and "GRPC_QUEUE_SHUTDOWN \<in> set (cl_drain e)"
  shows "ends_clean (reply_ok e) [] s (decode e s)"
proof (cases "cl_response e")
  case None
  then show ?thesis using assms by (auto simp: decode_def ends_clean_def give_up_all object_lists reply_ok_def)
next
  case (Some bytes)
  show ?thesis
  proof (cases "cl_reader e \<and> cl_unpack e bytes \<noteq> None")
    case True
    then obtain m where m: "cl_unpack e bytes = Some m" by auto
    show ?thesis using True Some assms m
      by (simp add: decode_def Let_def received_def release_held reply_ok_def) (rule ends_clean_from, rule finish_clean, simp_all)
  next
    case False
    then show ?thesis using Some assms by (auto simp: decode_def Let_def ends_clean_def give_up_all object_lists reply_ok_def release_held)
  qed
qed

lemma check_status_clean:
  assumes "held s = received e @ [Trailing_metadata, Initial_metadata, Status_details, Request_payload, Call, Channel, Cq, Runtime]"
    and "\<not> busy s" and "GRPC_QUEUE_SHUTDOWN \<in> set (cl_drain e)"
  shows "ends_clean (cl_success e \<and> cl_status e = GRPC_STATUS_OK \<and> reply_ok e) [] s (check_status e s)"
proof (cases "cl_success e \<and> cl_status e = GRPC_STATUS_OK")
  case True
  then show ?thesis using assms by (simp add: check_status_def Let_def) (rule ends_clean_from, rule decode_clean, simp_all)
next
  case False
  then show ?thesis using assms by (auto simp: check_status_def Let_def ends_clean_def give_up_all object_lists)
qed

lemma wait_event_clean:
  assumes "held s = [Trailing_metadata, Initial_metadata, Status_details, Request_payload, Call, Channel, Cq, Runtime]"
    and "busy s" and "GRPC_QUEUE_SHUTDOWN \<in> set (cl_drain e)"
  shows "ends_clean (batch_ok e) (too_early e) s (wait_event e s)"
proof (cases "cl_event e = GRPC_OP_COMPLETE")
  case True
  then have "cl_event e \<noteq> GRPC_QUEUE_TIMEOUT" "cl_event e \<noteq> GRPC_QUEUE_SHUTDOWN" by (simp_all add: grpc_values)
  with True show ?thesis using assms
    by (simp add: wait_event_def Let_def batch_ok_def too_early_def split del: if_split) (rule ends_clean_from, rule check_status_clean, simp_all add: received_def)
next
  case False
  then show ?thesis using assms by (auto simp: wait_event_def Let_def ends_clean_def give_up_all object_lists batch_ok_def too_early_def)
qed

lemma start_batch_clean:
  assumes "held s = [Request_payload, Call, Channel, Cq, Runtime]" and "\<not> busy s" and "GRPC_QUEUE_SHUTDOWN \<in> set (cl_drain e)"
  shows "ends_clean (cl_batch e = GRPC_CALL_OK \<and> batch_ok e) (if cl_batch e = GRPC_CALL_OK then too_early e else []) s (start_batch e s)"
proof (cases "cl_batch e = GRPC_CALL_OK")
  case True
  then show ?thesis using assms by (simp add: start_batch_def Let_def split del: if_split) (rule ends_clean_from, rule wait_event_clean, simp_all)
next
  case False
  then show ?thesis using assms by (auto simp: start_batch_def Let_def ends_clean_def give_up_all object_lists)
qed

lemma make_request_clean:
  assumes "held s = [Call, Channel, Cq, Runtime]" and "\<not> busy s" and "GRPC_QUEUE_SHUTDOWN \<in> set (cl_drain e)"
  shows "ends_clean (cl_buf e \<and> cl_payload e \<and> cl_batch e = GRPC_CALL_OK \<and> batch_ok e)
    (if cl_buf e \<and> cl_payload e \<and> cl_batch e = GRPC_CALL_OK then too_early e else []) s (make_request e s)"
proof (cases "cl_buf e \<and> cl_payload e")
  case True
  then show ?thesis using assms by (simp add: make_request_def Let_def release_held split del: if_split) (rule ends_clean_from, rule start_batch_clean, simp_all)
next
  case False
  then show ?thesis using assms by (auto simp: make_request_def Let_def ends_clean_def give_up_all object_lists release_held)
qed

lemma create_channel_clean:
  assumes "held s = [Cq, Runtime]" and "\<not> busy s" and "GRPC_QUEUE_SHUTDOWN \<in> set (cl_drain e)" and "cl_cq e"
  shows "ends_clean (started e \<and> batch_ok e) (if started e then too_early e else []) s (create_channel e s)"
proof (cases "cl_creds e \<and> cl_channel e \<and> cl_call e")
  case True
  then show ?thesis using assms
    by (simp add: create_channel_def create_call_def Let_def release_held started_def split del: if_split)
      (rule ends_clean_from, rule make_request_clean, simp_all)
next
  case False
  then show ?thesis using assms by (auto simp: create_channel_def create_call_def Let_def ends_clean_def give_up_all release_held started_def)
qed

lemma client_clean:
  assumes "GRPC_QUEUE_SHUTDOWN \<in> set (cl_drain e)"
  shows "ends_clean (started e \<and> batch_ok e) (if started e then too_early e else []) client_init (client_main e)"
proof (cases "cl_cq e")
  case True
  then show ?thesis using assms
    by (simp add: client_main_def Let_def split del: if_split) (rule ends_clean_from, rule create_channel_clean, simp_all add: client_init_def)
next
  case False
  then show ?thesis by (simp add: client_main_def Let_def ends_clean_def give_up_all started_def client_init_def)
qed

section \<open>What the client promises\<close>

text \<open>An environment in which everything succeeds; the library echoes what it is asked to send.\<close>

definition demo_client :: client_env where
  "demo_client = \<lparr>cl_args = [''client'', ''Ann''], cl_version = ''49.0.0'', cl_now = 100, cl_cq = True, cl_creds = True, cl_channel = True, cl_call = True,
     cl_buf = True, cl_payload = True, cl_batch = 0, cl_event = 2, cl_success = True, cl_tag = 1, cl_status = 0, cl_details = [], cl_response = Some [72, 105],
     cl_reader = True, cl_drain = [2, 0], cl_pack = map (\<lambda>c. of_nat (of_char c)), cl_unpack = (\<lambda>bs. Some (Some (map (\<lambda>b. char_of (unat b)) bs)))\<rparr>"

lemma demo_client_ok: "started demo_client" "batch_ok demo_client" "GRPC_QUEUE_SHUTDOWN \<in> set (cl_drain demo_client)"
  by (simp_all add: demo_client_def started_def batch_ok_def reply_ok_def grpc_values)

text \<open>
  C29. Whatever the library answers, provided the queue that was shut down reports it at some time, the client
  returns; no object is used or given back when it is not owned, and nothing is
  owned at the end. It returns 0 exactly if every object could be created, the batch was started
  and completed with success, the status is OK and the reply could be decoded; otherwise it returns
  1 and has written to the error output.
\<close>

theorem client_releases_all:
  assumes "GRPC_QUEUE_SHUTDOWN \<in> set (cl_drain e)"
  shows "\<exists>code s. client_main e = Inr (code, s) \<and> held s = [] \<and> code = (if started e \<and> batch_ok e then 0 else 1) \<and> (errs s = [] \<longleftrightarrow> code = 0)"
  using client_clean [OF assms] by (auto simp: ends_clean_def client_init_def)

theorem client_releases_all_witness:
  "(\<exists>s. client_main demo_client = Inr (0, s) \<and> held s = [] \<and> errs s = []) \<and>
   (\<exists>s. client_main (demo_client\<lparr>cl_status := 5\<rparr>) = Inr (1, s) \<and> held s = [] \<and> errs s \<noteq> [])"
proof
  show "\<exists>s. client_main demo_client = Inr (0, s) \<and> held s = [] \<and> errs s = []"
    using client_releases_all [OF demo_client_ok(3)] demo_client_ok by auto
  have "GRPC_QUEUE_SHUTDOWN \<in> set (cl_drain (demo_client\<lparr>cl_status := 5\<rparr>))" using demo_client_ok(3) by simp
  moreover have "\<not> batch_ok (demo_client\<lparr>cl_status := 5\<rparr>)" by (simp add: batch_ok_def grpc_values)
  ultimately show "\<exists>s. client_main (demo_client\<lparr>cl_status := 5\<rparr>) = Inr (1, s) \<and> held s = [] \<and> errs s \<noteq> []"
    using client_releases_all [of "demo_client\<lparr>cl_status := 5\<rparr>"] by auto
qed

text \<open>
  The client gives objects back while its batch is in progress exactly if the batch was started and the
  queue answered with something else than its completion, such as the end of the time allowed:
  then these are the request, the places the batch is going to write to, the call, the channel and the queue
  itself, which is not drained first. On every other way through the program nothing is given back too early.
\<close>

theorem client_gives_back_early:
  assumes "GRPC_QUEUE_SHUTDOWN \<in> set (cl_drain e)"
  shows "\<exists>code s. client_main e = Inr (code, s) \<and>
    early s = (if started e \<and> cl_event e \<noteq> GRPC_OP_COMPLETE
      then [Request_payload, Status_details, Initial_metadata, Trailing_metadata, Call, Channel, Cq, Runtime] else [])"
  using client_clean [OF assms] by (auto simp: ends_clean_def client_init_def too_early_def object_lists)

theorem client_gives_back_early_witness:
  "(\<exists>code s. client_main demo_client = Inr (code, s) \<and> early s = []) \<and>
   (\<exists>code s. client_main (demo_client\<lparr>cl_event := 1\<rparr>) = Inr (code, s) \<and> Request_payload \<in> set (early s) \<and> Cq \<in> set (early s))"
proof
  show "\<exists>code s. client_main demo_client = Inr (code, s) \<and> early s = []"
    using client_gives_back_early [OF demo_client_ok(3)] by (auto simp: demo_client_def grpc_values)
  have "GRPC_QUEUE_SHUTDOWN \<in> set (cl_drain (demo_client\<lparr>cl_event := 1\<rparr>))" "started (demo_client\<lparr>cl_event := 1\<rparr>)"
    using demo_client_ok by (simp_all add: started_def)
  then show "\<exists>code s. client_main (demo_client\<lparr>cl_event := 1\<rparr>) = Inr (code, s) \<and> Request_payload \<in> set (early s) \<and> Cq \<in> set (early s)"
    using client_gives_back_early [of "demo_client\<lparr>cl_event := 1\<rparr>"] by (auto simp: grpc_values)
qed

text \<open>What a successful run has asked for and printed.\<close>

lemma client_run:
  assumes "started e" and "batch_ok e" and "GRPC_QUEUE_SHUTDOWN \<in> set (cl_drain e)" and "cl_response e = Some bytes" and "cl_unpack e bytes = Some (Some m)"
  shows "\<exists>s. client_main e = Inr (0, s) \<and> held s = [] \<and> called s = Some (METHOD_NAME, cl_now e + 10) \<and>
    SEND_MESSAGE (cl_pack e (client_name e)) \<in> set (batch s) \<and> (''Response: %s'', [PStr m]) \<in> set (out s)"
  using assms
  by (simp add: started_def batch_ok_def reply_ok_def client_main_def create_channel_def create_call_def make_request_def start_batch_def wait_event_def
      check_status_def decode_def finish_def Let_def release_held drain_ends client_init_def acquire_def say_def needs_def grpc_values)

end
