(* ===== verification/GrpcServer.thy ===== *)
theory GrpcServer
  imports GrpcBase
begin

text \<open>
  The gRPC server, \<open>xmake/grpc-c/server.c\<close>: it asks the library for one call at a time, answers a call with a batch and
  lets go of the call when the batch has completed. Memory obtained with \<open>calloc\<close> for a \<open>server_tag\<close> is an
  entry of \<open>tags\<close>; the library keeps the tags of requested calls in \<open>waiting\<close> and those of
  batches in \<open>finishing\<close> until it reports them. The answers of the library, and whether there is memory, are
  arguments. The constructors that \<open>main\<close> calls without looking at their result give an object.
\<close>

section \<open>State\<close>

datatype tag_type = TAG_NEW_CALL | TAG_FINISH

record server_tag =
  ttype :: tag_type
  tcall :: "nat option"
  tpayload :: "u8 list option"

text \<open>
  The objects the server owns: those of \<open>main\<close>, the metadata of a requested call, the call and the
  payload the library stores into a tag, and the temporary ones of \<open>handle_new_call\<close>.
\<close>

datatype sobject =
    SRuntime
  | SCq
  | SServer
  | SCreds
  | SMetadata nat
  | SPayload nat
  | SCall nat
  | SSlice
  | SRequest
  | SReply_buf
  | SReply_slice
  | SReply_bb

record server_state = "sobject owner" +
  tags :: "nat \<Rightarrow> server_tag option"
  next_tag :: nat
  next_call :: nat
  waiting :: "nat list"
  finishing :: "nat list"
  replies :: "(nat \<times> grpc_op list) list"

text \<open>
  The events of the queue: time out, shut down, a new call with its message if there is one, a
  requested call that will not come, and the end of a batch.
\<close>

datatype queue_event = EvTimeout | EvShutdown | EvCall nat "u8 list option" | EvNoCall nat | EvFinish nat

text \<open>
  Answers while one event is handled: whether the message can be read, whether there is
  memory for the reply, the second tag and the tag of the next request, the results of starting the batch and
  of the next request. \<open>sv_unpack\<close> and \<open>sv_pack\<close> are the generated functions.
\<close>

record server_env =
  sv_reader :: bool
  sv_buf :: bool
  sv_tag :: bool
  sv_batch :: int
  sv_next :: bool
  sv_request :: int
  sv_unpack :: "u8 list \<Rightarrow> string option option"
  sv_pack :: "string \<Rightarrow> u8 list"

definition get_tag :: "nat \<Rightarrow> server_state \<Rightarrow> server_tag result" where
  "get_tag t s = (case tags s t of None \<Rightarrow> Inl UseAfterFree | Some x \<Rightarrow> Inr x)"

definition new_tag :: "server_tag \<Rightarrow> server_state \<Rightarrow> server_state" where
  "new_tag x s = s\<lparr>tags := (tags s)(next_tag s \<mapsto> x), next_tag := Suc (next_tag s)\<rparr>"

definition free_tag :: "nat \<Rightarrow> server_state \<Rightarrow> server_state result" where
  "free_tag t s = (if tags s t = None then Inl BadFree else Inr (s\<lparr>tags := (tags s)(t := None)\<rparr>))"

section \<open>Requests and replies\<close>

definition request_new_call :: "bool \<Rightarrow> int \<Rightarrow> server_state \<Rightarrow> server_state result" where
  "request_new_call mem err s =
     (if \<not> mem then Inl NullDeref
      else
        let t = next_tag s;
            s = acquire (SMetadata t) (new_tag \<lparr>ttype = TAG_NEW_CALL, tcall = None, tpayload = None\<rparr> s)
        in needs [SServer, SCq] s (
           if err = GRPC_CALL_OK then Inr (s\<lparr>waiting := t # waiting s\<rparr>)
           else let s = complain ''grpc_server_request_registered_call failed: %d'' [PInt err] s
                in bnd (release (SMetadata t) s) (free_tag t)))"

text \<open>Taking the message out of the payload, which is given back whether it could be read or not.\<close>

definition read_request :: "server_env \<Rightarrow> nat \<Rightarrow> server_state \<Rightarrow> (string option option \<times> server_state) result" where
  "read_request e t s =
     bnd (get_tag t s) (\<lambda>tag.
     case tpayload tag of
       None \<Rightarrow> Inr (None, s)
     | Some bytes \<Rightarrow>
         needs [SPayload t] s (
         bnd (if sv_reader e
              then let s = acquire SSlice s; request = sv_unpack e bytes;
                       s = (if request = None then s else acquire SRequest s)
                   in bnd (release SSlice s) (\<lambda>s. Inr (request, s))
              else Inr (None, s)) (\<lambda>(request, s).
         bnd (release (SPayload t) s) (\<lambda>s.
         Inr (request, s\<lparr>tags := (tags s)(t \<mapsto> tag\<lparr>tpayload := None\<rparr>)\<rparr>)))))"

definition greeting :: "string option option \<Rightarrow> string" where
  "greeting request = (case request of Some (Some n) \<Rightarrow> n | _ \<Rightarrow> ''unknown'')"

text \<open>\<open>snprintf\<close> into an array of 256 characters keeps 255 of them.\<close>

definition response_msg :: "string \<Rightarrow> string" where
  "response_msg name = take 255 (''Hello, '' @ name @ ''!'')"

definition send_response :: "server_env \<Rightarrow> nat \<Rightarrow> string \<Rightarrow> server_state \<Rightarrow> server_state result" where
  "send_response e t name s =
     (if \<not> sv_buf e then Inl NullDeref
      else
        let reply = sv_pack e (response_msg name);
            s = acquire SReply_bb (acquire SReply_slice (acquire SReply_buf s));
            bs = [SEND_INITIAL_METADATA, SEND_MESSAGE reply, SEND_STATUS_FROM_SERVER GRPC_STATUS_OK]
        in if \<not> sv_tag e then Inl NullDeref
           else
             bnd (get_tag t s) (\<lambda>tag.
             let f = next_tag s; s = new_tag \<lparr>ttype = TAG_FINISH, tcall = tcall tag, tpayload = None\<rparr> s
             in case tcall tag of
                  None \<Rightarrow> Inl NullDeref
                | Some c \<Rightarrow>
                    needs [SCall c, SReply_bb] s (
                    if sv_batch e = GRPC_CALL_OK then Inr (s\<lparr>finishing := f # finishing s, replies := replies s @ [(c, bs)]\<rparr>)
                    else let s = complain ''grpc_call_start_batch failed: %d'' [PInt (sv_batch e)] s
                         in bnd (release (SCall c) s) (free_tag f))))"

definition handle_new_call :: "server_env \<Rightarrow> nat \<Rightarrow> server_state \<Rightarrow> server_state result" where
  "handle_new_call e t s =
     bnd (read_request e t s) (\<lambda>(request, s).
     let name = greeting request; s = say ''Received request from: %s'' [PStr name] s
     in bnd (send_response e t name s) (\<lambda>s.
        bnd (if request = None then Inr s else release SRequest s) (\<lambda>s.
        bnd (release_all [SReply_slice, SReply_bb, SReply_buf, SMetadata t] s) (free_tag t))))"

section \<open>The event loop\<close>

text \<open>What the library has done when it delivers an event, and which events it can deliver.\<close>

fun possible :: "queue_event \<Rightarrow> server_state \<Rightarrow> bool" where
  "possible (EvCall t _) s = (t \<in> set (waiting s))"
| "possible (EvNoCall t) s = (t \<in> set (waiting s))"
| "possible (EvFinish t) s = (t \<in> set (finishing s))"
| "possible _ s = True"

fun deliver :: "queue_event \<Rightarrow> server_state \<Rightarrow> server_state" where
  "deliver (EvCall t payload) s =
     (let c = next_call s; s = acquire (SCall c) s; s = (if payload = None then s else acquire (SPayload t) s)
      in s\<lparr>next_call := Suc c, waiting := remove1 t (waiting s),
           tags := (tags s)(t := map_option (\<lambda>x. x\<lparr>tcall := Some c, tpayload := payload\<rparr>) (tags s t))\<rparr>)"
| "deliver (EvNoCall t) s = s\<lparr>waiting := remove1 t (waiting s)\<rparr>"
| "deliver (EvFinish t) s = s\<lparr>finishing := remove1 t (finishing s)\<rparr>"
| "deliver _ s = s"

text \<open>One round of the loop, with whether it goes on. The type of the tag decides.\<close>

definition handle_tag :: "server_env \<Rightarrow> nat \<Rightarrow> bool \<Rightarrow> server_state \<Rightarrow> (bool \<times> server_state) result" where
  "handle_tag e t success s =
     bnd (get_tag t s) (\<lambda>tag.
     case ttype tag of
       TAG_NEW_CALL \<Rightarrow>
         if \<not> success then bnd (release (SMetadata t) s) (\<lambda>s. bnd (free_tag t s) (\<lambda>s. Inr (False, s)))
         else bnd (handle_new_call e t s) (\<lambda>s. bnd (request_new_call (sv_next e) (sv_request e) s) (\<lambda>s. Inr (True, s)))
     | TAG_FINISH \<Rightarrow>
         (case tcall tag of
            None \<Rightarrow> Inl NullDeref
          | Some c \<Rightarrow> bnd (release (SCall c) s) (\<lambda>s. bnd (free_tag t s) (\<lambda>s. Inr (True, s)))))"

fun server_round :: "server_env \<Rightarrow> queue_event \<Rightarrow> server_state \<Rightarrow> (bool \<times> server_state) result" where
  "server_round e EvTimeout s = Inr (True, s)"
| "server_round e EvShutdown s = Inr (False, s)"
| "server_round e (EvCall t p) s = handle_tag e t True s"
| "server_round e (EvNoCall t) s = handle_tag e t False s"
| "server_round e (EvFinish t) s = handle_tag e t True s"

section \<open>Start and end\<close>

definition server_init :: server_state where
  "server_init = \<lparr>held = [], out = [], errs = [], busy = False, early = [], tags = (\<lambda>_. None), next_tag = 0, next_call = 0,
     waiting = [], finishing = [], replies = []\<rparr>"

definition server_addr :: string where
  "server_addr = ''0.0.0.0:8090''"

text \<open>Up to the first request; \<open>None\<close> is a server that runs, \<open>Some 1\<close> the value returned by \<open>main\<close>.\<close>

definition server_start :: "string \<Rightarrow> int \<Rightarrow> bool \<Rightarrow> bool \<Rightarrow> int \<Rightarrow> (int option \<times> server_state) result" where
  "server_start version port registered mem err =
     (let s = acquire SRuntime server_init;
          s = say ''gRPC Version: %s'' [PStr version] s;
          s = acquire SCreds (acquire SServer (acquire SCq s))
      in needs [SServer, SCreds] s (
         if port \<le> 0
         then let s = complain ''Failed to bind to %s'' [PStr server_addr] s
              in bnd (release_all [SServer, SCq, SRuntime] s) (\<lambda>s. Inr (Some 1, s))
         else needs [SServer, SCq] s (
              if \<not> registered
              then let s = complain ''Failed to register method %s'' [PStr METHOD_NAME] s
                   in bnd (release_all [SServer, SCq, SRuntime] s) (\<lambda>s. Inr (Some 1, s))
              else let s = say ''Server listening on port %d'' [PInt port] s
                   in bnd (request_new_call mem err s) (\<lambda>s. Inr (None, s)))))"

text \<open>After the loop: the events that are still delivered are not looked at.\<close>

definition server_stop :: "int list \<Rightarrow> server_state \<Rightarrow> (int \<times> server_state) result" where
  "server_stop events s =
     needs [SServer, SCq] s (
     bnd (drain events s) (\<lambda>s.
     bnd (release_all [SCq, SServer, SRuntime] s) (\<lambda>s.
     Inr (0, s))))"

text \<open>The states in which the loop waits for an event.\<close>

inductive serving :: "server_state \<Rightarrow> bool" where
  begins: "server_start v port True mem err = Inr (None, s) \<Longrightarrow> serving s"
| goes_on: "serving s \<Longrightarrow> possible ev s \<Longrightarrow> server_round e ev (deliver ev s) = Inr (True, s') \<Longrightarrow> serving s'"

section \<open>Ownership in the loop\<close>

definition call_of :: "server_state \<Rightarrow> nat \<Rightarrow> nat" where
  "call_of s t = the (tcall (the (tags s t)))"

text \<open>
  What the server owns while it waits: the objects of \<open>main\<close>, the metadata of the requested call,
  and the call of every batch in progress; and a tag for each of these.
\<close>

definition owned_objects :: "server_state \<Rightarrow> sobject set" where
  "owned_objects s = {SRuntime, SCq, SServer, SCreds} \<union> SMetadata ` set (waiting s) \<union> SCall ` call_of s ` set (finishing s)"

definition tags_ok :: "server_state \<Rightarrow> bool" where
  "tags_ok s \<longleftrightarrow> distinct (waiting s @ finishing s) \<and> set (waiting s @ finishing s) = dom (tags s) \<and> (\<forall>t \<in> dom (tags s). t < next_tag s) \<and>
     (\<forall>t \<in> set (waiting s). tags s t = Some \<lparr>ttype = TAG_NEW_CALL, tcall = None, tpayload = None\<rparr>) \<and>
     (\<forall>t \<in> set (finishing s). \<exists>c < next_call s. tags s t = Some \<lparr>ttype = TAG_FINISH, tcall = Some c, tpayload = None\<rparr>) \<and>
     inj_on (call_of s) (set (finishing s))"

definition server_ok :: "server_state \<Rightarrow> bool" where
  "server_ok s \<longleftrightarrow> \<not> busy s \<and> distinct (held s) \<and> set (held s) = owned_objects s \<and> tags_ok s \<and> length (waiting s) \<le> 1"

lemma tag_fields [simp]:
  "held (new_tag x s) = held s" "busy (new_tag x s) = busy s" "early (new_tag x s) = early s" "waiting (new_tag x s) = waiting s" "finishing (new_tag x s) = finishing s"
  "replies (new_tag x s) = replies s" "next_call (new_tag x s) = next_call s" "next_tag (new_tag x s) = Suc (next_tag s)"
  "tags (new_tag x s) = (tags s)(next_tag s \<mapsto> x)"
  by (simp_all add: new_tag_def)

lemma server_fields [simp]:
  "tags (acquire r s) = tags s" "next_tag (acquire r s) = next_tag s" "next_call (acquire r s) = next_call s" "waiting (acquire r s) = waiting s"
  "finishing (acquire r s) = finishing s" "replies (acquire r s) = replies s"
  "tags (say f xs s) = tags s" "next_tag (say f xs s) = next_tag s" "next_call (say f xs s) = next_call s" "waiting (say f xs s) = waiting s"
  "finishing (say f xs s) = finishing s" "replies (say f xs s) = replies s"
  "tags (complain f xs s) = tags s" "next_tag (complain f xs s) = next_tag s" "next_call (complain f xs s) = next_call s" "waiting (complain f xs s) = waiting s"
  "finishing (complain f xs s) = finishing s" "replies (complain f xs s) = replies s"
  by (simp_all add: acquire_def say_def complain_def)

lemma server_ok_fresh: "server_ok s \<Longrightarrow> tags s (next_tag s) = None"
  by (metis domIff less_irrefl server_ok_def tags_ok_def)

text \<open>The outcome of handling a call: the tag is gone, and the call is kept exactly if a batch was started.\<close>

lemma read_request_run:
  assumes t: "tags s t = Some \<lparr>ttype = TAG_NEW_CALL, tcall = Some c, tpayload = p\<rparr>"
    and h: "held s = (if p = None then H else SPayload t # H)" and "\<not> busy s"
  shows "\<exists>s'. read_request e t s = Inr (case p of None \<Rightarrow> None | Some b \<Rightarrow> if sv_reader e then sv_unpack e b else None, s') \<and>
     held s' = (if p = None \<or> \<not> sv_reader e \<or> sv_unpack e (the p) = None then H else SRequest # H) \<and>
     tags s' = (tags s)(t \<mapsto> \<lparr>ttype = TAG_NEW_CALL, tcall = Some c, tpayload = None\<rparr>) \<and> \<not> busy s' \<and> next_tag s' = next_tag s \<and>
     next_call s' = next_call s \<and> waiting s' = waiting s \<and> finishing s' = finishing s \<and> replies s' = replies s"
proof (cases p)
  case None
  then show ?thesis using assms by (simp add: read_request_def get_tag_def fun_upd_idem)
next
  case (Some b)
  then show ?thesis using assms by (cases "sv_reader e"; cases "sv_unpack e b") (simp_all add: read_request_def get_tag_def release_held Let_def)
qed

lemma send_response_run:
  assumes t: "tags s t = Some \<lparr>ttype = TAG_NEW_CALL, tcall = Some c, tpayload = None\<rparr>" and f: "tags s (next_tag s) = None"
    and h: "held s = R @ SCall c # H" "SCall c \<notin> set R" and b: "\<not> busy s" and m: "sv_buf e" "sv_tag e"
  shows "\<exists>s'. send_response e t name s = Inr s' \<and>
     held s' = SReply_bb # SReply_slice # SReply_buf # R @ (if sv_batch e = GRPC_CALL_OK then [SCall c] else []) @ H \<and>
     tags s' = (if sv_batch e = GRPC_CALL_OK then (tags s)(next_tag s \<mapsto> \<lparr>ttype = TAG_FINISH, tcall = Some c, tpayload = None\<rparr>) else tags s) \<and>
     finishing s' = (if sv_batch e = GRPC_CALL_OK then [next_tag s] else []) @ finishing s \<and>
     replies s' = replies s @ (if sv_batch e = GRPC_CALL_OK
       then [(c, [SEND_INITIAL_METADATA, SEND_MESSAGE (sv_pack e (response_msg name)), SEND_STATUS_FROM_SERVER GRPC_STATUS_OK])] else []) \<and>
     \<not> busy s' \<and> next_tag s' = Suc (next_tag s) \<and> next_call s' = next_call s \<and> waiting s' = waiting s"
  using assms by (auto simp: send_response_def get_tag_def free_tag_def release_held Let_def remove1_append fun_upd_idem)

lemma handle_new_call_run:
  assumes t: "tags s t = Some \<lparr>ttype = TAG_NEW_CALL, tcall = Some c, tpayload = p\<rparr>" and f: "tags s (next_tag s) = None"
    and h: "held s = (if p = None then SCall c # H else SPayload t # SCall c # H)" "SMetadata t \<in> set H" and b: "\<not> busy s" and m: "sv_buf e" "sv_tag e"
  shows "\<exists>s'. handle_new_call e t s = Inr s' \<and> held s' = (if sv_batch e = GRPC_CALL_OK then [SCall c] else []) @ remove1 (SMetadata t) H \<and>
     tags s' = (if sv_batch e = GRPC_CALL_OK then (tags s)(t := None, next_tag s \<mapsto> \<lparr>ttype = TAG_FINISH, tcall = Some c, tpayload = None\<rparr>)
       else (tags s)(t := None)) \<and>
     finishing s' = (if sv_batch e = GRPC_CALL_OK then [next_tag s] else []) @ finishing s \<and>
     replies s' = replies s @ (if sv_batch e = GRPC_CALL_OK
       then [(c, [SEND_INITIAL_METADATA,
           SEND_MESSAGE (sv_pack e (response_msg (greeting (case p of None \<Rightarrow> None | Some b \<Rightarrow> if sv_reader e then sv_unpack e b else None)))),
           SEND_STATUS_FROM_SERVER GRPC_STATUS_OK])] else []) \<and>
     \<not> busy s' \<and> next_tag s' = Suc (next_tag s) \<and> next_call s' = next_call s \<and> waiting s' = waiting s"
proof -
  define q where "q = (case p of None \<Rightarrow> None | Some b \<Rightarrow> if sv_reader e then sv_unpack e b else None)"
  let ?R = "if q = None then [] else [SRequest]"
  obtain s1 where s1: "read_request e t s = Inr (q, s1)" "held s1 = ?R @ SCall c # H" "tags s1 = (tags s)(t \<mapsto> \<lparr>ttype = TAG_NEW_CALL, tcall = Some c, tpayload = None\<rparr>)"
    "\<not> busy s1" "next_tag s1 = next_tag s" "next_call s1 = next_call s" "waiting s1 = waiting s" "finishing s1 = finishing s" "replies s1 = replies s"
    using read_request_run [of s t c p "SCall c # H" e] t h b by (cases p) (auto simp: q_def)
  have ne: "t \<noteq> next_tag s" using t f by auto
  let ?s = "say ''Received request from: %s'' [PStr (greeting q)] s1"
  have "SCall c \<notin> set ?R" by simp
  then obtain s2 where s2: "send_response e t (greeting q) ?s = Inr s2"
    "held s2 = SReply_bb # SReply_slice # SReply_buf # ?R @ (if sv_batch e = GRPC_CALL_OK then [SCall c] else []) @ H"
    "tags s2 = (if sv_batch e = GRPC_CALL_OK then (tags s1)(next_tag s \<mapsto> \<lparr>ttype = TAG_FINISH, tcall = Some c, tpayload = None\<rparr>) else tags s1)"
    "finishing s2 = (if sv_batch e = GRPC_CALL_OK then [next_tag s] else []) @ finishing s"
    "replies s2 = replies s @ (if sv_batch e = GRPC_CALL_OK
       then [(c, [SEND_INITIAL_METADATA, SEND_MESSAGE (sv_pack e (response_msg (greeting q))), SEND_STATUS_FROM_SERVER GRPC_STATUS_OK])] else [])"
    "\<not> busy s2" "next_tag s2 = Suc (next_tag s)" "next_call s2 = next_call s" "waiting s2 = waiting s"
    using send_response_run [of ?s t c ?R H e "greeting q"] s1 f m ne by auto
  have "handle_new_call e t s = bnd (if q = None then Inr s2 else release SRequest s2)
      (\<lambda>s. bnd (release_all [SReply_slice, SReply_bb, SReply_buf, SMetadata t] s) (free_tag t))"
    using s1(1) s2(1) by (simp add: handle_new_call_def)
  then show ?thesis unfolding q_def [symmetric] using s2 h(2) s1(3) ne
    by (cases q; cases "sv_batch e = GRPC_CALL_OK") (simp_all add: release_held free_tag_def remove1_append fun_upd_twist)
qed

lemma request_ok:
  assumes ok: "server_ok s" and w: "waiting s = []"
  shows "\<exists>s'. request_new_call True err s = Inr s' \<and> server_ok s' \<and> waiting s' = (if err = GRPC_CALL_OK then [next_tag s] else []) \<and>
    finishing s' = finishing s \<and> replies s' = replies s"
proof -
  have h: "SServer \<in> set (held s)" "SCq \<in> set (held s)" "\<not> busy s" "SMetadata (next_tag s) \<notin> set (held s)"
    using ok w by (auto simp: server_ok_def owned_objects_def)
  have n: "next_tag s \<notin> set (finishing s)" "tags s (next_tag s) = None"
    using ok server_ok_fresh [OF ok] by (auto simp: server_ok_def tags_ok_def)
  have c: "call_of (s\<lparr>tags := (tags s)(next_tag s \<mapsto> x), next_tag := k, held := H, waiting := W\<rparr>) t = call_of s t" if "t \<in> set (finishing s)" for t x k H W
    using n(1) that by (auto simp: call_of_def)
  show ?thesis
  proof (cases "err = GRPC_CALL_OK")
    case True
    let ?s = "s\<lparr>tags := (tags s)(next_tag s \<mapsto> \<lparr>ttype = TAG_NEW_CALL, tcall = None, tpayload = None\<rparr>), next_tag := Suc (next_tag s),
      held := SMetadata (next_tag s) # held s, waiting := [next_tag s]\<rparr>"
    have r: "request_new_call True err s = Inr ?s" using True h w by (simp add: request_new_call_def Let_def acquire_def new_tag_def)
    have i: "call_of ?s ` set (finishing s) = call_of s ` set (finishing s)" by (rule image_cong) (simp_all only: c)
    have "inj_on (call_of ?s) (set (finishing s)) = inj_on (call_of s) (set (finishing s))" by (rule inj_on_cong) (simp only: c)
    then have "tags_ok ?s" using ok w n by (auto simp: server_ok_def tags_ok_def less_Suc_eq)
    moreover have "owned_objects ?s = Set.insert (SMetadata (next_tag s)) (owned_objects s)" using w i by (simp add: owned_objects_def)
    ultimately have "server_ok ?s" using ok h(4) by (simp add: server_ok_def)
    then show ?thesis using r True by auto
  next
    case False
    let ?s = "s\<lparr>next_tag := Suc (next_tag s), errs := errs s @ [(''grpc_server_request_registered_call failed: %d'', [PInt err])]\<rparr>"
    have "request_new_call True err s = Inr ?s"
      using False h n(2) by (simp add: request_new_call_def Let_def acquire_def new_tag_def complain_def release_held free_tag_def fun_upd_idem)
    moreover have "server_ok ?s" using ok by (auto simp: server_ok_def tags_ok_def owned_objects_def call_of_def [abs_def] less_Suc_eq)
    ultimately show ?thesis using False w by auto
  qed
qed

lemma finish_ok:
  assumes ok: "server_ok s" and t: "t \<in> set (finishing s)"
  shows "\<exists>s'. handle_tag e t b (s\<lparr>finishing := remove1 t (finishing s)\<rparr>) = Inr (True, s') \<and> server_ok s' \<and> waiting s' = waiting s \<and>
    finishing s' = remove1 t (finishing s) \<and> replies s' = replies s"
proof -
  obtain c where c: "tags s t = Some \<lparr>ttype = TAG_FINISH, tcall = Some c, tpayload = None\<rparr>" using ok t by (auto simp: server_ok_def tags_ok_def)
  then have ct: "c = call_of s t" by (simp add: call_of_def)
  have inj: "inj_on (call_of s) (set (finishing s))" and d: "distinct (finishing s)" using ok by (simp_all add: server_ok_def tags_ok_def)
  have h: "SCall c \<in> set (held s)" "\<not> busy s" "distinct (held s)" using ok t ct by (auto simp: server_ok_def owned_objects_def)
  let ?s = "s\<lparr>finishing := remove1 t (finishing s), held := remove1 (SCall c) (held s), tags := (tags s)(t := None)\<rparr>"
  have r: "handle_tag e t b (s\<lparr>finishing := remove1 t (finishing s)\<rparr>) = Inr (True, ?s)"
    using c h by (simp add: handle_tag_def get_tag_def release_held free_tag_def)
  have co: "call_of ?s u = call_of s u" if "u \<noteq> t" for u using that by (simp add: call_of_def)
  have fs: "set (finishing ?s) = set (finishing s) - {t}" using d by simp
  have "inj_on (call_of ?s) (set (finishing ?s))" using inj co unfolding fs by (auto simp: inj_on_def)
  then have "tags_ok ?s" using ok t by (auto simp: server_ok_def tags_ok_def)
  moreover have "call_of ?s ` set (finishing ?s) = call_of s ` set (finishing s) - {c}"
    unfolding fs using co inj t by (auto simp: ct inj_on_def image_iff)
  then have "owned_objects ?s = owned_objects s - {SCall c}" by (auto simp: owned_objects_def)
  ultimately have "server_ok ?s" using ok h(3) by (simp add: server_ok_def)
  then show ?thesis using r by auto
qed

lemma no_call_ok:
  assumes ok: "server_ok s" and t: "t \<in> set (waiting s)"
  shows "\<exists>s'. handle_tag e t False (s\<lparr>waiting := remove1 t (waiting s)\<rparr>) = Inr (False, s') \<and> server_ok s' \<and> waiting s' = [] \<and>
    finishing s' = finishing s \<and> replies s' = replies s"
proof -
  have w: "waiting s = [t]" using ok t by (cases "waiting s") (auto simp: server_ok_def)
  then have tt: "tags s t = Some \<lparr>ttype = TAG_NEW_CALL, tcall = None, tpayload = None\<rparr>" "t \<notin> set (finishing s)" using ok by (auto simp: server_ok_def tags_ok_def)
  have h: "SMetadata t \<in> set (held s)" "\<not> busy s" "distinct (held s)" using ok t by (auto simp: server_ok_def owned_objects_def)
  let ?s = "s\<lparr>waiting := [], held := remove1 (SMetadata t) (held s), tags := (tags s)(t := None)\<rparr>"
  have r: "handle_tag e t False (s\<lparr>waiting := remove1 t (waiting s)\<rparr>) = Inr (False, ?s)"
    using tt w h by (simp add: handle_tag_def get_tag_def release_held free_tag_def)
  have co: "call_of ?s u = call_of s u" if "u \<in> set (finishing s)" for u using that tt by (auto simp: call_of_def)
  then have i: "call_of ?s ` set (finishing s) = call_of s ` set (finishing s)" by (rule image_cong [OF refl])
  have "inj_on (call_of ?s) (set (finishing s)) = inj_on (call_of s) (set (finishing s))" by (rule inj_on_cong) (simp only: co)
  then have "tags_ok ?s" using ok w by (auto simp: server_ok_def tags_ok_def)
  moreover have "owned_objects ?s = owned_objects s - {SMetadata t}" using w i by (auto simp: owned_objects_def)
  ultimately have "server_ok ?s" using ok h(3) by (simp add: server_ok_def)
  then show ?thesis using r by auto
qed

text \<open>The name the server greets, as it reads the message of a call.\<close>

definition asked :: "server_env \<Rightarrow> u8 list option \<Rightarrow> string" where
  "asked e p = greeting (case p of None \<Rightarrow> None | Some b \<Rightarrow> if sv_reader e then sv_unpack e b else None)"

definition answer :: "server_env \<Rightarrow> u8 list option \<Rightarrow> grpc_op list" where
  "answer e p = [SEND_INITIAL_METADATA, SEND_MESSAGE (sv_pack e (response_msg (asked e p))), SEND_STATUS_FROM_SERVER GRPC_STATUS_OK]"

lemma handle_call_ok:
  assumes ok: "server_ok s" and t: "t \<in> set (waiting s)" and m: "sv_buf e" "sv_tag e"
  shows "\<exists>s'. handle_new_call e t (deliver (EvCall t p) s) = Inr s' \<and> server_ok s' \<and> waiting s' = [] \<and>
    finishing s' = (if sv_batch e = GRPC_CALL_OK then [next_tag s] else []) @ finishing s \<and>
    replies s' = replies s @ (if sv_batch e = GRPC_CALL_OK then [(next_call s, answer e p)] else [])"
proof -
  let ?c = "next_call s" and ?f = "next_tag s" and ?d = "deliver (EvCall t p) s" and ?fin = "\<lparr>ttype = TAG_FINISH, tcall = Some (next_call s), tpayload = None\<rparr>"
  have w: "waiting s = [t]" using ok t by (cases "waiting s") (auto simp: server_ok_def)
  have tt: "tags s t = Some \<lparr>ttype = TAG_NEW_CALL, tcall = None, tpayload = None\<rparr>" "t \<notin> set (finishing s)" using ok w by (auto simp: server_ok_def tags_ok_def)
  have n: "tags s ?f = None" by (rule server_ok_fresh [OF ok])
  have ne: "t \<noteq> ?f" "?f \<notin> set (finishing s)" using tt n ok by (auto simp: server_ok_def tags_ok_def)
  have h: "SMetadata t \<in> set (held s)" "\<not> busy s" "distinct (held s)" using ok t by (auto simp: server_ok_def owned_objects_def)
  have old: "call_of s u < ?c" if "u \<in> set (finishing s)" for u using ok that by (fastforce simp: server_ok_def tags_ok_def call_of_def)
  then have new: "?c \<notin> call_of s ` set (finishing s)" by force
  then have nc: "SCall ?c \<notin> set (held s)" using ok by (auto simp: server_ok_def owned_objects_def)
  have d: "tags ?d t = Some \<lparr>ttype = TAG_NEW_CALL, tcall = Some ?c, tpayload = p\<rparr>" "tags ?d (next_tag ?d) = None"
    "held ?d = (if p = None then SCall ?c # held s else SPayload t # SCall ?c # held s)" "\<not> busy ?d" "next_tag ?d = ?f" "next_call ?d = Suc ?c"
    "waiting ?d = []" "finishing ?d = finishing s" "replies ?d = replies s" "(tags ?d)(t := None) = (tags s)(t := None)"
    using tt n ne h w by (auto simp: Let_def)
  obtain s' where s': "handle_new_call e t ?d = Inr s'" "held s' = (if sv_batch e = GRPC_CALL_OK then [SCall ?c] else []) @ remove1 (SMetadata t) (held s)"
    "tags s' = (if sv_batch e = GRPC_CALL_OK then (tags s)(t := None, ?f \<mapsto> ?fin) else (tags s)(t := None))"
    "finishing s' = (if sv_batch e = GRPC_CALL_OK then [?f] else []) @ finishing s"
    "replies s' = replies s @ (if sv_batch e = GRPC_CALL_OK then [(?c, answer e p)] else [])"
    "\<not> busy s'" "next_tag s' = Suc ?f" "next_call s' = Suc ?c" "waiting s' = []"
    using handle_new_call_run [OF d(1,2,3) h(1) d(4) m] d by (auto simp: answer_def asked_def)
  have co: "call_of s' u = call_of s u" if "u \<in> set (finishing s)" for u using that tt ne s'(3) by (auto simp: call_of_def)
  then have i: "call_of s' ` set (finishing s) = call_of s ` set (finishing s)" by (rule image_cong [OF refl])
  have cf: "call_of s' ?f = ?c" if "sv_batch e = GRPC_CALL_OK" using s'(3) that by (simp add: call_of_def)
  have "inj_on (call_of s') (set (finishing s)) = inj_on (call_of s) (set (finishing s))" by (rule inj_on_cong) (simp only: co)
  then have inj: "inj_on (call_of s') (set (finishing s'))"
    using ok new i ne(2) cf s'(4) by (cases "sv_batch e = GRPC_CALL_OK") (auto simp: server_ok_def tags_ok_def inj_on_insert)
  have dom: "dom (tags s) = {t} \<union> set (finishing s)" and lt: "\<And>u. u \<in> dom (tags s) \<Longrightarrow> u < ?f" and dist: "distinct (finishing s)"
    and fin: "\<And>u. u \<in> set (finishing s) \<Longrightarrow> \<exists>c < ?c. tags s u = Some \<lparr>ttype = TAG_FINISH, tcall = Some c, tpayload = None\<rparr>"
    using ok w by (auto simp: server_ok_def tags_ok_def)
  have "dom (tags s') = set (finishing s')" using dom tt(2) ne s'(3,4) by auto
  moreover have "\<exists>c < next_call s'. tags s' u = Some \<lparr>ttype = TAG_FINISH, tcall = Some c, tpayload = None\<rparr>" if "u \<in> set (finishing s')" for u
    using that fin [of u] tt(2) ne s'(3,4,8) by (auto split: if_splits intro: less_SucI)
  moreover have "\<forall>u \<in> set (finishing s'). u < Suc ?f" using lt dom s'(4) by (auto intro: less_SucI)
  ultimately have "tags_ok s'" using inj dist ne(2) s'(4,7,9) by (simp add: tags_ok_def)
  moreover have "call_of s' ` set (finishing s') = (if sv_batch e = GRPC_CALL_OK then {?c} else {}) \<union> call_of s ` set (finishing s)"
    using i cf s'(4) by simp
  then have "owned_objects s' = (if sv_batch e = GRPC_CALL_OK then {SCall ?c} else {}) \<union> (owned_objects s - {SMetadata t})"
    using w s'(9) unfolding owned_objects_def by auto
  then have "set (held s') = owned_objects s'" "distinct (held s')" using ok nc h(3) s'(2) by (simp_all add: server_ok_def)
  ultimately have "server_ok s'" using s'(6,9) by (simp add: server_ok_def)
  then show ?thesis using s' by auto
qed

section \<open>Rounds and reachable states\<close>

definition is_call :: "queue_event \<Rightarrow> bool" where
  "is_call ev \<longleftrightarrow> (\<exists>t p. ev = EvCall t p)"

definition has_memory :: "server_env \<Rightarrow> bool" where
  "has_memory e \<longleftrightarrow> sv_buf e \<and> sv_tag e \<and> sv_next e"

lemma no_memory:
  assumes ok: "server_ok s" and t: "t \<in> set (waiting s)" and m: "\<not> (sv_buf e \<and> sv_tag e)"
  shows "handle_new_call e t (deliver (EvCall t p) s) = Inl NullDeref"
proof -
  let ?d = "deliver (EvCall t p) s"
  have "tags s t = Some \<lparr>ttype = TAG_NEW_CALL, tcall = None, tpayload = None\<rparr>" "\<not> busy s" using ok t by (auto simp: server_ok_def tags_ok_def)
  then have "tags ?d t = Some \<lparr>ttype = TAG_NEW_CALL, tcall = Some (next_call s), tpayload = p\<rparr>" "\<not> busy ?d"
    "held ?d = (if p = None then SCall (next_call s) # held s else SPayload t # SCall (next_call s) # held s)" by (auto simp: Let_def)
  then obtain q s' where "read_request e t ?d = Inr (q, s')" using read_request_run [of ?d t "next_call s" p "SCall (next_call s) # held s" e] by auto
  then show ?thesis using m by (auto simp: handle_new_call_def send_response_def Let_def)
qed

lemma round_outcome:
  assumes ok: "server_ok s" and p: "possible ev s"
  shows "if is_call ev \<and> \<not> has_memory e then server_round e ev (deliver ev s) = Inl NullDeref
    else \<exists>s'. server_round e ev (deliver ev s) = Inr (ev \<noteq> EvShutdown \<and> (\<forall>t. ev \<noteq> EvNoCall t), s') \<and> server_ok s' \<and>
      (is_call ev \<or> (set (waiting s') \<subseteq> set (waiting s) \<and> replies s' = replies s))"
proof (cases ev)
  case (EvCall t q)
  then have t: "t \<in> set (waiting s)" using p by simp
  have "tags (deliver ev s) t = Some \<lparr>ttype = TAG_NEW_CALL, tcall = Some (next_call s), tpayload = q\<rparr>"
    using ok t EvCall by (auto simp: server_ok_def tags_ok_def Let_def)
  then have r: "server_round e ev (deliver ev s) = bnd (handle_new_call e t (deliver ev s)) (\<lambda>s. bnd (request_new_call (sv_next e) (sv_request e) s) (\<lambda>s. Inr (True, s)))"
    using EvCall by (simp add: handle_tag_def get_tag_def del: deliver.simps)
  show ?thesis
  proof (cases "sv_buf e \<and> sv_tag e")
    case True
    then obtain s1 where s1: "handle_new_call e t (deliver ev s) = Inr s1" "server_ok s1" "waiting s1 = []"
      using handle_call_ok [OF ok t, of e q] EvCall by blast
    then show ?thesis using r True EvCall request_ok [OF s1(2,3), of "sv_request e"]
      by (cases "sv_next e") (auto simp: is_call_def has_memory_def request_new_call_def)
  next
    case False
    then show ?thesis using r EvCall no_memory [OF ok t, of e q] by (auto simp: is_call_def has_memory_def)
  qed
next
  case (EvNoCall t)
  then show ?thesis using no_call_ok [OF ok, of t e] p by (auto simp: is_call_def)
next
  case (EvFinish t)
  then show ?thesis using finish_ok [OF ok, of t e True] p by (auto simp: is_call_def)
qed (use ok in \<open>simp_all add: is_call_def\<close>)

lemma start_ok:
  assumes "server_start v port True mem err = Inr (None, s)"
  shows "server_ok s" and "waiting s \<noteq> [] \<longleftrightarrow> err = GRPC_CALL_OK" and "replies s = []"
proof -
  let ?s = "\<lparr>held = [SCreds, SServer, SCq, SRuntime], out = [(''gRPC Version: %s'', [PStr v]), (''Server listening on port %d'', [PInt port])], errs = [],
    busy = False, early = [], tags = (\<lambda>_. None), next_tag = 0, next_call = 0, waiting = [], finishing = [], replies = []\<rparr>"
  have m: "mem" "request_new_call True err ?s = Inr s" using assms
    by (auto simp: server_start_def Let_def acquire_def say_def complain_def server_init_def release_held bnd_eq_Inr needs_def request_new_call_def
        split: if_splits)
  have "server_ok ?s" by (auto simp: server_ok_def owned_objects_def tags_ok_def)
  then show "server_ok s" "waiting s \<noteq> [] \<longleftrightarrow> err = GRPC_CALL_OK" "replies s = []" using request_ok [of ?s err] m(2) by auto
qed

lemma serving_ok: "serving s \<Longrightarrow> server_ok s"
proof (induction rule: serving.induct)
  case (begins v port mem err s)
  then show ?case by (rule start_ok)
next
  case (goes_on s ev e s')
  then show ?case using round_outcome [OF goes_on.IH goes_on.hyps(2), of e] by (auto split: if_splits)
qed

section \<open>What the server promises\<close>

text \<open>A server that has just been started and asked for its first call.\<close>

definition demo_server :: server_state where
  "demo_server = \<lparr>held = [SMetadata 0, SCreds, SServer, SCq, SRuntime],
     out = [(''gRPC Version: %s'', [PStr ''49.0.0'']), (''Server listening on port %d'', [PInt 8090])], errs = [], busy = False, early = [],
     tags = [0 \<mapsto> \<lparr>ttype = TAG_NEW_CALL, tcall = None, tpayload = None\<rparr>], next_tag = 1, next_call = 0, waiting = [0], finishing = [], replies = []\<rparr>"

definition demo_env :: server_env where
  "demo_env = \<lparr>sv_reader = True, sv_buf = True, sv_tag = True, sv_batch = 0, sv_next = True, sv_request = 0,
     sv_unpack = (\<lambda>bs. Some (Some (map (\<lambda>b. char_of (unat b)) bs))), sv_pack = map (\<lambda>c. of_nat (of_char c))\<rparr>"

lemma demo_serving: "serving demo_server"
proof (rule begins)
  show "server_start ''49.0.0'' 8090 True True 0 = Inr (None, demo_server)"
    by (simp add: server_start_def Let_def acquire_def say_def server_init_def request_new_call_def new_tag_def needs_def demo_server_def grpc_values)
qed

text \<open>
  C30. In every state in which the loop of the server waits, whatever events and answers the library has given,
  at most one call is requested, and what the server owns is exactly: the objects of \<open>main\<close>, the metadata of the
  requested call, and the call of each batch in progress, with one tag for each of these. The next
  event is handled without any use of an object that is not owned; the round fails only through a null pointer,
  and exactly if a call has arrived and an allocation fails, because their results are
  not looked at.
\<close>

theorem grpc_server_ownership:
  assumes "serving s" and "possible ev s"
  shows "distinct (held s) \<and> set (held s) = {SRuntime, SCq, SServer, SCreds} \<union> SMetadata ` set (waiting s) \<union> SCall ` call_of s ` set (finishing s) \<and>
    dom (tags s) = set (waiting s) \<union> set (finishing s) \<and> length (waiting s) \<le> 1 \<and>
    (case server_round e ev (deliver ev s) of Inl err \<Rightarrow> err = NullDeref \<and> is_call ev \<and> \<not> has_memory e
      | Inr (go_on, s') \<Rightarrow> (is_call ev \<longrightarrow> has_memory e) \<and> (go_on \<longrightarrow> serving s'))"
proof -
  have ok: "server_ok s" by (rule serving_ok [OF assms(1)])
  have "case server_round e ev (deliver ev s) of Inl err \<Rightarrow> err = NullDeref \<and> is_call ev \<and> \<not> has_memory e
      | Inr (go_on, s') \<Rightarrow> (is_call ev \<longrightarrow> has_memory e) \<and> (go_on \<longrightarrow> serving s')"
    using round_outcome [OF ok assms(2), of e] goes_on [OF assms, of e] by (auto split: if_splits)
  then show ?thesis using ok by (auto simp: server_ok_def tags_ok_def owned_objects_def)
qed

theorem grpc_server_ownership_witness:
  "(\<exists>s'. server_round demo_env (EvCall 0 (Some [65])) (deliver (EvCall 0 (Some [65])) demo_server) = Inr (True, s') \<and> serving s') \<and>
   server_round (demo_env\<lparr>sv_tag := False\<rparr>) (EvCall 0 (Some [65])) (deliver (EvCall 0 (Some [65])) demo_server) = Inl NullDeref"
proof -
  have p: "possible (EvCall 0 (Some [65])) demo_server" by (simp add: demo_server_def)
  have "server_round demo_env (EvCall 0 (Some [65])) (deliver (EvCall 0 (Some [65])) demo_server) \<noteq> Inl NullDeref"
    using grpc_server_ownership [OF demo_serving p, of demo_env] by (auto simp: has_memory_def demo_env_def)
  then show ?thesis
    using grpc_server_ownership [OF demo_serving p, of demo_env] grpc_server_ownership [OF demo_serving p, of "demo_env\<lparr>sv_tag := False\<rparr>"]
      round_outcome [OF serving_ok [OF demo_serving] p, of demo_env]
    by (auto simp: has_memory_def demo_env_def is_call_def split: sum.splits)
qed

text \<open>
  A call is answered with one batch that carries the greeting of the name in its message, cut after 255
  characters, and an OK status; a message that is missing, or cannot be read or
  decoded, or has no name, is answered with the greeting of the name \<open>unknown\<close>. The next call is requested
  at once.
\<close>

theorem grpc_server_answers:
  assumes "serving s" and "t \<in> set (waiting s)" and "has_memory e" and "sv_batch e = GRPC_CALL_OK"
  shows "\<exists>s'. server_round e (EvCall t p) (deliver (EvCall t p) s) = Inr (True, s') \<and>
    replies s' = replies s @ [(next_call s, [SEND_INITIAL_METADATA, SEND_MESSAGE (sv_pack e (take 255 (''Hello, '' @ asked e p @ ''!''))),
      SEND_STATUS_FROM_SERVER GRPC_STATUS_OK])] \<and>
    asked e p = (case p of Some bytes \<Rightarrow> if sv_reader e then (case sv_unpack e bytes of Some (Some name) \<Rightarrow> name | _ \<Rightarrow> ''unknown'') else ''unknown''
      | None \<Rightarrow> ''unknown'') \<and>
    (waiting s' \<noteq> [] \<longleftrightarrow> sv_request e = GRPC_CALL_OK)"
proof -
  have ok: "server_ok s" by (rule serving_ok [OF assms(1)])
  have m: "sv_buf e" "sv_tag e" "sv_next e" using assms(3) by (simp_all add: has_memory_def)
  obtain s1 where s1: "handle_new_call e t (deliver (EvCall t p) s) = Inr s1" "server_ok s1" "waiting s1 = []"
    "replies s1 = replies s @ [(next_call s, answer e p)]" using handle_call_ok [OF ok assms(2) m(1,2), of p] assms(4) by auto
  obtain s' where s': "request_new_call True (sv_request e) s1 = Inr s'" "waiting s' = (if sv_request e = GRPC_CALL_OK then [next_tag s1] else [])"
    "replies s' = replies s1" using request_ok [OF s1(2,3)] by blast
  have "tags (deliver (EvCall t p) s) t = Some \<lparr>ttype = TAG_NEW_CALL, tcall = Some (next_call s), tpayload = p\<rparr>"
    using ok assms(2) by (auto simp: server_ok_def tags_ok_def Let_def)
  then have "server_round e (EvCall t p) (deliver (EvCall t p) s) = Inr (True, s')"
    using s1(1) s'(1) m(3) by (simp add: handle_tag_def get_tag_def del: deliver.simps)
  then show ?thesis using s1(4) s'(2,3) by (auto simp: answer_def response_msg_def asked_def greeting_def split: option.splits)
qed

theorem grpc_server_answers_witness:
  "\<exists>s'. server_round demo_env (EvCall 0 (Some [65, 66])) (deliver (EvCall 0 (Some [65, 66])) demo_server) = Inr (True, s') \<and>
    replies s' = [(0, [SEND_INITIAL_METADATA, SEND_MESSAGE (map (\<lambda>c. of_nat (of_char c)) ''Hello, AB!''), SEND_STATUS_FROM_SERVER 0])]"
proof -
  have "0 \<in> set (waiting demo_server)" "has_memory demo_env" "sv_batch demo_env = GRPC_CALL_OK"
    by (simp_all add: demo_server_def demo_env_def has_memory_def grpc_values)
  from grpc_server_answers [OF demo_serving this, of "Some [65, 66]"] show ?thesis
    by (auto simp: demo_server_def demo_env_def asked_def greeting_def char_of_def bit_0 grpc_values)
qed

text \<open>The states the loop can come to from a given one.\<close>

inductive onward :: "server_state \<Rightarrow> server_state \<Rightarrow> bool" where
  here: "onward s s"
| later: "onward s s' \<Longrightarrow> possible ev s' \<Longrightarrow> server_round e ev (deliver ev s') = Inr (True, s'') \<Longrightarrow> onward s s''"

lemma onward_ok:
  assumes "onward s s'" and "server_ok s" and "waiting s = []"
  shows "server_ok s' \<and> waiting s' = [] \<and> replies s' = replies s"
  using assms
proof (induction rule: onward.induct)
  case (later s s' ev e s'')
  then have s': "server_ok s'" "waiting s' = []" "replies s' = replies s" by simp_all
  then have "\<not> is_call ev" using later.hyps(2) by (auto simp: is_call_def)
  then show ?case using round_outcome [OF s'(1) later.hyps(2), of e] later.hyps(3) s' by auto
qed simp

text \<open>
  When the library refuses a request for a call, the server prints this and goes on
  waiting, but no further call is ever requested: from then on it answers none.
\<close>

theorem grpc_server_deaf:
  assumes "serving s" and "possible ev s" and "is_call ev" and "sv_request e \<noteq> GRPC_CALL_OK"
    and "server_round e ev (deliver ev s) = Inr (True, s1)" and "onward s1 s2"
  shows "serving s1 \<and> waiting s2 = [] \<and> replies s2 = replies s1"
proof -
  have ok: "server_ok s" by (rule serving_ok [OF assms(1)])
  have sv: "serving s1" by (rule goes_on [OF assms(1,2,5)])
  obtain t p where ev: "ev = EvCall t p" using assms(3) by (auto simp: is_call_def)
  then have t: "t \<in> set (waiting s)" using assms(2) by simp
  have "has_memory e" using round_outcome [OF ok assms(2), of e] assms(3,5) by (auto split: if_splits)
  then have m: "sv_buf e" "sv_tag e" "sv_next e" by (simp_all add: has_memory_def)
  obtain s' where s': "handle_new_call e t (deliver ev s) = Inr s'" "server_ok s'" "waiting s' = []" using handle_call_ok [OF ok t m(1,2), of p] ev by blast
  have "tags (deliver ev s) t = Some \<lparr>ttype = TAG_NEW_CALL, tcall = Some (next_call s), tpayload = p\<rparr>"
    using ok t ev by (auto simp: server_ok_def tags_ok_def Let_def)
  then have "request_new_call True (sv_request e) s' = Inr s1"
    using assms(5) s'(1) m(3) ev by (simp add: handle_tag_def get_tag_def bnd_eq_Inr del: deliver.simps)
  then have "waiting s1 = []" using request_ok [OF s'(2,3), of "sv_request e"] assms(4) by auto
  then show ?thesis using onward_ok [OF assms(6) serving_ok [OF sv]] sv by simp
qed

theorem grpc_server_deaf_witness:
  "\<exists>s1. server_round (demo_env\<lparr>sv_request := 8\<rparr>) (EvCall 0 None) (deliver (EvCall 0 None) demo_server) = Inr (True, s1) \<and> serving s1 \<and> waiting s1 = []"
proof -
  let ?e = "demo_env\<lparr>sv_request := 8\<rparr>" and ?ev = "EvCall 0 None"
  have p: "possible ?ev demo_server" "is_call ?ev" "sv_request ?e \<noteq> GRPC_CALL_OK" by (simp_all add: demo_server_def is_call_def grpc_values)
  obtain s1 where s1: "server_round ?e ?ev (deliver ?ev demo_server) = Inr (True, s1)"
    using round_outcome [OF serving_ok [OF demo_serving] p(1), of ?e] by (auto simp: has_memory_def demo_env_def)
  show ?thesis using grpc_server_deaf [OF demo_serving p s1 here] s1 by auto
qed

text \<open>
  When the loop has ended, the server returns 0 and gives back the queue, the server and the
  library. It keeps the credentials, which are never given back, and the call and the tag of
  every batch that had not been reported, because the events delivered while it shuts down are not looked at. If
  the queue was shut down from outside, it keeps the metadata and the tag of the requested call, too.
\<close>

theorem grpc_server_leaks:
  assumes "serving s" and "possible ev s" and "server_round e ev (deliver ev s) = Inr (False, s1)" and "GRPC_QUEUE_SHUTDOWN \<in> set events"
  shows "\<exists>s2. server_stop events s1 = Inr (0, s2) \<and> distinct (held s2) \<and>
    set (held s2) = {SCreds} \<union> SMetadata ` set (waiting s1) \<union> SCall ` call_of s1 ` set (finishing s1) \<and>
    dom (tags s2) = set (waiting s1) \<union> set (finishing s1) \<and> (waiting s1 = [] \<or> ev = EvShutdown)"
proof -
  have ok: "server_ok s" by (rule serving_ok [OF assms(1)])
  have "\<not> is_call ev" using round_outcome [OF ok assms(2), of e] assms(3) by (auto simp: is_call_def split: if_splits)
  then have ok1: "server_ok s1" and ev: "ev = EvShutdown \<or> (\<exists>t. ev = EvNoCall t)" using round_outcome [OF ok assms(2), of e] assms(3) by auto
  have w: "waiting s1 = [] \<or> ev = EvShutdown" using ev no_call_ok [OF ok, of _ e] assms(2,3) by fastforce
  have h: "{SRuntime, SCq, SServer} \<subseteq> set (held s1)" "distinct (held s1)" "\<not> busy s1" using ok1 by (auto simp: server_ok_def owned_objects_def)
  let ?s = "s1\<lparr>held := filter (\<lambda>r. r \<notin> {SCq, SServer, SRuntime}) (held s1)\<rparr>"
  have "server_stop events s1 = Inr (0, ?s)" using h release_all_held [of s1 "[SCq, SServer, SRuntime]"]
    by (simp add: server_stop_def drain_ends [OF assms(4)] del: release_all.simps)
  moreover have "set (held ?s) = {SCreds} \<union> SMetadata ` set (waiting s1) \<union> SCall ` call_of s1 ` set (finishing s1)"
    using ok1 by (auto simp: server_ok_def owned_objects_def)
  ultimately show ?thesis using h ok1 w by (auto simp: server_ok_def tags_ok_def)
qed

theorem grpc_server_leaks_witness:
  "\<exists>s1 s2. server_round demo_env (EvNoCall 0) (deliver (EvNoCall 0) demo_server) = Inr (False, s1) \<and> server_stop [2, 0] s1 = Inr (0, s2) \<and>
    set (held s2) = {SCreds} \<and> dom (tags s2) = {}"
proof -
  have p: "possible (EvNoCall 0) demo_server" by (simp add: demo_server_def)
  obtain s1 where s1: "server_round demo_env (EvNoCall 0) (deliver (EvNoCall 0) demo_server) = Inr (False, s1)" "waiting s1 = []" "finishing s1 = []"
    using no_call_ok [OF serving_ok [OF demo_serving], of 0 demo_env] by (auto simp: demo_server_def)
  have "GRPC_QUEUE_SHUTDOWN \<in> set [2, 0]" by (simp add: grpc_values)
  from grpc_server_leaks [OF demo_serving p s1(1) this] show ?thesis using s1 by auto
qed

end
