(* ===== verification/GrpcHello.thy ===== *)
theory GrpcHello
  imports GrpcClient GrpcServer
begin

text \<open>
  The gRPC client and the gRPC server together: what the client prints when the library carries the message of its
  batch to the server and the message of the server's batch back.
\<close>

definition generated_ok :: "client_env \<Rightarrow> server_env \<Rightarrow> bool" where
  "generated_ok c e \<longleftrightarrow> (\<forall>x. sv_unpack e (cl_pack c x) = Some (Some x)) \<and> (\<forall>x. cl_unpack c (sv_pack e x) = Some (Some x))"

text \<open>The client's side of a call that the library completes with the given message.\<close>

definition completes :: "client_env \<Rightarrow> bool" where
  "completes c \<longleftrightarrow> started c \<and> cl_event c = GRPC_OP_COMPLETE \<and> cl_success c \<and> cl_status c = GRPC_STATUS_OK \<and> cl_reader c \<and>
     GRPC_QUEUE_SHUTDOWN \<in> set (cl_drain c)"

text \<open>
  C28. If the generated functions read back what they write, a call of a client for a name, delivered to a waiting server, is
  answered with a message for which the client prints the greeting of that name, cut after 255
  characters; the client then has given back everything it owned, and the server waits for the next call.
\<close>

theorem hello_round_trip:
  assumes "generated_ok c e" and "completes c" and "serving s" and "t \<in> set (waiting s)"
    and "has_memory e" and "sv_reader e" and "sv_batch e = GRPC_CALL_OK" and "sv_request e = GRPC_CALL_OK"
  shows "\<exists>s' m s''. server_round e (EvCall t (Some (cl_pack c (client_name c)))) (deliver (EvCall t (Some (cl_pack c (client_name c)))) s) = Inr (True, s') \<and>
    replies s' = replies s @ [(next_call s, [SEND_INITIAL_METADATA, SEND_MESSAGE m, SEND_STATUS_FROM_SERVER GRPC_STATUS_OK])] \<and> waiting s' \<noteq> [] \<and>
    client_main (c\<lparr>cl_response := Some m\<rparr>) = Inr (0, s'') \<and> SEND_MESSAGE (cl_pack c (client_name c)) \<in> set (batch s'') \<and> held s'' = [] \<and>
    (''Response: %s'', [PStr (take 255 (''Hello, '' @ client_name c @ ''!''))]) \<in> set (out s'')"
proof -
  let ?p = "cl_pack c (client_name c)" and ?x = "response_msg (client_name c)"
  have ok: "server_ok s" by (rule serving_ok [OF assms(3)])
  have m: "sv_buf e" "sv_tag e" "sv_next e" using assms(5) by (simp_all add: has_memory_def)
  have "asked e (Some ?p) = client_name c" using assms(1,6) by (simp add: asked_def greeting_def generated_ok_def)
  then obtain s1 where s1: "handle_new_call e t (deliver (EvCall t (Some ?p)) s) = Inr s1" "server_ok s1" "waiting s1 = []"
    "replies s1 = replies s @ [(next_call s, [SEND_INITIAL_METADATA, SEND_MESSAGE (sv_pack e ?x), SEND_STATUS_FROM_SERVER GRPC_STATUS_OK])]"
    using handle_call_ok [OF ok assms(4) m(1,2), of "Some ?p"] assms(7) by (auto simp: answer_def)
  have "tags (deliver (EvCall t (Some ?p)) s) t = Some \<lparr>ttype = TAG_NEW_CALL, tcall = Some (next_call s), tpayload = Some ?p\<rparr>"
    using ok assms(4) by (auto simp: server_ok_def tags_ok_def Let_def)
  then obtain s' where s': "server_round e (EvCall t (Some ?p)) (deliver (EvCall t (Some ?p)) s) = Inr (True, s')" "waiting s' \<noteq> []" "replies s' = replies s1"
    using s1(1) request_ok [OF s1(2,3), of "sv_request e"] m(3) assms(8) by (auto simp: handle_tag_def get_tag_def simp del: deliver.simps)
  let ?c = "c\<lparr>cl_response := Some (sv_pack e ?x)\<rparr>"
  have u: "cl_unpack ?c (sv_pack e ?x) = Some (Some ?x)" using assms(1) by (simp add: generated_ok_def)
  then have "started ?c" "batch_ok ?c" "GRPC_QUEUE_SHUTDOWN \<in> set (cl_drain ?c)" "cl_response ?c = Some (sv_pack e ?x)" "client_name ?c = client_name c"
    using assms(2) by (simp_all add: completes_def started_def batch_ok_def reply_ok_def client_name_def)
  from client_run [OF this(1-4) u] this(5) s' s1(4) show ?thesis by (auto simp: response_msg_def)
qed

theorem hello_round_trip_witness:
  "\<exists>m s''. client_main (demo_client\<lparr>cl_response := Some m\<rparr>) = Inr (0, s'') \<and> held s'' = [] \<and> (''Response: %s'', [PStr ''Hello, Ann!'']) \<in> set (out s'')"
proof -
  have "unat (of_nat (of_char x) :: u8) = of_char x" for x :: char by (simp add: unat_of_nat)
  then have "map (\<lambda>b. char_of (unat b)) (map (\<lambda>c. of_nat (of_char c) :: u8) x) = x" for x :: string by (simp add: map_idI)
  then have g: "generated_ok demo_client demo_env" by (simp add: generated_ok_def demo_client_def demo_env_def)
  have "completes demo_client" "0 \<in> set (waiting demo_server)" "has_memory demo_env" "sv_reader demo_env" "sv_batch demo_env = GRPC_CALL_OK"
    "sv_request demo_env = GRPC_CALL_OK"
    by (simp_all add: completes_def started_def demo_client_def demo_server_def demo_env_def has_memory_def grpc_values)
  moreover have "client_name demo_client = ''Ann''" by (simp add: client_name_def demo_client_def)
  ultimately show ?thesis using hello_round_trip [OF g _ demo_serving, of 0] by auto
qed

end
