(* ===== verification/Uring.thy ===== *)
theory Uring
  imports Account
begin

text \<open>
  The program \<open>cmake/io_uring/main.c\<close>: it sets up a ring of requests, opens a file, submits one read of 4096 bytes, waits for its
  completion and prints what was read. The answers of the system calls and of \<open>liburing\<close> are a record.
\<close>

section \<open>The program\<close>

datatype uring_object = Ring | Fd

definition BUF_SIZE :: nat where
  "BUF_SIZE = 4096"

text \<open>
  The results of \<open>io_uring_queue_init\<close>, \<open>open\<close>, \<open>io_uring_get_sqe\<close> (whether it is not null), \<open>io_uring_submit\<close> and \<open>io_uring_wait_cqe\<close>, the result of the
  read, the contents of the buffer when it completes, and the texts of errors.
\<close>

record uring_env =
  queue_init :: int
  opened :: int
  sqe :: bool
  submit :: int
  wait_cqe :: int
  cqe_res :: int
  buffer :: string
  strerror :: "int \<Rightarrow> string"
  perror_text :: string

text \<open>
  \<open>printf\<close> with the conversion \<^verbatim>\<open>%.*s\<close>: at most \<open>n\<close> characters, up to a null character. If there is none among the characters of the array, it
  reads behind the array.
\<close>

definition bounded_text :: "nat \<Rightarrow> string \<Rightarrow> string result" where
  "bounded_text n s =
     (if n \<le> length s \<or> CHR 0x00 \<in> set s then Inr (takeWhile (\<lambda>c. c \<noteq> CHR 0x00) (take n s)) else Inl OutOfBounds)"

text \<open>The part of \<open>main\<close> after the read was submitted; a read in progress keeps the account busy.\<close>

definition uring_finish :: "uring_env \<Rightarrow> uring_object owner \<Rightarrow> (int \<times> uring_object owner) result" where
  "uring_finish e s =
     (if wait_cqe e < 0
      then bnd (release_all [Fd, Ring] (complain ''wait_cqe failed: %s'' [PStr (strerror e (- wait_cqe e))] s)) (\<lambda>s. Inr (1, s))
      else let s = s\<lparr>busy := False\<rparr>
           in bnd (if cqe_res e < 0
                   then Inr (complain ''Async read failed: %s'' [PStr (strerror e (- cqe_res e))] s)
                   else bnd (bounded_text (nat (cqe_res e)) (buffer e)) (\<lambda>t.
                        Inr (say ''%.*s'' [PStr t] (say ''Read %d bytes:'' [PInt (cqe_res e)] s)))) (\<lambda>s.
              bnd (release_all [Fd, Ring] s) (\<lambda>s. Inr (0, s))))"

definition uring_main :: "uring_env \<Rightarrow> uring_object owner \<Rightarrow> (int \<times> uring_object owner) result" where
  "uring_main e s =
     (if queue_init e < 0 then Inr (1, complain ''queue_init failed: %s'' [PStr (strerror e (- queue_init e))] s)
      else let s = acquire Ring s
           in if opened e < 0
              then bnd (release_all [Ring] (complain ''open: %s'' [PStr (perror_text e)] s)) (\<lambda>s. Inr (1, s))
              else let s = acquire Fd s
                   in if \<not> sqe e
                      then bnd (release_all [Fd, Ring] (complain ''get_sqe failed'' [] s)) (\<lambda>s. Inr (1, s))
                      else if submit e < 0
                      then bnd (release_all [Fd, Ring] (complain ''submit failed: %s'' [PStr (strerror e (- submit e))] s)) (\<lambda>s. Inr (1, s))
                      else uring_finish e (s\<lparr>busy := True\<rparr>))"

section \<open>What it owns and prints\<close>

text \<open>The read is in progress until its completion was waited for.\<close>

definition reads :: "uring_env \<Rightarrow> bool" where
  "reads e \<longleftrightarrow> 0 \<le> queue_init e \<and> 0 \<le> opened e \<and> sqe e \<and> 0 \<le> submit e"

text \<open>
  C40. On every path the program gives back the ring and the file exactly if it had got them, and nothing twice. It
  returns 1 and prints an error exactly if one of the steps up to the wait failed, and otherwise returns 0 and prints either the number of
  bytes read and their text or the error of the read. If waiting fails, ring and file are given back while the read into the
  buffer is still in progress. The array holds the bytes the read reports.
\<close>

theorem uring_gives_back:
  assumes "length (buffer e) = BUF_SIZE" and "cqe_res e \<le> int BUF_SIZE"
  shows "\<exists>r s. uring_main e no_account = Inr (r, s) \<and> held s = [] \<and> (r = 0 \<longleftrightarrow> reads e \<and> 0 \<le> wait_cqe e) \<and> (r = 0 \<or> r = 1 \<and> errs s \<noteq> [] \<and> out s = []) \<and>
    (r = 0 \<and> 0 \<le> cqe_res e \<longrightarrow> errs s = [] \<and>
      out s = [(''Read %d bytes:'', [PInt (cqe_res e)]), (''%.*s'', [PStr (takeWhile (\<lambda>c. c \<noteq> CHR 0x00) (take (nat (cqe_res e)) (buffer e)))])]) \<and>
    early s = (if reads e \<and> wait_cqe e < 0 then [Fd, Ring] else [])"
proof -
  have t: "bounded_text (nat (cqe_res e)) (buffer e) = Inr (takeWhile (\<lambda>c. c \<noteq> CHR 0x00) (take (nat (cqe_res e)) (buffer e)))"
    using assms by (auto simp: bounded_text_def)
  show ?thesis
    using t by (auto simp: uring_main_def uring_finish_def reads_def no_account_def acquire_def say_def complain_def release_def Let_def not_less)
qed

definition demo_uring :: uring_env where
  "demo_uring = \<lparr>queue_init = 0, opened = 3, sqe = True, submit = 1, wait_cqe = 0, cqe_res = 2, buffer = ''hi'' @ replicate 4094 (CHR ''x''),
     strerror = (\<lambda>_. ''error''), perror_text = ''error''\<rparr>"

theorem uring_gives_back_witness:
  "\<exists>s. uring_main demo_uring no_account = Inr (0, s) \<and> held s = [] \<and> out s = [(''Read %d bytes:'', [PInt 2]), (''%.*s'', [PStr ''hi''])]"
  using uring_gives_back [of demo_uring] by (auto simp: demo_uring_def reads_def BUF_SIZE_def)

end
