(* ===== verification/Mupdf.thy ===== *)
theory Mupdf
  imports Account
begin

text \<open>
  What \<open>mupdf/print_text.c\<close> and \<open>mupdf/replace_builtin.c\<close> have in common: \<open>main\<close> from the creation of the context on, and the loop over
  the pages. The library MuPDF is not part of the repository: whether its calls throw is an argument.
  A block of \<open>fz_try\<close> is left by an exception at the call that throws, without the calls behind it; a function that can throw
  returns whether it did not.
\<close>

section \<open>Objects and results of the library\<close>

datatype fz_object = Ctx | Doc | Page nat | Stext nat | Font | FontObj | EncodingName

type_synonym fz_account = "fz_object owner"

record fz_env =
  context_ok :: bool
  register_ok :: bool
  open_ok :: bool
  pages_of :: "int option"
  load_ok :: "nat \<Rightarrow> bool"
  save_ok :: bool
  error_text :: string

section \<open>The loop over the pages\<close>

text \<open>A page that was loaded is not given back when the handler throws.\<close>

fun page_loop :: "(nat \<Rightarrow> bool) \<Rightarrow> (nat \<Rightarrow> 'd \<times> fz_account \<Rightarrow> (bool \<times> 'd \<times> fz_account) result) \<Rightarrow> nat \<Rightarrow> nat \<Rightarrow> 'd \<times> fz_account \<Rightarrow> (bool \<times> 'd \<times> fz_account) result" where
  "page_loop load handle i 0 t = Inr (True, t)"
| "page_loop load handle i (Suc n) t =
     (if \<not> load i then Inr (False, t)
      else bnd (handle i (fst t, acquire (Page i) (snd t))) (\<lambda>(ok, d, s).
           if ok then bnd (release (Page i) s) (\<lambda>s. page_loop load handle (Suc i) n (d, s)) else Inr (False, d, s)))"

text \<open>Counting the pages, then the loop.\<close>

definition all_pages :: "fz_env \<Rightarrow> (nat \<Rightarrow> 'd \<times> fz_account \<Rightarrow> (bool \<times> 'd \<times> fz_account) result) \<Rightarrow> 'd \<times> fz_account \<Rightarrow> (bool \<times> 'd \<times> fz_account) result" where
  "all_pages e handle t = (case pages_of e of None \<Rightarrow> Inr (False, t) | Some n \<Rightarrow> page_loop (load_ok e) handle 0 (nat n) t)"

section \<open>The program around it\<close>

text \<open>An element of \<open>argv\<close> used as a name of a file: the element behind the last one is null, and there are no others.\<close>

definition file_arg :: "nat \<Rightarrow> nat \<Rightarrow> 'a result \<Rightarrow> 'a result" where
  "file_arg argc i k = (if i < argc then k else if i = argc then Inl NullDeref else Inl OutOfBounds)"

definition give_up_pdf :: "fz_env \<Rightarrow> string \<Rightarrow> fz_object list \<Rightarrow> 'd \<times> fz_account \<Rightarrow> (int \<times> 'd \<times> fz_account) result" where
  "give_up_pdf e msg rs t =
     bnd (release_all rs (say (msg @ [CHR 0x0A]) [] (complain ''error: %s'' [PStr (error_text e)] (snd t)))) (\<lambda>s. Inr (1, fst t, s))"

definition pdf_main :: "fz_env \<Rightarrow> nat \<Rightarrow> ('d \<times> fz_account \<Rightarrow> (bool \<times> 'd \<times> fz_account) result) \<Rightarrow> 'd \<times> fz_account \<Rightarrow> (int \<times> 'd \<times> fz_account) result" where
  "pdf_main e argc handle_pdf t =
     (if \<not> context_ok e then Inr (1, fst t, say (''cannot create mupdf context'' @ [CHR 0x0A]) [] (snd t))
      else let t = (fst t, acquire Ctx (snd t))
           in if \<not> register_ok e then give_up_pdf e ''cannot register document handlers'' [Ctx] t
              else file_arg argc 1 (
                   if \<not> open_ok e then give_up_pdf e ''cannot open document'' [Ctx] t
                   else bnd (handle_pdf (fst t, acquire Doc (snd t))) (\<lambda>(ok, d, s).
                        if \<not> ok then give_up_pdf e ''cannot count number of pages'' [Doc, Ctx] (d, s)
                        else file_arg argc 2 (
                             if \<not> save_ok e then give_up_pdf e ''cannot count number of pages'' [Doc, Ctx] (d, s)
                             else bnd (release_all [Doc, Ctx] s) (\<lambda>s. Inr (0, d, s))))))"

section \<open>Running the loop\<close>

text \<open>The first of the pages from \<open>i\<close> on that cannot be loaded or handled, or \<open>i + n\<close>.\<close>

definition first_bad :: "(nat \<Rightarrow> bool) \<Rightarrow> nat \<Rightarrow> nat \<Rightarrow> nat" where
  "first_bad good i n = i + length (takeWhile good [i..<i + n])"

lemma first_bad_Suc: "first_bad good i (Suc n) = (if good i then first_bad good (Suc i) n else i)"
proof -
  have "[i..<i + Suc n] = i # [Suc i..<Suc i + n]" by (simp add: upt_conv_Cons)
  then show ?thesis by (simp only: first_bad_def takeWhile.simps) simp
qed

lemma first_bad_bounds: "i \<le> first_bad good i n" "first_bad good i n \<le> i + n"
  using length_takeWhile_le [of good "[i..<i + n]"] by (simp_all add: first_bad_def)

lemma first_bad_all: "first_bad good i n = i + n \<longleftrightarrow> (\<forall>j. i \<le> j \<and> j < i + n \<longrightarrow> good j)"
proof -
  have "first_bad good i n = i + n \<longleftrightarrow> takeWhile good [i..<i + n] = [i..<i + n]"
    by (metis add_left_cancel add_diff_cancel_left' first_bad_def length_upt takeWhile_eq_take take_all_iff order_refl)
  then show ?thesis by (auto simp: takeWhile_eq_all_conv)
qed

text \<open>
  Handling page \<open>j\<close> throws unless \<open>fine j\<close>, prints \<open>T j\<close>, leaves the account as it was otherwise, and
  takes a document with \<open>P j\<close> to one with \<open>P (j + 1)\<close>.
\<close>

definition handles :: "(nat \<Rightarrow> 'd \<times> fz_account \<Rightarrow> (bool \<times> 'd \<times> fz_account) result) \<Rightarrow> (nat \<Rightarrow> bool) \<Rightarrow> (nat \<Rightarrow> (string \<times> printed list) list) \<Rightarrow>
    (nat \<Rightarrow> 'd \<Rightarrow> bool) \<Rightarrow> nat \<Rightarrow> bool" where
  "handles handle fine T P j \<longleftrightarrow> (\<forall>d s. P j d \<and> \<not> busy s \<longrightarrow> (\<exists>d' s'. handle j (d, s) = Inr (fine j, d', s') \<and> owner.held s' = owner.held s \<and>
     \<not> busy s' \<and> errs s' = errs s \<and> out s' = out s @ (if fine j then T j else []) \<and> (fine j \<longrightarrow> P (Suc j) d')))"

lemma handlesD:
  assumes "handles handle fine T P j" "P j d" "\<not> busy s"
  obtains d' s' where "handle j (d, s) = Inr (fine j, d', s')" "owner.held s' = owner.held s" "\<not> busy s'" "errs s' = errs s"
    "out s' = out s @ (if fine j then T j else [])" "fine j \<longrightarrow> P (Suc j) d'"
  using assms unfolding handles_def by blast

lemma page_loop_run:
  fixes load :: "nat \<Rightarrow> bool"
  assumes "\<And>j. i \<le> j \<Longrightarrow> j < i + n \<Longrightarrow> handles handle fine T P j" and "P i d" and "\<not> busy s"
  defines "b \<equiv> first_bad (\<lambda>j. load j \<and> fine j) i n"
  shows "\<exists>d' s'. page_loop load handle i n (d, s) = Inr (b = i + n, d', s') \<and> owner.held s' = (if b < i + n \<and> load b then [Page b] else []) @ owner.held s \<and>
    \<not> busy s' \<and> errs s' = errs s \<and> out s' = out s @ concat (map T [i..<b]) \<and> (b = i + n \<longrightarrow> P (i + n) d')"
  using assms(1-3) unfolding b_def
proof (induction n arbitrary: i d s)
  case 0
  then show ?case by (simp add: first_bad_def)
next
  case (Suc n)
  let ?g = "\<lambda>j. load j \<and> fine j" and ?s = "acquire (Page i) s"
  have hi: "handles handle fine T P i" and "\<not> busy ?s" using Suc.prems(1) [of i] Suc.prems(3) by simp_all
  from handlesD [OF hi Suc.prems(2) this(2)]
  obtain d1 s1 where h: "handle i (d, ?s) = Inr (fine i, d1, s1)" "owner.held s1 = Page i # owner.held s" "\<not> busy s1" "errs s1 = errs s"
    "out s1 = out s @ (if fine i then T i else [])" "fine i \<longrightarrow> P (Suc i) d1"
    by (metis owner_fields(1-3))
  show ?case
  proof (cases "?g i")
    case True
    let ?s1 = "s1\<lparr>owner.held := owner.held s\<rparr>" and ?b = "first_bad ?g (Suc i) n"
    have r: "release (Page i) s1 = Inr ?s1" using h(2,3) by (simp add: release_def)
    obtain d' s' where l: "page_loop load handle (Suc i) n (d1, ?s1) = Inr (?b = Suc i + n, d', s')"
      "owner.held s' = (if ?b < Suc i + n \<and> load ?b then [Page ?b] else []) @ owner.held ?s1" "\<not> busy s'" "errs s' = errs ?s1"
      "out s' = out ?s1 @ concat (map T [Suc i..<?b])" "?b = Suc i + n \<longrightarrow> P (Suc i + n) d'"
      using Suc.IH [of "Suc i" d1 ?s1] Suc.prems(1) h(3,6) True by (auto simp del: upt_Suc)
    have "[i..<?b] = i # [Suc i..<?b]" using first_bad_bounds(1) [of "Suc i" ?g n] by (simp add: upt_conv_Cons)
    then show ?thesis using True h r l by (auto simp: first_bad_Suc simp del: upt_Suc)
  next
    case False
    then show ?thesis using h Suc.prems(3) by (cases "load i") (auto simp: first_bad_Suc)
  qed
qed

section \<open>Ending\<close>

lemma pdf_main_done:
  assumes "context_ok e" "register_ok e" "open_ok e" "2 < argc"
    and "handle_pdf (d, acquire Doc (acquire Ctx s)) = Inr (ok, d', s')" and "\<not> busy s'" and "owner.held s' = ps @ [Doc, Ctx]" "distinct (ps @ [Doc, Ctx])"
  shows "\<exists>s''. pdf_main e argc handle_pdf (d, s) = Inr (if ok \<and> save_ok e then 0 else 1, d', s'') \<and> owner.held s'' = ps \<and>
    out s'' = out s' @ (if ok \<and> save_ok e then [] else [(''cannot count number of pages'' @ [CHR 0x0A], [])])"
proof -
  have "filter (\<lambda>r. r \<notin> set [Doc, Ctx]) (ps @ [Doc, Ctx]) = ps" using assms(8) by (auto simp: filter_id_conv)
  then have rel: "\<exists>s2. release_all [Doc, Ctx] s1 = Inr s2 \<and> owner.held s2 = ps \<and> out s2 = out s1"
    if "owner.held s1 = ps @ [Doc, Ctx]" "\<not> busy s1" for s1 :: fz_account
    using release_all_held [of s1 "[Doc, Ctx]"] that assms(8) by simp
  obtain s2 where s2: "release_all [Doc, Ctx] s' = Inr s2" "owner.held s2 = ps" "out s2 = out s'" using rel [of s'] assms(6,7) by blast
  let ?c = "say (''cannot count number of pages'' @ [CHR 0x0A]) [] (complain ''error: %s'' [PStr (error_text e)] s')"
  obtain s3 where s3: "release_all [Doc, Ctx] ?c = Inr s3" "owner.held s3 = ps" "out s3 = out ?c" using rel [of ?c] assms(6,7) by fastforce
  show ?thesis
  proof (cases "ok \<and> save_ok e")
    case True
    then show ?thesis using assms(1-5) s2 by (simp add: pdf_main_def file_arg_def Let_def del: release_all.simps)
  next
    case False
    then show ?thesis using assms(1-5) s3 by (cases ok) (simp_all add: pdf_main_def give_up_pdf_def file_arg_def Let_def del: release_all.simps)
  qed
qed

end
