(* ===== verification/PdfText.thy ===== *)
theory PdfText
  imports Mupdf
begin

text \<open>
  The program \<open>mupdf/print_text.c\<close>: it prints the text of every page and saves the document under another name. The library's view of a page is a
  list of blocks, and its conversion of a character to UTF-8 an argument.
\<close>

section \<open>The program\<close>

datatype stext_block = TextBlock "int list list" | OtherBlock

text \<open>A character is converted into an array of 8 bytes, with a null character behind it, and printed as a string.\<close>

definition print_char :: "(int \<Rightarrow> string) \<Rightarrow> int \<Rightarrow> fz_account \<Rightarrow> fz_account result" where
  "print_char runetochar c s =
     (let buf = runetochar c
      in if length buf < 8 then Inr (say ''%s'' [PStr (takeWhile (\<lambda>x. x \<noteq> CHR 0x00) buf)] s) else Inl OutOfBounds)"

fun print_text_line :: "(int \<Rightarrow> string) \<Rightarrow> int list \<Rightarrow> fz_account \<Rightarrow> fz_account result" where
  "print_text_line runetochar [] s = Inr s"
| "print_text_line runetochar (c # cs) s = bnd (print_char runetochar c s) (print_text_line runetochar cs)"

fun print_lines :: "(int \<Rightarrow> string) \<Rightarrow> int list list \<Rightarrow> fz_account \<Rightarrow> fz_account result" where
  "print_lines runetochar [] s = Inr s"
| "print_lines runetochar (l # ls) s = bnd (print_text_line runetochar l s) (print_lines runetochar ls)"

fun print_blocks :: "(int \<Rightarrow> string) \<Rightarrow> stext_block list \<Rightarrow> fz_account \<Rightarrow> fz_account result" where
  "print_blocks runetochar [] s = Inr s"
| "print_blocks runetochar (OtherBlock # bs) s = print_blocks runetochar bs s"
| "print_blocks runetochar (TextBlock ls # bs) s = bnd (print_lines runetochar ls s) (\<lambda>s. print_blocks runetochar bs (say [CHR 0x0A] [] s))"

text \<open>The blocks of page \<open>i\<close>, or none if making them throws.\<close>

definition handle_page :: "(int \<Rightarrow> string) \<Rightarrow> (nat \<Rightarrow> stext_block list option) \<Rightarrow> nat \<Rightarrow> unit \<times> fz_account \<Rightarrow> (bool \<times> unit \<times> fz_account) result" where
  "handle_page runetochar stext i t =
     (case stext i of None \<Rightarrow> Inr (False, t)
      | Some bs \<Rightarrow> bnd (print_blocks runetochar bs (acquire (Stext i) (snd t))) (\<lambda>s. bnd (release (Stext i) s) (\<lambda>s. Inr (True, (), s))))"

definition handle_pdf :: "fz_env \<Rightarrow> (int \<Rightarrow> string) \<Rightarrow> (nat \<Rightarrow> stext_block list option) \<Rightarrow> unit \<times> fz_account \<Rightarrow> (bool \<times> unit \<times> fz_account) result" where
  "handle_pdf e runetochar stext = all_pages e (handle_page runetochar stext)"

text \<open>The hint on the arguments, which the source gives in Chinese.\<close>

definition print_main :: "fz_env \<Rightarrow> (int \<Rightarrow> string) \<Rightarrow> (nat \<Rightarrow> stext_block list option) \<Rightarrow> string list \<Rightarrow> fz_account \<Rightarrow> (int \<times> unit \<times> fz_account) result" where
  "print_main e runetochar stext argv s =
     (if length argv < 3 then (case argv of [] \<Rightarrow> Inl NullDeref | a # _ \<Rightarrow> Inr (1, (), say ''usage: %s <source> <target>'' [PStr a] s))
      else pdf_main e (length argv) (handle_pdf e runetochar stext) ((), s))"

section \<open>What is printed\<close>

text \<open>The characters that the calls of \<open>printf\<close> write.\<close>

definition shown :: "string \<times> printed list \<Rightarrow> string" where
  "shown p = (case p of (f, [PStr t]) \<Rightarrow> if f = ''%s'' then t else f | (f, _) \<Rightarrow> f)"

definition char_text :: "(int \<Rightarrow> string) \<Rightarrow> int \<Rightarrow> string" where
  "char_text runetochar c = takeWhile (\<lambda>x. x \<noteq> CHR 0x00) (runetochar c)"

fun block_text :: "(int \<Rightarrow> string) \<Rightarrow> stext_block \<Rightarrow> string" where
  "block_text runetochar (TextBlock ls) = concat (map (char_text runetochar) (concat ls)) @ [CHR 0x0A]"
| "block_text runetochar OtherBlock = []"

definition page_text :: "(int \<Rightarrow> string) \<Rightarrow> stext_block list \<Rightarrow> string" where
  "page_text runetochar bs = concat (map (block_text runetochar) bs)"

text \<open>The conversion writes fewer than 8 bytes; UTF-8 needs at most 4.\<close>

definition short_codes :: "(int \<Rightarrow> string) \<Rightarrow> bool" where
  "short_codes runetochar \<longleftrightarrow> (\<forall>c. length (runetochar c) < 8)"

definition char_calls :: "(int \<Rightarrow> string) \<Rightarrow> int list \<Rightarrow> (string \<times> printed list) list" where
  "char_calls runetochar = map (\<lambda>c. (''%s'', [PStr (char_text runetochar c)]))"

fun block_calls :: "(int \<Rightarrow> string) \<Rightarrow> stext_block \<Rightarrow> (string \<times> printed list) list" where
  "block_calls runetochar (TextBlock ls) = char_calls runetochar (concat ls) @ [([CHR 0x0A], [])]"
| "block_calls runetochar OtherBlock = []"

lemma print_text_line_calls: "short_codes runetochar \<Longrightarrow> print_text_line runetochar cs s = Inr (s\<lparr>out := out s @ char_calls runetochar cs\<rparr>)"
  by (induction cs arbitrary: s) (simp_all add: print_char_def short_codes_def char_calls_def char_text_def say_def)

lemma print_lines_calls: "short_codes runetochar \<Longrightarrow> print_lines runetochar ls s = Inr (s\<lparr>out := out s @ char_calls runetochar (concat ls)\<rparr>)"
  by (induction ls arbitrary: s) (simp_all add: print_text_line_calls, simp_all add: char_calls_def)

lemma print_blocks_calls: "short_codes runetochar \<Longrightarrow> print_blocks runetochar bs s = Inr (s\<lparr>out := out s @ concat (map (block_calls runetochar) bs)\<rparr>)"
proof (induction bs arbitrary: s)
  case (Cons b bs)
  then show ?case by (cases b) (simp_all add: print_lines_calls say_def)
qed simp

lemma shown_calls: "concat (map shown (block_calls runetochar b)) = block_text runetochar b"
  by (cases b) (simp_all add: char_calls_def shown_def o_def)

lemma shown_page: "concat (map shown (concat (map (block_calls runetochar) bs))) = page_text runetochar bs"
  by (induction bs) (simp_all add: page_text_def shown_calls)

section \<open>The result\<close>

abbreviation page_calls :: "(int \<Rightarrow> string) \<Rightarrow> (nat \<Rightarrow> stext_block list option) \<Rightarrow> nat \<Rightarrow> (string \<times> printed list) list" where
  "page_calls runetochar stext i \<equiv> concat (map (block_calls runetochar) (the (stext i)))"

lemma shown_pages: "concat (map shown (concat (map (page_calls runetochar stext) is))) = concat (map (\<lambda>i. page_text runetochar (the (stext i))) is)"
  by (induction "is") (simp_all add: shown_page)

lemma handle_page_handles:
  assumes "short_codes runetochar"
  shows "handles (handle_page runetochar stext) (\<lambda>i. stext i \<noteq> None) (page_calls runetochar stext) (\<lambda>_ _. True) i"
  using assms by (auto simp: handles_def handle_page_def print_blocks_calls acquire_def release_def split: option.split)

definition page_ok :: "fz_env \<Rightarrow> (nat \<Rightarrow> stext_block list option) \<Rightarrow> nat \<Rightarrow> bool" where
  "page_ok e stext i \<longleftrightarrow> load_ok e i \<and> stext i \<noteq> None"

text \<open>
  C36. Once the document is open and its pages are counted, the program prints the text of the pages, block by block, up to the first
  page that cannot be loaded or read, and nothing of other blocks. It returns success exactly if there is no such page and the document could be saved. A page that was
  loaded but not read is never given back, everything else is; and whatever failed, the message says that the pages could not be
  counted. The conversion of a character writes fewer than 8 bytes.
\<close>

theorem print_text_result:
  assumes "short_codes runetochar" and "length argv = 3" and "context_ok e" "register_ok e" "open_ok e" and "pages_of e = Some (int n)"
  shows "\<exists>s. print_main e runetochar stext argv no_account =
      Inr (if (\<forall>i < n. page_ok e stext i) \<and> save_ok e then 0 else 1, (), s) \<and>
    (let b = first_bad (page_ok e stext) 0 n
     in concat (map shown (out s)) = concat (map (\<lambda>i. page_text runetochar (the (stext i))) [0..<b]) @
          (if b = n \<and> save_ok e then [] else ''cannot count number of pages'' @ [CHR 0x0A]) \<and>
        owner.held s = (if b < n \<and> load_ok e b then [Page b] else []))"
proof -
  let ?s = "acquire Doc (acquire Ctx no_account)" and ?b = "first_bad (page_ok e stext) 0 n"
  have g: "(\<lambda>j. load_ok e j \<and> stext j \<noteq> None) = page_ok e stext" by (auto simp: page_ok_def)
  have "\<not> busy ?s" by (simp add: no_account_def)
  then obtain s' where l: "page_loop (load_ok e) (handle_page runetochar stext) 0 n ((), ?s) = Inr (?b = n, (), s')"
    "owner.held s' = (if ?b < n \<and> load_ok e ?b then [Page ?b] else []) @ [Doc, Ctx]" "\<not> busy s'"
    "out s' = concat (map (page_calls runetochar stext) [0..<?b])"
    using page_loop_run [where load = "load_ok e" and i = 0 and n = n and d = "()" and s = ?s, OF handle_page_handles [OF assms(1), of stext], unfolded g]
    by (auto simp: no_account_def)
  have h: "handle_pdf e runetochar stext ((), ?s) = Inr (?b = n, (), s')" using l(1) assms(6) by (simp add: handle_pdf_def all_pages_def)
  have "2 < length argv" using assms(2) by simp
  moreover have "distinct ((if ?b < n \<and> load_ok e ?b then [Page ?b] else []) @ [Doc, Ctx])" by simp
  ultimately obtain s'' where m: "pdf_main e (length argv) (handle_pdf e runetochar stext) ((), no_account) = Inr (if ?b = n \<and> save_ok e then 0 else 1, (), s'')"
    "owner.held s'' = (if ?b < n \<and> load_ok e ?b then [Page ?b] else [])"
    "out s'' = out s' @ (if ?b = n \<and> save_ok e then [] else [(''cannot count number of pages'' @ [CHR 0x0A], [])])"
    using pdf_main_done [OF assms(3-5), where argc = "length argv" and handle_pdf = "handle_pdf e runetochar stext" and d = "()" and s = no_account and ps = "if ?b < n \<and> load_ok e ?b then [Page ?b] else []", OF _ h l(3,2)]
    by blast
  have "concat (map shown (out s')) = concat (map (\<lambda>i. page_text runetochar (the (stext i))) [0..<?b])"
    unfolding l(4) by (rule shown_pages)
  then show ?thesis using m assms(2) first_bad_all [of "page_ok e stext" 0 n] by (simp add: print_main_def shown_def Let_def)
qed

definition demo_pdf :: fz_env where
  "demo_pdf = \<lparr>context_ok = True, register_ok = True, open_ok = True, pages_of = Some 2, load_ok = (\<lambda>_. True), save_ok = True, error_text = ''damaged''\<rparr>"

definition demo_stext :: "nat \<Rightarrow> stext_block list option" where
  "demo_stext i = (if i = 0 then Some [TextBlock [[72], [105]], OtherBlock] else None)"

theorem print_text_result_witness:
  "\<exists>s. print_main demo_pdf (\<lambda>c. [char_of (nat c)]) demo_stext [''print_text'', ''a.pdf'', ''b.pdf''] no_account = Inr (1, (), s) \<and> owner.held s = [Page 1] \<and>
    concat (map shown (out s)) = ''Hi'' @ [CHR 0x0A] @ ''cannot count number of pages'' @ [CHR 0x0A]"
proof -
  have b: "first_bad (page_ok demo_pdf demo_stext) 0 2 = 1" by (simp add: first_bad_def page_ok_def demo_pdf_def demo_stext_def upt_rec)
  have "\<not> (\<forall>i < 2. page_ok demo_pdf demo_stext i)" by (auto simp: page_ok_def demo_stext_def intro: exI [of _ 1])
  moreover have e: "context_ok demo_pdf" "register_ok demo_pdf" "open_ok demo_pdf" "pages_of demo_pdf = Some (int 2)" "load_ok demo_pdf 1" by (simp_all add: demo_pdf_def)
  moreover have "short_codes (\<lambda>c. [char_of (nat c)])" "length [''print_text'', ''a.pdf'', ''b.pdf''] = 3" by (simp_all add: short_codes_def)
  moreover have "page_text (\<lambda>c. [char_of (nat c)]) (the (demo_stext 0)) = ''Hi'' @ [CHR 0x0A]" by (simp add: demo_stext_def page_text_def char_text_def char_of_def bit_0)
  ultimately show ?thesis
    using print_text_result [of "\<lambda>c. [char_of (nat c)]" "[''print_text'', ''a.pdf'', ''b.pdf'']" demo_pdf 2 demo_stext] b by (auto simp: Let_def)
qed

end
