(* ===== verification/PdfFont.thy ===== *)
theory PdfFont
  imports Mupdf
begin

text \<open>
  The program \<open>mupdf/replace_builtin.c\<close>: in the fonts of every page, those in the encoding \<open>WinAnsiEncoding\<close> whose names begin with the GBK code of
  one of three Chinese fonts are replaced by one built-in font. The document and its objects belong to the library; what the program calls of it is a record.
\<close>

section \<open>The library\<close>

text \<open>
  The functions on a document \<open>'d\<close> and pointers \<open>'o\<close> to its objects. Storing an entry may throw. \<open>resolved\<close> is not called: it tells
  which object a pointer stands for, directly or through references.
\<close>

record ('d, 'o) pdf_lib =
  null :: 'o
  page_resources :: "'d \<Rightarrow> nat \<Rightarrow> 'o"
  is_dict :: "'d \<Rightarrow> 'o \<Rightarrow> bool"
  is_name :: "'d \<Rightarrow> 'o \<Rightarrow> bool"
  to_name :: "'d \<Rightarrow> 'o \<Rightarrow> string"
  dict_len :: "'d \<Rightarrow> 'o \<Rightarrow> nat"
  dict_get_key :: "'d \<Rightarrow> 'o \<Rightarrow> nat \<Rightarrow> 'o"
  dict_gets :: "'d \<Rightarrow> 'o \<Rightarrow> string \<Rightarrow> 'o"
  dict_puts :: "'d \<Rightarrow> 'o \<Rightarrow> string \<Rightarrow> 'o \<Rightarrow> 'd option"
  resolved :: "'d \<Rightarrow> 'o \<Rightarrow> 'o"

text \<open>The results of the calls that make the built-in font; none where one throws.\<close>

record ('d, 'o) font_env =
  new_cjk_font :: bool
  add_cjk_font :: "'d \<Rightarrow> ('o \<times> 'd) option"
  new_name :: "'d \<Rightarrow> string \<Rightarrow> ('o \<times> 'd) option"

section \<open>The program\<close>

text \<open>The four bytes at the start of a name, read as a number with the least significant byte first; the name ends with a null character.\<close>

definition name_word :: "string \<Rightarrow> u32 result" where
  "name_word name =
     (let b = map of_char (name @ [CHR 0x00])
      in if length b < 4 then Inl OutOfBounds else Inr (of_nat (b ! 0 + 2 ^ 8 * b ! 1 + 2 ^ 16 * b ! 2 + 2 ^ 24 * b ! 3)))"

definition builtin_words :: "u32 list" where
  "builtin_words = [0xe5cccecb, 0xe5ccdaba, 0xe5ccacbf]"

text \<open>The body of the loop over the entries of the dictionary of fonts.\<close>

definition handle_font :: "('d, 'o) pdf_lib \<Rightarrow> 'o \<Rightarrow> 'o \<Rightarrow> nat \<Rightarrow> 'd \<Rightarrow> (bool \<times> 'd) result" where
  "handle_font L font_obj fonts j d =
     (let key = to_name L d (dict_get_key L d fonts j); font = dict_gets L d fonts key
      in if \<not> is_dict L d font then Inr (True, d)
         else if to_name L d (dict_gets L d font ''Encoding'') \<noteq> ''WinAnsiEncoding'' then Inr (True, d)
         else let bf = dict_gets L d font ''BaseFont''
              in if bf = null L \<or> \<not> is_name L d bf then Inr (True, d)
                 else bnd (name_word (to_name L d bf)) (\<lambda>v.
                      if v \<in> set builtin_words
                      then (case dict_puts L d fonts key font_obj of None \<Rightarrow> Inr (False, d) | Some d \<Rightarrow> Inr (True, d))
                      else Inr (True, d)))"

fun font_loop :: "('d, 'o) pdf_lib \<Rightarrow> 'o \<Rightarrow> 'o \<Rightarrow> nat \<Rightarrow> nat \<Rightarrow> 'd \<Rightarrow> (bool \<times> 'd) result" where
  "font_loop L font_obj fonts j 0 d = Inr (True, d)"
| "font_loop L font_obj fonts j (Suc n) d =
     bnd (handle_font L font_obj fonts j d) (\<lambda>(ok, d). if ok then font_loop L font_obj fonts (Suc j) n d else Inr (False, d))"

definition replace_page :: "('d, 'o) pdf_lib \<Rightarrow> 'o \<Rightarrow> nat \<Rightarrow> 'd \<Rightarrow> (bool \<times> 'd) result" where
  "replace_page L font_obj i d =
     (let resources = page_resources L d i
      in if resources \<noteq> null L \<and> is_dict L d resources
         then let fonts = dict_gets L d resources ''Font''
              in if fonts \<noteq> null L \<and> is_dict L d fonts then font_loop L font_obj fonts 0 (dict_len L d fonts) d else Inr (True, d)
         else Inr (True, d))"

text \<open>The three objects made here are never given back.\<close>

definition build_ckj_font :: "('d, 'o) pdf_lib \<Rightarrow> ('d, 'o) font_env \<Rightarrow> 'd \<times> fz_account \<Rightarrow> 'o option \<times> 'd \<times> fz_account" where
  "build_ckj_font L f t =
     (case t of (d, s) \<Rightarrow>
      if \<not> new_cjk_font f then (None, d, s)
      else let s = acquire Font s
           in case add_cjk_font f d of None \<Rightarrow> (None, d, s)
           | Some (font_obj, d) \<Rightarrow>
               let s = acquire FontObj s
               in case new_name f d ''GBK-EUC-H'' of None \<Rightarrow> (None, d, s)
               | Some (enc, d) \<Rightarrow>
                   let s = acquire EncodingName s
                   in case dict_puts L d font_obj ''Encoding'' enc of None \<Rightarrow> (None, d, s) | Some d \<Rightarrow> (Some font_obj, d, s))"

definition replace_pdf :: "fz_env \<Rightarrow> ('d, 'o) pdf_lib \<Rightarrow> ('d, 'o) font_env \<Rightarrow> 'd \<times> fz_account \<Rightarrow> (bool \<times> 'd \<times> fz_account) result" where
  "replace_pdf e L f t =
     (case build_ckj_font L f t of
        (None, t) \<Rightarrow> Inr (False, t)
      | (Some font_obj, t) \<Rightarrow> all_pages e (\<lambda>i (d, s). bnd (replace_page L font_obj i d) (\<lambda>(ok, d). Inr (ok, d, s))) t)"

definition replace_main :: "fz_env \<Rightarrow> ('d, 'o) pdf_lib \<Rightarrow> ('d, 'o) font_env \<Rightarrow> nat \<Rightarrow> 'd \<times> fz_account \<Rightarrow> (int \<times> 'd \<times> fz_account) result" where
  "replace_main e L f argc t = pdf_main e argc (replace_pdf e L f) t"

section \<open>Recognising a font by its name\<close>

text \<open>The codes of the three names in GBK.\<close>

definition gbk_names :: "string list" where
  "gbk_names = map (map char_of) [[0xcb, 0xce, 0xcc, 0xe5], [0xba, 0xda, 0xcc, 0xe5], [0xbf, 0xac, 0xcc, 0xe5 :: nat]]"

definition names_builtin :: "string \<Rightarrow> bool" where
  "names_builtin name \<longleftrightarrow> (\<exists>p \<in> set gbk_names. take 4 name = p)"

lemma of_nat_u32_eq: "x < 2 ^ 32 \<Longrightarrow> y < 2 ^ 32 \<Longrightarrow> (of_nat x :: u32) = of_nat y \<longleftrightarrow> x = y"
proof -
  assume "x < 2 ^ 32" "y < 2 ^ 32"
  then have "unat (of_nat x :: u32) = x" "unat (of_nat y :: u32) = y" by (simp_all add: unat_of_nat take_bit_nat_eq_self_iff)
  then show ?thesis by metis
qed

lemma digit_eq: "a < 256 \<Longrightarrow> b < 256 \<Longrightarrow> a + 256 * x = b + 256 * y \<longleftrightarrow> a = b \<and> x = (y :: nat)"
proof -
  assume "a < 256" "b < 256"
  then have "(a + 256 * x) mod 256 = a" "(a + 256 * x) div 256 = x" "(b + 256 * y) mod 256 = b" "(b + 256 * y) div 256 = y" by simp_all
  then show ?thesis by metis
qed

lemma four_bytes:
  fixes a b c d a' b' c' d' :: nat
  assumes "a < 256" "b < 256" "c < 256" "d < 256" "a' < 256" "b' < 256" "c' < 256" "d' < 256"
  shows "(of_nat (a + 2 ^ 8 * b + 2 ^ 16 * c + 2 ^ 24 * d) :: u32) = of_nat (a' + 2 ^ 8 * b' + 2 ^ 16 * c' + 2 ^ 24 * d') \<longleftrightarrow>
    a = a' \<and> b = b' \<and> c = c' \<and> d = d'"
proof -
  have "a + 2 ^ 8 * b + 2 ^ 16 * c + 2 ^ 24 * d < 2 ^ 32" "a' + 2 ^ 8 * b' + 2 ^ 16 * c' + 2 ^ 24 * d' < 2 ^ 32" using assms by simp_all
  moreover have "a + 256 * b + 65536 * c + 16777216 * d = a' + 256 * b' + 65536 * c' + 16777216 * d' \<longleftrightarrow> a = a' \<and> b = b' \<and> c = c' \<and> d = d'"
  proof -
    have "a + 256 * b + 65536 * c + 16777216 * d = a + 256 * (b + 256 * (c + 256 * d))" for a b c d :: nat by simp
    then show ?thesis using assms by (simp only: digit_eq)
  qed
  ultimately show ?thesis by (subst of_nat_u32_eq) simp_all
qed

lemma builtin_words_bytes:
  "builtin_words = map (\<lambda>b. of_nat (b ! 0 + 2 ^ 8 * b ! 1 + 2 ^ 16 * b ! 2 + 2 ^ 24 * b ! 3))
    [[0xcb, 0xce, 0xcc, 0xe5], [0xba, 0xda, 0xcc, 0xe5], [0xbf, 0xac, 0xcc, 0xe5]]"
  by (simp add: builtin_words_def)

lemma of_char_small: "(of_char c :: nat) < 256"
  using of_char_mod_256 [of c, where 'a = nat] by (metis mod_less_divisor zero_less_numeral)

lemma char_is: "n < 256 \<Longrightarrow> c = char_of (n :: nat) \<longleftrightarrow> of_char c = n"
  by (auto simp: of_char_of)

lemma name_word_builtin:
  assumes "3 \<le> length name"
  obtains v where "name_word name = Inr v" "v \<in> set builtin_words \<longleftrightarrow> names_builtin name"
proof -
  obtain a b c r where n: "name = a # b # c # r" using assms by (auto simp: Suc_le_length_iff numeral_eq_Suc)
  define x :: nat where "x = (case r of [] \<Rightarrow> 0 | y # _ \<Rightarrow> of_char y)"
  define v :: u32 where "v = of_nat (of_char a + 2 ^ 8 * of_char b + 2 ^ 16 * of_char c + 2 ^ 24 * x)"
  have x: "x < 256" by (simp add: x_def of_char_small split: list.split)
  have w: "name_word name = Inr v" by (cases r) (simp_all add: name_word_def n v_def x_def)
  have m: "v = of_nat (p + 2 ^ 8 * q + 2 ^ 16 * t + 2 ^ 24 * u) \<longleftrightarrow> take 4 name = map char_of [p, q, t, u]"
    if "p < 256" "q < 256" "t < 256" "0 < u" "u < 256" for p q t u :: nat
    using that x unfolding v_def
    by (subst four_bytes) (auto simp: of_char_small n char_is x_def take_Cons' split: list.splits)
  show ?thesis
  proof (rule that [OF w])
    show "v \<in> set builtin_words \<longleftrightarrow> names_builtin name"
      unfolding builtin_words_bytes names_builtin_def gbk_names_def
      using m [of "0xcb" "0xce" "0xcc" "0xe5"] m [of "0xba" "0xda" "0xcc" "0xe5"] m [of "0xbf" "0xac" "0xcc" "0xe5"] by simp
  qed
qed

section \<open>What the program relies on\<close>

text \<open>A font that is to be replaced, and one whose name is looked at.\<close>

definition ansi_named :: "('d, 'o) pdf_lib \<Rightarrow> 'd \<Rightarrow> 'o \<Rightarrow> bool" where
  "ansi_named L d font \<longleftrightarrow> is_dict L d font \<and> to_name L d (dict_gets L d font ''Encoding'') = ''WinAnsiEncoding'' \<and>
     dict_gets L d font ''BaseFont'' \<noteq> null L \<and> is_name L d (dict_gets L d font ''BaseFont'')"

definition wanted :: "('d, 'o) pdf_lib \<Rightarrow> 'd \<Rightarrow> 'o \<Rightarrow> bool" where
  "wanted L d font \<longleftrightarrow> ansi_named L d font \<and> names_builtin (to_name L d (dict_gets L d font ''BaseFont''))"

definition same_shape :: "('d, 'o) pdf_lib \<Rightarrow> 'd \<Rightarrow> 'd \<Rightarrow> bool" where
  "same_shape L d d' \<longleftrightarrow> is_dict L d' = is_dict L d \<and> is_name L d' = is_name L d \<and> to_name L d' = to_name L d \<and> dict_len L d' = dict_len L d \<and>
     dict_get_key L d' = dict_get_key L d \<and> page_resources L d' = page_resources L d \<and> resolved L d' = resolved L d"

definition replaced :: "('d, 'o) pdf_lib \<Rightarrow> 'd \<Rightarrow> 'o \<Rightarrow> string \<Rightarrow> 'o \<Rightarrow> 'd \<Rightarrow> bool" where
  "replaced L d x k v d' \<longleftrightarrow> same_shape L d d' \<and>
     (\<forall>y l. dict_gets L d' y l = (if resolved L d y = resolved L d x \<and> l = k then v else dict_gets L d y l))"

text \<open>
  Null is no dictionary; pointers to the same object have the same entries; an entry of a dictionary can be replaced, and replacing it
  changes that entry and nothing else.
\<close>

definition dict_laws :: "('d, 'o) pdf_lib \<Rightarrow> bool" where
  "dict_laws L \<longleftrightarrow> (\<forall>d. \<not> is_dict L d (null L)) \<and> (\<forall>d o1 o2. resolved L d o1 = resolved L d o2 \<longrightarrow> dict_gets L d o1 = dict_gets L d o2) \<and>
     (\<forall>d x k v. is_dict L d x \<and> dict_gets L d x k \<noteq> null L \<longrightarrow> (\<exists>d'. dict_puts L d x k v = Some d' \<and> replaced L d x k v d'))"

lemma dict_laws_null: "dict_laws L \<Longrightarrow> \<not> is_dict L d (null L)"
  by (simp add: dict_laws_def)

lemma dict_laws_alias: "dict_laws L \<Longrightarrow> resolved L d x = resolved L d y \<Longrightarrow> dict_gets L d x k = dict_gets L d y k"
  unfolding dict_laws_def by metis

lemma dict_laws_puts:
  "dict_laws L \<Longrightarrow> is_dict L d x \<Longrightarrow> dict_gets L d x k \<noteq> null L \<Longrightarrow> \<exists>d'. dict_puts L d x k v = Some d' \<and> replaced L d x k v d'"
  unfolding dict_laws_def by blast

lemma replaced_gets:
  "replaced L d x k v d' \<Longrightarrow> dict_gets L d' y l = (if resolved L d y = resolved L d x \<and> l = k then v else dict_gets L d y l)"
  unfolding replaced_def by blast

definition fonts_of :: "('d, 'o) pdf_lib \<Rightarrow> 'd \<Rightarrow> nat \<Rightarrow> 'o" where
  "fonts_of L d i = dict_gets L d (page_resources L d i) ''Font''"

definition has_fonts :: "('d, 'o) pdf_lib \<Rightarrow> 'd \<Rightarrow> nat \<Rightarrow> bool" where
  "has_fonts L d i \<longleftrightarrow> page_resources L d i \<noteq> null L \<and> is_dict L d (page_resources L d i) \<and> fonts_of L d i \<noteq> null L \<and> is_dict L d (fonts_of L d i)"

definition font_key :: "('d, 'o) pdf_lib \<Rightarrow> 'd \<Rightarrow> nat \<Rightarrow> nat \<Rightarrow> string" where
  "font_key L d i j = to_name L d (dict_get_key L d (fonts_of L d i) j)"

definition font_dicts :: "('d, 'o) pdf_lib \<Rightarrow> 'd \<Rightarrow> nat \<Rightarrow> 'o set" where
  "font_dicts L d n = {resolved L d (fonts_of L d i) |i. i < n \<and> has_fonts L d i}"

text \<open>No dictionary of fonts is at once the resources of a page, or a font, or the new font.\<close>

definition levels :: "('d, 'o) pdf_lib \<Rightarrow> 'o \<Rightarrow> 'd \<Rightarrow> nat \<Rightarrow> bool" where
  "levels L font_obj d n \<longleftrightarrow> resolved L d font_obj \<notin> font_dicts L d n \<and>
     (\<forall>i < n. resolved L d (page_resources L d i) \<notin> font_dicts L d n \<and> (has_fonts L d i \<longrightarrow> (\<forall>k. resolved L d (dict_gets L d (fonts_of L d i) k) \<notin> font_dicts L d n)))"

text \<open>The names looked at have at least three bytes.\<close>

definition long_names :: "('d, 'o) pdf_lib \<Rightarrow> 'd \<Rightarrow> nat \<Rightarrow> bool" where
  "long_names L d n \<longleftrightarrow> (\<forall>i < n. has_fonts L d i \<longrightarrow> (\<forall>k. let font = dict_gets L d (fonts_of L d i) k
     in ansi_named L d font \<longrightarrow> 3 \<le> length (to_name L d (dict_gets L d font ''BaseFont''))))"

section \<open>One dictionary of fonts\<close>

text \<open>The document on the way: an entry is as it was in \<open>d0\<close>, or was wanted and is the new font.\<close>

definition on_the_way :: "('d, 'o) pdf_lib \<Rightarrow> 'o \<Rightarrow> 'o set \<Rightarrow> 'd \<Rightarrow> 'd \<Rightarrow> bool" where
  "on_the_way L font_obj F d0 d \<longleftrightarrow> same_shape L d0 d \<and>
     (\<forall>x k. dict_gets L d x k = dict_gets L d0 x k \<or> resolved L d0 x \<in> F \<and> dict_gets L d x k = font_obj \<and> wanted L d0 (dict_gets L d0 x k))"

lemma on_the_way_start: "on_the_way L font_obj F d d"
  by (simp add: on_the_way_def same_shape_def)

lemma on_the_way_outside: "on_the_way L font_obj F d0 d \<Longrightarrow> resolved L d0 x \<notin> F \<Longrightarrow> dict_gets L d x k = dict_gets L d0 x k"
  by (auto simp: on_the_way_def)

lemma on_the_way_wanted:
  assumes "on_the_way L font_obj F d0 d" and "resolved L d0 x \<notin> F"
  shows "ansi_named L d x = ansi_named L d0 x" and "wanted L d x = wanted L d0 x"
  using assms(1) on_the_way_outside [OF assms] by (simp_all add: wanted_def ansi_named_def on_the_way_def same_shape_def)

lemma handle_font_cases:
  assumes "dict_laws L" and "font = dict_gets L d fonts key" and "key = to_name L d (dict_get_key L d fonts j)"
    and "ansi_named L d font \<Longrightarrow> 3 \<le> length (to_name L d (dict_gets L d font ''BaseFont''))"
  shows "handle_font L font_obj fonts j d =
    (if wanted L d font then (case dict_puts L d fonts key font_obj of None \<Rightarrow> Inr (False, d) | Some d \<Rightarrow> Inr (True, d)) else Inr (True, d))"
proof (cases "ansi_named L d font")
  case True
  obtain v where "name_word (to_name L d (dict_gets L d font ''BaseFont'')) = Inr v"
    "v \<in> set builtin_words \<longleftrightarrow> names_builtin (to_name L d (dict_gets L d font ''BaseFont''))" using name_word_builtin [OF assms(4) [OF True]] by blast
  then show ?thesis using True assms(2,3) by (simp add: handle_font_def ansi_named_def wanted_def)
next
  case False
  then show ?thesis using assms(2,3) by (auto simp: handle_font_def ansi_named_def wanted_def Let_def)
qed

text \<open>What is asked of the dictionary of fonts.\<close>

definition replaceable :: "('d, 'o) pdf_lib \<Rightarrow> 'o \<Rightarrow> 'o set \<Rightarrow> 'd \<Rightarrow> 'o \<Rightarrow> bool" where
  "replaceable L font_obj F d fonts \<longleftrightarrow> dict_laws L \<and> \<not> ansi_named L d font_obj \<and> resolved L d font_obj \<notin> F \<and> is_dict L d fonts \<and> resolved L d fonts \<in> F \<and>
     (\<forall>k. resolved L d (dict_gets L d fonts k) \<notin> F \<and>
       (ansi_named L d (dict_gets L d fonts k) \<longrightarrow> 3 \<le> length (to_name L d (dict_gets L d (dict_gets L d fonts k) ''BaseFont''))))"

definition keeps_new :: "('d, 'o) pdf_lib \<Rightarrow> 'o \<Rightarrow> 'd \<Rightarrow> 'd \<Rightarrow> bool" where
  "keeps_new L font_obj d d' \<longleftrightarrow> (\<forall>x k. dict_gets L d x k = font_obj \<longrightarrow> dict_gets L d' x k = font_obj)"

lemma handle_font_step:
  assumes r: "replaceable L font_obj F d0 fonts" and w: "on_the_way L font_obj F d0 d"
    and k: "key = to_name L d0 (dict_get_key L d0 fonts j)"
  shows "\<exists>d'. handle_font L font_obj fonts j d = Inr (True, d') \<and> on_the_way L font_obj F d0 d' \<and> keeps_new L font_obj d d' \<and>
    (wanted L d0 (dict_gets L d0 fonts key) \<longrightarrow> dict_gets L d' fonts key = font_obj)"
proof -
  let ?font = "dict_gets L d fonts key" and ?old = "dict_gets L d0 fonts key"
  have L: "dict_laws L" and shape: "same_shape L d0 d" using r w by (auto simp: replaceable_def on_the_way_def)
  then have key: "key = to_name L d (dict_get_key L d fonts j)" by (simp add: k same_shape_def)
  have F: "resolved L d0 ?old \<notin> F" "resolved L d0 font_obj \<notin> F" "\<not> ansi_named L d0 font_obj" using r by (auto simp: replaceable_def)
  show ?thesis
  proof (cases "?font = ?old")
    case same: True
    have an: "ansi_named L d ?font = ansi_named L d0 ?old" "wanted L d ?font = wanted L d0 ?old"
      using on_the_way_wanted [OF w F(1)] same by auto
    have "to_name L d (dict_gets L d ?font ''BaseFont'') = to_name L d0 (dict_gets L d0 ?old ''BaseFont'')"
      using shape on_the_way_outside [OF w F(1)] same by (simp add: same_shape_def)
    then have "3 \<le> length (to_name L d (dict_gets L d ?font ''BaseFont''))" if "ansi_named L d ?font"
      using r an that by (simp add: replaceable_def)
    note h = handle_font_cases [OF L refl key this]
    show ?thesis
    proof (cases "wanted L d0 ?old")
      case True
      have "wanted L d ?font" using True an(2) by blast
      then have "is_dict L d ?font" unfolding wanted_def ansi_named_def by blast
      moreover have "\<not> is_dict L d (null L)" by (rule dict_laws_null [OF L])
      ultimately have "?font \<noteq> null L" by metis
      moreover have "is_dict L d fonts" using r shape by (simp add: replaceable_def same_shape_def)
      ultimately obtain d' where d': "dict_puts L d fonts key font_obj = Some d'" "replaced L d fonts key font_obj d'"
        using dict_laws_puts [OF L, of d fonts key font_obj] by blast
      have old: "wanted L d0 (dict_gets L d0 y key)" if "resolved L d0 y = resolved L d0 fonts" for y
        using True unfolding dict_laws_alias [OF L that] .
      have res: "resolved L d = resolved L d0" and fin: "resolved L d0 fonts \<in> F" using shape r by (simp_all add: same_shape_def replaceable_def)
      have "on_the_way L font_obj F d0 d'"
        unfolding on_the_way_def
      proof (intro conjI allI)
        show "same_shape L d0 d'" using shape d'(2) by (simp add: replaced_def same_shape_def)
        show "dict_gets L d' x k = dict_gets L d0 x k \<or> resolved L d0 x \<in> F \<and> dict_gets L d' x k = font_obj \<and> wanted L d0 (dict_gets L d0 x k)" for x k
        proof (cases "resolved L d0 x = resolved L d0 fonts \<and> k = key")
          case True
          then show ?thesis using replaced_gets [OF d'(2), of x k] old [of x] fin res by simp
        next
          case False
          then have "dict_gets L d' x k = dict_gets L d x k" using replaced_gets [OF d'(2), of x k] res by auto
          then show ?thesis using w unfolding on_the_way_def by metis
        qed
      qed
      then show ?thesis using h True an d'(1) replaced_gets [OF d'(2)] by (simp add: keeps_new_def)
    qed (use h an w in \<open>simp add: keeps_new_def\<close>)
  next
    case False
    then have new: "?font = font_obj" using w by (auto simp: on_the_way_def)
    have not: "\<not> ansi_named L d ?font" unfolding new using on_the_way_wanted(1) [OF w F(2)] F(3) by simp
    then have "handle_font L font_obj fonts j d = Inr (True, d)" using handle_font_cases [OF L refl key] by (simp add: wanted_def)
    then show ?thesis using w new by (simp add: keeps_new_def)
  qed
qed

lemma keeps_new_trans: "keeps_new L x d1 d2 \<Longrightarrow> keeps_new L x d2 d3 \<Longrightarrow> keeps_new L x d1 d3"
  by (simp add: keeps_new_def)

lemma font_loop_run:
  assumes r: "replaceable L font_obj F d0 fonts"
  shows "on_the_way L font_obj F d0 d \<Longrightarrow> \<exists>d'. font_loop L font_obj fonts j n d = Inr (True, d') \<and> on_the_way L font_obj F d0 d' \<and> keeps_new L font_obj d d' \<and>
    (\<forall>i. j \<le> i \<and> i < j + n \<and> wanted L d0 (dict_gets L d0 fonts (to_name L d0 (dict_get_key L d0 fonts i))) \<longrightarrow>
      dict_gets L d' fonts (to_name L d0 (dict_get_key L d0 fonts i)) = font_obj)"
proof (induction n arbitrary: j d)
  case 0
  then show ?case by (auto simp: keeps_new_def)
next
  case (Suc n)
  let ?key = "\<lambda>i. to_name L d0 (dict_get_key L d0 fonts i)"
  obtain d1 where d1: "handle_font L font_obj fonts j d = Inr (True, d1)" "on_the_way L font_obj F d0 d1" "keeps_new L font_obj d d1"
    "wanted L d0 (dict_gets L d0 fonts (?key j)) \<longrightarrow> dict_gets L d1 fonts (?key j) = font_obj"
    using handle_font_step [OF r Suc.prems refl, of j] by blast
  obtain d' where d': "font_loop L font_obj fonts (Suc j) n d1 = Inr (True, d')" "on_the_way L font_obj F d0 d'" "keeps_new L font_obj d1 d'"
    "\<And>i. Suc j \<le> i \<and> i < Suc j + n \<and> wanted L d0 (dict_gets L d0 fonts (?key i)) \<Longrightarrow> dict_gets L d' fonts (?key i) = font_obj"
    using Suc.IH [OF d1(2), of "Suc j"] by blast
  have "dict_gets L d' fonts (?key i) = font_obj" if "j \<le> i" "i < j + Suc n" "wanted L d0 (dict_gets L d0 fonts (?key i))" for i
  proof (cases "i = j")
    case True
    then have "dict_gets L d1 fonts (?key i) = font_obj" using d1(4) that(3) by blast
    then show ?thesis using d'(3) unfolding keeps_new_def by blast
  next
    case False
    then show ?thesis using d'(4) [of i] that by simp
  qed
  then show ?case using d1(1) d'(1,2) keeps_new_trans [OF d1(3) d'(3)] by auto
qed

section \<open>All pages\<close>

definition page_done :: "('d, 'o) pdf_lib \<Rightarrow> 'o \<Rightarrow> 'd \<Rightarrow> 'd \<Rightarrow> nat \<Rightarrow> bool" where
  "page_done L font_obj d0 d i \<longleftrightarrow> (has_fonts L d0 i \<longrightarrow> (\<forall>j < dict_len L d0 (fonts_of L d0 i).
     wanted L d0 (dict_gets L d0 (fonts_of L d0 i) (font_key L d0 i j)) \<longrightarrow> dict_gets L d (fonts_of L d0 i) (font_key L d0 i j) = font_obj))"

lemma page_done_keeps: "page_done L font_obj d0 d i \<Longrightarrow> keeps_new L font_obj d d' \<Longrightarrow> page_done L font_obj d0 d' i"
  unfolding page_done_def keeps_new_def by blast

definition pages_ready :: "('d, 'o) pdf_lib \<Rightarrow> 'o \<Rightarrow> 'd \<Rightarrow> nat \<Rightarrow> bool" where
  "pages_ready L font_obj d n \<longleftrightarrow> dict_laws L \<and> \<not> ansi_named L d font_obj \<and> levels L font_obj d n \<and> long_names L d n"

lemma replaceable_page:
  assumes "pages_ready L font_obj d n" "i < n" "has_fonts L d i"
  shows "replaceable L font_obj (font_dicts L d n) d (fonts_of L d i)"
proof -
  have "resolved L d (fonts_of L d i) \<in> font_dicts L d n" using assms(2,3) by (auto simp: font_dicts_def)
  then show ?thesis using assms unfolding replaceable_def pages_ready_def levels_def long_names_def has_fonts_def Let_def by blast
qed

lemma replace_page_run:
  assumes r: "pages_ready L font_obj d0 n" "i < n" and w: "on_the_way L font_obj (font_dicts L d0 n) d0 d"
  shows "\<exists>d'. replace_page L font_obj i d = Inr (True, d') \<and> on_the_way L font_obj (font_dicts L d0 n) d0 d' \<and> keeps_new L font_obj d d' \<and> page_done L font_obj d0 d' i"
proof -
  have shape: "same_shape L d0 d" using w by (simp add: on_the_way_def)
  have "resolved L d0 (page_resources L d0 i) \<notin> font_dicts L d0 n" using r by (auto simp: pages_ready_def levels_def)
  then have fonts: "dict_gets L d (page_resources L d i) ''Font'' = fonts_of L d0 i"
    using on_the_way_outside [OF w] shape by (simp add: fonts_of_def same_shape_def)
  have page: "replace_page L font_obj i d =
      (if has_fonts L d0 i then font_loop L font_obj (fonts_of L d0 i) 0 (dict_len L d0 (fonts_of L d0 i)) d else Inr (True, d))"
    using shape fonts by (auto simp: replace_page_def has_fonts_def same_shape_def Let_def)
  show ?thesis
  proof (cases "has_fonts L d0 i")
    case True
    from font_loop_run [OF replaceable_page [OF r True] w, of 0 "dict_len L d0 (fonts_of L d0 i)"] show ?thesis
      unfolding page page_done_def font_key_def using True by auto
  next
    case False
    then show ?thesis using page w by (auto simp: page_done_def keeps_new_def)
  qed
qed

text \<open>The loop over the pages leaves the document like this.\<close>

definition progress :: "('d, 'o) pdf_lib \<Rightarrow> 'o \<Rightarrow> 'd \<Rightarrow> nat \<Rightarrow> nat \<Rightarrow> 'd \<Rightarrow> bool" where
  "progress L font_obj d0 n i d \<longleftrightarrow> on_the_way L font_obj (font_dicts L d0 n) d0 d \<and> (\<forall>i' < i. page_done L font_obj d0 d i')"

lemma replace_page_handles:
  assumes "pages_ready L font_obj d0 n" "i < n"
  shows "handles (\<lambda>i (d, s). bnd (replace_page L font_obj i d) (\<lambda>(ok, d). Inr (ok, d, s))) (\<lambda>_. True) (\<lambda>_. []) (progress L font_obj d0 n) i"
  unfolding handles_def
proof (intro allI impI)
  fix d and s :: fz_account
  assume p: "progress L font_obj d0 n i d \<and> \<not> busy s"
  then obtain d' where d': "replace_page L font_obj i d = Inr (True, d')" "on_the_way L font_obj (font_dicts L d0 n) d0 d'" "keeps_new L font_obj d d'"
    "page_done L font_obj d0 d' i" using replace_page_run [OF assms] unfolding progress_def by blast
  have "page_done L font_obj d0 d' i'" if "i' < Suc i" for i'
    using p page_done_keeps [OF _ d'(3), of d0 i'] d'(4) that by (cases "i' = i") (auto simp: progress_def less_Suc_eq)
  then have "progress L font_obj d0 n (Suc i) d'" using d'(2) by (simp add: progress_def)
  then show "\<exists>d' s'. (case (d, s) of (d, s) \<Rightarrow> bnd (replace_page L font_obj i d) (\<lambda>(ok, d). Inr (ok, d, s))) = Inr (True, d', s') \<and> owner.held s' = owner.held s \<and>
      \<not> busy s' \<and> errs s' = errs s \<and> out s' = out s @ (if True then [] else []) \<and> (True \<longrightarrow> progress L font_obj d0 n (Suc i) d')"
    using p d'(1) by auto
qed

section \<open>The new font\<close>

text \<open>
  The font the library makes is a dictionary with an encoding; a new name has the text asked for, and making it changes no object.
\<close>

definition cjk_laws :: "('d, 'o) pdf_lib \<Rightarrow> ('d, 'o) font_env \<Rightarrow> bool" where
  "cjk_laws L f \<longleftrightarrow> new_cjk_font f \<and>
     (\<forall>d. \<exists>x d'. add_cjk_font f d = Some (x, d') \<and> is_dict L d' x \<and> dict_gets L d' x ''Encoding'' \<noteq> null L) \<and>
     (\<forall>d. \<exists>x d'. new_name f d ''GBK-EUC-H'' = Some (x, d') \<and> to_name L d' x = ''GBK-EUC-H'' \<and> is_dict L d' = is_dict L d \<and> dict_gets L d' = dict_gets L d)"

lemma build_font:
  assumes "dict_laws L" "cjk_laws L f"
  obtains font_obj d0 where "\<And>s. build_ckj_font L f (d, s) = (Some font_obj, d0, acquire EncodingName (acquire FontObj (acquire Font s)))"
    "to_name L d0 (dict_gets L d0 font_obj ''Encoding'') = ''GBK-EUC-H''"
proof -
  obtain font_obj d1 where d1: "add_cjk_font f d = Some (font_obj, d1)" "is_dict L d1 font_obj" "dict_gets L d1 font_obj ''Encoding'' \<noteq> null L"
    using assms(2) unfolding cjk_laws_def by blast
  obtain enc d2 where d2: "new_name f d1 ''GBK-EUC-H'' = Some (enc, d2)" "to_name L d2 enc = ''GBK-EUC-H''" "is_dict L d2 = is_dict L d1"
    "dict_gets L d2 = dict_gets L d1" using assms(2) unfolding cjk_laws_def by blast
  have "is_dict L d2 font_obj" "dict_gets L d2 font_obj ''Encoding'' \<noteq> null L" using d1(2,3) d2(3,4) by simp_all
  then obtain d0 where d0: "dict_puts L d2 font_obj ''Encoding'' enc = Some d0" "replaced L d2 font_obj ''Encoding'' enc d0"
    using dict_laws_puts [OF assms(1)] by blast
  have "dict_gets L d0 font_obj ''Encoding'' = enc" using replaced_gets [OF d0(2)] by simp
  moreover have "to_name L d0 = to_name L d2" using d0(2) by (simp add: replaced_def same_shape_def)
  ultimately have "to_name L d0 (dict_gets L d0 font_obj ''Encoding'') = ''GBK-EUC-H''" using d2(2) by simp
  moreover have "new_cjk_font f" using assms(2) by (simp add: cjk_laws_def)
  ultimately show ?thesis using that [of font_obj d0] d1(1) d2(1) d0(1) by (simp add: build_ckj_font_def)
qed

section \<open>The result\<close>

lemma progress_result:
  assumes "progress L font_obj d0 n n d'"
  shows "\<forall>i < n. has_fonts L d0 i \<longrightarrow> (\<forall>j < dict_len L d0 (fonts_of L d0 i).
      dict_gets L d' (fonts_of L d0 i) (font_key L d0 i j) =
        (if wanted L d0 (dict_gets L d0 (fonts_of L d0 i) (font_key L d0 i j)) then font_obj else dict_gets L d0 (fonts_of L d0 i) (font_key L d0 i j)))"
    and "\<forall>x k. dict_gets L d' x k \<noteq> dict_gets L d0 x k \<longrightarrow> dict_gets L d' x k = font_obj \<and> wanted L d0 (dict_gets L d0 x k)"
proof -
  have w: "dict_gets L d' x k = dict_gets L d0 x k \<or> dict_gets L d' x k = font_obj \<and> wanted L d0 (dict_gets L d0 x k)" for x k
    using assms unfolding progress_def on_the_way_def by blast
  then show "\<forall>x k. dict_gets L d' x k \<noteq> dict_gets L d0 x k \<longrightarrow> dict_gets L d' x k = font_obj \<and> wanted L d0 (dict_gets L d0 x k)" by blast
  show "\<forall>i < n. has_fonts L d0 i \<longrightarrow> (\<forall>j < dict_len L d0 (fonts_of L d0 i).
      dict_gets L d' (fonts_of L d0 i) (font_key L d0 i j) =
        (if wanted L d0 (dict_gets L d0 (fonts_of L d0 i) (font_key L d0 i j)) then font_obj else dict_gets L d0 (fonts_of L d0 i) (font_key L d0 i j)))"
    using assms w unfolding progress_def page_done_def by (metis (full_types))
qed

text \<open>The document with the new font, before any page is looked at.\<close>

definition prepared :: "('d, 'o) pdf_lib \<Rightarrow> ('d, 'o) font_env \<Rightarrow> 'd \<Rightarrow> 'o option \<times> 'd" where
  "prepared L f d = (case build_ckj_font L f (d, no_account) of (x, d, _) \<Rightarrow> (x, d))"

text \<open>
  C35. In the document that is saved, every entry that was a font in the encoding \<open>WinAnsiEncoding\<close> whose name begins with the code of one of the three
  names, on any page, is the new font, and every other entry is as before, also where pages share their
  dictionary of fonts. The three objects made for the new font are never given back. The laws are those of the library; every page can be loaded, the dictionaries of fonts are not
  used as resources or fonts too, and the names looked at have at least three bytes.
\<close>

theorem replace_builtin_result:
  assumes "dict_laws L" "cjk_laws L f" and "context_ok e" "register_ok e" "open_ok e" and "pages_of e = Some (int n)" "\<forall>i < n. load_ok e i"
    and "prepared L f d = (Some font_obj, d0)" and "levels L font_obj d0 n" "long_names L d0 n" and "2 < argc"
  shows "\<exists>d' s. replace_main e L f argc (d, no_account) = Inr (if save_ok e then 0 else 1, d', s) \<and> owner.held s = [EncodingName, FontObj, Font] \<and>
    (\<forall>i < n. has_fonts L d0 i \<longrightarrow> (\<forall>j < dict_len L d0 (fonts_of L d0 i).
      dict_gets L d' (fonts_of L d0 i) (font_key L d0 i j) =
        (if wanted L d0 (dict_gets L d0 (fonts_of L d0 i) (font_key L d0 i j)) then font_obj else dict_gets L d0 (fonts_of L d0 i) (font_key L d0 i j)))) \<and>
    (\<forall>x k. dict_gets L d' x k \<noteq> dict_gets L d0 x k \<longrightarrow> dict_gets L d' x k = font_obj \<and> wanted L d0 (dict_gets L d0 x k))"
proof -
  let ?s = "acquire Doc (acquire Ctx no_account)" and ?h = "\<lambda>i (d, s). bnd (replace_page L font_obj i d) (\<lambda>(ok, d). Inr (ok, d, s))"
  have font: "build_ckj_font L f (d, s) = (Some font_obj, d0, acquire EncodingName (acquire FontObj (acquire Font s)))"
    and enc: "to_name L d0 (dict_gets L d0 font_obj ''Encoding'') = ''GBK-EUC-H''" for s :: fz_account
  proof -
    obtain x y where b: "\<And>s. build_ckj_font L f (d, s) = (Some x, y, acquire EncodingName (acquire FontObj (acquire Font s)))"
      "to_name L y (dict_gets L y x ''Encoding'') = ''GBK-EUC-H''" using build_font [OF assms(1,2), of d] by blast
    then have "x = font_obj" "y = d0" using assms(8) by (simp_all add: prepared_def)
    with b show "build_ckj_font L f (d, s) = (Some font_obj, d0, acquire EncodingName (acquire FontObj (acquire Font s)))"
      and "to_name L d0 (dict_gets L d0 font_obj ''Encoding'') = ''GBK-EUC-H''" by simp_all
  qed
  let ?s1 = "acquire EncodingName (acquire FontObj (acquire Font ?s))"
  have ready: "pages_ready L font_obj d0 n" using assms(1,9,10) enc by (simp add: pages_ready_def ansi_named_def)
  have b: "first_bad (\<lambda>j. load_ok e j \<and> True) 0 n = n" using first_bad_all [of "\<lambda>j. load_ok e j \<and> True" 0 n] assms(7) by simp
  have "progress L font_obj d0 n 0 d0" "\<not> busy ?s1" by (simp_all add: progress_def on_the_way_start no_account_def)
  from page_loop_run [where load = "load_ok e" and i = 0 and n = n and handle = ?h and fine = "\<lambda>_. True" and T = "\<lambda>_. []", OF replace_page_handles [OF ready] this, unfolded b]
  obtain d' s' where l: "page_loop (load_ok e) ?h 0 n (d0, ?s1) = Inr (True, d', s')" "owner.held s' = [EncodingName, FontObj, Font] @ [Doc, Ctx]" "\<not> busy s'"
    "progress L font_obj d0 n n d'" by (auto simp: no_account_def)
  have "replace_pdf e L f (d, ?s) = Inr (True, d', s')" using l(1) font assms(6) by (simp add: replace_pdf_def all_pages_def)
  then obtain s'' where m: "replace_main e L f argc (d, no_account) = Inr (if save_ok e then 0 else 1, d', s'')" "owner.held s'' = [EncodingName, FontObj, Font]"
    using pdf_main_done [OF assms(3-5,11) _ l(3,2), of "replace_pdf e L f" d no_account True d'] by (auto simp: replace_main_def)
  show ?thesis using m progress_result [OF l(4)] by blast
qed

text \<open>A document with one page, whose only font is to be replaced: the objects are numbers, and the document maps each to its entries.\<close>

definition demo_lib :: "(nat \<Rightarrow> string \<Rightarrow> nat, nat) pdf_lib" where
  "demo_lib = \<lparr>null = 0, page_resources = (\<lambda>_ _. 1), is_dict = (\<lambda>_ x. x \<in> {1, 2, 3, 4}), is_name = (\<lambda>_ x. x \<in> {5, 6, 7, 8, 9}),
     to_name = (\<lambda>_ x. if x = 5 then ''F1'' else if x = 6 then ''WinAnsiEncoding'' else if x = 7 then hd gbk_names else if x = 8 then ''UniGB-UTF16-H'' else if x = 9 then ''GBK-EUC-H'' else []),
     dict_len = (\<lambda>_ x. if x = 2 then 1 else 0), dict_get_key = (\<lambda>_ _ _. 5), dict_gets = (\<lambda>d. d),
     dict_puts = (\<lambda>d x k v. Some (d(x := (d x)(k := v)))), resolved = (\<lambda>_ x. x)\<rparr>"

definition demo_doc :: "nat \<Rightarrow> string \<Rightarrow> nat" where
  "demo_doc x k = (if x = 1 \<and> k = ''Font'' then 2 else if x = 2 \<and> k = ''F1'' then 3 else if x = 3 \<and> k = ''Encoding'' then 6
     else if x = 3 \<and> k = ''BaseFont'' then 7 else 0)"

definition demo_font :: "(nat \<Rightarrow> string \<Rightarrow> nat, nat) font_env" where
  "demo_font = \<lparr>new_cjk_font = True, add_cjk_font = (\<lambda>d. Some (4, d(4 := (d 4)(''Encoding'' := 8)))), new_name = (\<lambda>d _. Some (9, d))\<rparr>"

definition demo_fz :: fz_env where
  "demo_fz = \<lparr>context_ok = True, register_ok = True, open_ok = True, pages_of = Some 1, load_ok = (\<lambda>_. True), save_ok = True, error_text = ''damaged''\<rparr>"

theorem replace_builtin_result_witness:
  "\<exists>d' s. replace_main demo_fz demo_lib demo_font 3 (demo_doc, no_account) = Inr (0, d', s) \<and> d' 2 ''F1'' = 4 \<and> d' 3 ''BaseFont'' = 7"
proof -
  define d0 where "d0 = demo_doc(4 := (demo_doc 4)(''Encoding'' := 9))"
  have laws: "dict_laws demo_lib" "cjk_laws demo_lib demo_font"
    by (auto simp: dict_laws_def cjk_laws_def demo_lib_def demo_font_def replaced_def same_shape_def)
  have p: "prepared demo_lib demo_font demo_doc = (Some 4, d0)"
    by (simp add: prepared_def build_ckj_font_def demo_lib_def demo_font_def d0_def)
  have f: "has_fonts demo_lib d0 i" "fonts_of demo_lib d0 i = 2" for i by (simp_all add: has_fonts_def fonts_of_def demo_lib_def d0_def demo_doc_def)
  have "font_dicts demo_lib d0 1 = {2}" using f by (auto simp: font_dicts_def demo_lib_def)
  then have "levels demo_lib 4 d0 1" using f by (simp add: levels_def) (simp add: demo_lib_def d0_def demo_doc_def)
  moreover have "long_names demo_lib d0 1" using f by (simp add: long_names_def ansi_named_def) (simp add: demo_lib_def d0_def demo_doc_def gbk_names_def)
  moreover have e: "context_ok demo_fz" "register_ok demo_fz" "open_ok demo_fz" "pages_of demo_fz = Some (int 1)" "\<forall>i < 1. load_ok demo_fz i" "save_ok demo_fz"
    by (simp_all add: demo_fz_def)
  ultimately obtain d' s where r: "replace_main demo_fz demo_lib demo_font 3 (demo_doc, no_account) = Inr (0, d', s)"
    "\<forall>i < 1. has_fonts demo_lib d0 i \<longrightarrow> (\<forall>j < dict_len demo_lib d0 (fonts_of demo_lib d0 i).
      dict_gets demo_lib d' (fonts_of demo_lib d0 i) (font_key demo_lib d0 i j) =
        (if wanted demo_lib d0 (dict_gets demo_lib d0 (fonts_of demo_lib d0 i) (font_key demo_lib d0 i j)) then 4 else dict_gets demo_lib d0 (fonts_of demo_lib d0 i) (font_key demo_lib d0 i j)))"
    "\<forall>x k. dict_gets demo_lib d' x k \<noteq> dict_gets demo_lib d0 x k \<longrightarrow> dict_gets demo_lib d' x k = 4 \<and> wanted demo_lib d0 (dict_gets demo_lib d0 x k)"
    using replace_builtin_result [OF laws e(1-5) p, of 3] by auto
  have g: "dict_gets demo_lib d = d" for d by (simp add: demo_lib_def)
  have "wanted demo_lib d0 3" "\<not> wanted demo_lib d0 7" "font_key demo_lib d0 0 0 = ''F1''" "dict_len demo_lib d0 2 = 1" "d0 2 ''F1'' = 3" "d0 3 ''BaseFont'' = 7"
    using f by (simp_all add: font_key_def wanted_def ansi_named_def names_builtin_def) (simp_all add: demo_lib_def d0_def demo_doc_def gbk_names_def)
  then have "d' 2 ''F1'' = 4" "d' 3 ''BaseFont'' = 7" using r(2) r(3) [rule_format, of 3 "''BaseFont''"] f by (auto simp: g)
  then show ?thesis using r(1) by blast
qed

end
