(* ===== verification/AsioNet.thy ===== *)
theory AsioNet
  imports CPrelude
begin

text \<open>
  The sessions of the server \<open>cmake/asio/net/net.cc\<close>: a session reads a message of the form length, number, body, and calls the handler
  registered for the number. Boost.Asio and Protocol Buffers are not part of the repository: what a connection delivers, the parser and whether a handler
  throws are arguments. A handler is the value of its pointer, of type \<open>'h\<close>.
\<close>

section \<open>State\<close>

text \<open>
  The messages registered with their handlers (the object is parsed into, so it changes), and the calls of handlers: which one,
  with which socket and which message.
\<close>

record ('m, 'h) MsgHandler =
  msg :: 'm
  handler :: 'h

record ('m, 'h) net =
  mapMsgHandler :: "u16 \<Rightarrow> ('m, 'h) MsgHandler option"
  handled :: "('h \<times> int \<times> 'm) list"
  told :: "(string \<times> nat list) list"

record session =
  native_handle :: int
  is_open :: bool
  timer_cancelled :: bool
  m_write_msgs :: "string list"
  written :: "string list"

definition regNetMsg :: "u16 \<Rightarrow> 'm \<Rightarrow> 'h \<Rightarrow> ('m, 'h) net \<Rightarrow> ('m, 'h) net" where
  "regNetMsg cmdId m f n = n\<lparr>mapMsgHandler := (mapMsgHandler n)(cmdId \<mapsto> \<lparr>msg = m, handler = f\<rparr>)\<rparr>"

definition new_session :: "int \<Rightarrow> session" where
  "new_session fd = \<lparr>native_handle = fd, is_open = True, timer_cancelled = False, m_write_msgs = [], written = []\<rparr>"

definition stop :: "session \<Rightarrow> session" where
  "stop s = s\<lparr>is_open := False, timer_cancelled := True\<rparr>"

section \<open>Reading\<close>

text \<open>The bytes a connection delivers until its end: reading \<open>k\<close> bytes throws if the end comes first.\<close>

definition async_read :: "nat \<Rightarrow> u8 list \<Rightarrow> (u8 list \<times> u8 list) option" where
  "async_read k input = (if k \<le> length input then Some (take k input, drop k input) else None)"

text \<open>A number of two bytes, the least significant first.\<close>

definition u16_of :: "u8 list \<Rightarrow> u16" where
  "u16_of b = of_nat (unat (b ! 0) + 256 * unat (b ! 1))"

text \<open>The number is read from the array whatever the length was. The result of parsing is not looked at.\<close>

definition session_reader :: "('m \<Rightarrow> u8 list \<Rightarrow> 'm) \<Rightarrow> ('h \<Rightarrow> int \<Rightarrow> 'm \<Rightarrow> bool) \<Rightarrow> u8 list \<Rightarrow> ('m, 'h) net \<times> session \<Rightarrow> (u8 list \<times> ('m, 'h) net \<times> session) result" where
  "session_reader parse throws input t =
     (case t of (n, s) \<Rightarrow>
      case async_read 2 input of None \<Rightarrow> Inr ([], n, stop s)
      | Some (l, input) \<Rightarrow>
          let len = u16_of l
          in case async_read (unat len) input of None \<Rightarrow> Inr ([], n, stop s)
             | Some (data, input) \<Rightarrow>
                 if unat len < 2 then Inl Uninit
                 else let cmdId = u16_of data; n = n\<lparr>told := told n @ [(''Recv Len:{0} CmdID:{1}'', [unat len, unat cmdId])]\<rparr>
                      in case mapMsgHandler n cmdId of
                           None \<Rightarrow> Inr (input, n\<lparr>told := told n @ [(''unimplement msg handler, msgId:{0}'', [unat cmdId])]\<rparr>, s)
                         | Some e \<Rightarrow>
                             let m = parse (msg e) (drop 2 data);
                                 fd = native_handle s;
                                 n = n\<lparr>mapMsgHandler := (mapMsgHandler n)(cmdId \<mapsto> e\<lparr>msg := m\<rparr>), handled := handled n @ [(handler e, fd, m)]\<rparr>
                             in Inr (input, n, if throws (handler e) fd m then stop s else s))"

section \<open>Writing\<close>

text \<open>
  The writer waits while there is nothing to write; nothing in the program adds a message. It is given the outcomes of the
  operations it waits for, and the result tells whether it has ended or still waits.
\<close>

fun session_writer :: "bool list \<Rightarrow> session \<Rightarrow> bool \<times> session" where
  "session_writer [] s = (\<not> is_open s, s)"
| "session_writer (ok # es) s =
     (if \<not> is_open s then (True, s)
      else case m_write_msgs s of
             [] \<Rightarrow> if timer_cancelled s then session_writer es s else (False, s)
           | m # q \<Rightarrow> if ok then session_writer es (s\<lparr>m_write_msgs := q, written := written s @ [m]\<rparr>) else (True, stop s))"

section \<open>Messages\<close>

text \<open>A message as a client has to send it.\<close>

definition bytes16 :: "nat \<Rightarrow> u8 list" where
  "bytes16 k = [of_nat (k mod 256), of_nat (k div 256)]"

definition frame :: "u16 \<Rightarrow> u8 list \<Rightarrow> u8 list" where
  "frame cmdId body = bytes16 (length body + 2) @ bytes16 (unat cmdId) @ body"

lemma u16_of_bytes: "k < 65536 \<Longrightarrow> u16_of (bytes16 k @ r) = of_nat k"
  by (simp add: u16_of_def bytes16_def unat_of_nat take_bit_eq_mod less_mult_imp_div_less)

lemma length_bytes16 [simp]: "length (bytes16 k) = 2"
  by (simp add: bytes16_def)

lemma reader_frame:
  assumes "length body + 2 < 65536"
  shows "session_reader parse throws (frame cmdId body @ rest) (n, s) =
    (let n = n\<lparr>told := told n @ [(''Recv Len:{0} CmdID:{1}'', [length body + 2, unat cmdId])]\<rparr>
     in case mapMsgHandler n cmdId of
          None \<Rightarrow> Inr (rest, n\<lparr>told := told n @ [(''unimplement msg handler, msgId:{0}'', [unat cmdId])]\<rparr>, s)
        | Some e \<Rightarrow>
            let m = parse (msg e) body; fd = native_handle s
            in Inr (rest, n\<lparr>mapMsgHandler := (mapMsgHandler n)(cmdId \<mapsto> e\<lparr>msg := m\<rparr>), handled := handled n @ [(handler e, fd, m)]\<rparr>,
                 if throws (handler e) fd m then stop s else s))"
proof -
  have l: "unat (of_nat (length body + 2) :: u16) = length body + 2"
    using assms by (simp only: unat_of_nat) (simp add: take_bit_eq_mod)
  have "unat cmdId < 65536" using unsigned_less [of cmdId] by simp
  then have c: "u16_of (bytes16 (unat cmdId) @ body) = cmdId" by (simp add: u16_of_bytes)
  have a: "async_read 2 (frame cmdId body @ rest) = Some (bytes16 (length body + 2), bytes16 (unat cmdId) @ body @ rest)"
    by (simp add: async_read_def frame_def)
  have b: "async_read (length body + 2) (bytes16 (unat cmdId) @ body @ rest) = Some (bytes16 (unat cmdId) @ body, rest)"
    by (simp add: async_read_def)
  have u: "u16_of (bytes16 (length body + 2)) = of_nat (length body + 2)" using u16_of_bytes [OF assms, of "[]"] by simp
  show ?thesis unfolding session_reader_def prod.case a option.case u Let_def l b c by (simp split: option.split)
qed

text \<open>
  C39. A message sent as length, number and body, for which a handler is registered, is parsed from exactly its body into the registered object, and that handler, and no other,
  is called with it once. If the handler does not throw, the session stays open with its writer waiting, and nothing ends it; if it throws, the
  session is closed. Either way a session handles one message: what the client sends after it is not read.
\<close>

theorem session_one_message:
  assumes "length body + 2 < 65536"
  shows "\<exists>n'. session_reader parse throws (frame cmdId body @ rest) (regNetMsg cmdId m f n, new_session fd) =
      Inr (rest, n', if throws f fd (parse m body) then stop (new_session fd) else new_session fd) \<and>
    handled n' = handled n @ [(f, fd, parse m body)] \<and> mapMsgHandler n' = (mapMsgHandler n)(cmdId \<mapsto> \<lparr>msg = parse m body, handler = f\<rparr>) \<and>
    (\<forall>es. session_writer es (new_session fd) = (False, new_session fd)) \<and> \<not> is_open (stop (new_session fd))"
proof -
  have "session_writer es (new_session fd) = (False, new_session fd)" for es by (cases es) (simp_all add: new_session_def)
  moreover have "native_handle (new_session fd) = fd" by (simp add: new_session_def)
  ultimately show ?thesis by (simp add: reader_frame [OF assms] regNetMsg_def Let_def stop_def)
qed

text \<open>Two handlers are registered; the first message is for the second of them.\<close>

theorem session_one_message_witness:
  "\<exists>n'. session_reader (\<lambda>m b. m @ b) (\<lambda>_ _ _. False) (frame 1 [104, 105] @ frame 1 [33])
      (regNetMsg 1 [] ''login'' (regNetMsg 2 [] ''logout'' \<lparr>mapMsgHandler = Map.empty, handled = [], told = []\<rparr>), new_session 5) =
      Inr (frame 1 [33], n', new_session 5) \<and> handled n' = [(''login'', 5, [104, 105])]"
  using session_one_message [of "[104, 105]" "\<lambda>m b. m @ b" "\<lambda>_ _ _. False" 1 "frame 1 [33]" "[]" "''login''"
      "regNetMsg 2 [] ''logout'' \<lparr>mapMsgHandler = Map.empty, handled = [], told = []\<rparr>" 5]
  by (auto simp: regNetMsg_def)

text \<open>A message shorter than its number is not refused: the number is read from an array that was not written.\<close>

lemma reader_short: "l < 2 \<Longrightarrow> session_reader parse throws (bytes16 l @ replicate l x) (n, s) = Inl Uninit"
  using u16_of_bytes [of l "[]"] by (simp add: session_reader_def async_read_def Let_def unat_of_nat take_bit_eq_mod)

end
