(* ===== verification/CShape.thy ===== *)
theory CShape
  imports CPrelude
begin

text \<open>
  Objects with virtual functions in C, \<open>cmake/cobj/shape.h\<close>, \<open>cmake/cobj/shape.c\<close> and \<open>cmake/cobj/main.c\<close>. An object is a block
  of memory that begins with the fields of \<open>Shape\<close>; the fields behind them depend on the class the block was
  allocated for. A function of one class that is handed a block of the other one would read fields that are not there; the
  model makes this an error (\<open>AssertFail\<close>). A double is an integer multiple of a power of two.
\<close>

section \<open>Types\<close>

datatype area_fn = RectArea_fn | CircleArea_fn
datatype dtor_fn = RectRelease_fn | CircleRelease_fn

record vtShape =
  GetArea :: area_fn
  Dtor :: dtor_fn

datatype Color = Black | Red | White | Yellow

text \<open>The private fields of a \<open>realRect\<close> and of a \<open>realCircle\<close>.\<close>

datatype extra = RectPart int int | CirclePart int

record Shape =
  vtb :: "vtShape option"
  sname :: "nat option"
  color :: Color
  extra :: extra

text \<open>
  Objects and the names made by \<open>strdup\<close>, under the number of the request for their memory; \<open>refused\<close> says which
  requests fail. \<open>lines\<close> is what was printed.
\<close>

record cells =
  objects :: "nat \<Rightarrow> Shape option"
  names :: "nat \<Rightarrow> string option"
  fresh :: nat
  refused :: "nat \<Rightarrow> bool"
  lines :: "string list"

definition print_line :: "string \<Rightarrow> cells \<Rightarrow> cells" where
  "print_line l st = st\<lparr>lines := lines st @ [l]\<rparr>"

definition get_shape :: "nat \<Rightarrow> cells \<Rightarrow> Shape result" where
  "get_shape p st = (case objects st p of None \<Rightarrow> Inl UseAfterFree | Some x \<Rightarrow> Inr x)"

definition set_shape :: "nat \<Rightarrow> Shape \<Rightarrow> cells \<Rightarrow> cells" where
  "set_shape p x st = st\<lparr>objects := (objects st)(p \<mapsto> x)\<rparr>"

text \<open>The name of an object as \<open>printf\<close> reads it.\<close>

definition name_of :: "Shape \<Rightarrow> cells \<Rightarrow> string result" where
  "name_of x st = (case sname x of None \<Rightarrow> Inl NullDeref | Some n \<Rightarrow> (case names st n of None \<Rightarrow> Inl UseAfterFree | Some s \<Rightarrow> Inr s))"

definition free_name :: "Shape \<Rightarrow> cells \<Rightarrow> cells result" where
  "free_name x st =
     (case sname x of None \<Rightarrow> Inr st
      | Some n \<Rightarrow> if names st n = None then Inl BadFree else Inr (st\<lparr>names := (names st)(n := None)\<rparr>))"

definition free_shape :: "nat \<Rightarrow> cells \<Rightarrow> cells result" where
  "free_shape p st = (if objects st p = None then Inl BadFree else Inr (st\<lparr>objects := (objects st)(p := None)\<rparr>))"

definition strdup :: "string \<Rightarrow> cells \<Rightarrow> nat option \<times> cells" where
  "strdup s st =
     (if refused st (fresh st) then (None, st\<lparr>fresh := Suc (fresh st)\<rparr>)
      else (Some (fresh st), st\<lparr>names := (names st)(fresh st \<mapsto> s), fresh := Suc (fresh st)\<rparr>))"

text \<open>\<open>calloc\<close> of an object: all its fields are zero.\<close>

definition new_shape :: "extra \<Rightarrow> cells \<Rightarrow> nat option \<times> cells" where
  "new_shape z st =
     (if refused st (fresh st) then (None, st\<lparr>fresh := Suc (fresh st)\<rparr>)
      else (Some (fresh st), st\<lparr>objects := (objects st)(fresh st \<mapsto> \<lparr>vtb = None, sname = None, color = Black, extra = z\<rparr>), fresh := Suc (fresh st)\<rparr>))"

section \<open>Arithmetic\<close>

definition INT_MAX :: int where "INT_MAX = 2147483647"

definition to_int :: "int \<Rightarrow> int result" where
  "to_int x = (if - INT_MAX - 1 \<le> x \<and> x \<le> INT_MAX then Inr x else Inl Overflow)"

text \<open>
  A double \<open>(m, k)\<close> is \<open>m / 2 ^ k\<close> with at most 53 binary digits in \<open>m\<close>. The result of a product is rounded to
  53 digits, to the nearest and at a tie to the even one. \<open>surplus\<close> counts the digits beyond 53; the product of a
  double with an int has at most 84 digits.
\<close>

fun surplus :: "nat \<Rightarrow> int \<Rightarrow> nat" where
  "surplus 0 n = 0"
| "surplus (Suc f) n = (if n < 9007199254740992 then 0 else Suc (surplus f (n div 2)))"

definition round_half_even :: "int \<Rightarrow> nat \<Rightarrow> int" where
  "round_half_even m s =
     (let q = m div 2 ^ s; r = 2 * (m mod 2 ^ s)
      in if r > 2 ^ s \<or> (r = 2 ^ s \<and> odd q) then q + 1 else q)"

definition double_times :: "int \<times> nat \<Rightarrow> int \<Rightarrow> int \<times> nat" where
  "double_times d i =
     (case d of (m, k) \<Rightarrow>
      let n = \<bar>m * i\<bar>; s = surplus 64 n
      in (sgn (m * i) * round_half_even n s, k - s))"

definition double_to_int :: "int \<times> nat \<Rightarrow> int result" where
  "double_to_int d = (case d of (m, k) \<Rightarrow> to_int (sgn m * (\<bar>m\<bar> div 2 ^ k)))"

definition double_3_14 :: "int \<times> nat" where
  "double_3_14 = (7070651414971679, 51)"

section \<open>Operations\<close>

definition shapeCtor :: "nat \<Rightarrow> string \<Rightarrow> cells \<Rightarrow> cells result" where
  "shapeCtor p nm st =
     (let st = print_line (''shapeCtor:'' @ nm) st; (n, st) = strdup nm st
      in bnd (get_shape p st) (\<lambda>x. Inr (set_shape p (x\<lparr>sname := n\<rparr>) st)))"

definition shapeDtor :: "nat \<Rightarrow> cells \<Rightarrow> cells result" where
  "shapeDtor p st =
     bnd (get_shape p st) (\<lambda>x.
     bnd (name_of x st) (\<lambda>nm.
     free_name x (print_line (''shapeDtor:'' @ nm) st)))"

definition RectArea :: "nat \<Rightarrow> cells \<Rightarrow> (int \<times> cells) result" where
  "RectArea p st =
     (let st = print_line ''Rect GetArea'' st
      in bnd (get_shape p st) (\<lambda>x.
         case extra x of
           RectPart w h \<Rightarrow> bnd (to_int (w * h)) (\<lambda>a. Inr (a, st))
         | CirclePart _ \<Rightarrow> Inl AssertFail))"

definition RectRelease :: "nat option \<Rightarrow> cells \<Rightarrow> cells result" where
  "RectRelease s st =
     (case s of None \<Rightarrow> Inr st
      | Some p \<Rightarrow>
          bnd (get_shape p st) (\<lambda>x.
          bnd (name_of x st) (\<lambda>nm.
          bnd (shapeDtor p (print_line (''Rect Dtor:'' @ nm) st)) (free_shape p))))"

definition vtRect :: vtShape where
  "vtRect = \<lparr>GetArea = RectArea_fn, Dtor = RectRelease_fn\<rparr>"

definition newRect :: "int \<Rightarrow> int \<Rightarrow> cells \<Rightarrow> (nat option \<times> cells) result" where
  "newRect w h st =
     (case new_shape (RectPart 0 0) st of
        (None, st) \<Rightarrow> Inr (None, st)
      | (Some p, st) \<Rightarrow>
          bnd (shapeCtor p ''Rect'' st) (\<lambda>st.
          bnd (get_shape p st) (\<lambda>x.
          let st = set_shape p (x\<lparr>vtb := Some vtRect, extra := RectPart w h\<rparr>) st
          in Inr (Some p, print_line ''Rect Size:32'' (print_line ''Rect Ctor'' st)))))"

definition CircleArea :: "nat \<Rightarrow> cells \<Rightarrow> (int \<times> cells) result" where
  "CircleArea p st =
     (let st = print_line ''Circle GetArea'' st
      in bnd (get_shape p st) (\<lambda>x.
         case extra x of
           RectPart _ _ \<Rightarrow> Inl AssertFail
         | CirclePart r \<Rightarrow> bnd (double_to_int (double_times (double_times double_3_14 r) r)) (\<lambda>a. Inr (a, st))))"

definition CircleRelease :: "nat option \<Rightarrow> cells \<Rightarrow> cells result" where
  "CircleRelease s st =
     (case s of None \<Rightarrow> Inr st
      | Some p \<Rightarrow>
          bnd (get_shape p st) (\<lambda>x.
          bnd (name_of x st) (\<lambda>nm.
          bnd (shapeDtor p (print_line (''Circle Dtor:'' @ nm) st)) (free_shape p))))"

definition vtCircle :: vtShape where
  "vtCircle = \<lparr>GetArea = CircleArea_fn, Dtor = CircleRelease_fn\<rparr>"

definition newCircle :: "int \<Rightarrow> cells \<Rightarrow> (nat option \<times> cells) result" where
  "newCircle r st =
     (case new_shape (CirclePart 0) st of
        (None, st) \<Rightarrow> Inr (None, st)
      | (Some p, st) \<Rightarrow>
          bnd (shapeCtor p ''Circle'' st) (\<lambda>st.
          bnd (get_shape p st) (\<lambda>x.
          let st = set_shape p (x\<lparr>vtb := Some vtCircle, extra := CirclePart r\<rparr>) st
          in Inr (Some p, print_line ''Circle Size:32'' (print_line ''Circle Ctor'' st)))))"

section \<open>Calls through the table\<close>

fun run_area :: "area_fn \<Rightarrow> nat \<Rightarrow> cells \<Rightarrow> (int \<times> cells) result" where
  "run_area RectArea_fn = RectArea"
| "run_area CircleArea_fn = CircleArea"

fun run_dtor :: "dtor_fn \<Rightarrow> nat option \<Rightarrow> cells \<Rightarrow> cells result" where
  "run_dtor RectRelease_fn = RectRelease"
| "run_dtor CircleRelease_fn = CircleRelease"

definition table_of :: "nat option \<Rightarrow> cells \<Rightarrow> vtShape result" where
  "table_of s st =
     (case s of None \<Rightarrow> Inl NullDeref
      | Some p \<Rightarrow> bnd (get_shape p st) (\<lambda>x. case vtb x of None \<Rightarrow> Inl NullDeref | Some t \<Rightarrow> Inr t))"

definition set_color :: "nat option \<Rightarrow> Color \<Rightarrow> cells \<Rightarrow> cells result" where
  "set_color s c st =
     (case s of None \<Rightarrow> Inl NullDeref | Some p \<Rightarrow> bnd (get_shape p st) (\<lambda>x. Inr (set_shape p (x\<lparr>color := c\<rparr>) st)))"

text \<open>
  \<open>main\<close> after the calls of the C++ and assembler examples, with the two areas. The table of an object that is a null
  pointer is never read, because setting the colour has failed before.
\<close>

definition shape_main :: "cells \<Rightarrow> (int \<times> int \<times> cells) result" where
  "shape_main st =
     bnd (newRect 10 20 st) (\<lambda>(r, st).
     bnd (newCircle 10 st) (\<lambda>(c, st).
     bnd (set_color r Red st) (\<lambda>st.
     bnd (set_color c Yellow st) (\<lambda>st.
     bnd (table_of r st) (\<lambda>rt.
     bnd (table_of c st) (\<lambda>ct.
     bnd (run_area (GetArea rt) (the r) st) (\<lambda>(a1, st).
     bnd (run_area (GetArea ct) (the c) st) (\<lambda>(a2, st).
     bnd (run_dtor (Dtor rt) r st) (\<lambda>st.
     bnd (run_dtor (Dtor ct) c st) (\<lambda>st.
     Inr (a1, a2, st)))))))))))"

section \<open>Every object carries the table of its class\<close>

definition class_table :: "extra \<Rightarrow> vtShape" where
  "class_table z = (case z of RectPart _ _ \<Rightarrow> vtRect | CirclePart _ \<Rightarrow> vtCircle)"

definition shape_ok :: "cells \<Rightarrow> nat \<Rightarrow> Shape \<Rightarrow> bool" where
  "shape_ok st p x \<longleftrightarrow> p < fresh st \<and> vtb x = Some (class_table (extra x)) \<and> (\<forall>n. sname x = Some n \<longrightarrow> names st n \<noteq> None)"

text \<open>Names belong to one object each, and every name belongs to an object.\<close>

definition names_ok :: "cells \<Rightarrow> bool" where
  "names_ok st \<longleftrightarrow> (\<forall>p q x y n. objects st p = Some x \<longrightarrow> objects st q = Some y \<longrightarrow> sname x = Some n \<longrightarrow> sname y = Some n \<longrightarrow> p = q) \<and>
     (\<forall>n. names st n \<noteq> None \<longrightarrow> n < fresh st \<and> (\<exists>p x. objects st p = Some x \<and> sname x = Some n))"

definition shapes_ok :: "cells \<Rightarrow> bool" where
  "shapes_ok st \<longleftrightarrow> (\<forall>p x. objects st p = Some x \<longrightarrow> shape_ok st p x) \<and> names_ok st"

lemma print_fields [simp]:
  "objects (print_line l st) = objects st" "names (print_line l st) = names st" "fresh (print_line l st) = fresh st" "refused (print_line l st) = refused st"
  by (simp_all add: print_line_def)

lemma shapes_ok_print [simp]: "shapes_ok (print_line l st) \<longleftrightarrow> shapes_ok st"
  by (simp add: shapes_ok_def shape_ok_def names_ok_def)

text \<open>What a constructor leaves: a new object with the table of its class and a new name, if there is memory for it.\<close>

definition made :: "string \<Rightarrow> extra \<Rightarrow> cells \<Rightarrow> cells \<Rightarrow> bool" where
  "made nm z st st' \<longleftrightarrow> (let n = (if refused st (Suc (fresh st)) then None else Some (Suc (fresh st))) in
     fresh st' = Suc (Suc (fresh st)) \<and> refused st' = refused st \<and>
     objects st' = (objects st)(fresh st \<mapsto> \<lparr>vtb = Some (class_table z), sname = n, color = Black, extra = z\<rparr>) \<and>
     names st' = (if n = None then names st else (names st)(Suc (fresh st) \<mapsto> nm)))"

lemma newRect_made:
  "if refused st (fresh st) then newRect w h st = Inr (None, st\<lparr>fresh := Suc (fresh st)\<rparr>)
   else \<exists>st'. newRect w h st = Inr (Some (fresh st), st') \<and> made ''Rect'' (RectPart w h) st st'"
  by (auto simp: newRect_def new_shape_def shapeCtor_def strdup_def get_shape_def set_shape_def made_def class_table_def Let_def)

lemma newCircle_made:
  "if refused st (fresh st) then newCircle r st = Inr (None, st\<lparr>fresh := Suc (fresh st)\<rparr>)
   else \<exists>st'. newCircle r st = Inr (Some (fresh st), st') \<and> made ''Circle'' (CirclePart r) st st'"
  by (auto simp: newCircle_def new_shape_def shapeCtor_def strdup_def get_shape_def set_shape_def made_def class_table_def Let_def)

lemma made_ok:
  assumes ok: "shapes_ok st" and m: "made nm z st st'"
  shows "shapes_ok st'"
proof -
  obtain x where x: "fresh st' = Suc (Suc (fresh st))" "vtb x = Some (class_table (extra x))" "sname x = (if refused st (Suc (fresh st)) then None else Some (Suc (fresh st)))"
    "objects st' = (objects st)(fresh st \<mapsto> x)" "names st' = (if refused st (Suc (fresh st)) then names st else (names st)(Suc (fresh st) \<mapsto> nm))"
    using m that [of "\<lparr>vtb = Some (class_table z), sname = (if refused st (Suc (fresh st)) then None else Some (Suc (fresh st))), color = Black, extra = z\<rparr>"]
    by (auto simp: made_def Let_def split: if_splits)
  have old: "p < fresh st" "vtb y = Some (class_table (extra y))" "\<And>n. sname y = Some n \<Longrightarrow> names st n \<noteq> None \<and> n < fresh st" if "objects st p = Some y" for p y
    using ok that by (auto simp: shapes_ok_def shape_ok_def names_ok_def)
  have "objects st (fresh st) = None" using old(1) by fastforce
  moreover have "shape_ok st' p y" if "objects st' p = Some y" for p y
    using that x old [of p y] by (auto simp: shape_ok_def split: if_splits intro: less_SucI)
  moreover have "p = q" if "objects st' p = Some y" "objects st' q = Some y'" "sname y = Some n" "sname y' = Some n" for p q y y' n
    using that x(3,4) old(3) [of p y n] old(3) [of q y' n] ok by (auto simp: shapes_ok_def names_ok_def split: if_splits)
  moreover have "n < fresh st' \<and> (\<exists>p y. objects st' p = Some y \<and> sname y = Some n)" if "names st' n \<noteq> None" for n
  proof (cases "n = Suc (fresh st) \<and> \<not> refused st (Suc (fresh st))")
    case True
    then show ?thesis using x(1,3,4) by auto
  next
    case False
    then have "names st n \<noteq> None" using that x(5) by (auto split: if_splits)
    then obtain p y where "objects st p = Some y" "sname y = Some n" "n < fresh st" using ok by (auto simp: shapes_ok_def names_ok_def)
    then show ?thesis using x(1,4) \<open>objects st (fresh st) = None\<close> by (intro conjI exI [of _ p] exI [of _ y]) auto
  qed
  ultimately show ?thesis unfolding shapes_ok_def names_ok_def by blast
qed

lemma recolour_ok:
  assumes ok: "shapes_ok st" and x: "objects st p = Some x"
  shows "shapes_ok (set_shape p (x\<lparr>color := c\<rparr>) st)"
proof -
  let ?st = "set_shape p (x\<lparr>color := c\<rparr>) st"
  have same: "\<exists>y'. objects st q = Some y' \<and> sname y = sname y' \<and> vtb y = vtb y' \<and> extra y = extra y'" if "objects ?st q = Some y" for q y
    using that x by (auto simp: set_shape_def split: if_splits)
  have rev: "\<exists>y'. objects ?st q = Some y' \<and> sname y' = sname y" if "objects st q = Some y" for q y
    using that x by (auto simp: set_shape_def)
  have n: "names ?st = names st" "fresh ?st = fresh st" by (simp_all add: set_shape_def)
  have "shape_ok ?st q y" if "objects ?st q = Some y" for q y using same [OF that] ok n by (fastforce simp: shapes_ok_def shape_ok_def)
  moreover have "names_ok ?st"
    unfolding names_ok_def n
  proof (intro conjI allI impI)
    fix q q' y y' m
    assume "objects ?st q = Some y" "objects ?st q' = Some y'" "sname y = Some m" "sname y' = Some m"
    then show "q = q'" using same [of q y] same [of q' y'] ok unfolding shapes_ok_def names_ok_def by metis
  next
    fix m
    assume m: "names st m \<noteq> None"
    then show "m < fresh st" "\<exists>q y. objects ?st q = Some y \<and> sname y = Some m" using ok rev unfolding shapes_ok_def names_ok_def by metis+
  qed
  ultimately show ?thesis by (simp add: shapes_ok_def)
qed

text \<open>The destructor of an object that has a name, and the end of one that has none.\<close>

definition dropped :: "nat \<Rightarrow> Shape \<Rightarrow> cells \<Rightarrow> cells \<Rightarrow> bool" where
  "dropped p x st st' \<longleftrightarrow> (\<exists>n. sname x = Some n \<and> objects st' = (objects st)(p := None) \<and> names st' = (names st)(n := None) \<and> fresh st' = fresh st \<and> refused st' = refused st)"

lemma dtor_drops:
  assumes ok: "shapes_ok st" and x: "objects st p = Some x"
  shows "if sname x = None then run_dtor f (Some p) st = Inl NullDeref else \<exists>st'. run_dtor f (Some p) st = Inr st' \<and> dropped p x st st'"
proof -
  have "names st n \<noteq> None" if "sname x = Some n" for n using ok x that by (auto simp: shapes_ok_def shape_ok_def)
  then show ?thesis using x
    by (cases f) (auto simp: RectRelease_def CircleRelease_def shapeDtor_def name_of_def get_shape_def free_name_def free_shape_def dropped_def split: option.splits)
qed

lemma dropped_ok:
  assumes ok: "shapes_ok st" and x: "objects st p = Some x" and d: "dropped p x st st'"
  shows "shapes_ok st'"
proof -
  obtain n where n: "sname x = Some n" "objects st' = (objects st)(p := None)" "names st' = (names st)(n := None)" "fresh st' = fresh st"
    using d by (auto simp: dropped_def)
  have u: "sname y \<noteq> Some n" if "objects st q = Some y" "q \<noteq> p" for q y using ok x that n(1) unfolding shapes_ok_def names_ok_def by metis
  have "shape_ok st' q y" if "objects st' q = Some y" for q y
    using that u [of q y] ok n by (auto simp: shapes_ok_def shape_ok_def split: if_splits)
  moreover have "names_ok st'"
    unfolding names_ok_def
  proof (intro conjI allI impI)
    fix q q' y y' m
    assume "objects st' q = Some y" "objects st' q' = Some y'" "sname y = Some m" "sname y' = Some m"
    then show "q = q'" using ok n(2) unfolding shapes_ok_def names_ok_def by (metis fun_upd_apply option.distinct(1))
  next
    fix m
    assume m: "names st' m \<noteq> None"
    then have "names st m \<noteq> None" "m \<noteq> n" using n(3) by (auto split: if_splits)
    then obtain q y where q: "objects st q = Some y" "sname y = Some m" "m < fresh st" using ok unfolding shapes_ok_def names_ok_def by metis
    then show "m < fresh st'" "\<exists>q y. objects st' q = Some y \<and> sname y = Some m"
      using n x \<open>m \<noteq> n\<close> by (auto intro!: exI [of _ q] exI [of _ y])
  qed
  ultimately show ?thesis by (simp add: shapes_ok_def)
qed

section \<open>Programs over shapes\<close>

text \<open>The states a program reaches that makes, colours, measures and destroys shapes through their tables.\<close>

inductive shaped :: "cells \<Rightarrow> bool" where
  empty: "shaped \<lparr>objects = (\<lambda>_. None), names = (\<lambda>_. None), fresh = 0, refused = f, lines = []\<rparr>"
| rect: "shaped st \<Longrightarrow> newRect w h st = Inr (r, st') \<Longrightarrow> shaped st'"
| circle: "shaped st \<Longrightarrow> newCircle w st = Inr (r, st') \<Longrightarrow> shaped st'"
| colour: "shaped st \<Longrightarrow> set_color s c st = Inr st' \<Longrightarrow> shaped st'"
| measure: "shaped st \<Longrightarrow> table_of (Some p) st = Inr t \<Longrightarrow> run_area (GetArea t) p st = Inr (a, st') \<Longrightarrow> shaped st'"
| destroy: "shaped st \<Longrightarrow> table_of (Some p) st = Inr t \<Longrightarrow> run_dtor (Dtor t) (Some p) st = Inr st' \<Longrightarrow> shaped st'"

lemma shapes_ok_fresh: "shapes_ok st \<Longrightarrow> shapes_ok (st\<lparr>fresh := Suc (fresh st)\<rparr>)"
  by (auto simp: shapes_ok_def shape_ok_def names_ok_def intro: less_SucI)

lemma area_keeps: "run_area f p st = Inr (a, st') \<Longrightarrow> \<exists>l. st' = print_line l st"
proof -
  assume r: "run_area f p st = Inr (a, st')"
  then obtain x where "objects st p = Some x" by (cases f; cases "objects st p") (auto simp: RectArea_def CircleArea_def get_shape_def Let_def)
  then show ?thesis using r by (cases f; cases "extra x") (auto simp: RectArea_def CircleArea_def get_shape_def bnd_eq_Inr Let_def)
qed

lemma shaped_ok: "shaped st \<Longrightarrow> shapes_ok st"
proof (induction rule: shaped.induct)
  case (empty f)
  show ?case by (simp add: shapes_ok_def names_ok_def)
next
  case (rect st w h r st')
  then show ?case using newRect_made [of st w h] made_ok shapes_ok_fresh by (auto split: if_splits)
next
  case (circle st w r st')
  then show ?case using newCircle_made [of st w] made_ok shapes_ok_fresh by (auto split: if_splits)
next
  case (colour st s c st')
  then show ?case using recolour_ok by (auto simp: set_color_def get_shape_def split: option.splits)
next
  case (measure st p t a st')
  then show ?case using area_keeps [OF measure.hyps(3)] by auto
next
  case (destroy st p t st')
  then obtain x where x: "objects st p = Some x" by (auto simp: table_of_def get_shape_def split: option.splits)
  then show ?case using dtor_drops [OF destroy.IH x, of "Dtor t"] dropped_ok [OF destroy.IH x] destroy.hyps(3) by (auto split: if_splits)
qed

text \<open>Two shapes, a rectangle of 3 by 4 and a circle of radius 10.\<close>

definition two_shapes :: cells where
  "two_shapes = snd (the (Option.bind (case newRect 3 4 \<lparr>objects = (\<lambda>_. None), names = (\<lambda>_. None), fresh = 0, refused = (\<lambda>_. False), lines = []\<rparr> of
     Inl _ \<Rightarrow> None | Inr r \<Rightarrow> Some r) (\<lambda>(_, st). case newCircle 10 st of Inl _ \<Rightarrow> None | Inr r \<Rightarrow> Some r)))"

lemmas shape_run = newRect_def newCircle_def new_shape_def shapeCtor_def strdup_def get_shape_def set_shape_def print_line_def Let_def

lemma two_shapes_shaped:
  "shaped two_shapes" "objects two_shapes 0 = Some \<lparr>vtb = Some vtRect, sname = Some 1, color = Black, extra = RectPart 3 4\<rparr>"
  "objects two_shapes 2 = Some \<lparr>vtb = Some vtCircle, sname = Some 3, color = Black, extra = CirclePart 10\<rparr>"
proof -
  let ?e = "\<lparr>objects = (\<lambda>_. None), names = (\<lambda>_. None), fresh = 0, refused = (\<lambda>_. False), lines = []\<rparr>"
  obtain st where st: "newRect 3 4 ?e = Inr (Some 0, st)" by (simp add: shape_run)
  obtain st' where st': "newCircle 10 st = Inr (Some 2, st')" using st by (auto simp: shape_run)
  have "two_shapes = st'" using st st' by (simp add: two_shapes_def)
  then show "shaped two_shapes" using circle [OF rect [OF empty st] st'] by simp
qed (simp_all add: two_shapes_def shape_run)

text \<open>
  C31. In every state that a program can reach by making, colouring, measuring and destroying shapes, a call through
  the table of an object runs the function of the class it was made for, which finds its own fields. So the
  area of a rectangle is the product of its sides, unless that does not fit an int, and
  that of a circle is the rounded product with 3.14; the destructor releases exactly the object and its name, and only
  an object whose name could not be stored makes it fail, because it prints the name.
\<close>

theorem shape_dispatch:
  assumes "shaped st" and "objects st p = Some x"
  shows "\<exists>t. table_of (Some p) st = Inr t \<and>
    (case extra x of
       RectPart w h \<Rightarrow> run_area (GetArea t) p st = (if - INT_MAX - 1 \<le> w * h \<and> w * h \<le> INT_MAX then Inr (w * h, print_line ''Rect GetArea'' st) else Inl Overflow)
     | CirclePart r \<Rightarrow> run_area (GetArea t) p st = bnd (double_to_int (double_times (double_times double_3_14 r) r)) (\<lambda>a. Inr (a, print_line ''Circle GetArea'' st))) \<and>
    (case sname x of
       None \<Rightarrow> run_dtor (Dtor t) (Some p) st = Inl NullDeref
     | Some n \<Rightarrow> \<exists>st'. run_dtor (Dtor t) (Some p) st = Inr st' \<and> shaped st' \<and> objects st' = (objects st)(p := None) \<and> names st' = (names st)(n := None))"
proof -
  have ok: "shapes_ok st" by (rule shaped_ok [OF assms(1)])
  let ?t = "class_table (extra x)"
  have "vtb x = Some ?t" using ok assms(2) by (simp add: shapes_ok_def shape_ok_def)
  then have t: "table_of (Some p) st = Inr ?t" using assms(2) by (simp add: table_of_def get_shape_def)
  have "case extra x of
       RectPart w h \<Rightarrow> run_area (GetArea ?t) p st = (if - INT_MAX - 1 \<le> w * h \<and> w * h \<le> INT_MAX then Inr (w * h, print_line ''Rect GetArea'' st) else Inl Overflow)
     | CirclePart r \<Rightarrow> run_area (GetArea ?t) p st = bnd (double_to_int (double_times (double_times double_3_14 r) r)) (\<lambda>a. Inr (a, print_line ''Circle GetArea'' st))"
    using assms(2) by (cases "extra x") (auto simp: class_table_def vtRect_def vtCircle_def RectArea_def CircleArea_def get_shape_def to_int_def Let_def)
  moreover have "case sname x of
       None \<Rightarrow> run_dtor (Dtor ?t) (Some p) st = Inl NullDeref
     | Some n \<Rightarrow> \<exists>st'. run_dtor (Dtor ?t) (Some p) st = Inr st' \<and> shaped st' \<and> objects st' = (objects st)(p := None) \<and> names st' = (names st)(n := None)"
    using dtor_drops [OF ok assms(2), of "Dtor ?t"] destroy [OF assms(1) t] by (cases "sname x") (auto simp: dropped_def)
  ultimately show ?thesis using t by blast
qed

theorem shape_dispatch_witness:
  "\<exists>t st'. table_of (Some 0) two_shapes = Inr t \<and> run_area (GetArea t) 0 two_shapes = Inr (12, print_line ''Rect GetArea'' two_shapes) \<and>
    run_dtor (Dtor t) (Some 0) two_shapes = Inr st' \<and> shaped st' \<and> objects st' 0 = None"
  using shape_dispatch [OF two_shapes_shaped(1,2)] by (auto simp: INT_MAX_def)

text \<open>The area computed with doubles, and a check of it for consecutive radii.\<close>

definition circle_area :: "int \<Rightarrow> int result" where
  "circle_area r = double_to_int (double_times (double_times double_3_14 r) r)"

fun areas_exact :: "nat \<Rightarrow> int \<Rightarrow> bool" where
  "areas_exact 0 r = True"
| "areas_exact (Suc n) r \<longleftrightarrow> circle_area r = Inr (157 * r * r div 50) \<and> areas_exact n (r + 1)"

lemma areas_exactD: "areas_exact n r \<Longrightarrow> r \<le> i \<Longrightarrow> i < r + int n \<Longrightarrow> circle_area i = Inr (157 * i * i div 50)"
proof (induction n arbitrary: r)
  case (Suc n)
  then show ?case by (cases "i = r") auto
qed simp

lemma areas_checked: "areas_exact 201 0"
  by code_simp

lemma circle_area_minus: "circle_area (- r) = circle_area r"
  by (simp add: circle_area_def double_times_def double_3_14_def Let_def)

text \<open>
  C32. For every radius from -200 to 200 the area the program computes in floating-point arithmetic, rounding each of
  the two products, is the exact value of 3.14 times the square of the radius, rounded down.
\<close>

theorem circle_area_exact:
  assumes "\<bar>r\<bar> \<le> 200" and "objects st p = Some x" and "extra x = CirclePart r"
  shows "CircleArea p st = Inr (314 * r * r div 100, print_line ''Circle GetArea'' st)"
proof -
  have "circle_area \<bar>r\<bar> = Inr (157 * \<bar>r\<bar> * \<bar>r\<bar> div 50)" using areas_exactD [OF areas_checked, of "\<bar>r\<bar>"] assms(1) by simp
  moreover have "circle_area \<bar>r\<bar> = circle_area r" using circle_area_minus [of r] by (simp add: abs_if)
  moreover have "157 * \<bar>r\<bar> * \<bar>r\<bar> div 50 = 314 * r * r div 100"
    using div_mult_mult1 [of 2 "157 * r * r" 50] by (simp add: abs_if)
  ultimately have "circle_area r = Inr (314 * r * r div 100)" by simp
  then show ?thesis using assms(2,3) by (simp add: CircleArea_def get_shape_def Let_def flip: circle_area_def)
qed

theorem circle_area_exact_witness:
  "CircleArea 2 two_shapes = Inr (314, print_line ''Circle GetArea'' two_shapes)"
  using circle_area_exact [OF _ two_shapes_shaped(3)] by simp

text \<open>
  With memory for every request \<open>main\<close> makes its two shapes, finds the areas 200 and 314, and releases both shapes with their
  names: nothing is left of what it has allocated. When the first request fails, it writes through a null pointer.
\<close>

theorem shape_main_runs:
  assumes "\<And>n. n \<noteq> fresh st \<Longrightarrow> \<not> refused st n" and "\<And>n. fresh st \<le> n \<Longrightarrow> objects st n = None \<and> names st n = None"
  shows "if refused st (fresh st) then shape_main st = Inl NullDeref
    else \<exists>st'. shape_main st = Inr (200, 314, st') \<and> objects st' = objects st \<and> names st' = names st"
proof -
  have a: "double_to_int (double_times (double_times double_3_14 10) 10) = Inr 314" by code_simp
  show ?thesis
  proof (cases "refused st (fresh st)")
    case True
    then show ?thesis using assms(1) by (simp add: shape_main_def set_color_def shape_run)
  next
    case False
    then have "\<not> refused st n" for n using assms(1) by (cases "n = fresh st") auto
    then show ?thesis using assms(2)
      by (simp add: shape_main_def set_color_def shape_run table_of_def vtRect_def vtCircle_def RectArea_def CircleArea_def to_int_def INT_MAX_def a
          RectRelease_def CircleRelease_def shapeDtor_def name_of_def free_name_def free_shape_def fun_eq_iff)
  qed
qed

theorem shape_main_runs_witness:
  "\<exists>st'. shape_main \<lparr>objects = (\<lambda>_. None), names = (\<lambda>_. None), fresh = 0, refused = (\<lambda>_. False), lines = []\<rparr> = Inr (200, 314, st') \<and> objects st' = (\<lambda>_. None)"
  using shape_main_runs [of "\<lparr>objects = (\<lambda>_. None), names = (\<lambda>_. None), fresh = 0, refused = (\<lambda>_. False), lines = []\<rparr>"] by auto

end
