(* ===== verification/Sexagenary.thy ===== *)
theory Sexagenary
  imports CPrelude
begin

text \<open>
  The program that names a year in the cycle of sixty, \<open>main.c\<close> of the directory with the Chinese name for stems and
  branches. The characters of its tables are written in their Latin transcription.
\<close>

definition stems :: "string list" where
  "stems = [''jia'', ''yi'', ''bing'', ''ding'', ''wu'', ''ji'', ''geng'', ''xin'', ''ren'', ''gui'']"

definition branches :: "string list" where
  "branches = [''zi'', ''chou'', ''yin'', ''mao'', ''chen'', ''si'', ''wu'', ''wei'', ''shen'', ''you'', ''xu'', ''hai'']"

definition animals :: "string list" where
  "animals = [''shu'', ''niu'', ''hu'', ''tu'', ''long'', ''she'', ''ma'', ''yang'', ''hou'', ''ji'', ''gou'', ''zhu'']"

text \<open>What is printed for a year: the year itself, and the entries of the three tables.\<close>

definition year_name :: "u32 \<Rightarrow> (u32 \<times> string \<times> string \<times> string) result" where
  "year_name year =
     (let year = year - 4
      in bnd (tab_read stems (unat (year mod 10))) (\<lambda>s.
         bnd (tab_read branches (unat (year mod 12))) (\<lambda>b.
         bnd (tab_read animals (unat (year mod 12))) (\<lambda>a.
         Inr (year + 4, s, b, a)))))"

definition names_at :: "nat \<Rightarrow> string \<times> string \<times> string" where
  "names_at k = (stems ! (k mod 10), branches ! (k mod 12), animals ! (k mod 12))"

lemma names_distinct: "distinct stems" "distinct branches" "length stems = 10" "length branches = 12" "length animals = 12"
  by (simp_all add: stems_def branches_def animals_def)

lemma year_name_at: "year_name y = Inr (y, names_at (unat (y - 4)))"
  by (simp add: year_name_def names_at_def tab_read_def Let_def unat_mod names_distinct)

lemma mod_60_iff: "j mod 10 = k mod 10 \<and> j mod 12 = k mod 12 \<longleftrightarrow> j mod 60 = k mod (60 :: nat)"
proof -
  have "10 dvd d \<and> 12 dvd d \<longleftrightarrow> 60 dvd d" for d :: int
  proof (intro iffI conjI)
    assume "10 dvd d \<and> 12 dvd d"
    then have "60 dvd 6 * d" "60 dvd 5 * d" using mult_dvd_mono [of 6 6 10 d] mult_dvd_mono [of 5 5 12 d] by simp_all
    then have "60 dvd 6 * d - 5 * d" by (rule dvd_diff)
    then show "60 dvd d" by simp
  qed (auto elim!: dvdE)
  then have "int j mod 10 = int k mod 10 \<and> int j mod 12 = int k mod 12 \<longleftrightarrow> int j mod 60 = int k mod 60" by (simp add: mod_eq_dvd_iff)
  moreover have "int j mod int n = int k mod int n \<longleftrightarrow> j mod n = k mod n" for n by (simp flip: of_nat_mod)
  from this [of 10] this [of 12] this [of 60] calculation show ?thesis by simp
qed

lemma names_at_iff: "names_at j = names_at k \<longleftrightarrow> j mod 60 = k mod 60"
proof
  assume "names_at j = names_at k"
  then have "j mod 10 = k mod 10" "j mod 12 = k mod 12"
    using nth_eq_iff_index_eq [OF names_distinct(1)] nth_eq_iff_index_eq [OF names_distinct(2)] by (simp_all add: names_at_def names_distinct)
  then show "j mod 60 = k mod 60" by (simp flip: mod_60_iff)
next
  assume "j mod 60 = k mod 60"
  then have "j mod 10 = k mod 10" "j mod 12 = k mod 12" by (simp_all flip: mod_60_iff)
  then show "names_at j = names_at k" by (simp add: names_at_def)
qed

text \<open>
  Every year is named without reading outside the tables. A year from 4 on has the name of
  the year sixty years later, and two such years with the same name differ by a multiple of sixty. For the
  years 0 to 3 the subtraction wraps around, and they do not have the name of the year sixty years later.
\<close>

theorem year_cycle:
  assumes "unat y + 60 < 2 ^ 32"
  shows "\<exists>n. year_name y = Inr (y, n) \<and> (year_name (y + 60) = Inr (y + 60, n) \<longleftrightarrow> 4 \<le> y) \<and>
    (\<forall>z. 4 \<le> y \<and> 4 \<le> z \<and> year_name z = Inr (z, n) \<longrightarrow> unat z mod 60 = unat y mod 60)"
proof -
  have le: "4 \<le> z \<longleftrightarrow> 4 \<le> unat z" for z :: u32 by (simp add: word_le_nat_alt)
  have four: "unat (z - 4) = (if 4 \<le> unat z then unat z - 4 else unat z + 4294967292)" for z :: u32
    using unat_sub_if_size [of z 4] by (simp add: word_size)
  have y60: "unat (y + 60) = unat y + 60" using assms by (subst unat_plus_simple [THEN iffD1]) (simp_all add: word_le_nat_alt unat_word_ariths)
  have later: "names_at (unat (y + 60 - 4)) = names_at (unat (y - 4)) \<longleftrightarrow> 4 \<le> y"
  proof (cases "4 \<le> unat y")
    case True
    then have "unat (y + 60 - 4) = unat (y - 4) + 60" using four [of "y + 60"] four [of y] y60 by simp
    then show ?thesis using True by (simp add: names_at_iff le)
  next
    case False
    then have "unat y \<in> {0, 1, 2, 3}" by auto
    then show ?thesis using False four [of "y + 60"] four [of y] y60 by (auto simp: names_at_iff le)
  qed
  have same: "unat z mod 60 = unat y mod 60" if "4 \<le> y" "4 \<le> z" "names_at (unat (z - 4)) = names_at (unat (y - 4))" for z :: u32
  proof -
    have ge: "4 \<le> unat y" "4 \<le> unat z" using that le by simp_all
    define a b where "a = unat z - 4" and "b = unat y - 4"
    have "a mod 60 = b mod 60" using that(3) ge four [of z] four [of y] by (simp add: names_at_iff a_def b_def)
    then have "(a + 4) mod 60 = (b + 4) mod 60" by (metis mod_add_left_eq)
    moreover have "a + 4 = unat z" "b + 4 = unat y" using ge by (simp_all add: a_def b_def)
    ultimately show ?thesis by simp
  qed
  show ?thesis
  proof (intro exI conjI allI impI)
    show "year_name y = Inr (y, names_at (unat (y - 4)))" by (rule year_name_at)
    show "year_name (y + 60) = Inr (y + 60, names_at (unat (y - 4))) \<longleftrightarrow> 4 \<le> y" by (simp only: year_name_at sum.inject prod.inject simp_thms later)
    fix z
    assume "4 \<le> y \<and> 4 \<le> z \<and> year_name z = Inr (z, names_at (unat (y - 4)))"
    then have "4 \<le> y" "4 \<le> z" "names_at (unat (z - 4)) = names_at (unat (y - 4))" by (simp_all only: year_name_at sum.inject prod.inject simp_thms)
    then show "unat z mod 60 = unat y mod 60" by (rule same)
  qed
qed

theorem year_cycle_witness:
  "year_name 2024 = Inr (2024, ''jia'', ''chen'', ''long'') \<and> year_name 2084 = Inr (2084, ''jia'', ''chen'', ''long'') \<and>
   (\<exists>n. year_name 3 = Inr (3, n) \<and> year_name 63 \<noteq> Inr (63, n))"
proof -
  have n: "year_name 2024 = Inr (2024, ''jia'', ''chen'', ''long'')" by (simp add: year_name_at names_at_def stems_def branches_def animals_def)
  then show ?thesis using year_cycle [of 2024] year_cycle [of 3] by auto
qed

end
