(* ===== verification/Spec2Isabelle.thy ===== *)
theory Spec2Isabelle
  imports BigIntTest BigIntQuo BigIntText RpcMain CoThreads CTry SwissMain IocpStart IocpClient GrpcHello Uring PdfText PdfFont AsioNet CShape Sexagenary
begin

text \<open>
  Verification of the C programs of this repository. The repository is a collection of independent programs and small
  libraries; the development has one group of theories for each of them, over a shared prelude. File names below are relative to
  \<open>src/\<close>.

  \<^bold>\<open>Conventions.\<close> A C function is a function on an explicit state that returns a value of type \<open>cerr + 'a\<close>
  (\<open>CPrelude\<close>): \<open>Inl\<close> is one of the ways in which an execution goes wrong (a failed assertion, a null
  pointer, an access outside a block, a use or release of memory that is not allocated, a shift by too much, a signed overflow, a use of memory that was not written), \<open>Inr\<close>
  the result. So a theorem that a call gives \<open>Inr\<close> says that no such error happens. Machine integers are words of
  their width. Requests for memory are numbered, and the state says which of them are refused. Definitions keep the names of the
  functions they translate; a loop or a part of a long function has a name of its own. What a program takes from
  outside (system calls, sockets, the gRPC library, generated code, hash functions) is an argument or a record of answers.

  \<^bold>\<open>Big integers\<close>, \<open>cmake/bigint\<close>.
  \<^item> \<open>BaseBits\<close>, \<open>BaseArith\<close> model \<open>src/base.c\<close>: bit lengths, trailing zeros, and addition, subtraction, multiplication and division
    with double-width results. The arithmetic is proved exact; the table lookups are proved exact or, for 32 bits, exact up to
    five trailing zeros and out of bounds otherwise.
  \<^item> \<open>CMemory\<close> is the word memory: blocks, pointers into them, checked accesses, and the laws of runs of
    words (\<open>seg\<close>, \<open>put\<close>) that the proofs on vector routines use.
  \<^item> \<open>NatCore\<close> models \<open>src/nat.h\<close> and \<open>src/nat.c\<close>, \<open>NatVec\<close> states the contract that the vector routines of addition and
    subtraction share (a locale, interpreted for both), \<open>NatAdd\<close>, \<open>NatSub\<close>, \<open>NatMul\<close>, \<open>NatDiv\<close> and \<open>NatConv\<close> model the files of
    these names. \<open>natAdd\<close> and \<open>natSub\<close> are exact precisely when the carry into the longer operand is clean, \<open>natMul\<close>
    is the product below the Karatsuba threshold, \<open>natDivW\<close> divides by a word exactly.
  \<^item> \<open>NatShift\<close> shows that shifting multiplies or divides by a power of two, \<open>NatDigit\<close> that the word long division estimates is at most
    one too large, \<open>NatLong\<close> that long division and \<open>natDiv\<close> are exact for divisors of less than 100 words. Recursive division, which
    starts there, Karatsuba multiplication and powers are modelled in full and have no theorems but the length computation of Karatsuba.
  \<^item> \<open>NatText\<close> and \<open>NatHex\<close> show that \<open>natI2a\<close> writes the numeral of a number, the first for numbers of up to eight words, which need no table of divisors,
    the second for bases that are powers of two. The loop that divides has fuel for the bits of the number, which is enough because every round
    at least halves it. The length of the text comes from a floating-point quotient with a logarithm, which is a parameter; the theorems assume that it
    is not rounded below a whole number it reaches.
  \<^item> \<open>BigIntC\<close> models \<open>src/bigint.c\<close> over a heap of objects; \<open>BigIntOps\<close> shows that its operations are those on integers, and that
    a sum with an empty number shares memory with its operand. \<open>BigIntQuo\<close> shows that \<open>QuoRem\<close> truncates, on the condition that fresh memory
    is an empty number, and that \<open>BigIntDiv\<close> then reads the remainder after its release; \<open>BigIntText\<close> has the text of an object. \<open>BigIntTest\<close> models \<open>test.c\<close>: its
    loop computes Fibonacci numbers and keeps only the last two, and its comparison with a file reads behind its array exactly if
    the file is a prefix of the result.

  \<^bold>\<open>Remote calls\<close>, \<open>cmake/rpc_c\<close>. \<open>RpcBuffer\<close> models buffers, typed arguments and parsing (\<open>rpc_util.c\<close>, \<open>rpc_c.h\<close>), \<open>RpcServer\<close> the
  server (\<open>rpc_server.c\<close>), \<open>RpcCall\<close> the client (\<open>rpc_client.c\<close>), \<open>RpcMain\<close> the handlers and calls of \<open>main.c\<close>. Arguments that are
  pushed are parsed back, arbitrary input is handled without an access outside a message or the array for the function name (as far as the handlers are safe), the server answers with the
  reply of the handler under the number of the call, and calls of the three handlers through client and server return what
  the handlers compute. The type tag of an \<open>int64_t\<close> depends on the platform: where it is \<open>long\<close> the sum handler fails. Loops that read from a socket run over the list of chunks the socket delivers.

  \<^bold>\<open>Coroutines\<close>, \<open>cmake/coroutine\<close>. \<open>Coroutine\<close> models \<open>src/co.c\<close> with the shared stack that is saved and restored,
  \<open>CoSched\<close> proves the invariant of the environment, that resuming a coroutine finds its frames, that \<open>co_wait\<close> ends and runs
  coroutines that create no others in turn, and that closing releases every block; \<open>CoDemo\<close> is the work of one thread of \<open>main.c\<close>, \<open>CoThreads\<close> the whole program with its ten threads. A coroutine
  is given by its visible steps. The number of rounds of \<open>co_wait\<close> is bounded by the work that is left (\<open>work\<close>), which every round decreases.

  \<^bold>\<open>Exceptions\<close>, \<open>cmake/c_try_catch\<close>. \<open>CTry\<close> models the macros of \<open>ctry/except.h\<close>, the signal handlers of \<open>ctry/except.c\<close> and the program \<open>main.c\<close>; with
  at most 256 nested blocks the macros over the array of jump buffers have the meaning of structured exceptions,
  and the next block writes behind the array.

  \<^bold>\<open>Hash table\<close>, \<open>cmake/swissmap/swissmap.h\<close>. \<open>SwissMap\<close> has the operations, \<open>SwissInv\<close> the invariant and the search, \<open>SwissOps\<close>
  growth, insertion and erasure, \<open>SwissSpec\<close> the abstract specification: for histories with at most five erasures and fewer than \<open>2 ^ 30\<close> insertions (the loop of \<open>rehash\<close> counts slots with an \<open>int\<close>) the table is a finite map (the locale
  of tables with a credit of erasures, interpreted on it); after six the search for a missing key can run forever. The search
  has fuel for one pass over all groups, \<open>Suc (cap div 16)\<close>; a theorem shows that this is enough whenever there is an empty byte.
  \<open>swiss_find\<close> calls itself after growth, at most three deep, which the proofs show to be enough. \<open>SwissMain\<close> is the program \<open>main.cc\<close>, which
  erases ten thousand keys and still ends, because each of them is there.

  \<^bold>\<open>Completion ports\<close>, \<open>cmake/iocp\<close>. \<open>IocpBase\<close> has what \<open>server.c\<close> and \<open>server_ex.c\<close> share, over the function that closes a connection (a locale, interpreted in
  \<open>Iocp\<close> and \<open>IocpEx\<close> for the two servers). All interleavings of the accept loop, the workers and the system are a step relation;
  every context has exactly one owner in every reachable state. In \<open>IocpEx\<close> the system uses the awaited context while \<open>AcceptEx\<close> is in progress, and releasing it
  then is an error the code can make. The step relations end with the call of \<open>WSACleanup\<close>. \<open>IocpStart\<close> has the start of both servers with its failures, and their ends: which
  objects of the system are left, and how many workers. \<open>IocpClient\<close> models \<open>client.c\<close>, which ends exactly on an error of \<open>recv\<close>; its loop
  is looked at for any number of rounds that the signed counter of rounds can count.

  \<^bold>\<open>Accounts.\<close> \<open>Account\<close> is the account of the objects of the system or of a library that a process owns, with what it prints; the groups on completion
  ports, gRPC, \<open>io_uring\<close> and PDF use it. \<open>CPrint\<close> has numbers as \<open>printf\<close> writes them.

  \<^bold>\<open>gRPC\<close>, \<open>xmake/grpc-c\<close>. \<open>GrpcBase\<close> has what both sides use of the library, \<open>GrpcClient\<close> models \<open>client.c\<close>,
  \<open>GrpcServer\<close> models \<open>server.c\<close>, \<open>GrpcHello\<close> both together. Every way through the client gives back what it owns, the server owns exactly
  one requested call and the calls it is answering, and a call is answered with the greeting the client then prints. The drain
  loops run over the events the library delivers.

  \<^bold>\<open>PDF tools\<close>, \<open>mupdf\<close>. \<open>Mupdf\<close> has the frame that \<open>print_text.c\<close> and \<open>replace_builtin.c\<close> share, with the exceptions of the library and the loop over the
  pages, \<open>PdfText\<close> and \<open>PdfFont\<close> the two programs. The first prints the text of all pages up to the first that fails, the second replaces exactly the fonts it
  recognises. MuPDF is a record of functions; the laws of its dictionaries (\<open>dict_laws\<close>, \<open>cjk_laws\<close>) are hypotheses.

  \<^bold>\<open>Threads and sessions.\<close> \<open>C11Threads\<close> models the threads and mutexes of \<open>cmake/coroutine/inc/c11_threads.h\<close>: results travel from \<open>thrd_exit\<close> to \<open>thrd_join\<close>, and
  the wrappers of the mutexes report truly who is inside, given the laws of POSIX, whose functions are a parameter. \<open>AsioNet\<close> models the sessions of \<open>cmake/asio/net/net.cc\<close>: a framed message reaches the handler registered for it, and only
  the first of a connection is read.

  \<^bold>\<open>Small programs.\<close> \<open>Uring\<close> models \<open>cmake/io_uring/main.c\<close>: every path gives back what it opened. \<open>CShape\<close> models the objects with function tables of \<open>cmake/cobj\<close>: calls through a table reach the
  functions of the object's class. Floating-point numbers there are integers over a power of two, rounded
  to 53 digits. \<open>Sexagenary\<close> models the program that names a year in the cycle of sixty.

  \<^bold>\<open>Not modelled.\<close> The register set-up and the assembler switch of the coroutine contexts, which change registers. The accept
  loop and the start of \<open>asio\<close>, \<open>pkg\<close>, \<open>mupdf/t.c\<close>, \<open>protobuf\<close> and \<open>grpc_cpp\<close>: they consist of calls of libraries whose source is not part of the
  repository, partly in C++. The programs under \<open>cxx20\<close>, \<open>gtest\<close>, \<open>import_std\<close>, \<open>makefile\<close>, \<open>autoconf\<close> and \<open>go/cgo\<close>: demonstrations of build systems with bodies of
  a few lines.
\<close>

end
